(* ===== verification/Osc_Prelude.thy ===== *)
theory Osc_Prelude
  imports Main "HOL-Library.Word"
begin

text \<open>
  Shared vocabulary of the development: machine types, the result type of kernel
  routines (a value, or the panic that stops the machine), and the word and list facts
  that every component uses.
\<close>

unbundle bit_operations_syntax

section \<open>Machine types\<close>

type_synonym u64 = "64 word"
type_synonym u32 = "32 word"
type_synonym u8 = "8 word"

section \<open>Results of kernel routines\<close>

text \<open>
  A kernel routine either returns or calls \<open>panic(msg)\<close>, which does not return. The
  message is kept, so that a theorem can say which check of the code stopped the machine.
\<close>

datatype 'a res = Panic string | Ok 'a

primrec bnd :: "'a res \<Rightarrow> ('a \<Rightarrow> 'b res) \<Rightarrow> 'b res" where
  "bnd (Panic e) f = Panic e"
| "bnd (Ok x) f = f x"

named_theorems res_simps "case analysis of sequenced kernel calls"

lemma bnd_cong [fundef_cong]:
  "m = m' \<Longrightarrow> (\<And>x. m' = Ok x \<Longrightarrow> f x = g x) \<Longrightarrow> bnd m f = bnd m' g"
  by (cases m') auto

lemma bnd_eq_Ok [res_simps]: "bnd m f = Ok y \<longleftrightarrow> (\<exists>x. m = Ok x \<and> f x = Ok y)"
  by (cases m) auto

lemma bnd_eq_Panic [res_simps]:
  "bnd m f = Panic e \<longleftrightarrow> m = Panic e \<or> (\<exists>x. m = Ok x \<and> f x = Panic e)"
  by (cases m) auto

lemma bnd_assoc [simp]: "bnd (bnd m f) g = bnd m (\<lambda>x. bnd (f x) g)"
  by (cases m) auto

lemma bnd_Ok_right [simp]: "bnd m Ok = m"
  by (cases m) auto

section \<open>Words: aligned regions\<close>

text \<open>
  A region of \<open>2 ^ n\<close> bytes that starts at an aligned address \<open>a\<close> is the set of
  addresses whose upper bits are those of \<open>a\<close>: membership becomes an equation, so two
  aligned regions of one size are equal or disjoint.
\<close>

lemma region_split: "(x :: u64) = (x AND NOT (mask n)) + (x AND mask n)"
proof -
  have "(x AND NOT (mask n)) AND (x AND mask n) = 0"
    by (rule bit_word_eqI) (auto simp: bit_simps)
  then have "(x AND NOT (mask n)) + (x AND mask n) = (x AND NOT (mask n)) OR (x AND mask n)"
    by (rule disjunctive_add_eq_or)
  also have "\<dots> = x"
    by (rule bit_word_eqI) (auto simp: bit_simps)
  finally show ?thesis by simp
qed

lemma region_iff:
  fixes a x :: u64
  assumes n: "n < 64" and a: "a AND mask n = 0"
  shows "x - a < 2 ^ n \<longleftrightarrow> x AND NOT (mask n) = a"
proof
  assume lt: "x - a < 2 ^ n"
  define d where "d = x - a"
  have d: "d AND mask n = d" using lt unfolding d_def by (rule less_mask_eq)
  have "a AND d = a AND (d AND mask n)" by (simp only: d)
  also have "\<dots> = (a AND mask n) AND d" by (simp only: ac_simps)
  finally have disj: "a AND d = 0" using a by simp
  have "x = a OR d"
    using disjunctive_add_eq_or [OF disj] by (simp add: d_def)
  moreover have "(a OR d) AND NOT (mask n) = a"
  proof (rule bit_word_eqI)
    fix k assume k: "k < LENGTH(64)"
    have "\<not> bit (a AND mask n) k" using a by simp
    moreover have "bit d k \<longrightarrow> bit (d AND mask n) k" using d by simp
    ultimately show "bit ((a OR d) AND NOT (mask n)) k = bit a k"
      using k by (auto simp: bit_simps)
  qed
  ultimately show "x AND NOT (mask n) = a" by simp
next
  assume "x AND NOT (mask n) = a"
  with region_split [of x n] have "x - a = x AND mask n" by (metis add_diff_cancel_left')
  then show "x - a < 2 ^ n" using n by (simp add: and_mask_less')
qed

text \<open>Sign extension of a 32-bit integer, as the C code does when it adds an \<open>int\<close> to a \<open>uint64\<close>.\<close>

lemma uint_scast: "uint (scast (n :: 32 word) :: u64) = sint n mod 2 ^ 64"
proof -
  have "(scast n :: u64) = word_of_int (sint n)" by simp
  then show ?thesis by (simp only: uint_word_of_int) simp
qed

lemma unat_scast:
  assumes "0 \<le> sint (n :: 32 word)"
  shows "unat (scast n :: u64) = nat (sint n)" "nat (sint n) < 2 ^ 31"
proof -
  have lt: "sint n < 2 ^ 31" using sint_lt [of n] by simp
  have "uint (scast n :: u64) = sint n" using assms lt by (simp add: uint_scast)
  then show "unat (scast n :: u64) = nat (sint n)" by (simp only: unat_eq_nat_uint)
  show "nat (sint n) < 2 ^ 31" using assms lt by (simp add: nat_less_iff)
qed

lemma find_map_list: "find P (map f xs) = map_option f (find (\<lambda>x. P (f x)) xs)"
  by (induction xs) auto

lemma unat_byte: "unat (w :: 8 word) < 256"
proof -
  have "unat w < 2 ^ LENGTH(8)" by (rule unsigned_less)
  then show ?thesis by simp
qed

lemma unat64: "unat (w :: 64 word) < 18446744073709551616"
proof -
  have "unat w < 2 ^ LENGTH(64)" by (rule unsigned_less)
  then show ?thesis by simp
qed

lemma mod_nat_sub: "m \<le> n \<Longrightarrow> n < 2 * m \<Longrightarrow> n mod m = n - (m :: nat)"
  by (simp add: le_mod_geq)

end
