(* ===== verification/Riscv.thy ===== *)
theory Riscv
  imports Osc_Prelude
begin

text \<open>
  The machine layer: the Sv39 macros at the end of \<open>Proyecto3/kernel/riscv.h\<close> and the
  layout constants of \<open>Proyecto3/kernel/memlayout.h\<close>. Addresses and page-table entries
  are 64-bit words. The lemmas say what the bit twiddling means: an entry built by
  \<open>PA2PTE\<close> gives back its page and its flags, the three indices determine the page of
  an address below \<open>MAXVA\<close>, and the rounding macros pick the enclosing page.
\<close>

section \<open>Page-table entries and virtual addresses (riscv.h)\<close>

abbreviation PGSIZE :: u64 where "PGSIZE \<equiv> 4096"

abbreviation PGSHIFT :: nat where "PGSHIFT \<equiv> 12"

definition PGROUNDUP :: "u64 \<Rightarrow> u64" where
  "PGROUNDUP sz = (sz + PGSIZE - 1) AND NOT (PGSIZE - 1)"

definition PGROUNDDOWN :: "u64 \<Rightarrow> u64" where
  "PGROUNDDOWN a = a AND NOT (PGSIZE - 1)"

definition PTE_V :: u64 where "PTE_V = push_bit 0 1"

definition PTE_R :: u64 where "PTE_R = push_bit 1 1"

definition PTE_W :: u64 where "PTE_W = push_bit 2 1"

definition PTE_X :: u64 where "PTE_X = push_bit 3 1"

definition PTE_U :: u64 where "PTE_U = push_bit 4 1"

definition PTE_A :: u64 where "PTE_A = push_bit 6 1"

lemmas pte_bits = PTE_V_def PTE_R_def PTE_W_def PTE_X_def PTE_U_def PTE_A_def

definition PA2PTE :: "u64 \<Rightarrow> u64" where
  "PA2PTE pa = push_bit 10 (drop_bit 12 pa)"

definition PTE2PA :: "u64 \<Rightarrow> u64" where
  "PTE2PA pte = push_bit 12 (drop_bit 10 pte)"

definition PTE_FLAGS :: "u64 \<Rightarrow> u64" where
  "PTE_FLAGS pte = pte AND 0x3FF"

abbreviation PXMASK :: u64 where "PXMASK \<equiv> 0x1FF"

definition PXSHIFT :: "nat \<Rightarrow> nat" where
  "PXSHIFT level = PGSHIFT + 9 * level"

definition PX :: "nat \<Rightarrow> u64 \<Rightarrow> u64" where
  "PX level va = drop_bit (PXSHIFT level) va AND PXMASK"

definition MAXVA :: u64 where "MAXVA = push_bit (9 + 9 + 9 + 12 - 1) 1"

definition SATP_SV39 :: u64 where "SATP_SV39 = push_bit 60 8"

definition MAKE_SATP :: "u64 \<Rightarrow> u64" where
  "MAKE_SATP pagetable = SATP_SV39 OR drop_bit 12 pagetable"

section \<open>Memory layout (memlayout.h)\<close>

definition UART0 :: u64 where "UART0 = 0x10000000"

definition VIRTIO0 :: u64 where "VIRTIO0 = 0x10001000"

definition PLIC :: u64 where "PLIC = 0x0c000000"

definition KERNBASE :: u64 where "KERNBASE = 0x80000000"

definition PHYSTOP :: u64 where "PHYSTOP = KERNBASE + 128 * 1024 * 1024"

definition TRAMPOLINE :: u64 where "TRAMPOLINE = MAXVA - PGSIZE"

definition KSTACK :: "u64 \<Rightarrow> u64" where
  "KSTACK p = TRAMPOLINE - (p + 1) * 2 * PGSIZE"

definition TRAPFRAME :: u64 where "TRAPFRAME = TRAMPOLINE - PGSIZE"

definition USYSCALL :: u64 where "USYSCALL = TRAPFRAME - PGSIZE"

lemma MAXVA_val: "MAXVA = 0x4000000000" by (simp add: MAXVA_def)
lemma PHYSTOP_val: "PHYSTOP = 0x88000000" by (simp add: PHYSTOP_def KERNBASE_def)
lemma TRAMPOLINE_val: "TRAMPOLINE = 0x3ffffff000" by (simp add: TRAMPOLINE_def MAXVA_val)
lemma TRAPFRAME_val: "TRAPFRAME = 0x3fffffe000" by (simp add: TRAPFRAME_def TRAMPOLINE_val)
lemma USYSCALL_val: "USYSCALL = 0x3fffffd000" by (simp add: USYSCALL_def TRAPFRAME_val)

lemmas layout_vals = MAXVA_val PHYSTOP_val TRAMPOLINE_val TRAPFRAME_val USYSCALL_val KERNBASE_def

section \<open>Bits of the masks\<close>

lemma masks:
  "(0xFFF :: u64) = mask 12" "(0x1FF :: u64) = mask 9" "(0x3FF :: u64) = mask 10"
  "(7 :: u64) = mask 3"
  by (simp_all add: mask_eq_exp_minus_1)

lemma PGROUNDDOWN_mask: "PGROUNDDOWN a = a AND NOT (mask 12)"
  by (simp add: PGROUNDDOWN_def flip: masks)

lemma PGROUNDUP_down: "PGROUNDUP a = PGROUNDDOWN (a + 4095)"
  by (simp add: PGROUNDUP_def PGROUNDDOWN_def add.commute)

lemma bit_PX: "bit (PX l va) k \<longleftrightarrow> k < 9 \<and> bit va (12 + 9 * l + k)"
  by (auto simp: PX_def PXSHIFT_def masks bit_simps dest: bit_imp_le_length)

text \<open>An address is page aligned when it is its own rounding.\<close>

definition page_aligned :: "u64 \<Rightarrow> bool" where
  "page_aligned a \<longleftrightarrow> a AND mask 12 = 0"

lemma page_aligned_mod: "a mod PGSIZE = 0 \<longleftrightarrow> page_aligned a"
proof -
  have "a mod 2 ^ 12 = take_bit 12 a" by (simp add: take_bit_eq_mod)
  then show ?thesis by (simp add: take_bit_eq_mask page_aligned_def)
qed

lemma PGROUNDDOWN_aligned [simp]: "page_aligned (PGROUNDDOWN a)"
  unfolding page_aligned_def by (rule bit_word_eqI) (auto simp: PGROUNDDOWN_mask bit_simps)

lemma PGROUNDUP_aligned [simp]: "page_aligned (PGROUNDUP a)"
  by (simp add: PGROUNDUP_down)

lemma PGROUNDDOWN_id: "page_aligned a \<longleftrightarrow> PGROUNDDOWN a = a"
  using region_split [of a 12] by (auto simp: PGROUNDDOWN_mask page_aligned_def)

lemma PGROUNDDOWN_idem [simp]: "PGROUNDDOWN (PGROUNDDOWN a) = PGROUNDDOWN a"
  by (simp flip: PGROUNDDOWN_id)

lemma page_region:
  "page_aligned p \<Longrightarrow> x - p < PGSIZE \<longleftrightarrow> PGROUNDDOWN x = p"
  using region_iff [of 12 p x] by (simp add: PGROUNDDOWN_mask page_aligned_def)

lemma PGROUNDDOWN_offset: "x - PGROUNDDOWN x < PGSIZE"
  by (simp add: page_region)

lemma PGROUNDDOWN_add: "page_aligned p \<Longrightarrow> d < PGSIZE \<Longrightarrow> PGROUNDDOWN (p + d) = p"
  by (simp flip: page_region)

lemma PGROUNDDOWN_sub: "PGROUNDDOWN a = a - a mod PGSIZE"
proof -
  have "a mod 2 ^ 12 = a AND mask 12" by (simp add: take_bit_eq_mod flip: take_bit_eq_mask)
  then show ?thesis using region_split [of a 12] by (simp add: PGROUNDDOWN_mask algebra_simps)
qed

lemma unat_PGROUNDDOWN: "unat (PGROUNDDOWN a) = unat a - unat a mod 4096"
proof -
  have "a mod PGSIZE \<le> a" by (simp add: word_le_nat_alt unat_mod_distrib)
  then show ?thesis by (simp add: PGROUNDDOWN_sub unat_sub unat_mod_distrib)
qed

lemma PGROUNDDOWN_le: "PGROUNDDOWN a \<le> a"
  by (simp add: word_le_nat_alt unat_PGROUNDDOWN)

lemma page_aligned_unat: "page_aligned a \<longleftrightarrow> 4096 dvd unat a"
  unfolding page_aligned_mod [symmetric]
  by (simp add: word_unat_eq_iff unat_mod_distrib mod_eq_0_iff_dvd)

lemma page_aligned_add: "page_aligned p \<Longrightarrow> page_aligned (p + PGSIZE)"
  by (simp add: page_aligned_unat unat_word_ariths dvd_mod_iff)

lemma PGROUNDUP_least:
  assumes "a \<le> - PGSIZE"
  shows "a \<le> PGROUNDUP a" "page_aligned b \<Longrightarrow> a \<le> b \<Longrightarrow> PGROUNDUP a \<le> b"
proof -
  have lt: "unat a \<le> 2 ^ 64 - 4096" using assms by (simp add: word_le_nat_alt)
  then have n: "unat (a + 4095) = unat a + 4095" by (simp add: unat_word_ariths)
  have u: "unat (PGROUNDUP a) = unat a + 4095 - (unat a + 4095) mod 4096"
    by (simp add: PGROUNDUP_down unat_PGROUNDDOWN n)
  have "unat a \<le> unat a + 4095 - (unat a + 4095) mod 4096"
    using mod_less_divisor [of 4096 "unat a + 4095"] by linarith
  then show "a \<le> PGROUNDUP a" by (simp only: word_le_nat_alt u)
  show "PGROUNDUP a \<le> b" if "page_aligned b" "a \<le> b"
  proof -
    obtain k where k: "unat b = 4096 * k" using \<open>page_aligned b\<close> by (auto simp: page_aligned_unat elim: dvdE)
    have "unat a \<le> 4096 * k" using that(2) k by (simp add: word_le_nat_alt)
    then have "(unat a + 4095) div 4096 \<le> k"
      using less_mult_imp_div_less [of "unat a + 4095" "Suc k" 4096] by simp
    then have "unat a + 4095 - (unat a + 4095) mod 4096 \<le> 4096 * k"
      by (simp add: minus_mod_eq_mult_div)
    then show ?thesis by (simp only: word_le_nat_alt u k)
  qed
qed

section \<open>Round trips and injectivity\<close>

lemma bit_pte_bits:
  "bit PTE_V n \<longleftrightarrow> n = 0" "bit PTE_R n \<longleftrightarrow> n = 1" "bit PTE_W n \<longleftrightarrow> n = 2"
  "bit PTE_X n \<longleftrightarrow> n = 3" "bit PTE_U n \<longleftrightarrow> n = 4" "bit PTE_A n \<longleftrightarrow> n = 6"
  unfolding pte_bits bit_push_bit_iff bit_1_iff by auto

text \<open>Testing a flag of an entry is reading one bit.\<close>

lemma test_pte_bits:
  "e AND PTE_V = 0 \<longleftrightarrow> \<not> bit e 0" "e AND PTE_R = 0 \<longleftrightarrow> \<not> bit e 1"
  "e AND PTE_W = 0 \<longleftrightarrow> \<not> bit e 2" "e AND PTE_X = 0 \<longleftrightarrow> \<not> bit e 3"
  "e AND PTE_U = 0 \<longleftrightarrow> \<not> bit e 4" "e AND PTE_A = 0 \<longleftrightarrow> \<not> bit e 6"
  by (auto simp: bit_and_iff bit_pte_bits
      dest: arg_cong [where f = "\<lambda>x. bit x _"] intro!: bit_word_eqI)

lemma PTE2PA_PA2PTE:
  assumes "page_aligned pa" "flags < 1024"
  shows "PTE2PA (PA2PTE pa OR flags) = pa"
proof (rule bit_word_eqI)
  fix n assume n: "n < LENGTH(64)"
  have f: "flags AND mask 10 = flags" using assms(2) by (intro less_mask_eq) simp
  have "\<not> bit (pa AND mask 12) n" using assms(1) by (simp add: page_aligned_def)
  moreover have "bit flags (n - 2) \<longrightarrow> bit (flags AND mask 10) (n - 2)" using f by simp
  ultimately show "bit (PTE2PA (PA2PTE pa OR flags)) n = bit pa n"
    using n by (auto simp: PTE2PA_def PA2PTE_def bit_simps)
qed

lemma PTE_FLAGS_PA2PTE:
  assumes "flags < 1024"
  shows "PTE_FLAGS (PA2PTE pa OR flags) = flags"
proof -
  have f: "flags AND mask 10 = flags" using assms by (intro less_mask_eq) simp
  have "PTE_FLAGS (PA2PTE pa OR flags) = flags AND mask 10"
    by (rule bit_word_eqI) (auto simp: PTE_FLAGS_def PA2PTE_def masks bit_simps)
  with f show ?thesis by simp
qed

lemma PTE2PA_aligned [simp]: "page_aligned (PTE2PA e)"
  unfolding page_aligned_def by (rule bit_word_eqI) (auto simp: PTE2PA_def bit_simps)

lemma PX_less: "PX l va < 512"
  unfolding PX_def masks using and_mask_less' [where 'a = 64, of 9] by simp

text \<open>
  The three 9-bit indices of a table walk reach the addresses below \<open>VATOP\<close>; \<open>MAXVA\<close> is
  half of it, so that no address has its top bit set.
\<close>

abbreviation VATOP :: u64 where "VATOP \<equiv> 0x8000000000"

lemma MAXVA_VATOP: "va < MAXVA \<Longrightarrow> va < VATOP"
  by (simp add: MAXVA_val word_less_nat_alt)

lemma below_VATOP_bit: "va < VATOP \<Longrightarrow> bit va k \<Longrightarrow> k < 39"
proof -
  assume "va < VATOP" "bit va k"
  then have "va AND mask 39 = va" by (intro less_mask_eq) simp
  then have "bit (va AND mask 39) k" using \<open>bit va k\<close> by simp
  then show "k < 39" by (simp add: bit_simps)
qed

lemma PX_inj:
  assumes "va < VATOP" "va' < VATOP" and eq: "\<And>l. l \<le> 2 \<Longrightarrow> PX l va = PX l va'"
  shows "PGROUNDDOWN va = PGROUNDDOWN va'"
proof (rule bit_word_eqI)
  fix n assume n: "n < LENGTH(64)"
  have "bit va n = bit va' n" if n12: "12 \<le> n"
  proof (cases "n < 39")
    case True
    define l where "l = (n - 12) div 9"
    define k where "k = (n - 12) mod 9"
    have k: "k < 9" "n = 12 + 9 * l + k" using n12 by (auto simp: l_def k_def)
    have "l \<le> 2" using True by (simp add: l_def)
    from eq [OF this] have "bit (PX l va) k = bit (PX l va') k" by simp
    then show ?thesis using k by (simp add: bit_PX)
  next
    case False
    then show ?thesis using assms(1,2) below_VATOP_bit by blast
  qed
  then show "bit (PGROUNDDOWN va) n = bit (PGROUNDDOWN va') n"
    using n by (auto simp: PGROUNDDOWN_mask bit_simps not_less)
qed

lemma PX_PGROUNDDOWN: "PX l (PGROUNDDOWN va) = PX l va"
  by (rule bit_word_eqI) (auto simp: bit_PX PGROUNDDOWN_mask bit_simps dest: bit_imp_le_length)

end
