(* ===== verification/Phys_Mem.thy ===== *)
theory Phys_Mem
  imports Riscv
begin

text \<open>
  Physical memory as the kernel sees it through its direct map: a byte per address, with
  the little-endian 32- and 64-bit accesses the C code makes through typed pointers, and
  the C library's \<open>memset\<close> and \<open>memmove\<close> (\<open>string.c\<close> of xv6 is not in the repository,
  so these two have their documented behaviour: every byte of the target region is
  written, and \<open>memmove\<close> copies the old contents even when the regions overlap).
\<close>

type_synonym mem = "u64 \<Rightarrow> u8"

definition load64 :: "mem \<Rightarrow> u64 \<Rightarrow> u64" where
  "load64 m a =
     ucast (m a) OR push_bit 8 (ucast (m (a + 1))) OR push_bit 16 (ucast (m (a + 2))) OR
     push_bit 24 (ucast (m (a + 3))) OR push_bit 32 (ucast (m (a + 4))) OR
     push_bit 40 (ucast (m (a + 5))) OR push_bit 48 (ucast (m (a + 6))) OR
     push_bit 56 (ucast (m (a + 7)))"

definition store64 :: "mem \<Rightarrow> u64 \<Rightarrow> u64 \<Rightarrow> mem" where
  "store64 m a v =
     (\<lambda>x. if x - a < 8 then ucast (drop_bit (8 * unat (x - a)) v) else m x)"

definition load32 :: "mem \<Rightarrow> u64 \<Rightarrow> u32" where
  "load32 m a =
     ucast (m a) OR push_bit 8 (ucast (m (a + 1))) OR push_bit 16 (ucast (m (a + 2))) OR
     push_bit 24 (ucast (m (a + 3)))"

definition store32 :: "mem \<Rightarrow> u64 \<Rightarrow> u32 \<Rightarrow> mem" where
  "store32 m a v =
     (\<lambda>x. if x - a < 4 then ucast (drop_bit (8 * unat (x - a)) v) else m x)"

definition memset :: "mem \<Rightarrow> u64 \<Rightarrow> u8 \<Rightarrow> u64 \<Rightarrow> mem" where
  "memset m dst c n = (\<lambda>x. if x - dst < n then c else m x)"

definition memmove :: "mem \<Rightarrow> u64 \<Rightarrow> u64 \<Rightarrow> u64 \<Rightarrow> mem" where
  "memmove m dst src n = (\<lambda>x. if x - dst < n then m (src + (x - dst)) else m x)"

text \<open>Copying between memory and a buffer of the kernel's C code (a list of bytes).\<close>

definition write_bytes :: "mem \<Rightarrow> u64 \<Rightarrow> u8 list \<Rightarrow> mem" where
  "write_bytes m dst bs =
     (\<lambda>x. if unat (x - dst) < length bs then bs ! unat (x - dst) else m x)"

definition read_bytes :: "mem \<Rightarrow> u64 \<Rightarrow> nat \<Rightarrow> u8 list" where
  "read_bytes m src n = map (\<lambda>i. m (src + of_nat i)) [0..<n]"

section \<open>Typed accesses\<close>

text \<open>Bit \<open>8 * q + r\<close> of a loaded word is bit \<open>r\<close> of the byte at offset \<open>q\<close>.\<close>

lemma u8_high_bit: "8 \<le> n \<Longrightarrow> \<not> bit (b :: u8) n"
  by (auto dest: bit_imp_le_length)

lemma bit_load64:
  assumes "q < 8" "r < 8"
  shows "bit (load64 m a) (8 * q + r) \<longleftrightarrow> bit (m (a + of_nat q)) r"
proof -
  have "q \<in> {0, 1, 2, 3, 4, 5, 6, 7}" using assms(1) by auto
  then show ?thesis
    using assms(2) by (elim insertE emptyE; simp add: load64_def bit_simps u8_high_bit)
qed

lemma load64_store64: "load64 (store64 m a v) a = v"
proof (rule bit_word_eqI)
  fix n assume n: "n < LENGTH(64)"
  define q r where "q = n div 8" and "r = n mod 8"
  have qr: "n = 8 * q + r" "q < 8" "r < 8" using n by (auto simp: q_def r_def)
  have u: "unat (of_nat q :: u64) = q" using qr(2) by (simp add: unat_of_nat)
  then have "(of_nat q :: u64) < 8" using qr(2) by (simp add: word_less_nat_alt)
  then show "bit (load64 (store64 m a v) a) n = bit v n"
    using qr u n by (simp add: bit_load64 store64_def bit_simps)
qed

lemma bit_load32:
  assumes "q < 4" "r < 8"
  shows "bit (load32 m a) (8 * q + r) \<longleftrightarrow> bit (m (a + of_nat q)) r"
proof -
  have "q \<in> {0, 1, 2, 3}" using assms(1) by auto
  then show ?thesis
    using assms(2) by (elim insertE emptyE; simp add: load32_def bit_simps u8_high_bit)
qed

lemma load32_store32: "load32 (store32 m a v) a = v"
proof (rule bit_word_eqI)
  fix n assume n: "n < LENGTH(32)"
  define q r where "q = n div 8" and "r = n mod 8"
  have qr: "n = 8 * q + r" "q < 4" "r < 8" using n by (auto simp: q_def r_def)
  have u: "unat (of_nat q :: u64) = q" using qr(2) by (simp add: unat_of_nat)
  then have "(of_nat q :: u64) < 4" using qr(2) by (simp add: word_less_nat_alt)
  then show "bit (load32 (store32 m a v) a) n = bit v n"
    using qr u n by (simp add: bit_load32 store32_def bit_simps)
qed

lemma load64_cong: "(\<And>i. i < 8 \<Longrightarrow> m (a + i) = m' (a + i)) \<Longrightarrow> load64 m a = load64 m' a"
proof -
  assume eq: "\<And>i. i < 8 \<Longrightarrow> m (a + i) = m' (a + i)"
  have "m a = m' a" using eq [of 0] by simp
  moreover have "m (a + 1) = m' (a + 1)" "m (a + 2) = m' (a + 2)" "m (a + 3) = m' (a + 3)"
    "m (a + 4) = m' (a + 4)" "m (a + 5) = m' (a + 5)" "m (a + 6) = m' (a + 6)"
    "m (a + 7) = m' (a + 7)"
    by (simp_all add: eq)
  ultimately show ?thesis by (simp add: load64_def)
qed

lemma load64_apart:
  assumes "8 \<le> unat (a - b)" "unat (a - b) + 8 \<le> 2 ^ 64 - 8"
  shows "load64 (store64 m b v) a = load64 m a"
proof (rule load64_cong)
  fix i :: u64 assume i: "i < 8"
  have "unat (a - b + i) = unat (a - b) + unat i"
    by (rule unat_add_lem [THEN iffD1]) (use assms(2) i in \<open>simp add: word_less_nat_alt\<close>)
  then have far: "\<not> a - b + i < 8" using assms(1) by (simp add: word_less_nat_alt)
  have e: "a + i - b = a - b + i" by simp
  show "store64 m b v (a + i) = m (a + i)" unfolding store64_def e by (simp only: far if_False)
qed

lemma load64_zero: "(\<And>i. i < 8 \<Longrightarrow> m (a + i) = 0) \<Longrightarrow> load64 m a = 0"
proof -
  assume "\<And>i. i < 8 \<Longrightarrow> m (a + i) = 0"
  then have "load64 m a = load64 (\<lambda>_. 0) a" by (intro load64_cong) simp
  then show ?thesis by (simp add: load64_def)
qed

lemma load32_cong: "(\<And>i. i < 4 \<Longrightarrow> m (a + i) = m' (a + i)) \<Longrightarrow> load32 m a = load32 m' a"
proof -
  assume eq: "\<And>i. i < 4 \<Longrightarrow> m (a + i) = m' (a + i)"
  have "m a = m' a" using eq [of 0] by simp
  moreover have "m (a + 1) = m' (a + 1)" "m (a + 2) = m' (a + 2)" "m (a + 3) = m' (a + 3)"
    by (simp_all add: eq)
  ultimately show ?thesis by (simp add: load32_def)
qed

section \<open>Pages\<close>

text \<open>Two memories agree on the page \<open>p\<close>.\<close>

definition same_page :: "mem \<Rightarrow> mem \<Rightarrow> u64 \<Rightarrow> bool" where
  "same_page m m' p \<longleftrightarrow> (\<forall>x. PGROUNDDOWN x = p \<longrightarrow> m' x = m x)"

lemma same_page_refl [simp]: "same_page m m p"
  by (simp add: same_page_def)

lemma same_page_trans [trans]: "same_page m m' p \<Longrightarrow> same_page m' m'' p \<Longrightarrow> same_page m m'' p"
  by (simp add: same_page_def)

lemma same_page_sym: "same_page m m' p \<Longrightarrow> same_page m' m p"
  by (simp add: same_page_def)

text \<open>The \<open>i\<close>-th entry of the page-table page \<open>t\<close>, as \<open>&pagetable[i]\<close> computes it.\<close>

definition slot :: "u64 \<Rightarrow> u64 \<Rightarrow> u64" where
  "slot t i = t + 8 * i"

lemma slot_off: "i < 512 \<Longrightarrow> j < 8 \<Longrightarrow> 8 * i + j < (PGSIZE :: u64)"
proof -
  assume "i < 512" "j < 8"
  then have "unat i < 512" "unat j < 8" by (simp_all add: word_less_nat_alt)
  then show ?thesis by (simp add: word_less_nat_alt unat_word_ariths)
qed

lemma slot_page:
  assumes "page_aligned t" "i < 512" "j < 8"
  shows "PGROUNDDOWN (slot t i + j) = t"
  unfolding slot_def add.assoc using assms by (intro PGROUNDDOWN_add slot_off)

lemma slot_page0 [simp]: "page_aligned t \<Longrightarrow> i < 512 \<Longrightarrow> PGROUNDDOWN (slot t i) = t"
  using slot_page [of t i 0] by simp

lemma slot_disjoint:
  assumes "i < 512" "i' < 512" "j < 8" "slot t i' + j - slot t i < 8"
  shows "i = i'"
proof -
  let ?d = "slot t i' + j - slot t i"
  have "8 * i' + j = 8 * i + ?d" by (simp add: slot_def)
  moreover have "unat (8 * i' + j) = 8 * unat i' + unat j"
    using assms by (simp add: unat_word_ariths word_less_nat_alt)
  moreover have "unat (8 * i + ?d) = 8 * unat i + unat ?d"
    using assms by (simp only: unat_word_ariths word_less_nat_alt) simp
  ultimately have "8 * unat i' + unat j = 8 * unat i + unat ?d" by metis
  moreover have "unat j < 8" "unat ?d < 8" using assms by (simp_all add: word_less_nat_alt)
  ultimately have "unat i = unat i'" by linarith
  then show ?thesis by (simp add: word_unat_eq_iff)
qed

lemma load64_slot_store64:
  assumes "i < 512" "i' < 512"
  shows "load64 (store64 m (slot t i) v) (slot t i') =
         (if i = i' then v else load64 m (slot t i'))"
proof (cases "i = i'")
  case True
  then show ?thesis by (simp add: load64_store64)
next
  case False
  then have "load64 (store64 m (slot t i) v) (slot t i') = load64 m (slot t i')"
    using slot_disjoint [OF assms] by (intro load64_cong) (auto simp: store64_def)
  with False show ?thesis by simp
qed

lemma load64_slot_same_page:
  "same_page m m' t \<Longrightarrow> page_aligned t \<Longrightarrow> i < 512 \<Longrightarrow> load64 m' (slot t i) = load64 m (slot t i)"
  by (intro load64_cong) (simp add: same_page_def slot_page)

lemma same_page_store64_slot:
  assumes "page_aligned t" "i < 512" "p \<noteq> t"
  shows "same_page m (store64 m (slot t i) v) p"
proof -
  have "PGROUNDDOWN x = t" if "x - slot t i < 8" for x
    using slot_page [OF assms(1,2) that] by simp
  then show ?thesis using assms(3) by (auto simp: same_page_def store64_def)
qed

lemma same_page_memset:
  "page_aligned q \<Longrightarrow> p \<noteq> q \<Longrightarrow> same_page m (memset m q c PGSIZE) p"
  by (auto simp: same_page_def memset_def page_region)

lemma same_page_memmove:
  "page_aligned q \<Longrightarrow> p \<noteq> q \<Longrightarrow> same_page m (memmove m q src PGSIZE) p"
  by (auto simp: same_page_def memmove_def page_region)

lemma load64_slot_memset0:
  "page_aligned t \<Longrightarrow> i < 512 \<Longrightarrow> load64 (memset m t 0 PGSIZE) (slot t i) = 0"
  by (intro load64_zero) (simp add: memset_def page_region slot_page)

end
