(* ===== verification/Kalloc.thy ===== *)
theory Kalloc
  imports Phys_Mem
begin

text \<open>
  The physical page allocator, \<open>Proyecto2/kernel/kalloc.c\<close>: the free list is threaded
  through the free pages themselves (\<open>r->next\<close> is the first word of the page), so it is
  modelled in the same byte memory that holds page tables and user data. \<open>kmem.lock\<close> is
  held from the first to the last access of the list in each routine, so one call is one
  atomic step of the model. \<open>end\<close>, the first address after the kernel image, comes from
  the linker script and is a field of the state that nothing changes.

  The interface the rest of the kernel relies on is the locale \<open>page_alloc\<close>; the
  interpretation \<open>ka\<close> at the end proves its laws for the code's \<open>kalloc\<close> and \<open>kfree\<close>.
\<close>

section \<open>State and operations\<close>

record phys =
  pmem :: mem
  freelist :: u64
  kend :: u64

definition kfree :: "u64 \<Rightarrow> phys \<Rightarrow> phys res" where
  "kfree pa s =
     (if pa mod PGSIZE \<noteq> 0 \<or> pa < kend s \<or> pa \<ge> PHYSTOP then Panic ''kfree''
      else let m = memset (pmem s) pa 1 PGSIZE;
               m = store64 m pa (freelist s)
           in Ok (s\<lparr>pmem := m, freelist := pa\<rparr>))"

definition kalloc :: "phys \<Rightarrow> u64 \<times> phys" where
  "kalloc s =
     (let r = freelist s;
          s = (if r \<noteq> 0 then s\<lparr>freelist := load64 (pmem s) r\<rparr> else s);
          s = (if r \<noteq> 0 then s\<lparr>pmem := memset (pmem s) r 5 PGSIZE\<rparr> else s)
      in (r, s))"

lemma kfree_below: "kfree pa s = Ok s' \<Longrightarrow> pa < PHYSTOP"
  by (auto simp: kfree_def split: if_splits)

function freerange_loop :: "u64 \<Rightarrow> u64 \<Rightarrow> phys \<Rightarrow> phys res" where
  "freerange_loop p pa_end s =
     (if p + PGSIZE \<le> pa_end
      then bnd (kfree p s) (\<lambda>s. freerange_loop (p + PGSIZE) pa_end s)
      else Ok s)"
  by pat_completeness auto
termination
proof (relation "measure (\<lambda>(p, e, s). 2 ^ 32 - unat p)", goal_cases)
  case 1
  show ?case by simp
next
  case (2 p pa_end s s')
  then have "p < PHYSTOP" by (simp add: kfree_below)
  then have "unat p < 0x88000000" by (simp add: PHYSTOP_val word_less_nat_alt)
  then show ?case by (simp add: unat_word_ariths)
qed

declare freerange_loop.simps [simp del]

definition freerange :: "u64 \<Rightarrow> u64 \<Rightarrow> phys \<Rightarrow> phys res" where
  "freerange pa_start pa_end s = freerange_loop (PGROUNDUP pa_start) pa_end s"

definition kinit :: "phys \<Rightarrow> phys res" where
  "kinit s = freerange (kend s) PHYSTOP s"

text \<open>
  \<open>get_free_memory\<close> walks the list; on a cyclic list the C loop would not end, so the
  loop has no value there.
\<close>

partial_function (option) count_free :: "mem \<Rightarrow> u64 \<Rightarrow> u64 \<Rightarrow> u64 option" where
  "count_free m r freemem =
     (if r \<noteq> 0 then count_free m (load64 m r) (freemem + PGSIZE) else Some freemem)"

definition get_free_memory :: "phys \<Rightarrow> u64 option" where
  "get_free_memory s = count_free (pmem s) (freelist s) 0"

section \<open>The free list as a list of pages\<close>

primrec fl_path :: "mem \<Rightarrow> u64 \<Rightarrow> u64 list \<Rightarrow> bool" where
  "fl_path m p [] \<longleftrightarrow> p = 0"
| "fl_path m p (a # fl) \<longleftrightarrow> p = a \<and> a \<noteq> 0 \<and> fl_path m (load64 m a) fl"

text \<open>The pages \<open>kfree\<close> accepts.\<close>

definition usable :: "phys \<Rightarrow> u64 \<Rightarrow> bool" where
  "usable s a \<longleftrightarrow> page_aligned a \<and> kend s \<le> a \<and> a < PHYSTOP \<and> a \<noteq> 0"

definition free_pages :: "phys \<Rightarrow> u64 list \<Rightarrow> bool" where
  "free_pages s fl \<longleftrightarrow>
     fl_path (pmem s) (freelist s) fl \<and> distinct fl \<and> (\<forall>a \<in> set fl. usable s a)"

lemma usable_upd [simp]:
  "usable (s\<lparr>pmem := m\<rparr>) = usable s" "usable (s\<lparr>freelist := f\<rparr>) = usable s"
  by (simp_all add: usable_def fun_eq_iff)

lemma usable_aligned: "usable s a \<Longrightarrow> page_aligned a"
  by (simp add: usable_def)

lemma load64_page_start:
  "same_page m m' a \<Longrightarrow> page_aligned a \<Longrightarrow> load64 m' a = load64 m a"
  using load64_slot_same_page [of m m' a 0] by (simp add: slot_def)

lemma fl_path_cong:
  "fl_path m p fl \<Longrightarrow> (\<And>a. a \<in> set fl \<Longrightarrow> page_aligned a) \<Longrightarrow>
   (\<And>a. a \<in> set fl \<Longrightarrow> same_page m m' a) \<Longrightarrow> fl_path m' p fl"
proof (induction fl arbitrary: p)
  case (Cons a fl)
  have "load64 m' a = load64 m a" using Cons.prems by (intro load64_page_start) auto
  moreover have "fl_path m' (load64 m a) fl" using Cons.prems by (intro Cons.IH) auto
  ultimately show ?case using Cons.prems by simp
qed simp

lemma fl_path_unique: "fl_path m p fl \<Longrightarrow> fl_path m p fl' \<Longrightarrow> fl = fl'"
proof (induction fl arbitrary: p fl')
  case Nil
  then show ?case by (cases fl') auto
next
  case (Cons a fl)
  then show ?case by (cases fl') auto
qed

lemma free_pages_unique: "free_pages s fl \<Longrightarrow> free_pages s fl' \<Longrightarrow> fl = fl'"
  by (auto simp: free_pages_def intro: fl_path_unique)

lemma free_pages_frame:
  assumes "free_pages s fl" "\<And>a. a \<in> set fl \<Longrightarrow> same_page (pmem s) m a"
  shows "free_pages (s\<lparr>pmem := m\<rparr>) fl"
proof -
  have "fl_path m (freelist s) fl"
    using assms by - (rule fl_path_cong [of "pmem s"], auto simp: free_pages_def dest: usable_aligned)
  then show ?thesis using assms(1) by (simp add: free_pages_def)
qed

lemma same_page_memset_store:
  assumes "page_aligned a" "p \<noteq> a"
  shows "same_page m (store64 (memset m a c PGSIZE) a v) p"
proof -
  have "same_page m (memset m a c PGSIZE) p" using assms by (intro same_page_memset) auto
  moreover have "same_page (memset m a c PGSIZE) (store64 (memset m a c PGSIZE) (slot a 0) v) p"
    using assms by (intro same_page_store64_slot) auto
  ultimately show ?thesis by (simp add: slot_def same_page_def)
qed

lemma kfree_spec:
  assumes fp: "free_pages s fl" and u: "usable s a" and new: "a \<notin> set fl"
  shows "\<exists>m. kfree a s = Ok (s\<lparr>pmem := m, freelist := a\<rparr>) \<and>
             free_pages (s\<lparr>pmem := m, freelist := a\<rparr>) (a # fl) \<and>
             (\<forall>p. p \<noteq> a \<longrightarrow> same_page (pmem s) m p)"
proof -
  define m where "m = store64 (memset (pmem s) a 1 PGSIZE) a (freelist s)"
  have al: "page_aligned a" using u by (rule usable_aligned)
  have fr: "\<forall>p. p \<noteq> a \<longrightarrow> same_page (pmem s) m p"
    using al by (simp add: m_def same_page_memset_store)
  have "kfree a s = Ok (s\<lparr>pmem := m, freelist := a\<rparr>)"
    using u by (auto simp: kfree_def m_def Let_def usable_def page_aligned_mod)
  moreover have "free_pages (s\<lparr>pmem := m, freelist := a\<rparr>) (a # fl)"
  proof -
    have "fl_path m (freelist s) fl"
      using fp fr new
      by - (rule fl_path_cong [of "pmem s"], auto simp: free_pages_def dest: usable_aligned)
    moreover have "load64 m a = freelist s" by (simp add: m_def load64_store64)
    ultimately show ?thesis
      using fp u new by (simp add: free_pages_def usable_def)
  qed
  ultimately show ?thesis using fr by blast
qed

lemma kalloc_empty: "free_pages s [] \<Longrightarrow> kalloc s = (0, s)"
  by (simp add: free_pages_def kalloc_def)

lemma kalloc_cons:
  assumes "free_pages s (a # fl)"
  shows "\<exists>m f. kalloc s = (a, s\<lparr>pmem := m, freelist := f\<rparr>) \<and>
               free_pages (s\<lparr>pmem := m, freelist := f\<rparr>) fl \<and>
               (\<forall>p. p \<noteq> a \<longrightarrow> same_page (pmem s) m p)"
proof -
  define m where "m = memset (pmem s) a 5 PGSIZE"
  have p: "fl_path (pmem s) (load64 (pmem s) a) fl" "freelist s = a" "a \<noteq> 0" "distinct (a # fl)"
    and u: "\<And>b. b \<in> set (a # fl) \<Longrightarrow> usable s b"
    using assms by (auto simp: free_pages_def)
  have fr: "\<forall>p. p \<noteq> a \<longrightarrow> same_page (pmem s) m p"
    using usable_aligned [OF u [of a]] by (simp add: m_def same_page_memset)
  have "kalloc s = (a, s\<lparr>pmem := m, freelist := load64 (pmem s) a\<rparr>)"
    using p by (simp add: kalloc_def m_def Let_def)
  moreover have "free_pages (s\<lparr>pmem := m, freelist := load64 (pmem s) a\<rparr>) fl"
  proof -
    have "\<And>b. b \<in> set fl \<Longrightarrow> same_page (pmem s) m b" using fr p(4) by auto
    then have "fl_path m (load64 (pmem s) a) fl"
      using p u by - (rule fl_path_cong [of "pmem s"], auto dest: usable_aligned)
    then show ?thesis using p u by (simp add: free_pages_def)
  qed
  ultimately show ?thesis using fr by blast
qed

section \<open>The allocator's interface\<close>

text \<open>
  What the clients of the allocator use of it. \<open>pool s fl\<close>: the free pages of \<open>s\<close>, in
  the order in which they will be handed out. Allocation takes the first page and touches
  no byte outside it; releasing a page that is not free puts it in front. Clients change
  memory through \<open>poke\<close>, which must leave the free pages alone.
\<close>

locale page_alloc =
  fixes alloc :: "'s \<Rightarrow> u64 \<times> 's"
    and release :: "u64 \<Rightarrow> 's \<Rightarrow> 's res"
    and pool :: "'s \<Rightarrow> u64 list \<Rightarrow> bool"
    and bytes :: "'s \<Rightarrow> mem"
    and poke :: "mem \<Rightarrow> 's \<Rightarrow> 's"
    and ok :: "'s \<Rightarrow> u64 \<Rightarrow> bool"
  assumes pool_distinct: "pool s fl \<Longrightarrow> distinct fl"
    and pool_ok: "pool s fl \<Longrightarrow> a \<in> set fl \<Longrightarrow> ok s a"
    and pool_unique: "pool s fl \<Longrightarrow> pool s fl' \<Longrightarrow> fl = fl'"
    and ok_nonnull: "ok s a \<Longrightarrow> a \<noteq> 0"
    and ok_aligned: "ok s a \<Longrightarrow> page_aligned a"
    and bytes_poke: "bytes (poke m s) = m"
    and ok_poke: "ok (poke m s) = ok s"
    and alloc_nil: "pool s [] \<Longrightarrow> alloc s = (0, s)"
    and alloc_cons: "pool s (a # fl) \<Longrightarrow>
      \<exists>s'. alloc s = (a, s') \<and> pool s' fl \<and> ok s' = ok s \<and>
           (\<forall>p. p \<noteq> a \<longrightarrow> same_page (bytes s) (bytes s') p)"
    and release_new: "pool s fl \<Longrightarrow> ok s a \<Longrightarrow> a \<notin> set fl \<Longrightarrow>
      \<exists>s'. release a s = Ok s' \<and> pool s' (a # fl) \<and> ok s' = ok s \<and>
           (\<forall>p. p \<noteq> a \<longrightarrow> same_page (bytes s) (bytes s') p)"
    and pool_poke: "pool s fl \<Longrightarrow> (\<And>a. a \<in> set fl \<Longrightarrow> same_page (bytes s) m a) \<Longrightarrow>
      pool (poke m s) fl"
begin

lemma alloc_cases:
  assumes "pool s fl" "alloc s = (a, s')"
  obtains (out_of_memory) "a = 0" "fl = []" "s' = s"
  | (page) rest where "fl = a # rest" "a \<noteq> 0" "a \<notin> set rest" "ok s a" "pool s' rest"
      "ok s' = ok s" "\<And>p. p \<noteq> a \<Longrightarrow> same_page (bytes s) (bytes s') p"
proof (cases fl)
  case Nil
  then show ?thesis using assms alloc_nil out_of_memory by auto
next
  case (Cons b rest)
  with assms alloc_cons [of s b rest] have "a = b" and c: "pool s' rest" "ok s' = ok s"
    "\<And>p. p \<noteq> b \<Longrightarrow> same_page (bytes s) (bytes s') p"
    by auto
  with Cons show ?thesis
    using assms(1) pool_distinct [of s fl] pool_ok [of s fl b] ok_nonnull by (intro page) auto
qed

lemma release_alloc:
  assumes "pool s fl" "ok s a" "a \<notin> set fl" "release a s = Ok s'"
  shows "\<exists>s''. alloc s' = (a, s'') \<and> pool s'' fl"
proof -
  from release_new [OF assms(1-3)] assms(4) have "pool s' (a # fl)" by auto
  from alloc_cons [OF this] show ?thesis by blast
qed

lemma alloc_twice:
  assumes "pool s fl" "alloc s = (a, s1)" "alloc s1 = (b, s2)" "b \<noteq> 0"
  shows "a \<noteq> b" "a \<noteq> 0"
proof -
  from assms(1,2) show "a \<noteq> b"
  proof (cases rule: alloc_cases)
    case out_of_memory
    with assms alloc_nil show ?thesis by auto
  next
    case (page rest)
    from page(5) assms(3) show ?thesis
      by (cases rule: alloc_cases) (use page assms(4) in auto)
  qed
  from assms(1,2) show "a \<noteq> 0"
    by (cases rule: alloc_cases) (use assms alloc_nil in auto)
qed

end

interpretation ka: page_alloc kalloc kfree free_pages pmem "\<lambda>m s. s\<lparr>pmem := m\<rparr>" usable
proof (unfold_locales, goal_cases)
  case 1 then show ?case by (simp add: free_pages_def)
next
  case 2 then show ?case by (simp add: free_pages_def)
next
  case 3 then show ?case by (rule free_pages_unique)
next
  case 4 then show ?case by (simp add: usable_def)
next
  case 5 then show ?case by (rule usable_aligned)
next
  case 6 show ?case by simp
next
  case 7 show ?case by simp
next
  case 8 then show ?case by (rule kalloc_empty)
next
  case (9 s a fl)
  from kalloc_cons [OF this] show ?case by fastforce
next
  case (10 s fl a)
  from kfree_spec [OF this] show ?case by fastforce
next
  case 11 then show ?case by (rule free_pages_frame)
qed

section \<open>Boot: every page becomes free exactly once\<close>

lemma aligned_next:
  assumes "page_aligned p" "page_aligned a" "p < PHYSTOP"
  shows "p \<le> a \<longleftrightarrow> a = p \<or> p + PGSIZE \<le> a"
proof -
  have "unat (p + PGSIZE) = unat p + 4096"
    using assms(3) by (simp add: unat_word_ariths PHYSTOP_val word_less_nat_alt)
  moreover obtain x y where "unat p = 4096 * x" "unat a = 4096 * y"
    using assms(1,2) unfolding page_aligned_unat by (elim dvdE)
  ultimately show ?thesis
    by (auto simp: word_le_nat_alt word_unat_eq_iff)
qed

lemma freerange_pages:
  assumes "free_pages s fl" "page_aligned p" "kend s \<le> p" "p \<le> PHYSTOP" "p \<noteq> 0"
    and "\<And>a. a \<in> set fl \<Longrightarrow> a < p"
  shows "\<exists>s' fl'. freerange_loop p PHYSTOP s = Ok s' \<and> free_pages s' fl' \<and> kend s' = kend s \<and>
           set fl' = set fl \<union> {a. page_aligned a \<and> p \<le> a \<and> a < PHYSTOP}"
  using assms
proof (induction p "PHYSTOP" s arbitrary: fl rule: freerange_loop.induct)
  case (1 p s)
  have pn: "unat (p + PGSIZE) = unat p + 4096"
    using "1.prems"(4) by (simp add: unat_word_ariths PHYSTOP_val word_le_nat_alt)
  show ?case
  proof (cases "p < PHYSTOP")
    case False
    then have "p = PHYSTOP" using "1.prems"(4) by simp
    then have "\<not> p + PGSIZE \<le> PHYSTOP" by (simp add: PHYSTOP_val)
    then have "freerange_loop p PHYSTOP s = Ok s" by (simp add: freerange_loop.simps)
    then show ?thesis using "1.prems"(1) \<open>p = PHYSTOP\<close> by (auto simp: not_less)
  next
    case True
    have al: "page_aligned PHYSTOP" by (simp add: page_aligned_unat PHYSTOP_val)
    have le: "p + PGSIZE \<le> PHYSTOP"
      using aligned_next [OF "1.prems"(2) al True] True by auto
    have u: "usable s p" using "1.prems" True by (simp add: usable_def)
    have "p \<notin> set fl" using "1.prems"(6) by blast
    from kfree_spec [OF "1.prems"(1) u this] obtain s1 where
      kf: "kfree p s = Ok s1" and fp: "free_pages s1 (p # fl)" and ke: "kend s1 = kend s"
      by fastforce
    have lt: "p < p + PGSIZE" using pn by (simp add: word_less_nat_alt)
    have "\<exists>s' fl'. freerange_loop (p + PGSIZE) PHYSTOP s1 = Ok s' \<and> free_pages s' fl' \<and>
        kend s' = kend s1 \<and>
        set fl' = set (p # fl) \<union> {a. page_aligned a \<and> p + PGSIZE \<le> a \<and> a < PHYSTOP}"
    proof (rule "1.hyps" [OF le kf fp])
      show "page_aligned (p + PGSIZE)" using "1.prems"(2) by (rule page_aligned_add)
      show "kend s1 \<le> p + PGSIZE" using "1.prems"(3) lt ke by simp
      show "p + PGSIZE \<le> PHYSTOP" by (rule le)
      show "p + PGSIZE \<noteq> 0" using lt by auto
      show "a < p + PGSIZE" if "a \<in> set (p # fl)" for a
        using that "1.prems"(6) lt by (auto intro: less_trans)
    qed
    moreover have "set (p # fl) \<union> {a. page_aligned a \<and> p + PGSIZE \<le> a \<and> a < PHYSTOP} =
        set fl \<union> {a. page_aligned a \<and> p \<le> a \<and> a < PHYSTOP}"
      using aligned_next [OF "1.prems"(2) _ True] True "1.prems"(2) by auto
    ultimately show ?thesis
      using kf ke le by (simp add: freerange_loop.simps [of p])
  qed
qed

lemma fl_path_count:
  "fl_path m r fl \<Longrightarrow> count_free m r n = Some (n + of_nat (length fl) * PGSIZE)"
proof (induction fl arbitrary: r n)
  case Nil
  then show ?case by (simp add: count_free.simps)
next
  case (Cons a fl)
  then have "count_free m r n = count_free m (load64 m a) (n + PGSIZE)"
    by (subst count_free.simps) simp
  also have "\<dots> = Some (n + PGSIZE + of_nat (length fl) * PGSIZE)"
    using Cons.prems by (intro Cons.IH) simp
  finally show ?case by (simp add: algebra_simps)
qed

lemma free_pages_length: "free_pages s fl \<Longrightarrow> length fl \<le> 0x88000"
proof -
  assume fp: "free_pages s fl"
  have dvd: "4096 dvd unat a" and lt: "unat a < 0x88000000" if "a \<in> set fl" for a
    using fp that
    by (auto simp: free_pages_def usable_def page_aligned_unat PHYSTOP_val word_less_nat_alt)
  have "inj_on (\<lambda>a. unat a div 4096) (set fl)"
    by (rule inj_onI) (metis dvd dvd_div_mult_self word_unat_eq_iff)
  moreover have "(\<lambda>a. unat a div 4096) ` set fl \<subseteq> {..<0x88000}"
    using lt by fastforce
  ultimately have "card (set fl) \<le> card {..<0x88000 :: nat}"
    by (intro card_inj_on_le) auto
  then show ?thesis using fp by (simp add: free_pages_def distinct_card)
qed

section \<open>Properties\<close>

text \<open>The allocator just after boot: \<open>kmem\<close> is in the BSS, so its list starts empty.\<close>

definition boot_phys :: "u64 \<Rightarrow> phys" where
  "boot_phys e = \<lparr>pmem = (\<lambda>_. 0), freelist = 0, kend = e\<rparr>"

lemma free_pages_empty: "freelist s = 0 \<Longrightarrow> free_pages s []"
  by (simp add: free_pages_def)

lemma kinit_spec:
  assumes "freelist s = 0" "kend s \<noteq> 0" "kend s \<le> PHYSTOP"
  shows "\<exists>s' fl. kinit s = Ok s' \<and> free_pages s' fl \<and> kend s' = kend s \<and>
           set fl = {a. page_aligned a \<and> kend s \<le> a \<and> a < PHYSTOP}"
proof -
  have hi: "kend s \<le> - PGSIZE" using assms(3) by (simp add: PHYSTOP_val word_le_nat_alt)
  have "page_aligned PHYSTOP" by (simp add: page_aligned_unat PHYSTOP_val)
  then have top: "PGROUNDUP (kend s) \<le> PHYSTOP" using hi assms(3) by (intro PGROUNDUP_least)
  have low: "kend s \<le> PGROUNDUP (kend s)" using hi by (rule PGROUNDUP_least)
  have "PGROUNDUP (kend s) \<noteq> 0" using low assms(2) by auto
  from freerange_pages [OF free_pages_empty [OF assms(1)] _ low top this]
  obtain s' fl' where "freerange_loop (PGROUNDUP (kend s)) PHYSTOP s = Ok s'"
    and s': "free_pages s' fl'" "kend s' = kend s"
    and fl': "set fl' = {a. page_aligned a \<and> PGROUNDUP (kend s) \<le> a \<and> a < PHYSTOP}"
    by auto
  then have "kinit s = Ok s'" by (simp add: kinit_def freerange_def)
  moreover have "set fl' = {a. page_aligned a \<and> kend s \<le> a \<and> a < PHYSTOP}"
    unfolding fl' using PGROUNDUP_least(2) [OF hi] low by (auto intro: order_trans)
  ultimately show ?thesis using s' by blast
qed

text \<open>
  C30. Booting the allocator with an empty list never panics, whatever memory holds, and
  leaves exactly the page-aligned addresses between the end of the kernel image and
  \<open>PHYSTOP\<close> on the free list, each of them once.
\<close>

theorem kinit_frees_every_page:
  assumes "freelist s = 0" "kend s \<noteq> 0" "kend s \<le> PHYSTOP"
  shows "\<exists>s' fl. kinit s = Ok s' \<and> free_pages s' fl \<and> kend s' = kend s \<and>
           set fl = {a. page_aligned a \<and> kend s \<le> a \<and> a < PHYSTOP}"
  using assms by (rule kinit_spec)

theorem kinit_frees_every_page_witness:
  "\<exists>s' fl. kinit (boot_phys 0x87ffe800) = Ok s' \<and> free_pages s' fl \<and> kend s' = 0x87ffe800 \<and>
     set fl = {a. page_aligned a \<and> 0x87ffe800 \<le> a \<and> a < PHYSTOP}"
  using kinit_frees_every_page [of "boot_phys 0x87ffe800"]
  by (simp add: boot_phys_def PHYSTOP_val)

text \<open>
  \<open>kalloc\<close> and \<open>kfree\<close> implement a stack of pages: an allocation pops the front page
  and returns it filled with the junk byte 5, or returns 0 and changes nothing when the
  list is empty; no byte outside the returned page changes.
\<close>

theorem kalloc_pops:
  assumes "free_pages s fl" "kalloc s = (r, s')"
  shows "(fl = [] \<longrightarrow> r = 0 \<and> s' = s) \<and>
         (\<forall>a rest. fl = a # rest \<longrightarrow>
            r = a \<and> r \<noteq> 0 \<and> page_aligned r \<and> free_pages s' rest \<and>
            (\<forall>x. pmem s' x = (if PGROUNDDOWN x = r then 5 else pmem s x)))"
proof (cases fl)
  case Nil
  then show ?thesis using assms kalloc_empty by auto
next
  case (Cons a rest)
  then have fp: "free_pages s (a # rest)" using assms(1) by simp
  then have a: "freelist s = a" "a \<noteq> 0" "page_aligned a"
    using ka.pool_ok [OF fp, of a] ka.ok_aligned by (auto simp: free_pages_def)
  obtain s1 where "kalloc s = (a, s1)" "free_pages s1 rest"
    using ka.alloc_cons [OF fp] by blast
  then show ?thesis
    using Cons assms(2) a by (auto simp: kalloc_def Let_def memset_def page_region)
qed

theorem kalloc_pops_witness:
  "\<exists>s. free_pages s [0x80001000] \<and> fst (kalloc s) = 0x80001000"
proof -
  have "usable (boot_phys 0x80000000) 0x80001000"
    by (simp add: usable_def boot_phys_def PHYSTOP_val page_aligned_unat)
  then obtain s1 where fp: "free_pages s1 [0x80001000]"
    using ka.release_new [OF free_pages_empty, of "boot_phys 0x80000000" "0x80001000"]
    by (auto simp: boot_phys_def)
  obtain r s2 where "kalloc s1 = (r, s2)" by fastforce
  with kalloc_pops [OF fp this] fp show ?thesis by (intro exI [of _ s1]) auto
qed

text \<open>
  C29. \<open>kfree\<close> panics exactly on an address that is not page aligned, lies in the kernel
  image or lies at or above \<open>PHYSTOP\<close>; otherwise it pushes the page, so that freeing a
  page that was not free and allocating again returns that very page and restores the
  list.
\<close>

theorem kfree_pushes:
  assumes "free_pages s fl" "kend s \<noteq> 0" "a \<notin> set fl"
  shows "(\<not> page_aligned a \<or> a < kend s \<or> PHYSTOP \<le> a \<longrightarrow> kfree a s = Panic ''kfree'') \<and>
         (page_aligned a \<and> kend s \<le> a \<and> a < PHYSTOP \<longrightarrow>
            (\<exists>s' s''. kfree a s = Ok s' \<and> free_pages s' (a # fl) \<and>
                      kalloc s' = (a, s'') \<and> free_pages s'' fl))"
proof (intro conjI impI)
  assume "\<not> page_aligned a \<or> a < kend s \<or> PHYSTOP \<le> a"
  then show "kfree a s = Panic ''kfree''" by (simp add: kfree_def page_aligned_mod)
next
  assume "page_aligned a \<and> kend s \<le> a \<and> a < PHYSTOP"
  then have u: "usable s a" using assms(2) by (auto simp: usable_def)
  from ka.release_new [OF assms(1) u assms(3)] obtain s' where
    s': "kfree a s = Ok s'" "free_pages s' (a # fl)" by blast
  with ka.release_alloc [OF assms(1) u assms(3)]
  show "\<exists>s' s''. kfree a s = Ok s' \<and> free_pages s' (a # fl) \<and>
           kalloc s' = (a, s'') \<and> free_pages s'' fl" by blast
qed

theorem kfree_pushes_witness:
  "kfree 0x80001008 (boot_phys 0x80000000) = Panic ''kfree'' \<and>
   (\<exists>s'. kfree 0x80001000 (boot_phys 0x80000000) = Ok s' \<and> free_pages s' [0x80001000])"
proof -
  let ?s = "boot_phys 0x80000000"
  have "free_pages ?s []" "kend ?s \<noteq> 0" by (simp_all add: free_pages_empty boot_phys_def)
  from kfree_pushes [OF this, of "0x80001008"] kfree_pushes [OF this, of "0x80001000"]
  show ?thesis by (auto simp: page_aligned_unat boot_phys_def PHYSTOP_val)
qed

lemma get_free_memory_spec:
  assumes "free_pages s fl"
  shows "get_free_memory s = Some (of_nat (length fl) * PGSIZE)"
    "unat (of_nat (length fl) * PGSIZE :: u64) = 4096 * length fl"
proof -
  show "get_free_memory s = Some (of_nat (length fl) * PGSIZE)"
    using assms fl_path_count [of "pmem s" "freelist s" fl 0]
    by (simp add: get_free_memory_def free_pages_def)
  show "unat (of_nat (length fl) * PGSIZE :: u64) = 4096 * length fl"
    using free_pages_length [OF assms] by (simp add: unat_word_ariths unat_of_nat)
qed

text \<open>
  \<open>get_free_memory\<close> returns (its loop ends), and the number of bytes it returns is
  4096 times the number of free pages, without wrap-around.
\<close>

theorem get_free_memory_counts:
  assumes "free_pages s fl"
  shows "\<exists>n. get_free_memory s = Some n \<and> unat n = 4096 * length fl"
  using get_free_memory_spec [OF assms] by blast

theorem get_free_memory_counts_witness:
  "\<exists>n. get_free_memory (boot_phys 0x80000000) = Some n \<and> unat n = 0"
  using get_free_memory_counts [OF free_pages_empty, of "boot_phys 0x80000000"]
  by (simp add: boot_phys_def)

end
