(* ===== verification/Pt_Refine.thy ===== *)
theory Pt_Refine
  imports Page_Table
begin

text \<open>
  The page-table routines refine operations on the abstract map \<open>pt_look\<close>: \<open>walk\<close> reads
  it (and extends the tree without changing it), \<open>mappages\<close> sets a run of pages, \<open>uvmunmap\<close>
  clears one. Everything else in memory is framed: only table pages and pages taken from
  the free list may change.
\<close>

section \<open>Walking without allocation\<close>

lemma walk_loop_lookup [simp]: "walk_loop t l va False s = (leaf (pmem s) l t va, s)"
  by (induction l arbitrary: t) (auto simp: valid_def Let_def)

lemma valid_0 [simp]: "\<not> valid 0"
  by (simp add: valid_def)

lemma slot_nonnull: "page_aligned t \<Longrightarrow> t \<noteq> 0 \<Longrightarrow> i < 512 \<Longrightarrow> slot t i \<noteq> 0"
  using slot_page0 [of t i] by (auto simp: PGROUNDDOWN_def)

locale table_pages =
  fixes ok :: "u64 \<Rightarrow> bool"
  assumes ok_al: "ok p \<Longrightarrow> page_aligned p"
    and ok_nz: "ok p \<Longrightarrow> p \<noteq> 0"
begin

lemma leaf_slot:
  "pt_tree ok m l t \<Longrightarrow> leaf m l t va \<noteq> 0 \<Longrightarrow>
   \<exists>p \<in> pt_set m l t. leaf m l t va = slot p (PX 0 va)"
  by (induction l arbitrary: t) (fastforce simp: Let_def PX_less split: if_splits)+

lemma leaf_look:
  "pt_tree ok m l t \<Longrightarrow>
   pt_look m l t va = (if leaf m l t va = 0 then 0 else load64 m (leaf m l t va))"
proof (induction l arbitrary: t)
  case 0
  then show ?case using slot_nonnull [OF ok_al ok_nz] by (simp add: PX_less)
next
  case (Suc l)
  then show ?case by (auto simp: Let_def PX_less)
qed

text \<open>
  Replacing the \<open>i\<close>-th subtree of a table: the new subtree may reuse the old pages and add
  others, as long as it stays apart from the table and from the other subtrees.
\<close>

lemma child_update:
  assumes tree: "pt_tree ok m (Suc l) t" and i: "i < 512"
    and e: "\<forall>j. j < 512 \<longrightarrow> j \<noteq> i \<longrightarrow> ent m' t j = ent m t j"
    and e': "valid (ent m' t i)" "interior (ent m' t i)"
    and c: "PTE2PA (ent m' t i) = c"
    and sub: "pt_tree ok m' l c"
    and apart: "t \<notin> pt_set m' l c"
      "\<forall>j. j < 512 \<longrightarrow> j \<noteq> i \<longrightarrow> valid (ent m t j) \<longrightarrow>
         pt_set m' l c \<inter> pt_set m l (PTE2PA (ent m t j)) = {}"
    and fr: "\<forall>j p. j < 512 \<longrightarrow> j \<noteq> i \<longrightarrow> valid (ent m t j) \<longrightarrow>
         p \<in> pt_set m l (PTE2PA (ent m t j)) \<longrightarrow> same_page m m' p"
  shows "pt_tree ok m' (Suc l) t"
    and "pt_set m' (Suc l) t = insert t (pt_set m' l c \<union>
           (\<Union>j \<in> {j. j < 512 \<and> j \<noteq> i \<and> valid (ent m t j)}. pt_set m l (PTE2PA (ent m t j))))"
    and "pt_look m' (Suc l) t va =
           (if PX (Suc l) va = i then pt_look m' l c va
            else pt_look m (Suc l) t va)"
    and "leaf m' (Suc l) t va =
           (if PX (Suc l) va = i then leaf m' l c va
            else leaf m (Suc l) t va)"
proof -
  have old: "pt_tree ok m' l (PTE2PA (ent m t j)) \<and>
      pt_set m' l (PTE2PA (ent m t j)) = pt_set m l (PTE2PA (ent m t j)) \<and>
      pt_look m' l (PTE2PA (ent m t j)) = pt_look m l (PTE2PA (ent m t j)) \<and>
      leaf m' l (PTE2PA (ent m t j)) = leaf m l (PTE2PA (ent m t j))"
    if "j < 512" "j \<noteq> i" "valid (ent m t j)" for j
    using tree that fr by (intro pt_frame ok_al) auto
  show "pt_look m' (Suc l) t va =
           (if PX (Suc l) va = i then pt_look m' l c va
            else pt_look m (Suc l) t va)"
    using spec [OF e] PX_less e' c old [OF PX_less] by (auto simp: Let_def)
  show "leaf m' (Suc l) t va =
           (if PX (Suc l) va = i then leaf m' l c va
            else leaf m (Suc l) t va)"
    using spec [OF e] PX_less e' c old [OF PX_less] by (auto simp: Let_def)
  have split: "{j. j < 512 \<and> valid (ent m' t j)} =
      insert i {j. j < 512 \<and> j \<noteq> i \<and> valid (ent m t j)}"
    using i e e' by auto
  show set': "pt_set m' (Suc l) t = insert t (pt_set m' l c \<union>
           (\<Union>j \<in> {j. j < 512 \<and> j \<noteq> i \<and> valid (ent m t j)}. pt_set m l (PTE2PA (ent m t j))))"
    using e c old by (simp add: split)
  have "interior (ent m' t j) \<and> pt_tree ok m' l (PTE2PA (ent m' t j)) \<and>
      t \<notin> pt_set m' l (PTE2PA (ent m' t j))"
    if "j < 512" "valid (ent m' t j)" for j
    using that e' c sub apart(1) tree e old by (cases "j = i") auto
  moreover have "pt_set m' l (PTE2PA (ent m' t j)) \<inter> pt_set m' l (PTE2PA (ent m' t k)) = {}"
    if "j < 512" "k < 512" "k \<noteq> j" "valid (ent m' t j)" "valid (ent m' t k)" for j k
    using that c apart(2) tree e old by (cases "j = i"; cases "k = i") auto
  ultimately show "pt_tree ok m' (Suc l) t"
    using tree by simp
qed

text \<open>Writing one leaf entry changes the map at exactly the addresses of that page.\<close>

lemma store_leaf:
  "pt_tree ok m l t \<Longrightarrow> leaf m l t va \<noteq> 0 \<Longrightarrow> m' = store64 m (leaf m l t va) v \<Longrightarrow>
   pt_tree ok m' l t \<and> pt_set m' l t = pt_set m l t \<and> leaf m' l t = leaf m l t \<and>
   (\<forall>p. p \<notin> pt_set m l t \<longrightarrow> same_page m m' p) \<and>
   (\<forall>va'. pt_look m' l t va' =
      (if \<forall>k \<le> l. PX k va' = PX k va then v else pt_look m l t va'))"
proof (induction l arbitrary: t)
  case 0
  have "page_aligned t" using 0 ok_al by simp
  then show ?case
    using 0 by (auto simp: load64_slot_store64 PX_less same_page_store64_slot fun_eq_iff)
next
  case (Suc l)
  let ?i = "PX (Suc l) va"
  let ?c = "PTE2PA (ent m t ?i)"
  have i: "?i < 512" by (rule PX_less)
  from Suc.prems(2) have v: "valid (ent m t ?i)" and lf: "leaf m (Suc l) t va = leaf m l ?c va"
    by (auto simp: Let_def split: if_splits)
  have ct: "pt_tree ok m l ?c" "t \<notin> pt_set m l ?c" "interior (ent m t ?i)"
    using Suc.prems(1) v i by auto
  have IH: "pt_tree ok m' l ?c" "pt_set m' l ?c = pt_set m l ?c" "leaf m' l ?c = leaf m l ?c"
    and fr: "\<And>p. p \<notin> pt_set m l ?c \<Longrightarrow> same_page m m' p"
    and lk: "\<And>va'. pt_look m' l ?c va' =
      (if \<forall>k \<le> l. PX k va' = PX k va then v else pt_look m l ?c va')"
    using Suc.IH [OF ct(1)] Suc.prems lf by auto
  have "page_aligned t" using Suc.prems(1) ok_al by simp
  then have e: "\<forall>j. j < 512 \<longrightarrow> ent m' t j = ent m t j"
    using load64_slot_same_page [OF fr [OF ct(2)]] by blast
  then have e1: "\<forall>j. j < 512 \<longrightarrow> j \<noteq> ?i \<longrightarrow> ent m' t j = ent m t j" by blast
  have sib: "pt_set m l ?c \<inter> pt_set m l (PTE2PA (ent m t j)) = {}"
    if "j < 512" "j \<noteq> ?i" "valid (ent m t j)" for j
    using Suc.prems(1) i v that by auto
  have ei: "valid (ent m' t ?i)" "interior (ent m' t ?i)" "PTE2PA (ent m' t ?i) = ?c"
    using e i v ct by simp_all
  have c': "t \<notin> pt_set m' l ?c"
    "\<forall>j. j < 512 \<longrightarrow> j \<noteq> ?i \<longrightarrow> valid (ent m t j) \<longrightarrow>
       pt_set m' l ?c \<inter> pt_set m l (PTE2PA (ent m t j)) = {}"
    using ct sib IH by simp_all
  have sfr: "\<forall>j p. j < 512 \<longrightarrow> j \<noteq> ?i \<longrightarrow> valid (ent m t j) \<longrightarrow>
      p \<in> pt_set m l (PTE2PA (ent m t j)) \<longrightarrow> same_page m m' p"
    using sib fr by blast
  note upd = child_update [OF Suc.prems(1) i e1 ei IH(1) c' sfr]
  have "{j. j < 512 \<and> valid (ent m t j)} = insert ?i {j. j < 512 \<and> j \<noteq> ?i \<and> valid (ent m t j)}"
    using i v by auto
  then have "pt_set m' (Suc l) t = pt_set m (Suc l) t" using upd(2) IH(2) by simp
  moreover have "leaf m' (Suc l) t = leaf m (Suc l) t"
    using upd(4) IH(3) v by (auto simp: fun_eq_iff Let_def)
  moreover have "same_page m m' p" if "p \<notin> pt_set m (Suc l) t" for p
    using that fr v i by auto
  moreover have "pt_look m' (Suc l) t va' =
      (if \<forall>k \<le> Suc l. PX k va' = PX k va then v else pt_look m (Suc l) t va')" for va'
    using upd(3) [where va = va'] lk [of va'] v by (auto simp: le_Suc_eq Let_def)
  ultimately show ?case using upd(1) by blast
qed

end

interpretation tp: table_pages "usable s" for s
  by unfold_locales (auto simp: usable_def)

section \<open>Entries\<close>

lemma PTE_V_less: "PTE_V < 1024"
  by (simp add: PTE_V_def)

lemma valid_bit: "valid e \<longleftrightarrow> bit e 0"
  by (simp add: valid_def test_pte_bits)

lemma valid_or_V [simp]: "valid (e OR PTE_V)"
  by (simp add: valid_bit bit_or_iff bit_pte_bits)

lemma interior_table: "interior (PA2PTE p OR PTE_V)"
  unfolding interior_def
  by (rule bit_word_eqI) (auto simp: bit_pte_bits PA2PTE_def bit_simps)

lemma PTE2PA_table: "page_aligned p \<Longrightarrow> PTE2PA (PA2PTE p OR PTE_V) = p"
  by (rule PTE2PA_PA2PTE [OF _ PTE_V_less])

section \<open>Walking with allocation\<close>

text \<open>
  The state of an address space: its table pages form a tree and none of them is free.
\<close>

definition as_inv :: "phys \<Rightarrow> u64 list \<Rightarrow> nat \<Rightarrow> u64 \<Rightarrow> bool" where
  "as_inv s fl l t \<longleftrightarrow> free_pages s fl \<and> pt_tree (usable s) (pmem s) l t \<and>
     pt_set (pmem s) l t \<inter> set fl = {}"

lemma zero_table:
  assumes "\<And>i. i < 512 \<Longrightarrow> ent m p i = 0" "ok p"
  shows "pt_tree ok m l p" "pt_set m l p = {p}" "pt_look m l p va = 0"
  using assms by (cases l; simp add: PX_less)+

text \<open>What an allocating walk does: it may take pages from the front of the free list.\<close>

definition walk_post :: "phys \<Rightarrow> u64 list \<Rightarrow> nat \<Rightarrow> u64 \<Rightarrow> u64 \<Rightarrow> u64 \<Rightarrow> phys \<Rightarrow> bool" where
  "walk_post s fl l t va r s' \<longleftrightarrow> (\<exists>used fl'. fl = used @ fl' \<and> as_inv s' fl' l t \<and>
     kend s' = kend s \<and> pt_set (pmem s') l t = pt_set (pmem s) l t \<union> set used \<and>
     pt_look (pmem s') l t = pt_look (pmem s) l t \<and> leaf (pmem s') l t va = r \<and>
     (r = 0 \<longrightarrow> fl' = []) \<and> length used + (if r = 0 then 1 else 0) \<le> l \<and>
     (\<forall>p. p \<notin> pt_set (pmem s) l t \<union> set used \<longrightarrow> same_page (pmem s) (pmem s') p))"

lemma usable_kend: "kend s' = kend s \<Longrightarrow> usable s' = usable s"
  by (simp add: usable_def fun_eq_iff)

text \<open>Taking the front page, zeroing it and linking it into a table.\<close>

lemma link_page:
  assumes inv: "as_inv s fl (Suc l) t" and i: "i < 512"
    and ka: "kalloc s = (p, s1)" "p \<noteq> 0"
    and m3: "m3 = store64 (memset (pmem s1) p 0 PGSIZE) (slot t i) (PA2PTE p OR PTE_V)"
  shows "\<exists>rest. fl = p # rest \<and> p \<noteq> t \<and> as_inv (s1\<lparr>pmem := m3\<rparr>) rest l p \<and> kend s1 = kend s \<and>
    pt_set m3 l p = {p} \<and> (\<forall>va. pt_look m3 l p va = 0) \<and> ent m3 t i = PA2PTE p OR PTE_V \<and>
    (\<forall>j. j < 512 \<longrightarrow> j \<noteq> i \<longrightarrow> ent m3 t j = ent (pmem s) t j) \<and>
    (\<forall>q. q \<notin> {p, t} \<longrightarrow> same_page (pmem s) m3 q)"
proof -
  have fp: "free_pages s fl" and dis: "pt_set (pmem s) (Suc l) t \<inter> set fl = {}"
    and okt: "usable s t"
    using inv pt_tree_ok by (auto simp: as_inv_def)
  then have al: "page_aligned t" by (simp add: usable_def)
  from fp ka(1) obtain rest where fl: "fl = p # rest" "p \<notin> set rest" and okp: "usable s p"
    and fp1: "free_pages s1 rest" and us: "usable s1 = usable s"
    and fr1: "\<And>q. q \<noteq> p \<Longrightarrow> same_page (pmem s) (pmem s1) q"
    by (cases rule: ka.alloc_cases) (use ka(2) in auto)
  have ke: "kend s1 = kend s"
    using ka(1) by (auto simp: kalloc_def Let_def split: if_splits)
  have tn: "t \<notin> set fl" using dis by auto
  then have pt: "p \<noteq> t" using fl by auto
  have alp: "page_aligned p" using okp by (simp add: usable_def)
  define m2 where "m2 = memset (pmem s1) p 0 PGSIZE"
  have fr3: "same_page (pmem s) m3 q" if "q \<notin> {p, t}" for q
  proof -
    have "same_page (pmem s1) m2 q" unfolding m2_def using that alp by (intro same_page_memset) auto
    moreover have "same_page m2 m3 q"
      unfolding m3 m2_def using that al i by (intro same_page_store64_slot) auto
    ultimately show ?thesis using fr1 [of q] that by (auto simp: same_page_def)
  qed
  have fp3: "free_pages (s1\<lparr>pmem := m3\<rparr>) rest"
  proof (rule free_pages_frame [OF fp1])
    fix a assume "a \<in> set rest"
    then have "a \<notin> {p, t}" using fl tn by auto
    then show "same_page (pmem s1) m3 a"
      using fr3 [of a] fr1 [of a] by (auto simp: same_page_def)
  qed
  have ent_p: "ent m3 p j = 0" if "j < 512" for j
  proof -
    have "same_page m2 m3 p" unfolding m3 m2_def using al i pt by (intro same_page_store64_slot) auto
    then show ?thesis
      using that alp by (simp add: load64_slot_same_page m2_def load64_slot_memset0)
  qed
  have ent_t: "ent m2 t j = ent (pmem s) t j" if "j < 512" for j
  proof -
    have "same_page (pmem s) m2 t"
      using fr1 [of t] same_page_memset [OF alp, of t "pmem s1" 0] pt
      by (auto simp: m2_def same_page_def)
    then show ?thesis using that al by (simp add: load64_slot_same_page)
  qed
  have "ent m3 t j = (if j = i then PA2PTE p OR PTE_V else ent (pmem s) t j)" if "j < 512" for j
    using that i ent_t by (simp add: m3 load64_slot_store64 m2_def)
  moreover have "as_inv (s1\<lparr>pmem := m3\<rparr>) rest l p"
    using zero_table [of m3 p "usable s", OF ent_p] okp fp3 fl us by (simp add: as_inv_def)
  ultimately show ?thesis
    using fl pt ke zero_table [of m3 p "usable s", OF ent_p] okp fr3 i by auto
qed

lemma same_page_ent:
  "page_aligned t \<Longrightarrow> same_page m m' t \<Longrightarrow> \<forall>j. j < 512 \<longrightarrow> ent m' t j = ent m t j"
  by (simp add: load64_slot_same_page)

text \<open>Lifting the effect of a walk in a subtree to the table above it.\<close>

lemma walk_post_lift:
  assumes inv: "as_inv s fl (Suc l) t" and i: "PX (Suc l) va = i"
    and fr: "\<forall>q. q \<noteq> t \<longrightarrow> q \<notin> P \<union> set used \<longrightarrow> same_page (pmem s) m' q"
    and P: "\<forall>q \<in> P. q \<noteq> t \<and> q \<notin> set fl' \<and>
      (\<forall>j. j < 512 \<longrightarrow> j \<noteq> i \<longrightarrow> valid (ent (pmem s) t j) \<longrightarrow>
         q \<notin> pt_set (pmem s) l (PTE2PA (ent (pmem s) t j)))"
    and fl: "fl = used @ fl'"
    and e1: "\<forall>j. j < 512 \<longrightarrow> j \<noteq> i \<longrightarrow> ent m' t j = ent (pmem s) t j"
    and ei: "valid (ent m' t i)" "interior (ent m' t i)" "PTE2PA (ent m' t i) = c"
    and sub: "pt_tree (usable s) m' l c" "pt_set m' l c = P \<union> set used"
  shows "pt_tree (usable s) m' (Suc l) t"
    "pt_set m' (Suc l) t = insert t (P \<union> set used \<union>
      (\<Union>j \<in> {j. j < 512 \<and> j \<noteq> i \<and> valid (ent (pmem s) t j)}.
         pt_set (pmem s) l (PTE2PA (ent (pmem s) t j))))"
    "pt_look m' (Suc l) t va' = (if PX (Suc l) va' = i then pt_look m' l c va'
       else pt_look (pmem s) (Suc l) t va')"
    "leaf m' (Suc l) t va' = (if PX (Suc l) va' = i then leaf m' l c va'
       else leaf (pmem s) (Suc l) t va')"
    "pt_set m' (Suc l) t \<inter> set fl' = {}"
proof -
  have tree: "pt_tree (usable s) (pmem s) (Suc l) t" and free: "free_pages s fl"
    and dis: "pt_set (pmem s) (Suc l) t \<inter> set fl = {}"
    using inv by (auto simp: as_inv_def)
  have i512: "i < 512" using i PX_less by blast
  have sib: "pt_set (pmem s) l (PTE2PA (ent (pmem s) t j)) \<subseteq> pt_set (pmem s) (Suc l) t"
    if "j < 512" "valid (ent (pmem s) t j)" for j
    using that by auto
  have tfl: "t \<notin> set fl" using dis by auto
  have c1: "t \<notin> pt_set m' l c" using sub(2) P tfl fl by auto
  have c2: "\<forall>j. j < 512 \<longrightarrow> j \<noteq> i \<longrightarrow> valid (ent (pmem s) t j) \<longrightarrow>
      pt_set m' l c \<inter> pt_set (pmem s) l (PTE2PA (ent (pmem s) t j)) = {}"
    using sub(2) P sib dis fl by fastforce
  have c3: "\<forall>j q. j < 512 \<longrightarrow> j \<noteq> i \<longrightarrow> valid (ent (pmem s) t j) \<longrightarrow>
      q \<in> pt_set (pmem s) l (PTE2PA (ent (pmem s) t j)) \<longrightarrow> same_page (pmem s) m' q"
  proof (intro allI impI)
    fix j q
    assume j: "j < 512" "j \<noteq> i" "valid (ent (pmem s) t j)"
      "q \<in> pt_set (pmem s) l (PTE2PA (ent (pmem s) t j))"
    then have "q \<noteq> t" using tree by auto
    moreover have "q \<notin> P \<union> set used" using c2 sub(2) j by blast
    ultimately show "same_page (pmem s) m' q" using fr by blast
  qed
  note upd = tp.child_update [OF tree i512 e1 ei sub(1) c1 c2 c3]
  show "pt_tree (usable s) m' (Suc l) t" by (rule upd(1))
  show set': "pt_set m' (Suc l) t = insert t (P \<union> set used \<union>
      (\<Union>j \<in> {j. j < 512 \<and> j \<noteq> i \<and> valid (ent (pmem s) t j)}.
         pt_set (pmem s) l (PTE2PA (ent (pmem s) t j))))"
    using upd(2) sub(2) by simp
  show "pt_look m' (Suc l) t va' = (if PX (Suc l) va' = i then pt_look m' l c va'
       else pt_look (pmem s) (Suc l) t va')"
    by (rule upd(3))
  show "leaf m' (Suc l) t va' = (if PX (Suc l) va' = i then leaf m' l c va'
       else leaf (pmem s) (Suc l) t va')"
    by (rule upd(4))
  have "distinct fl" using free by (simp add: free_pages_def)
  then show "pt_set m' (Suc l) t \<inter> set fl' = {}"
    using set' P sib dis fl by fastforce
qed

lemma walk_alloc:
  "as_inv s fl l t \<Longrightarrow> walk_loop t l va True s = (r, s') \<Longrightarrow> walk_post s fl l t va r s'"
proof (induction l arbitrary: t s fl)
  case 0
  then have "s' = s" "r = slot t (PX 0 va)" "r \<noteq> 0"
    using tp.ok_al tp.ok_nz slot_nonnull PX_less by (auto simp: as_inv_def)
  with 0 show ?case unfolding walk_post_def by (intro exI [of _ "[]"] exI [of _ fl]) auto
next
  case (Suc l)
  let ?i = "PX (Suc l) va"
  let ?m = "pmem s"
  let ?e = "ent ?m t ?i"
  have i: "?i < 512" by (rule PX_less)
  have tree: "pt_tree (usable s) ?m (Suc l) t" and free: "free_pages s fl"
    and dis: "pt_set ?m (Suc l) t \<inter> set fl = {}"
    using Suc.prems(1) by (auto simp: as_inv_def)
  have al: "page_aligned t" using tree by (simp add: usable_def)
  show ?case
  proof (cases "valid ?e")
    case True
    let ?c = "PTE2PA ?e"
    have sub: "pt_set ?m l ?c \<subseteq> pt_set ?m (Suc l) t" using True i by auto
    have "as_inv s fl l ?c" using tree free dis sub True i by (auto simp: as_inv_def)
    moreover have "walk_loop ?c l va True s = (r, s')"
      using Suc.prems(2) True by (simp add: valid_def Let_def)
    ultimately have "walk_post s fl l ?c va r s'" by (rule Suc.IH)
    then obtain used fl' where fl: "fl = used @ fl'" and inv': "as_inv s' fl' l ?c"
      and ke: "kend s' = kend s" and set': "pt_set (pmem s') l ?c = pt_set ?m l ?c \<union> set used"
      and lk: "pt_look (pmem s') l ?c = pt_look ?m l ?c" and lf: "leaf (pmem s') l ?c va = r"
      and nil: "r = 0 \<longrightarrow> fl' = []" and few: "length used + (if r = 0 then 1 else 0) \<le> l"
      and fr: "\<forall>p. p \<notin> pt_set ?m l ?c \<union> set used \<longrightarrow> same_page ?m (pmem s') p"
      unfolding walk_post_def by blast
    have P: "\<forall>q \<in> pt_set ?m l ?c. q \<noteq> t \<and> q \<notin> set fl' \<and> (\<forall>j. j < 512 \<longrightarrow> j \<noteq> ?i \<longrightarrow>
        valid (ent ?m t j) \<longrightarrow> q \<notin> pt_set ?m l (PTE2PA (ent ?m t j)))"
    proof -
      have "t \<notin> pt_set ?m l ?c" using tree True i by simp
      moreover have "pt_set ?m l ?c \<inter> pt_set ?m l (PTE2PA (ent ?m t j)) = {}"
        if "j < 512" "j \<noteq> ?i" "valid (ent ?m t j)" for j
        using tree True i that by simp
      moreover have "pt_set ?m l ?c \<inter> set fl' = {}" using sub dis fl by auto
      ultimately show ?thesis by blast
    qed
    have "t \<notin> pt_set ?m l ?c \<union> set used" using P dis fl by auto
    then have e: "\<forall>j. j < 512 \<longrightarrow> ent (pmem s') t j = ent ?m t j"
      using fr al by (intro same_page_ent) auto
    then have e1: "\<forall>j. j < 512 \<longrightarrow> j \<noteq> ?i \<longrightarrow> ent (pmem s') t j = ent ?m t j" by blast
    have ei: "valid (ent (pmem s') t ?i)" "interior (ent (pmem s') t ?i)"
      "PTE2PA (ent (pmem s') t ?i) = ?c"
    proof -
      have "ent (pmem s') t ?i = ?e" using e i by blast
      moreover have "interior ?e" using tree True i by simp
      ultimately show "valid (ent (pmem s') t ?i)" "interior (ent (pmem s') t ?i)"
        "PTE2PA (ent (pmem s') t ?i) = ?c"
        using True by simp_all
    qed
    have tr: "pt_tree (usable s) (pmem s') l ?c"
      using inv' usable_kend [OF ke] by (simp add: as_inv_def)
    have fr': "\<forall>q. q \<noteq> t \<longrightarrow> q \<notin> pt_set ?m l ?c \<union> set used \<longrightarrow> same_page ?m (pmem s') q"
      using fr by blast
    note lift = walk_post_lift [OF Suc.prems(1) refl fr' P fl e1 ei tr set']
    have "{j. j < 512 \<and> valid (ent ?m t j)} = insert ?i {j. j < 512 \<and> j \<noteq> ?i \<and> valid (ent ?m t j)}"
      using i True by auto
    then have "pt_set (pmem s') (Suc l) t = pt_set ?m (Suc l) t \<union> set used"
      using lift(2) by auto
    moreover have "pt_look (pmem s') (Suc l) t = pt_look ?m (Suc l) t"
      using lift(3) lk True by (auto simp: fun_eq_iff Let_def)
    moreover have "leaf (pmem s') (Suc l) t va = r" using lift(4) lf by simp
    moreover have "as_inv s' fl' (Suc l) t"
      using inv' lift(1,5) usable_kend [OF ke] unfolding as_inv_def by simp
    moreover have "\<forall>p. p \<notin> pt_set ?m (Suc l) t \<union> set used \<longrightarrow> same_page ?m (pmem s') p"
      using fr sub by blast
    moreover have "length used + (if r = 0 then 1 else 0) \<le> Suc l" using few by simp
    ultimately show ?thesis unfolding walk_post_def using fl ke nil by blast
  next
    case False
    obtain p s1 where ka: "kalloc s = (p, s1)" by fastforce
    show ?thesis
    proof (cases "p = 0")
      case True
      with ka free have "fl = []" "s1 = s"
        by (auto elim: ka.alloc_cases)
      moreover have "r = 0" "s' = s1"
        using Suc.prems(2) False ka True by (auto simp: valid_def Let_def)
      ultimately show ?thesis
        using Suc.prems(1) False unfolding walk_post_def
        by (intro exI [of _ "[]"] exI [of _ fl]) (simp add: Let_def)
    next
      case nz: False
      define m3 where
        "m3 = store64 (memset (pmem s1) p 0 PGSIZE) (slot t ?i) (PA2PTE p OR PTE_V)"
      let ?s3 = "s1\<lparr>pmem := m3\<rparr>"
      from link_page [OF Suc.prems(1) i ka nz m3_def] obtain rest where
        rest: "fl = p # rest" "p \<noteq> t" and inv3: "as_inv ?s3 rest l p" and ke1: "kend s1 = kend s"
        and set3: "pt_set m3 l p = {p}" and lk3: "\<forall>va. pt_look m3 l p va = 0"
        and e3: "ent m3 t ?i = PA2PTE p OR PTE_V"
        and e3': "\<forall>j. j < 512 \<longrightarrow> j \<noteq> ?i \<longrightarrow> ent m3 t j = ent ?m t j"
        and fr3: "\<forall>q. q \<notin> {p, t} \<longrightarrow> same_page ?m m3 q" by blast
      have "walk_loop p l va True ?s3 = (r, s')"
        using Suc.prems(2) False ka nz by (simp add: valid_def Let_def m3_def)
      with inv3 have "walk_post ?s3 rest l p va r s'" by (rule Suc.IH)
      then obtain used fl' where fl: "rest = used @ fl'" and inv': "as_inv s' fl' l p"
        and ke: "kend s' = kend s1" and set': "pt_set (pmem s') l p = {p} \<union> set used"
        and lk: "pt_look (pmem s') l p = pt_look m3 l p" and lf: "leaf (pmem s') l p va = r"
        and nil: "r = 0 \<longrightarrow> fl' = []" and few: "length used + (if r = 0 then 1 else 0) \<le> l"
        and fr: "\<forall>q. q \<notin> {p} \<union> set used \<longrightarrow> same_page m3 (pmem s') q"
        unfolding walk_post_def using set3 by auto
      have fl2: "fl = (p # used) @ fl'" using rest fl by simp
      have tn: "t \<notin> set fl" using dis by auto
      then have "same_page m3 (pmem s') t" using fr rest fl by auto
      then have e: "\<forall>j. j < 512 \<longrightarrow> ent (pmem s') t j = ent m3 t j"
        by (rule same_page_ent [OF al])
      then have e1: "\<forall>j. j < 512 \<longrightarrow> j \<noteq> ?i \<longrightarrow> ent (pmem s') t j = ent ?m t j"
        using e3' by simp
      have alp: "page_aligned p"
        using inv3 tp.ok_al [OF pt_tree_ok] by (auto simp: as_inv_def)
      have ei: "valid (ent (pmem s') t ?i)" "interior (ent (pmem s') t ?i)"
        "PTE2PA (ent (pmem s') t ?i) = p"
        using e i e3 interior_table PTE2PA_table [OF alp] by simp_all
      have kes: "kend s' = kend s" using ke ke1 by simp
      have tr: "pt_tree (usable s) (pmem s') l p"
        using inv' usable_kend [OF kes] by (simp add: as_inv_def)
      have fr': "\<forall>q. q \<noteq> t \<longrightarrow> q \<notin> {} \<union> set (p # used) \<longrightarrow> same_page ?m (pmem s') q"
        using fr fr3 by (auto simp: same_page_def)
      have set2: "pt_set (pmem s') l p = {} \<union> set (p # used)" using set' by simp
      have P: "\<forall>q \<in> {}. q \<noteq> t \<and> q \<notin> set fl' \<and> (\<forall>j. j < 512 \<longrightarrow> j \<noteq> ?i \<longrightarrow>
          valid (ent ?m t j) \<longrightarrow> q \<notin> pt_set ?m l (PTE2PA (ent ?m t j)))"
        by simp
      note lift = walk_post_lift [OF Suc.prems(1) refl fr' P fl2 e1 ei tr set2]
      have "{j. j < 512 \<and> valid (ent ?m t j)} = {j. j < 512 \<and> j \<noteq> ?i \<and> valid (ent ?m t j)}"
        using False by auto
      then have "pt_set (pmem s') (Suc l) t = pt_set ?m (Suc l) t \<union> set (p # used)"
        using lift(2) by auto
      moreover have "pt_look (pmem s') (Suc l) t = pt_look ?m (Suc l) t"
        using lift(3) lk lk3 False by (auto simp: fun_eq_iff Let_def)
      moreover have "leaf (pmem s') (Suc l) t va = r" using lift(4) lf by simp
      moreover have "as_inv s' fl' (Suc l) t"
        using inv' lift(1,5) usable_kend [OF kes] unfolding as_inv_def by simp
      moreover have "\<forall>q. q \<notin> pt_set ?m (Suc l) t \<union> set (p # used) \<longrightarrow> same_page ?m (pmem s') q"
        using fr' by simp
      moreover have "length (p # used) + (if r = 0 then 1 else 0) \<le> Suc l" using few by simp
      ultimately show ?thesis unfolding walk_post_def using fl2 kes nil by blast
    qed
  qed
qed

end
