(* ===== verification/Pt_Map.thy ===== *)
theory Pt_Map
  imports Pt_Refine
begin

text \<open>
  \<open>mappages\<close>, \<open>uvmunmap\<close>, \<open>walkaddr\<close> and \<open>uvmclear\<close> as operations on the map from virtual
  addresses to leaf entries.
\<close>

section \<open>The map of an address space\<close>

definition pte_of :: "phys \<Rightarrow> u64 \<Rightarrow> u64 \<Rightarrow> u64" where
  "pte_of s pt va = pt_look (pmem s) 2 pt va"

lemma pt_look_PGROUNDDOWN: "pt_look m l pt (PGROUNDDOWN va) = pt_look m l pt va"
  by (induction l arbitrary: pt) (auto simp: Let_def PX_PGROUNDDOWN)

abbreviation tables :: "phys \<Rightarrow> u64 \<Rightarrow> u64 set" where
  "tables s pt \<equiv> pt_set (pmem s) 2 pt"

lemma same_indices:
  assumes "va < VATOP" "va' < VATOP"
  shows "(\<forall>k \<le> 2. PX k va' = PX k va) \<longleftrightarrow> PGROUNDDOWN va' = PGROUNDDOWN va"
  using PX_inj [OF assms(2,1)] PX_PGROUNDDOWN by metis

text \<open>Only table pages and pages taken from the free list have changed.\<close>

definition touched :: "phys \<Rightarrow> u64 \<Rightarrow> u64 list \<Rightarrow> phys \<Rightarrow> bool" where
  "touched s pt used s' \<longleftrightarrow> kend s' = kend s \<and> tables s' pt = tables s pt \<union> set used \<and>
     (\<forall>p. p \<notin> tables s pt \<union> set used \<longrightarrow> same_page (pmem s) (pmem s') p)"

lemma touched_refl [simp]: "touched s pt [] s"
  by (simp add: touched_def)

lemma touched_trans:
  "touched s pt u s1 \<Longrightarrow> touched s1 pt v s2 \<Longrightarrow> touched s pt (u @ v) s2"
  unfolding touched_def by (auto simp: same_page_def)

lemma walk_spec:
  assumes "as_inv s fl 2 pt" "va < MAXVA"
  shows "\<exists>r s' used fl'. walk pt va True s = Ok (r, s') \<and> fl = used @ fl' \<and> as_inv s' fl' 2 pt \<and>
    touched s pt used s' \<and> pte_of s' pt = pte_of s pt \<and> leaf (pmem s') 2 pt va = r \<and>
    (r = 0 \<longrightarrow> fl' = []) \<and> length used + (if r = 0 then 1 else 0) \<le> 2"
proof -
  obtain r s' where w: "walk_loop pt 2 va True s = (r, s')" by fastforce
  from walk_alloc [OF assms(1) w] obtain used fl' where
    p: "fl = used @ fl'" "as_inv s' fl' 2 pt" "kend s' = kend s"
      "pt_set (pmem s') 2 pt = pt_set (pmem s) 2 pt \<union> set used"
      "pt_look (pmem s') 2 pt = pt_look (pmem s) 2 pt" "leaf (pmem s') 2 pt va = r"
      "r = 0 \<longrightarrow> fl' = []" "length used + (if r = 0 then 1 else 0) \<le> 2"
      "\<forall>p. p \<notin> pt_set (pmem s) 2 pt \<union> set used \<longrightarrow> same_page (pmem s) (pmem s') p"
    unfolding walk_post_def by blast
  have "walk pt va True s = Ok (r, s')" using assms(2) w by (simp add: walk_def not_le)
  moreover have "touched s pt used s'" using p unfolding touched_def by blast
  moreover have "pte_of s' pt = pte_of s pt" using p(5) by (simp add: pte_of_def fun_eq_iff)
  ultimately show ?thesis using p by blast
qed

lemma store_pte:
  assumes inv: "as_inv s fl 2 pt" and va: "va < MAXVA" and lf: "leaf (pmem s) 2 pt va \<noteq> 0"
    and s': "s' = s\<lparr>pmem := store64 (pmem s) (leaf (pmem s) 2 pt va) v\<rparr>"
  shows "as_inv s' fl 2 pt" "touched s pt [] s'" "leaf (pmem s') 2 pt = leaf (pmem s) 2 pt"
    "va' < VATOP \<Longrightarrow>
       pte_of s' pt va' = (if PGROUNDDOWN va' = PGROUNDDOWN va then v else pte_of s pt va')"
proof -
  have tree: "pt_tree (usable s) (pmem s) 2 pt" and free: "free_pages s fl"
    and dis: "pt_set (pmem s) 2 pt \<inter> set fl = {}"
    using inv by (auto simp: as_inv_def)
  define m' where "m' = store64 (pmem s) (leaf (pmem s) 2 pt va) v"
  have m': "pmem s' = m'" "kend s' = kend s" by (simp_all add: s' m'_def)
  note sl = tp.store_leaf [OF tree lf m'_def]
  have tree': "pt_tree (usable s) (pmem s') 2 pt" using sl m' by simp
  have set': "tables s' pt = tables s pt" using sl m' by simp
  have lf': "leaf (pmem s') 2 pt = leaf (pmem s) 2 pt" using sl m' by simp
  have fr: "same_page (pmem s) (pmem s') p" if "p \<notin> tables s pt" for p using sl m' that by blast
  have lk: "pte_of s' pt va' = (if \<forall>k \<le> 2. PX k va' = PX k va then v else pte_of s pt va')" for va'
    using sl m' unfolding pte_of_def by blast
  have "free_pages s' fl" unfolding s'
    by (rule free_pages_frame [OF free]) (use fr dis s' in auto)
  then show "as_inv s' fl 2 pt"
    using tree' set' dis by (simp add: as_inv_def s')
  show "touched s pt [] s'" using set' fr by (simp add: touched_def s')
  show "leaf (pmem s') 2 pt = leaf (pmem s) 2 pt" by (rule lf')
  show "pte_of s' pt va' = (if PGROUNDDOWN va' = PGROUNDDOWN va then v else pte_of s pt va')"
    if "va' < VATOP"
    using lk [of va'] same_indices [OF MAXVA_VATOP [OF va] that] by simp
qed

lemma load_leaf:
  "as_inv s fl 2 pt \<Longrightarrow> leaf (pmem s) 2 pt va \<noteq> 0 \<Longrightarrow>
   load64 (pmem s) (leaf (pmem s) 2 pt va) = pte_of s pt va"
  using tp.leaf_look [of s "pmem s" 2 pt va] by (simp add: as_inv_def pte_of_def)

lemma no_leaf: "as_inv s fl 2 pt \<Longrightarrow> leaf (pmem s) 2 pt va = 0 \<Longrightarrow> pte_of s pt va = 0"
  using tp.leaf_look [of s "pmem s" 2 pt va] by (simp add: as_inv_def pte_of_def)

section \<open>mappages\<close>

text \<open>A run of \<open>n\<close> pages from \<open>a\<close>.\<close>

definition in_run :: "u64 \<Rightarrow> nat \<Rightarrow> u64 \<Rightarrow> bool" where
  "in_run a n va \<longleftrightarrow> unat a \<le> unat va \<and> unat va < unat a + 4096 * n"

definition mapped_run ::
  "(u64 \<Rightarrow> u64) \<Rightarrow> (u64 \<Rightarrow> u64) \<Rightarrow> u64 \<Rightarrow> nat \<Rightarrow> u64 \<Rightarrow> u64 \<Rightarrow> bool" where
  "mapped_run f f' a n pa perm \<longleftrightarrow> (\<forall>va < VATOP. f' va =
     (if in_run a n va then PA2PTE (pa + (PGROUNDDOWN va - a)) OR perm OR PTE_V else f va))"

lemma in_run_0 [simp]: "\<not> in_run a 0 va"
  by (simp add: in_run_def)

lemma in_run_1: "page_aligned a \<Longrightarrow> in_run a 1 va \<longleftrightarrow> PGROUNDDOWN va = a"
proof -
  assume "page_aligned a"
  then obtain k where k: "unat a = 4096 * k" by (auto simp: page_aligned_unat elim: dvdE)
  have "unat a < 2 ^ LENGTH(64)" by (rule unsigned_less)
  then have top: "unat a \<le> 18446744073709551616 - 4096" using k by simp
  from \<open>page_aligned a\<close> have "PGROUNDDOWN va = a \<longleftrightarrow> va - a < 4096" by (simp add: page_region)
  also have "\<dots> \<longleftrightarrow> in_run a 1 va"
    using top by (auto simp: in_run_def word_less_nat_alt unat_sub_if')
  finally show ?thesis by simp
qed

lemma in_run_Suc:
  assumes "page_aligned a" "unat a + 4096 * Suc n \<le> 2 ^ 38"
  shows "in_run a (Suc n) va \<longleftrightarrow> PGROUNDDOWN va = a \<or> in_run (a + PGSIZE) n va"
proof -
  have "unat (a + PGSIZE) = unat a + 4096" using assms(2) by (simp add: unat_word_ariths)
  then show ?thesis
    using in_run_1 [OF assms(1), of va] by (auto simp: in_run_def)
qed

text \<open>
  The outcome of \<open>mappages\<close> on \<open>n\<close> pages: some number \<open>k\<close> of them got mapped, all of them
  exactly when the result is 0; fewer only because no page was left for a table.
\<close>

definition map_post ::
  "phys \<Rightarrow> u64 list \<Rightarrow> u64 \<Rightarrow> u64 \<Rightarrow> nat \<Rightarrow> u64 \<Rightarrow> u64 \<Rightarrow> int \<Rightarrow> phys \<Rightarrow> bool" where
  "map_post s fl pt a n pa perm r s' \<longleftrightarrow> (\<exists>used fl' k. fl = used @ fl' \<and> as_inv s' fl' 2 pt \<and>
     touched s pt used s' \<and> k \<le> n \<and> r = (if k = n then 0 else -1) \<and> (k < n \<longrightarrow> fl' = []) \<and>
     length used + (if k < n then 1 else 0) \<le> 2 * k + (if k < n then 2 else 0) \<and>
     mapped_run (pte_of s pt) (pte_of s' pt) a k pa perm)"

lemma mapped_run_0: "mapped_run f f a 0 pa perm"
  by (simp add: mapped_run_def)

lemma mapped_run_Suc:
  assumes a: "page_aligned a" "unat a + 4096 * Suc k \<le> 2 ^ 38"
    and f1: "\<And>va. va < VATOP \<Longrightarrow>
      f1 va = (if PGROUNDDOWN va = a then PA2PTE pa OR perm OR PTE_V else f va)"
    and f2: "mapped_run f1 f2 (a + PGSIZE) k (pa + PGSIZE) perm"
  shows "mapped_run f f2 a (Suc k) pa perm"
  unfolding mapped_run_def
proof (intro allI impI)
  fix va assume va: "va < VATOP"
  have u: "unat (a + PGSIZE) = unat a + 4096" using a(2) by (simp add: unat_word_ariths)
  have "\<not> in_run (a + PGSIZE) k va" if "PGROUNDDOWN va = a"
    using that in_run_1 [OF a(1), of va] u by (auto simp: in_run_def)
  then show "f2 va = (if in_run a (Suc k) va
      then PA2PTE (pa + (PGROUNDDOWN va - a)) OR perm OR PTE_V else f va)"
    using f2 va f1 [OF va] in_run_Suc [OF a, of va]
    by (auto simp: mapped_run_def algebra_simps)
qed

text \<open>One iteration: either memory ran out, or the page at \<open>a\<close> has been mapped.\<close>

lemma mappages_iter:
  assumes inv: "as_inv s fl 2 pt" and a: "page_aligned a" "a < MAXVA"
    and free: "\<not> valid (pte_of s pt a)"
  obtains (out_of_memory) used s1 where "fl = used" "as_inv s1 [] 2 pt" "touched s pt used s1"
      "pte_of s1 pt = pte_of s pt" "length used \<le> 1"
      "\<And>l. mappages_loop pt a l pa perm s = Ok (-1, s1)"
  | (mapped) used fl' s2 where "fl = used @ fl'" "length used \<le> 2" "as_inv s2 fl' 2 pt" "touched s pt used s2"
      "\<And>va. va < VATOP \<Longrightarrow> pte_of s2 pt va =
         (if PGROUNDDOWN va = a then PA2PTE pa OR perm OR PTE_V else pte_of s pt va)"
      "\<And>l. mappages_loop pt a l pa perm s =
         (if a = l then Ok (0, s2) else mappages_loop pt (a + PGSIZE) l (pa + PGSIZE) perm s2)"
proof -
  from walk_spec [OF inv a(2)] obtain r s1 used fl' where
    w: "walk pt a True s = Ok (r, s1)" and fl: "fl = used @ fl'" and inv1: "as_inv s1 fl' 2 pt"
    and t1: "touched s pt used s1" and pte1: "pte_of s1 pt = pte_of s pt"
    and lf: "leaf (pmem s1) 2 pt a = r" and nil: "r = 0 \<longrightarrow> fl' = []"
    and few: "length used + (if r = 0 then 1 else 0) \<le> 2" by blast
  show ?thesis
  proof (cases "r = 0")
    case True
    then have "mappages_loop pt a l pa perm s = Ok (-1, s1)" for l
      using w by (subst mappages_loop.simps) simp
    then show ?thesis using True nil fl inv1 t1 pte1 few by (intro out_of_memory) auto
  next
    case False
    define s2 where
      "s2 = s1\<lparr>pmem := store64 (pmem s1) r (PA2PTE pa OR perm OR PTE_V)\<rparr>"
    have s2: "s2 = s1\<lparr>pmem := store64 (pmem s1) (leaf (pmem s1) 2 pt a)
        (PA2PTE pa OR perm OR PTE_V)\<rparr>"
      by (simp add: s2_def lf)
    note st = store_pte [OF inv1 a(2) _ s2]
    have "load64 (pmem s1) r = pte_of s pt a"
      using load_leaf [OF inv1, of a] False lf pte1 by simp
    then have "load64 (pmem s1) r AND PTE_V = 0" using free by (simp add: valid_def)
    then have "mappages_loop pt a l pa perm s =
        (if a = l then Ok (0, s2) else mappages_loop pt (a + PGSIZE) l (pa + PGSIZE) perm s2)" for l
      using w False by (subst mappages_loop.simps) (simp add: s2_def)
    moreover have "touched s pt used s2"
      using touched_trans [OF t1 st(2)] False lf by simp
    moreover have "PGROUNDDOWN a = a" using a(1) by (simp add: PGROUNDDOWN_id)
    ultimately show ?thesis
      using fl few st False lf pte1 by (intro mapped) auto
  qed
qed

lemma map_post_0:
  "fl = used \<Longrightarrow> as_inv s1 [] 2 pt \<Longrightarrow> touched s pt used s1 \<Longrightarrow> pte_of s1 pt = pte_of s pt \<Longrightarrow>
   length used \<le> 1 \<Longrightarrow>
   map_post s fl pt a (Suc n) pa perm (-1) s1"
  unfolding map_post_def
  by (intro exI [of _ used] exI [of _ "[]"] exI [of _ 0]) (simp add: mapped_run_0)

lemma map_post_Suc:
  assumes a: "page_aligned a" "unat a + 4096 * Suc n \<le> 2 ^ 38"
    and fl: "fl = used @ fl1" and few: "length used \<le> 2" and t: "touched s pt used s1"
    and f1: "\<And>va. va < VATOP \<Longrightarrow> pte_of s1 pt va =
         (if PGROUNDDOWN va = a then PA2PTE pa OR perm OR PTE_V else pte_of s pt va)"
    and post: "map_post s1 fl1 pt (a + PGSIZE) n (pa + PGSIZE) perm r s'"
  shows "map_post s fl pt a (Suc n) pa perm r s'"
proof -
  from post obtain used' fl' k where
    p: "fl1 = used' @ fl'" "as_inv s' fl' 2 pt" "touched s1 pt used' s'" "k \<le> n"
      "r = (if k = n then 0 else -1)" "k < n \<longrightarrow> fl' = []"
      "length used' + (if k < n then 1 else 0) \<le> 2 * k + (if k < n then 2 else 0)"
      "mapped_run (pte_of s1 pt) (pte_of s' pt) (a + PGSIZE) k (pa + PGSIZE) perm"
    unfolding map_post_def by blast
  have "mapped_run (pte_of s pt) (pte_of s' pt) a (Suc k) pa perm"
    by (rule mapped_run_Suc [OF a(1) _ f1 p(8)]) (use a(2) p(4) in auto)
  moreover have "touched s pt (used @ used') s'" by (rule touched_trans [OF t p(3)])
  ultimately show ?thesis
    unfolding map_post_def using p fl few
    by (intro exI [of _ "used @ used'"] exI [of _ fl'] exI [of _ "Suc k"]) simp
qed

lemma mappages_loop_spec:
  "as_inv s fl 2 pt \<Longrightarrow> page_aligned a \<Longrightarrow> unat a + 4096 * Suc n \<le> 2 ^ 38 \<Longrightarrow>
   (\<And>va. in_run a (Suc n) va \<Longrightarrow> \<not> valid (pte_of s pt va)) \<Longrightarrow>
   \<exists>r s'. mappages_loop pt a (a + of_nat n * PGSIZE) pa perm s = Ok (r, s') \<and>
     map_post s fl pt a (Suc n) pa perm r s'"
proof (induction n arbitrary: a pa s fl)
  case (0 a pa s fl)
  have "a < MAXVA" using 0 by (simp add: MAXVA_val word_less_nat_alt)
  moreover have "\<not> valid (pte_of s pt a)" using 0 by (simp add: in_run_def)
  ultimately show ?case
  proof (rule mappages_iter [OF 0(1,2), where pa = pa and perm = perm], goal_cases)
    case (1 used s1)
    then show ?case using map_post_0 [OF 1(1-5)] by auto
  next
    case (2 used fl' s2)
    have "map_post s2 fl' pt (a + PGSIZE) 0 (pa + PGSIZE) perm 0 s2"
      unfolding map_post_def
      by (intro exI [of _ "[]"] exI [of _ fl'] exI [of _ 0]) (use 2(3) in \<open>simp add: mapped_run_0\<close>)
    from map_post_Suc [OF 0(2,3) 2(1,2,4,5) this] show ?case using 2(6) by simp
  qed
next
  case (Suc n a pa s fl)
  have alt: "a < MAXVA" using Suc.prems(3) by (simp add: MAXVA_val word_less_nat_alt)
  have u: "unat (a + PGSIZE) = unat a + 4096" using Suc.prems(3) by (simp add: unat_word_ariths)
  have l: "a + of_nat (Suc n) * PGSIZE = (a + PGSIZE) + of_nat n * PGSIZE"
    by (simp add: algebra_simps)
  have "unat (a + of_nat (Suc n) * PGSIZE) = unat a + Suc n * 4096"
    using Suc.prems(3) by (simp add: unat_word_ariths unat_of_nat)
  then have ne: "a \<noteq> a + of_nat (Suc n) * PGSIZE" by auto
  have "\<not> valid (pte_of s pt a)" using Suc.prems(4) by (simp add: in_run_def)
  with alt show ?case
  proof (rule mappages_iter [OF Suc.prems(1,2), where pa = pa and perm = perm], goal_cases)
    case (1 used s1)
    then show ?case using map_post_0 [OF 1(1-5)] by auto
  next
    case (2 used fl' s2)
    have al': "page_aligned (a + PGSIZE)" using Suc.prems(2) by (rule page_aligned_add)
    have lim: "unat (a + PGSIZE) + 4096 * Suc n \<le> 2 ^ 38" using Suc.prems(3) u by simp
    have "\<not> valid (pte_of s2 pt va)" if r: "in_run (a + PGSIZE) (Suc n) va" for va
    proof -
      have "va < VATOP" using r lim by (simp add: in_run_def word_less_nat_alt)
      moreover have "in_run a (Suc (Suc n)) va" using r u by (auto simp: in_run_def)
      moreover have "PGROUNDDOWN va \<noteq> a" using r u in_run_1 [OF Suc.prems(2), of va]
        by (auto simp: in_run_def)
      ultimately show ?thesis using 2(5) Suc.prems(4) by simp
    qed
    from Suc.IH [OF 2(3) al' lim this, of "pa + PGSIZE"]
    obtain r s' where r: "mappages_loop pt (a + PGSIZE) (a + PGSIZE + of_nat n * PGSIZE)
        (pa + PGSIZE) perm s2 = Ok (r, s')"
      and post: "map_post s2 fl' pt (a + PGSIZE) (Suc n) (pa + PGSIZE) perm r s'" by blast
    have "mappages_loop pt a (a + of_nat (Suc n) * PGSIZE) pa perm s = Ok (r, s')"
      unfolding 2(6) l using ne r by (simp only: l if_False)
    moreover have "map_post s fl pt a (Suc (Suc n)) pa perm r s'"
      by (rule map_post_Suc [OF Suc.prems(2,3) 2(1,2,4,5) post])
    ultimately show ?case by blast
  qed
qed


lemma mappages_whole_pages:
  assumes "page_aligned va" "unat va + 4096 * Suc m \<le> 2 ^ 38"
  shows "mappages pt va (of_nat (Suc m) * PGSIZE) pa perm s =
    mappages_loop pt va (va + of_nat m * PGSIZE) pa perm s"
proof -
  have "Suc m \<le> 2 ^ 26" using assms(2) by simp
  then have u: "unat (of_nat (Suc m) * PGSIZE :: u64) = 4096 * Suc m"
    by (simp add: unat_word_ariths unat_of_nat del: of_nat_Suc)
  then have "(of_nat (Suc m) * PGSIZE :: u64) mod PGSIZE = 0"
    unfolding page_aligned_mod page_aligned_unat by simp
  moreover have "(of_nat (Suc m) * PGSIZE :: u64) \<noteq> 0" using u by (auto simp: word_unat_eq_iff)
  moreover have "va mod PGSIZE = 0" using assms(1) by (simp add: page_aligned_mod)
  moreover have "va + of_nat (Suc m) * PGSIZE - PGSIZE = va + of_nat m * PGSIZE"
    by (simp add: algebra_simps)
  ultimately show ?thesis unfolding mappages_def by (simp only: simp_thms if_False)
qed

text \<open>\<open>mappages\<close> on a range of whole pages below \<open>MAXVA\<close> with no valid entry in it.\<close>

lemma mappages_spec:
  assumes inv: "as_inv s fl 2 pt" and va: "page_aligned va" "unat va + 4096 * n \<le> 2 ^ 38"
    and n: "0 < n" and free: "\<And>x. in_run va n x \<Longrightarrow> \<not> valid (pte_of s pt x)"
  shows "\<exists>r s'. mappages pt va (of_nat n * PGSIZE) pa perm s = Ok (r, s') \<and>
    map_post s fl pt va n pa perm r s'"
proof -
  obtain m where m: "n = Suc m" using n by (cases n) auto
  show ?thesis
    using mappages_loop_spec [OF inv va(1), of m pa perm] va(2) free
      mappages_whole_pages [OF va(1), of m pt pa perm s] unfolding m by auto
qed

lemma mappages_page:
  assumes "as_inv s fl 2 pt" "page_aligned va" "va < MAXVA" "\<not> valid (pte_of s pt va)"
  shows "\<exists>r s'. mappages pt va PGSIZE pa perm s = Ok (r, s') \<and>
    map_post s fl pt va 1 pa perm r s'"
proof -
  obtain k where k: "unat va = 4096 * k" using assms(2) by (auto simp: page_aligned_unat elim: dvdE)
  have b: "unat va + 4096 * 1 \<le> 2 ^ 38"
    using assms(3) k by (simp add: MAXVA_val word_less_nat_alt)
  have "\<not> valid (pte_of s pt x)" if "in_run va 1 x" for x
    using that assms(4) in_run_1 [OF assms(2), of x] pt_look_PGROUNDDOWN [of "pmem s" 2 pt x]
    by (simp add: pte_of_def)
  then show ?thesis
    using mappages_spec [OF assms(1,2) b, of pa perm] by simp
qed

end
