(* ===== verification/Pt_Unmap.thy ===== *)
theory Pt_Unmap
  imports Pt_Map
begin

text \<open>
  \<open>kalloc\<close> and \<open>kfree\<close> seen from an address space, \<open>uvmunmap\<close> with and without freeing, and
  the lookups \<open>walkaddr\<close>, \<open>ismapped\<close> and \<open>uvmclear\<close>.
\<close>

section \<open>Address spaces and the allocator\<close>

text \<open>Bytes outside the pages in \<open>P\<close> are unchanged.\<close>

definition same_outside :: "u64 set \<Rightarrow> phys \<Rightarrow> phys \<Rightarrow> bool" where
  "same_outside P s s' \<longleftrightarrow>
     kend s' = kend s \<and> (\<forall>p. p \<notin> P \<longrightarrow> same_page (pmem s) (pmem s') p)"

lemma same_outside_refl [simp]: "same_outside P s s"
  by (simp add: same_outside_def)

lemma same_outside_trans:
  "same_outside P s s1 \<Longrightarrow> same_outside Q s1 s2 \<Longrightarrow> same_outside (P \<union> Q) s s2"
  unfolding same_outside_def same_page_def by (metis Un_iff)

lemma same_outside_mono: "same_outside P s s' \<Longrightarrow> P \<subseteq> Q \<Longrightarrow> same_outside Q s s'"
  by (auto simp: same_outside_def)

lemma touched_outside: "touched s pt used s' \<Longrightarrow> same_outside (tables s pt \<union> set used) s s'"
  by (simp add: touched_def same_outside_def)

text \<open>An address space does not depend on pages outside its tables and the free list.\<close>

lemma space_frame:
  assumes tree: "pt_tree (usable s) (pmem s) 2 pt" and out: "same_outside P s s'"
    and P: "tables s pt \<inter> P = {}"
  shows "pt_tree (usable s') (pmem s') 2 pt" "tables s' pt = tables s pt"
    "pte_of s' pt = pte_of s pt" "leaf (pmem s') 2 pt = leaf (pmem s) 2 pt"
proof -
  have us: "usable s' = usable s" using out by (intro usable_kend) (simp add: same_outside_def)
  have pg: "\<And>p. p \<in> tables s pt \<Longrightarrow> same_page (pmem s) (pmem s') p"
    using out P by (auto simp: same_outside_def)
  have "pt_tree (usable s) (pmem s') 2 pt \<and> tables s' pt = tables s pt \<and>
    pt_look (pmem s') 2 pt = pt_look (pmem s) 2 pt \<and> leaf (pmem s') 2 pt = leaf (pmem s) 2 pt"
    by (rule pt_frame [OF tp.ok_al tree pg])
  then have fr: "pt_tree (usable s) (pmem s') 2 pt" "tables s' pt = tables s pt"
    "pt_look (pmem s') 2 pt = pt_look (pmem s) 2 pt" "leaf (pmem s') 2 pt = leaf (pmem s) 2 pt"
    by blast+
  show "pt_tree (usable s') (pmem s') 2 pt" unfolding us by (rule fr)
  show "tables s' pt = tables s pt" by (rule fr)
  show "pte_of s' pt = pte_of s pt" unfolding pte_of_def fr ..
  show "leaf (pmem s') 2 pt = leaf (pmem s) 2 pt" by (rule fr)
qed

lemma kalloc_as_inv:
  assumes inv: "as_inv s fl 2 pt" and ka: "kalloc s = (p, s')"
  obtains (out_of_memory) "p = 0" "fl = []" "s' = s"
  | (page) rest where "fl = p # rest" "p \<noteq> 0" "usable s p" "as_inv s' rest 2 pt"
      "p \<notin> tables s pt \<union> set rest" "same_outside {p} s s'" "tables s' pt = tables s pt"
      "pte_of s' pt = pte_of s pt"
proof -
  have tree: "pt_tree (usable s) (pmem s) 2 pt" and free: "free_pages s fl"
    and dis: "tables s pt \<inter> set fl = {}"
    using inv by (auto simp: as_inv_def)
  from free ka show ?thesis
  proof (cases rule: ka.alloc_cases)
    case out_of_memory
    then show ?thesis by (rule that(1))
  next
    case (page rest)
    have "kend s' = kend s" using ka by (auto simp: kalloc_def Let_def split: if_splits)
    then have out: "same_outside {p} s s'" using page by (simp add: same_outside_def)
    have "tables s pt \<inter> {p} = {}" using dis page by auto
    note fr = space_frame [OF tree out this]
    have "as_inv s' rest 2 pt" using fr page dis by (auto simp: as_inv_def)
    then show ?thesis using page fr out dis by (intro that(2)) auto
  qed
qed

lemma kfree_as_inv:
  assumes inv: "as_inv s fl 2 pt" and p: "usable s p" "p \<notin> tables s pt \<union> set fl"
  shows "\<exists>s'. kfree p s = Ok s' \<and> as_inv s' (p # fl) 2 pt \<and> same_outside {p} s s' \<and>
    tables s' pt = tables s pt \<and> pte_of s' pt = pte_of s pt \<and>
    leaf (pmem s') 2 pt = leaf (pmem s) 2 pt"
proof -
  have tree: "pt_tree (usable s) (pmem s) 2 pt" and free: "free_pages s fl"
    and dis: "tables s pt \<inter> set fl = {}"
    using inv by (auto simp: as_inv_def)
  from kfree_spec [OF free p(1)] p(2) obtain m where
    k: "kfree p s = Ok (s\<lparr>pmem := m, freelist := p\<rparr>)"
    and free': "free_pages (s\<lparr>pmem := m, freelist := p\<rparr>) (p # fl)"
    and fr: "\<forall>q. q \<noteq> p \<longrightarrow> same_page (pmem s) m q" by auto
  define s' where "s' = s\<lparr>pmem := m, freelist := p\<rparr>"
  have out: "same_outside {p} s s'" using fr by (simp add: same_outside_def s'_def)
  have "tables s pt \<inter> {p} = {}" using p by auto
  note sf = space_frame [OF tree out this]
  have "as_inv s' (p # fl) 2 pt"
    using sf free' p dis unfolding as_inv_def by (auto simp: s'_def)
  then show ?thesis using k sf out by (auto simp: s'_def)
qed

section \<open>uvmunmap\<close>

text \<open>The pages mapped in a run of \<open>n\<close> pages from \<open>a\<close>, in address order.\<close>

fun run_pages :: "(u64 \<Rightarrow> u64) \<Rightarrow> u64 \<Rightarrow> nat \<Rightarrow> u64 list" where
  "run_pages f a 0 = []"
| "run_pages f a (Suc n) =
     (if valid (f a) then [PTE2PA (f a)] else []) @ run_pages f (a + PGSIZE) n"

text \<open>\<open>uvmunmap\<close> zeroes the valid entries of the run and leaves the others.\<close>

definition cleared_run :: "(u64 \<Rightarrow> u64) \<Rightarrow> (u64 \<Rightarrow> u64) \<Rightarrow> u64 \<Rightarrow> nat \<Rightarrow> bool" where
  "cleared_run f f' a n \<longleftrightarrow>
     (\<forall>va < VATOP. f' va = (if in_run a n va \<and> valid (f va) then 0 else f va))"

lemma cleared_run_0 [simp]: "cleared_run f f a 0"
  by (simp add: cleared_run_def)

lemma run_pages_cong:
  "unat a + 4096 * n \<le> 2 ^ 38 \<Longrightarrow> (\<And>va. in_run a n va \<Longrightarrow> f va = g va) \<Longrightarrow>
   run_pages f a n = run_pages g a n"
proof (induction n arbitrary: a)
  case (Suc n)
  have u: "unat (a + PGSIZE) = unat a + 4096" using Suc.prems(1) by (simp add: unat_word_ariths)
  have "f a = g a" using Suc.prems(2) [of a] by (simp add: in_run_def)
  moreover have "run_pages f (a + PGSIZE) n = run_pages g (a + PGSIZE) n"
    using Suc.prems u by (intro Suc.IH) (auto simp: in_run_def)
  ultimately show ?case by simp
qed simp

lemma cleared_run_Suc:
  assumes a: "page_aligned a" "unat a + 4096 * Suc n \<le> 2 ^ 38"
    and f1: "\<And>va. va < VATOP \<Longrightarrow>
      f1 va = (if PGROUNDDOWN va = a \<and> valid (f va) then 0 else f va)"
    and f2: "cleared_run f1 f2 (a + PGSIZE) n"
  shows "cleared_run f f2 a (Suc n)"
  unfolding cleared_run_def
proof (intro allI impI)
  fix va assume va: "va < VATOP"
  show "f2 va = (if in_run a (Suc n) va \<and> valid (f va) then 0 else f va)"
    using f2 va f1 [OF va] in_run_Suc [OF a, of va] by (auto simp: cleared_run_def)
qed

lemma pte_of_PGROUNDDOWN: "pte_of s pt (PGROUNDDOWN va) = pte_of s pt va"
  by (simp add: pte_of_def pt_look_PGROUNDDOWN)

definition unmap_post :: "phys \<Rightarrow> u64 list \<Rightarrow> u64 \<Rightarrow> u64 \<Rightarrow> nat \<Rightarrow> u64 list \<Rightarrow> phys \<Rightarrow> bool" where
  "unmap_post s fl pt a n freed s' \<longleftrightarrow> as_inv s' (rev freed @ fl) 2 pt \<and>
     same_outside (tables s pt \<union> set freed) s s' \<and> tables s' pt = tables s pt \<and>
     cleared_run (pte_of s pt) (pte_of s' pt) a n"

text \<open>What \<open>uvmunmap\<close> may free: usable pages, no two equal, none a table page or free.\<close>

definition releasable :: "phys \<Rightarrow> u64 list \<Rightarrow> u64 \<Rightarrow> u64 list \<Rightarrow> bool" where
  "releasable s fl pt ps \<longleftrightarrow> distinct ps \<and> (\<forall>p \<in> set ps. usable s p) \<and>
     set ps \<inter> (tables s pt \<union> set fl) = {}"

text \<open>One iteration of the loop.\<close>

lemma uvmunmap_iter:
  assumes inv: "as_inv s fl 2 pt" and a: "page_aligned a" "a < MAXVA" "a < e"
    and rel: "do_free \<longrightarrow> releasable s fl pt (run_pages (pte_of s pt) a 1)"
  shows "\<exists>s1. uvmunmap_loop pt a e do_free s = uvmunmap_loop pt (a + PGSIZE) e do_free s1 \<and>
    as_inv s1 ((if do_free then run_pages (pte_of s pt) a 1 else []) @ fl) 2 pt \<and>
    same_outside (tables s pt \<union> (if do_free then set (run_pages (pte_of s pt) a 1) else {})) s s1 \<and>
    tables s1 pt = tables s pt \<and>
    (\<forall>va. va < VATOP \<longrightarrow> pte_of s1 pt va =
       (if PGROUNDDOWN va = a \<and> valid (pte_of s pt va) then 0 else pte_of s pt va))"
proof -
  let ?lf = "leaf (pmem s) 2 pt a"
  have w: "walk pt a False s = Ok (?lf, s)" using a by (simp add: walk_def not_le)
  have same: "pte_of s pt va = pte_of s pt a" if "PGROUNDDOWN va = a" for va
    using that pte_of_PGROUNDDOWN [of s pt va] by simp
  show ?thesis
  proof (cases "valid (pte_of s pt a)")
    case False
    have "uvmunmap_loop pt a e do_free s = uvmunmap_loop pt (a + PGSIZE) e do_free s"
      using a(3) w load_leaf [OF inv, of a] False
      by (subst uvmunmap_loop.simps) (auto simp: valid_def)
    moreover have "\<forall>va. va < VATOP \<longrightarrow> pte_of s pt va =
       (if PGROUNDDOWN va = a \<and> valid (pte_of s pt va) then 0 else pte_of s pt va)"
      using same False by metis
    ultimately show ?thesis using False inv by (intro exI [of _ s]) simp
  next
    case True
    let ?p = "PTE2PA (pte_of s pt a)"
    have lf: "?lf \<noteq> 0" using True no_leaf [OF inv, of a] by auto
    have ld: "load64 (pmem s) ?lf = pte_of s pt a" by (rule load_leaf [OF inv lf])
    obtain s0 where s0: "(if do_free then kfree ?p s else Ok s) = Ok s0"
      and inv0: "as_inv s0 ((if do_free then [?p] else []) @ fl) 2 pt"
      and out0: "same_outside (if do_free then {?p} else {}) s s0"
      and t0: "tables s0 pt = tables s pt" and pt0: "pte_of s0 pt = pte_of s pt"
      and lf0: "leaf (pmem s0) 2 pt = leaf (pmem s) 2 pt"
    proof (cases do_free)
      case True
      have "usable s ?p" "?p \<notin> tables s pt \<union> set fl"
        using rel True \<open>valid (pte_of s pt a)\<close> by (auto simp: releasable_def)
      from kfree_as_inv [OF inv this] show ?thesis using that True by auto
    next
      case False
      then show ?thesis using that [of s] inv by simp
    qed
    define s1 where "s1 = s0\<lparr>pmem := store64 (pmem s0) ?lf 0\<rparr>"
    have "leaf (pmem s0) 2 pt a \<noteq> 0" using lf lf0 by simp
    note st = store_pte [OF inv0 a(2) this, of s1 0]
    have s1: "s1 = s0\<lparr>pmem := store64 (pmem s0) (leaf (pmem s0) 2 pt a) 0\<rparr>"
      by (simp add: s1_def lf0)
    note st = st [OF s1]
    have "uvmunmap_loop pt a e do_free s = uvmunmap_loop pt (a + PGSIZE) e do_free s1"
      using a(3) w lf ld True s0
      by (subst uvmunmap_loop.simps) (cases do_free; simp add: valid_def s1_def)
    moreover have "same_outside (tables s pt \<union> (if do_free then {?p} else {})) s s1"
      using same_outside_trans [OF out0 touched_outside [OF st(2)]] t0
      by (simp add: Un_commute)
    moreover have "tables s1 pt = tables s pt" using st(2) t0 by (simp add: touched_def)
    moreover have "as_inv s1 ((if do_free then run_pages (pte_of s pt) a 1 else []) @ fl) 2 pt"
      using st(1) True by (cases do_free) simp_all
    moreover have "pte_of s1 pt va =
        (if PGROUNDDOWN va = a \<and> valid (pte_of s pt va) then 0 else pte_of s pt va)"
      if "va < VATOP" for va
    proof -
      have "PGROUNDDOWN a = a" using a(1) by (simp flip: PGROUNDDOWN_id)
      then have "pte_of s1 pt va = (if PGROUNDDOWN va = a then 0 else pte_of s pt va)"
        using st(4) [OF that] pt0 by simp
      then show ?thesis using same [of va] True by simp
    qed
    moreover have "same_outside
        (tables s pt \<union> (if do_free then set (run_pages (pte_of s pt) a 1) else {})) s s1"
      using calculation(2) True by (cases do_free) simp_all
    ultimately show ?thesis by blast
  qed
qed

lemma uvmunmap_loop_spec:
  "as_inv s fl 2 pt \<Longrightarrow> page_aligned a \<Longrightarrow> unat a + 4096 * n \<le> 2 ^ 38 \<Longrightarrow>
   (do_free \<longrightarrow> releasable s fl pt (run_pages (pte_of s pt) a n)) \<Longrightarrow>
   \<exists>s'. uvmunmap_loop pt a (a + of_nat n * PGSIZE) do_free s = Ok s' \<and>
     unmap_post s fl pt a n (if do_free then run_pages (pte_of s pt) a n else []) s'"
proof (induction n arbitrary: a s fl)
  case 0
  then show ?case by (subst uvmunmap_loop.simps) (simp add: unmap_post_def)
next
  case (Suc n a s fl)
  let ?ps = "run_pages (pte_of s pt) a 1"
  let ?qs = "run_pages (pte_of s pt) (a + PGSIZE) n"
  have split: "run_pages (pte_of s pt) a (Suc n) = ?ps @ ?qs" by simp
  have u: "unat (a + PGSIZE) = unat a + 4096" using Suc.prems(3) by (simp add: unat_word_ariths)
  have e: "a + of_nat (Suc n) * PGSIZE = (a + PGSIZE) + of_nat n * PGSIZE"
    by (simp add: algebra_simps)
  have "unat (a + of_nat (Suc n) * PGSIZE) = unat a + Suc n * 4096"
    using Suc.prems(3) by (simp add: unat_word_ariths unat_of_nat)
  then have lt: "a < a + of_nat (Suc n) * PGSIZE" by (simp only: word_less_nat_alt) simp
  have va: "a < MAXVA" using Suc.prems(3) by (simp add: MAXVA_val word_less_nat_alt)
  have "do_free \<longrightarrow> releasable s fl pt ?ps"
    using Suc.prems(4) split by (auto simp: releasable_def)
  from uvmunmap_iter [OF Suc.prems(1,2) va lt this] obtain s1 where
    l: "uvmunmap_loop pt a (a + of_nat (Suc n) * PGSIZE) do_free s =
        uvmunmap_loop pt (a + PGSIZE) (a + of_nat (Suc n) * PGSIZE) do_free s1"
    and inv1: "as_inv s1 ((if do_free then ?ps else []) @ fl) 2 pt"
    and out1: "same_outside (tables s pt \<union> (if do_free then set ?ps else {})) s s1"
    and t1: "tables s1 pt = tables s pt"
    and f1: "\<forall>va. va < VATOP \<longrightarrow> pte_of s1 pt va =
       (if PGROUNDDOWN va = a \<and> valid (pte_of s pt va) then 0 else pte_of s pt va)"
    by blast
  have al: "page_aligned (a + PGSIZE)" using Suc.prems(2) by (rule page_aligned_add)
  have lim: "unat (a + PGSIZE) + 4096 * n \<le> 2 ^ 38" using Suc.prems(3) u by simp
  have qs: "run_pages (pte_of s1 pt) (a + PGSIZE) n = ?qs"
  proof (rule run_pages_cong [OF lim])
    fix x assume r: "in_run (a + PGSIZE) n x"
    then have "x < VATOP" using lim by (simp add: in_run_def word_less_nat_alt)
    moreover have "PGROUNDDOWN x \<noteq> a"
      using r u in_run_1 [OF Suc.prems(2), of x] by (auto simp: in_run_def)
    ultimately show "pte_of s1 pt x = pte_of s pt x" using f1 by simp
  qed
  have us: "usable s1 = usable s" using out1 by (intro usable_kend) (simp add: same_outside_def)
  have "do_free \<longrightarrow> releasable s1 ((if do_free then ?ps else []) @ fl) pt
      (run_pages (pte_of s1 pt) (a + PGSIZE) n)"
    using Suc.prems(4) unfolding qs split by (auto simp: releasable_def t1 us)
  from Suc.IH [OF inv1 al lim this] obtain s' where
    s': "uvmunmap_loop pt (a + PGSIZE) (a + PGSIZE + of_nat n * PGSIZE) do_free s1 = Ok s'"
    and post: "unmap_post s1 ((if do_free then ?ps else []) @ fl) pt (a + PGSIZE) n
      (if do_free then ?qs else []) s'" unfolding qs by blast
  have "rev ?ps = ?ps" by simp
  moreover have "cleared_run (pte_of s pt) (pte_of s' pt) a (Suc n)"
    by (rule cleared_run_Suc [OF Suc.prems(2,3), of "pte_of s1 pt"])
      (use f1 post in \<open>simp_all add: unmap_post_def\<close>)
  moreover have "same_outside (tables s pt \<union> (if do_free then set (?ps @ ?qs) else {})) s s'"
    by (rule same_outside_mono [OF same_outside_trans [OF out1]])
      (use post t1 in \<open>auto simp: unmap_post_def\<close>)
  ultimately have "unmap_post s fl pt a (Suc n)
      (if do_free then run_pages (pte_of s pt) a (Suc n) else []) s'"
    using post t1 unfolding split unmap_post_def by (cases do_free) auto
  moreover have "uvmunmap_loop pt a (a + of_nat (Suc n) * PGSIZE) do_free s = Ok s'"
    using l s' by (simp only: e)
  ultimately show ?case by blast
qed

lemma uvmunmap_spec:
  assumes "as_inv s fl 2 pt" "page_aligned va" "unat va + 4096 * n \<le> 2 ^ 38"
    "do_free \<longrightarrow> releasable s fl pt (run_pages (pte_of s pt) va n)"
  shows "\<exists>s'. uvmunmap pt va (of_nat n) do_free s = Ok s' \<and>
     unmap_post s fl pt va n (if do_free then run_pages (pte_of s pt) va n else []) s'"
  using uvmunmap_loop_spec [OF assms] assms(2) by (simp add: uvmunmap_def page_aligned_mod)

section \<open>Lookups\<close>

lemma walk_lookup: "va < MAXVA \<Longrightarrow> walk pt va False s = Ok (leaf (pmem s) 2 pt va, s)"
  by (simp add: walk_def not_le)

lemma walkaddr_spec:
  assumes "as_inv s fl 2 pt"
  shows "walkaddr pt va s =
    Ok (if va < MAXVA \<and> valid (pte_of s pt va) \<and> bit (pte_of s pt va) 4
        then PTE2PA (pte_of s pt va) else 0, s)"
proof (cases "va < MAXVA")
  case va: True
  then have ge: "\<not> MAXVA \<le> va" by simp
  show ?thesis
  proof (cases "leaf (pmem s) 2 pt va = 0")
    case True
    then show ?thesis using no_leaf [OF assms True] va ge by (simp add: walkaddr_def walk_lookup)
  next
    case False
    then show ?thesis
      using load_leaf [OF assms False] va ge
      by (simp add: walkaddr_def walk_lookup valid_def test_pte_bits Let_def)
  qed
qed (simp add: walkaddr_def not_le)

lemma ismapped_spec:
  assumes "as_inv s fl 2 pt" "va < MAXVA"
  shows "ismapped pt va s = Ok (if valid (pte_of s pt va) then 1 else 0, s)"
proof (cases "leaf (pmem s) 2 pt va = 0")
  case True
  then show ?thesis using no_leaf [OF assms(1) True] assms(2) by (simp add: ismapped_def walk_lookup)
next
  case False
  then show ?thesis
    using load_leaf [OF assms(1) False] assms(2) by (simp add: ismapped_def walk_lookup valid_def)
qed

lemma uvmclear_spec:
  assumes inv: "as_inv s fl 2 pt" and va: "va < MAXVA" and v: "valid (pte_of s pt va)"
  shows "\<exists>s'. uvmclear pt va s = Ok s' \<and> as_inv s' fl 2 pt \<and> touched s pt [] s' \<and>
    (\<forall>x. x < VATOP \<longrightarrow> pte_of s' pt x =
       (if PGROUNDDOWN x = PGROUNDDOWN va then pte_of s pt va AND NOT PTE_U else pte_of s pt x))"
proof -
  have lf: "leaf (pmem s) 2 pt va \<noteq> 0" using v no_leaf [OF inv, of va] by auto
  define s' where
    "s' = s\<lparr>pmem := store64 (pmem s) (leaf (pmem s) 2 pt va) (pte_of s pt va AND NOT PTE_U)\<rparr>"
  have "uvmclear pt va s = Ok s'"
    using lf va load_leaf [OF inv lf] by (simp add: uvmclear_def walk_lookup s'_def)
  then show ?thesis using store_pte [OF inv va lf s'_def] by blast
qed

end
