(* ===== verification/User_Vm.thy ===== *)
theory User_Vm
  imports Pt_Unmap
begin

text \<open>
  The rest of \<open>Proyecto3/kernel/vm.c\<close>: growing, shrinking, freeing and copying a user
  address space, lazy allocation on a page fault, copies between kernel and user memory,
  the page-table printer, and the kernel's own page table. The kernel buffers of
  \<open>copyout\<close>, \<open>copyin\<close> and \<open>copyinstr\<close> are byte lists: the source buffer of \<open>copyout\<close> is an
  argument, and the bytes the other two write to \<open>dst\<close> are part of their result.
\<close>

section \<open>Sizes of an address space\<close>

definition uvmdealloc :: "u64 \<Rightarrow> u64 \<Rightarrow> u64 \<Rightarrow> phys \<Rightarrow> (u64 \<times> phys) res" where
  "uvmdealloc pagetable oldsz newsz s =
     (if newsz \<ge> oldsz then Ok (oldsz, s)
      else if PGROUNDUP newsz < PGROUNDUP oldsz
      then let npages = (ucast ((PGROUNDUP oldsz - PGROUNDUP newsz) div PGSIZE) :: u32)
           in bnd (uvmunmap pagetable (PGROUNDUP newsz) (scast npages) True s)
                (\<lambda>s. Ok (newsz, s))
      else Ok (newsz, s))"

lemma mappages_below: "mappages pagetable va sz pa perm s = Ok r \<Longrightarrow> va < MAXVA"
  by (auto simp: mappages_def mappages_loop.simps [of pagetable va] res_simps walk_def
      split: if_splits)

function uvmalloc_loop :: "u64 \<Rightarrow> u64 \<Rightarrow> u64 \<Rightarrow> u64 \<Rightarrow> u64 \<Rightarrow> phys \<Rightarrow> (u64 \<times> phys) res" where
  "uvmalloc_loop pagetable a oldsz newsz xperm s =
     (if a < newsz
      then (case kalloc s of (mem, s) \<Rightarrow>
        if mem = 0
        then bnd (uvmdealloc pagetable a oldsz s) (\<lambda>(_, s). Ok (0, s))
        else let s = s\<lparr>pmem := memset (pmem s) mem 0 PGSIZE\<rparr>
             in bnd (mappages pagetable a PGSIZE mem (PTE_R OR PTE_U OR xperm) s)
                  (\<lambda>r. case r of (r, s) \<Rightarrow>
                     if r \<noteq> 0
                     then bnd (kfree mem s) (\<lambda>s.
                            bnd (uvmdealloc pagetable a oldsz s) (\<lambda>(_, s). Ok (0, s)))
                     else uvmalloc_loop pagetable (a + PGSIZE) oldsz newsz xperm s))
      else Ok (newsz, s))"
  by pat_completeness auto
termination
  by (relation "measure (\<lambda>(pt, a, osz, n, x, s). 274877906944 - unat a)")
    (auto dest!: mappages_below intro!: walk_step_measure)

declare uvmalloc_loop.simps [simp del]

definition uvmalloc :: "u64 \<Rightarrow> u64 \<Rightarrow> u64 \<Rightarrow> u64 \<Rightarrow> phys \<Rightarrow> (u64 \<times> phys) res" where
  "uvmalloc pagetable oldsz newsz xperm s =
     (if newsz < oldsz then Ok (oldsz, s)
      else let oldsz = PGROUNDUP oldsz in uvmalloc_loop pagetable oldsz oldsz newsz xperm s)"

text \<open>
  \<open>freewalk\<close> recurses into the table of each interior entry. On a cyclic structure the C
  code would not return; the model has no value there. The index \<open>i\<close> is the loop variable
  and 512 the end of the loop, where the page itself is freed.
\<close>

partial_function (option) freewalk_from :: "u64 \<Rightarrow> u64 \<Rightarrow> phys \<Rightarrow> phys res option" where
  "freewalk_from pagetable i s =
     (if i < 512
      then let pte = load64 (pmem s) (slot pagetable i)
           in if pte AND PTE_V \<noteq> 0 \<and> pte AND (PTE_R OR PTE_W OR PTE_X) = 0
              then Option.bind (freewalk_from (PTE2PA pte) 0 s) (\<lambda>r.
                case r of Panic e \<Rightarrow> Some (Panic e)
                | Ok s \<Rightarrow> freewalk_from pagetable (i + 1)
                    (s\<lparr>pmem := store64 (pmem s) (slot pagetable i) 0\<rparr>))
              else if pte AND PTE_V \<noteq> 0 then Some (Panic ''freewalk: leaf'')
              else freewalk_from pagetable (i + 1) s
      else Some (kfree pagetable s))"

definition freewalk :: "u64 \<Rightarrow> phys \<Rightarrow> phys res option" where
  "freewalk pagetable s = freewalk_from pagetable 0 s"

definition uvmfree :: "u64 \<Rightarrow> u64 \<Rightarrow> phys \<Rightarrow> phys res option" where
  "uvmfree pagetable sz s =
     (case (if sz > 0 then uvmunmap pagetable 0 (PGROUNDUP sz div PGSIZE) True s else Ok s) of
        Panic e \<Rightarrow> Some (Panic e)
      | Ok s \<Rightarrow> freewalk pagetable s)"

section \<open>Copying an address space\<close>

definition uvmcopy_err :: "u64 \<Rightarrow> u64 \<Rightarrow> phys \<Rightarrow> (int \<times> phys) res" where
  "uvmcopy_err new i s = bnd (uvmunmap new 0 (i div PGSIZE) True s) (\<lambda>s. Ok (-1, s))"

function uvmcopy_loop :: "u64 \<Rightarrow> u64 \<Rightarrow> u64 \<Rightarrow> u64 \<Rightarrow> phys \<Rightarrow> (int \<times> phys) res" where
  "uvmcopy_loop old new i sz s =
     (if i < sz
      then bnd (walk old i False s) (\<lambda>r. case r of (pte, s) \<Rightarrow>
        if pte = 0 then uvmcopy_loop old new (i + PGSIZE) sz s
        else if load64 (pmem s) pte AND PTE_V = 0 then uvmcopy_loop old new (i + PGSIZE) sz s
        else let pa = PTE2PA (load64 (pmem s) pte);
                 flags = PTE_FLAGS (load64 (pmem s) pte)
             in (case kalloc s of (mem, s) \<Rightarrow>
                  if mem = 0 then uvmcopy_err new i s
                  else let s = s\<lparr>pmem := memmove (pmem s) mem pa PGSIZE\<rparr>
                       in bnd (mappages new i PGSIZE mem flags s) (\<lambda>r. case r of (r, s) \<Rightarrow>
                            if r \<noteq> 0 then bnd (kfree mem s) (\<lambda>s. uvmcopy_err new i s)
                            else uvmcopy_loop old new (i + PGSIZE) sz s)))
      else Ok (0, s))"
  by pat_completeness auto
termination
  by (relation "measure (\<lambda>(old, n, i, sz, s). 274877906944 - unat i)")
    (auto dest!: walk_below intro!: walk_step_measure)

declare uvmcopy_loop.simps [simp del]

definition uvmcopy :: "u64 \<Rightarrow> u64 \<Rightarrow> u64 \<Rightarrow> phys \<Rightarrow> (int \<times> phys) res" where
  "uvmcopy old new sz s = uvmcopy_loop old new 0 sz s"

section \<open>Page faults and copies between kernel and user memory\<close>

definition vmfault :: "u64 \<Rightarrow> u64 \<Rightarrow> u64 \<Rightarrow> bool \<Rightarrow> phys \<Rightarrow> (u64 \<times> phys) res" where
  "vmfault pagetable psz va read s =
     (if va \<ge> psz then Ok (0, s)
      else let va = PGROUNDDOWN va
           in bnd (ismapped pagetable va s) (\<lambda>(b, s).
                if b \<noteq> 0 then Ok (0, s)
                else case kalloc s of (mem, s) \<Rightarrow>
                  if mem = 0 then Ok (0, s)
                  else let s = s\<lparr>pmem := memset (pmem s) mem 0 PGSIZE\<rparr>
                       in bnd (mappages pagetable va PGSIZE mem (PTE_W OR PTE_U OR PTE_R) s)
                            (\<lambda>(r, s). if r \<noteq> 0
                               then bnd (kfree mem s) (\<lambda>s. Ok (0, s))
                               else Ok (mem, s))))"

text \<open>\<open>pa0 = walkaddr(...)\<close>, then \<open>vmfault\<close> when it is 0: the start of every copy step.\<close>

definition user_page :: "u64 \<Rightarrow> u64 \<Rightarrow> u64 \<Rightarrow> bool \<Rightarrow> phys \<Rightarrow> (u64 \<times> phys) res" where
  "user_page pagetable psz va0 read s =
     bnd (walkaddr pagetable va0 s) (\<lambda>(pa0, s).
       if pa0 = 0 then vmfault pagetable psz va0 read s else Ok (pa0, s))"

definition chunk :: "u64 \<Rightarrow> u64 \<Rightarrow> u64" where
  "chunk va len = (let n = PGSIZE - (va - PGROUNDDOWN va) in if n > len then len else n)"

lemma chunk_pos: "0 < len \<Longrightarrow> 0 < chunk va len"
proof -
  have "0 < PGSIZE - (va - PGROUNDDOWN va)"
    using PGROUNDDOWN_offset [of va] unfolding word_neq_0_conv [symmetric] by auto
  then show "0 < len \<Longrightarrow> 0 < chunk va len" by (simp add: chunk_def Let_def)
qed

lemma chunk_le: "chunk va len \<le> len"
  by (auto simp: chunk_def Let_def not_less)

lemma chunk_measure: "0 < len \<Longrightarrow> unat (len - chunk va len) < unat len"
  using chunk_pos [of len va] chunk_le [of va len]
  by (simp add: unat_sub word_less_nat_alt word_le_nat_alt)

function copyout_loop :: "u64 \<Rightarrow> u64 \<Rightarrow> u64 \<Rightarrow> u8 list \<Rightarrow> u64 \<Rightarrow> phys \<Rightarrow> (int \<times> phys) res" where
  "copyout_loop pagetable psz dstva src len s =
     (if len > 0
      then let va0 = PGROUNDDOWN dstva
           in if va0 \<ge> MAXVA then Ok (-1, s)
              else bnd (user_page pagetable psz va0 False s) (\<lambda>r. case r of (pa0, s) \<Rightarrow>
                if pa0 = 0 then Ok (-1, s)
                else bnd (walk pagetable va0 False s) (\<lambda>r. case r of (pte, s) \<Rightarrow>
                  if load64 (pmem s) pte AND PTE_W = 0 then Ok (-1, s)
                  else let n = chunk dstva len;
                           s = s\<lparr>pmem := write_bytes (pmem s) (pa0 + (dstva - va0))
                                          (take (unat n) src)\<rparr>
                       in copyout_loop pagetable psz (va0 + PGSIZE) (drop (unat n) src)
                            (len - n) s))
      else Ok (0, s))"
  by pat_completeness auto
termination
  by (relation "measure (\<lambda>(pt, psz, d, src, len, s). unat len)") (auto intro!: chunk_measure)

declare copyout_loop.simps [simp del]

definition copyout :: "u64 \<Rightarrow> u64 \<Rightarrow> u64 \<Rightarrow> u8 list \<Rightarrow> phys \<Rightarrow> (int \<times> phys) res" where
  "copyout pagetable psz dstva src s =
     copyout_loop pagetable psz dstva src (of_nat (length src)) s"

text \<open>\<open>copyin\<close> returns its C result and the bytes it has written to \<open>dst\<close>.\<close>

function copyin :: "u64 \<Rightarrow> u64 \<Rightarrow> u64 \<Rightarrow> u64 \<Rightarrow> phys \<Rightarrow> (int \<times> u8 list \<times> phys) res" where
  "copyin pagetable psz srcva len s =
     (if len > 0
      then let va0 = PGROUNDDOWN srcva
           in bnd (user_page pagetable psz va0 True s) (\<lambda>r. case r of (pa0, s) \<Rightarrow>
                if pa0 = 0 then Ok (-1, [], s)
                else let n = chunk srcva len;
                         bs = read_bytes (pmem s) (pa0 + (srcva - va0)) (unat n)
                     in bnd (copyin pagetable psz (va0 + PGSIZE) (len - n) s)
                          (\<lambda>(r, bs', s). Ok (r, bs @ bs', s)))
      else Ok (0, [], s))"
  by pat_completeness auto
termination
  by (relation "measure (\<lambda>(pt, psz, d, len, s). unat len)") (auto intro!: chunk_measure)

declare copyin.simps [simp del]

text \<open>The inner loop of \<open>copyinstr\<close>: the bytes copied, and whether the NUL was among them.\<close>

fun str_chunk :: "mem \<Rightarrow> u64 \<Rightarrow> nat \<Rightarrow> u8 list \<times> bool" where
  "str_chunk m p 0 = ([], False)"
| "str_chunk m p (Suc n) =
     (if m p = 0 then ([0], True)
      else case str_chunk m (p + 1) n of (bs, got_null) \<Rightarrow> (m p # bs, got_null))"

function copyinstr :: "u64 \<Rightarrow> u64 \<Rightarrow> u64 \<Rightarrow> u64 \<Rightarrow> phys \<Rightarrow> (int \<times> u8 list \<times> phys) res" where
  "copyinstr pagetable psz srcva max_len s =
     (if max_len > 0
      then let va0 = PGROUNDDOWN srcva
           in bnd (user_page pagetable psz va0 True s) (\<lambda>r. case r of (pa0, s) \<Rightarrow>
                if pa0 = 0 then Ok (-1, [], s)
                else let n = chunk srcva max_len
                     in case str_chunk (pmem s) (pa0 + (srcva - va0)) (unat n) of
                          (bs, got_null) \<Rightarrow>
                            if got_null then Ok (0, bs, s)
                            else bnd (copyinstr pagetable psz (va0 + PGSIZE) (max_len - n) s)
                                   (\<lambda>(r, bs', s). Ok (r, bs @ bs', s)))
      else Ok (-1, [], s))"
  by pat_completeness auto
termination
  by (relation "measure (\<lambda>(pt, psz, d, len, s). unat len)") (auto intro!: chunk_measure)

declare copyinstr.simps [simp del]

section \<open>Printing a page table\<close>

text \<open>One constructor per \<open>printk\<close> call of \<open>vmprint\<close>, with its arguments.\<close>

datatype printed = Page_table u64 | Dots | Pte_line u64 u64 u64

primrec vmprint_nivel :: "mem \<Rightarrow> nat \<Rightarrow> u64 \<Rightarrow> u64 \<Rightarrow> printed list" where
  "vmprint_nivel m 0 pagetable va =
     concat (map (\<lambda>i. let pte = load64 m (slot pagetable (of_nat i));
                          vaini = va + push_bit PGSHIFT (of_nat i)
                      in if pte AND PTE_V = 0 then []
                         else replicate 3 Dots @ [Pte_line vaini pte (PTE2PA pte)]) [0..<512])"
| "vmprint_nivel m (Suc level) pagetable va =
     concat (map (\<lambda>i. let pte = load64 m (slot pagetable (of_nat i));
                          vaini = va + push_bit (PGSHIFT + 9 * Suc level) (of_nat i)
                      in if pte AND PTE_V = 0 then []
                         else replicate (3 - Suc level) Dots @ [Pte_line vaini pte (PTE2PA pte)] @
                              (if pte AND (PTE_R OR PTE_W OR PTE_X) = 0
                               then vmprint_nivel m level (PTE2PA pte) vaini else [])) [0..<512])"

definition vmprint :: "u64 \<Rightarrow> phys \<Rightarrow> printed list" where
  "vmprint pagetable s = Page_table pagetable # vmprint_nivel (pmem s) 2 pagetable 0"

section \<open>The kernel page table\<close>

definition kvmmap :: "u64 \<Rightarrow> u64 \<Rightarrow> u64 \<Rightarrow> u64 \<Rightarrow> u64 \<Rightarrow> phys \<Rightarrow> phys res" where
  "kvmmap kpgtbl va pa sz perm s =
     bnd (mappages kpgtbl va sz pa perm s) (\<lambda>(r, s).
       if r \<noteq> 0 then Panic ''kvmmap'' else Ok s)"

text \<open>
  \<open>proc_mapstacks\<close> of \<open>proc.c\<close>, over the indices \<open>p - proc\<close> still to map; \<open>NPROC\<close> is a
  constant of the missing \<open>param.h\<close>.
\<close>

primrec proc_mapstacks_loop :: "nat list \<Rightarrow> u64 \<Rightarrow> phys \<Rightarrow> phys res" where
  "proc_mapstacks_loop [] kpgtbl s = Ok s"
| "proc_mapstacks_loop (i # is) kpgtbl s =
     (case kalloc s of (pa, s) \<Rightarrow>
        if pa = 0 then Panic ''kalloc''
        else bnd (kvmmap kpgtbl (KSTACK (of_nat i)) pa PGSIZE (PTE_R OR PTE_W) s)
               (\<lambda>s. proc_mapstacks_loop is kpgtbl s))"

definition proc_mapstacks :: "nat \<Rightarrow> u64 \<Rightarrow> phys \<Rightarrow> phys res" where
  "proc_mapstacks nproc kpgtbl s = proc_mapstacks_loop [0..<nproc] kpgtbl s"

text \<open>\<open>etext\<close> and \<open>trampoline\<close> are addresses fixed by the linker script.\<close>

definition kvmmake :: "nat \<Rightarrow> u64 \<Rightarrow> u64 \<Rightarrow> phys \<Rightarrow> (u64 \<times> phys) res" where
  "kvmmake nproc etext trampoline s =
     (case kalloc s of (kpgtbl, s) \<Rightarrow>
       bnd (kvmmap kpgtbl UART0 UART0 PGSIZE (PTE_R OR PTE_W)
              (s\<lparr>pmem := memset (pmem s) kpgtbl 0 PGSIZE\<rparr>)) (\<lambda>s.
       bnd (kvmmap kpgtbl VIRTIO0 VIRTIO0 PGSIZE (PTE_R OR PTE_W) s) (\<lambda>s.
       bnd (kvmmap kpgtbl PLIC PLIC 0x4000000 (PTE_R OR PTE_W) s) (\<lambda>s.
       bnd (kvmmap kpgtbl KERNBASE KERNBASE (etext - KERNBASE) (PTE_R OR PTE_X) s) (\<lambda>s.
       bnd (kvmmap kpgtbl etext etext (PHYSTOP - etext) (PTE_R OR PTE_W) s) (\<lambda>s.
       bnd (kvmmap kpgtbl TRAMPOLINE trampoline PGSIZE (PTE_R OR PTE_X) s) (\<lambda>s.
       bnd (proc_mapstacks nproc kpgtbl s) (\<lambda>s. Ok (kpgtbl, s)))))))))"

end
