(* ===== verification/Vm_Space.thy ===== *)
theory Vm_Space
  imports User_Vm
begin

text \<open>
  The invariant of a user address space: a well-formed table tree, apart from the free
  list, whose entries below \<open>TRAPFRAME\<close> map pages of their own. \<open>account\<close> is the set of
  pages the space and the free list hold together; an operation that keeps it leaks no
  page. The two steps every operation is made of, mapping a fresh page and unmapping a
  run, are shown to keep the invariant and the account.
\<close>

section \<open>The invariant\<close>

definition mapped :: "phys \<Rightarrow> u64 \<Rightarrow> u64 \<Rightarrow> bool" where
  "mapped s pt va \<longleftrightarrow> va < TRAPFRAME \<and> valid (pte_of s pt va)"

definition page_of :: "phys \<Rightarrow> u64 \<Rightarrow> u64 \<Rightarrow> u64" where
  "page_of s pt va = PTE2PA (pte_of s pt va)"

definition upages :: "phys \<Rightarrow> u64 \<Rightarrow> u64 set" where
  "upages s pt = page_of s pt ` Collect (mapped s pt)"

definition uspace :: "phys \<Rightarrow> u64 list \<Rightarrow> u64 \<Rightarrow> bool" where
  "uspace s fl pt \<longleftrightarrow> as_inv s fl 2 pt \<and>
     (\<forall>p \<in> upages s pt. usable s p \<and> p \<notin> tables s pt \<union> set fl) \<and>
     (\<forall>va va'. mapped s pt va \<longrightarrow> mapped s pt va' \<longrightarrow> page_of s pt va = page_of s pt va' \<longrightarrow>
        PGROUNDDOWN va = PGROUNDDOWN va') \<and>
     (\<forall>va < VATOP. TRAPFRAME \<le> va \<longrightarrow> valid (pte_of s pt va) \<longrightarrow>
        va < MAXVA \<and> \<not> bit (pte_of s pt va) 4)"

definition account :: "phys \<Rightarrow> u64 list \<Rightarrow> u64 \<Rightarrow> u64 set" where
  "account s fl pt = set fl \<union> tables s pt \<union> upages s pt"

lemma TRAPFRAME_MAXVA: "va < TRAPFRAME \<Longrightarrow> va < MAXVA"
  by (simp add: TRAPFRAME_val MAXVA_val word_less_nat_alt)

lemma TRAPFRAME_VATOP: "va < TRAPFRAME \<Longrightarrow> va < VATOP"
  by (simp add: TRAPFRAME_val word_less_nat_alt)

lemma uspace_as_inv: "uspace s fl pt \<Longrightarrow> as_inv s fl 2 pt"
  by (simp add: uspace_def)

lemma page_of_PGROUNDDOWN: "page_of s pt (PGROUNDDOWN va) = page_of s pt va"
  by (simp add: page_of_def pte_of_PGROUNDDOWN)

lemma mapped_upages: "mapped s pt va \<Longrightarrow> page_of s pt va \<in> upages s pt"
  by (auto simp: upages_def)

lemma uspace_page:
  assumes "uspace s fl pt" "mapped s pt va"
  shows "usable s (page_of s pt va)" "page_of s pt va \<notin> tables s pt" "page_of s pt va \<notin> set fl"
  using assms mapped_upages [OF assms(2)] by (auto simp: uspace_def)

lemma uspace_high:
  "uspace s fl pt \<Longrightarrow> va < VATOP \<Longrightarrow> TRAPFRAME \<le> va \<Longrightarrow> valid (pte_of s pt va) \<Longrightarrow>
   va < MAXVA \<and> \<not> bit (pte_of s pt va) 4"
  by (simp add: uspace_def)

lemma uspace_inj:
  "uspace s fl pt \<Longrightarrow> mapped s pt va \<Longrightarrow> mapped s pt va' \<Longrightarrow>
   page_of s pt va = page_of s pt va' \<Longrightarrow> PGROUNDDOWN va = PGROUNDDOWN va'"
  unfolding uspace_def by blast

text \<open>A space is not changed by writes outside its tables and the free list.\<close>

lemma same_outside_usable: "same_outside P s s' \<Longrightarrow> usable s' = usable s"
  by (intro usable_kend) (simp add: same_outside_def)

definition same_map :: "phys \<Rightarrow> phys \<Rightarrow> u64 \<Rightarrow> bool" where
  "same_map s s' pt \<longleftrightarrow> (\<forall>va < VATOP. pte_of s' pt va = pte_of s pt va)"

lemma same_map_refl [simp]: "same_map s s pt"
  by (simp add: same_map_def)

lemma same_map_trans: "same_map s s1 pt \<Longrightarrow> same_map s1 s2 pt \<Longrightarrow> same_map s s2 pt"
  by (simp add: same_map_def)

lemma same_map_mapped: "same_map s s' pt \<Longrightarrow> mapped s' pt va \<longleftrightarrow> mapped s pt va"
  using TRAPFRAME_VATOP [of va] by (auto simp: mapped_def same_map_def)

lemma same_map_page: "same_map s s' pt \<Longrightarrow> mapped s pt va \<Longrightarrow> page_of s' pt va = page_of s pt va"
  using TRAPFRAME_VATOP [of va] by (auto simp: mapped_def same_map_def page_of_def)

lemma upages_cong: "same_map s s' pt \<Longrightarrow> upages s' pt = upages s pt"
  by (auto simp: upages_def same_map_mapped same_map_page image_iff)

lemma uspace_cong:
  assumes "uspace s fl pt" "as_inv s' fl' 2 pt" "same_map s s' pt"
    "usable s' = usable s" "upages s pt \<inter> (tables s' pt \<union> set fl') = {}"
  shows "uspace s' fl' pt"
proof -
  have "usable s' p \<and> p \<notin> tables s' pt \<union> set fl'" if "p \<in> upages s' pt" for p
    using that assms upages_cong [OF assms(3)] by (auto simp: uspace_def)
  moreover have "PGROUNDDOWN va = PGROUNDDOWN va'"
    if "mapped s' pt va" "mapped s' pt va'" "page_of s' pt va = page_of s' pt va'" for va va'
    using that uspace_inj [OF assms(1), of va va']
    by (simp add: same_map_mapped [OF assms(3)] same_map_page [OF assms(3)])
  moreover have "\<forall>va < VATOP. TRAPFRAME \<le> va \<longrightarrow> valid (pte_of s' pt va) \<longrightarrow>
      va < MAXVA \<and> \<not> bit (pte_of s' pt va) 4"
    using assms(1,3) by (simp add: uspace_def same_map_def)
  ultimately show ?thesis using assms(2) unfolding uspace_def by blast
qed

section \<open>Mapping a fresh page\<close>

lemma below_TRAPFRAME_page: "page_aligned va \<Longrightarrow> va < TRAPFRAME \<Longrightarrow> PGROUNDDOWN x = va \<Longrightarrow> x < TRAPFRAME"
proof -
  assume va: "page_aligned va" "va < TRAPFRAME" "PGROUNDDOWN x = va"
  have "x - va < PGSIZE" using va by (simp add: page_region)
  moreover obtain k where "unat va = 4096 * k" using va(1) by (auto simp: page_aligned_unat elim: dvdE)
  moreover have "va \<le> x" using PGROUNDDOWN_le [of x] va(3) by simp
  ultimately show ?thesis
    using va(2) by (simp add: TRAPFRAME_val word_less_nat_alt word_le_nat_alt unat_sub)
qed

lemma PTE2PA_leaf:
  "page_aligned p \<Longrightarrow> perm < 1024 \<Longrightarrow> PTE2PA (PA2PTE p OR perm OR PTE_V) = p"
proof -
  assume al: "page_aligned p" and "perm < 1024"
  then have "perm AND mask 10 = perm" by (intro less_mask_eq) simp
  moreover have "PTE_V AND mask 10 = PTE_V" by (simp add: PTE_V_def masks [symmetric])
  ultimately have "(perm OR PTE_V) AND mask 10 = perm OR PTE_V"
    by (simp add: bit.conj_disj_distrib2)
  then have "perm OR PTE_V < 1024"
    using and_mask_less' [of 10 "perm OR PTE_V"] by simp
  then show ?thesis using PTE2PA_PA2PTE [OF al, of "perm OR PTE_V"] by (simp add: or.assoc)
qed

lemma valid_leaf [simp]: "valid (e OR perm OR PTE_V)"
  by (simp add: valid_def test_pte_bits bit_or_iff bit_pte_bits)

text \<open>\<open>s\<close> with the page at \<open>va\<close> added.\<close>

lemma uspace_add:
  assumes us: "uspace s fl pt" and va: "page_aligned va" "va < TRAPFRAME"
    and new: "\<not> valid (pte_of s pt va)"
    and inv: "as_inv s' fl' 2 pt" and usable: "usable s' = usable s"
    and p: "usable s p" "perm < 1024" "p \<notin> upages s pt" "p \<notin> tables s' pt" "p \<notin> set fl'"
    and dis: "upages s pt \<inter> (tables s' pt \<union> set fl') = {}"
    and pte: "\<And>x. x < VATOP \<Longrightarrow> pte_of s' pt x =
      (if PGROUNDDOWN x = va then PA2PTE p OR perm OR PTE_V else pte_of s pt x)"
  shows "uspace s' fl' pt" "upages s' pt = insert p (upages s pt)"
proof -
  have al: "page_aligned p" using p(1) by (rule usable_aligned)
  have nv: "\<not> mapped s pt x" if "PGROUNDDOWN x = va" for x
    using that new pte_of_PGROUNDDOWN [of s pt x] by (simp add: mapped_def)
  have m: "mapped s' pt x \<longleftrightarrow> mapped s pt x \<or> PGROUNDDOWN x = va" for x
    using pte [of x] TRAPFRAME_VATOP [of x] below_TRAPFRAME_page [OF va, of x] nv
    by (auto simp: mapped_def)
  have pg: "page_of s' pt x = (if PGROUNDDOWN x = va then p else page_of s pt x)"
    if "mapped s' pt x" for x
    using that pte [of x] TRAPFRAME_VATOP [of x] PTE2PA_leaf [OF al p(2)]
    by (auto simp: mapped_def page_of_def)
  have idv: "PGROUNDDOWN va = va" using va(1) by (simp flip: PGROUNDDOWN_id)
  show up: "upages s' pt = insert p (upages s pt)"
  proof
    show "upages s' pt \<subseteq> insert p (upages s pt)"
      using m pg by (auto simp: upages_def)
    have "p \<in> upages s' pt"
      using m [of va] pg [of va] idv mapped_upages [of s' pt va] by simp
    moreover have "page_of s pt x \<in> upages s' pt" if "mapped s pt x" for x
      using that m [of x] pg [of x] nv [of x] mapped_upages [of s' pt x] by (auto split: if_splits)
    ultimately show "insert p (upages s pt) \<subseteq> upages s' pt"
      by (auto simp: upages_def [of s])
  qed
  have inj: "PGROUNDDOWN x = PGROUNDDOWN y"
    if "mapped s' pt x" "mapped s' pt y" "page_of s' pt x = page_of s' pt y" for x y
  proof (cases "PGROUNDDOWN x = va \<or> PGROUNDDOWN y = va")
    case True
    then show ?thesis
      using that m [of x] m [of y] pg [of x] pg [of y] p(3) mapped_upages [of s pt x]
        mapped_upages [of s pt y] by (auto split: if_splits)
  next
    case False
    then show ?thesis
      using that m [of x] m [of y] pg [of x] pg [of y] uspace_inj [OF us, of x y] by auto
  qed
  have "usable s' q \<and> q \<notin> tables s' pt \<union> set fl'" if "q \<in> upages s' pt" for q
    using that up us p dis usable by (auto simp: uspace_def)
  moreover have "valid (pte_of s' pt x) \<longrightarrow> x < MAXVA \<and> \<not> bit (pte_of s' pt x) 4"
    if "x < VATOP" "TRAPFRAME \<le> x" for x
  proof -
    have "PGROUNDDOWN x \<noteq> va"
      using below_TRAPFRAME_page [OF va, of x] that(2) by auto
    then show ?thesis using that pte us by (simp add: uspace_def)
  qed
  ultimately show "uspace s' fl' pt" using inv inj unfolding uspace_def by blast
qed

text \<open>The step shared by \<open>uvmalloc\<close>, \<open>vmfault\<close> and \<open>uvmcopy\<close>, in its three outcomes.\<close>

lemma map_fresh:
  assumes us: "uspace s fl pt" and va: "page_aligned va" "va < TRAPFRAME"
    and new: "\<not> valid (pte_of s pt va)" and perm: "perm < 1024"
    and ka: "kalloc s = (mem, s1)" and nz: "mem \<noteq> 0"
    and s2: "s2 = s1\<lparr>pmem := m2\<rparr>" and m2: "\<And>q. q \<noteq> mem \<Longrightarrow> same_page (pmem s1) m2 q"
  obtains (mapped) s3 fl' where
      "mappages pt va PGSIZE mem perm s2 = Ok (0, s3)" "uspace s3 fl' pt"
      "account s3 fl' pt = account s fl pt" "same_outside (tables s pt \<union> set fl) s s3"
      "same_page m2 (pmem s3) mem" "usable s mem" "mem \<notin> upages s pt" "set fl' \<subseteq> set fl"
      "mem \<in> set fl"
      "\<forall>x < VATOP. pte_of s3 pt x =
         (if PGROUNDDOWN x = va then PA2PTE mem OR perm OR PTE_V else pte_of s pt x)"
      "length fl \<le> length fl' + 3"
  | (no_table) s3 s4 where
      "mappages pt va PGSIZE mem perm s2 = Ok (-1, s3)" "kfree mem s3 = Ok s4"
      "uspace s4 [mem] pt" "account s4 [mem] pt = account s fl pt"
      "same_outside (tables s pt \<union> set fl) s s4" "same_map s s4 pt" "mem \<in> set fl" "length fl \<le> 2"
proof -
  have inv: "as_inv s fl 2 pt" and own: "\<And>q. q \<in> upages s pt \<Longrightarrow> usable s q \<and> q \<notin> tables s pt \<union> set fl"
    using us by (auto simp: uspace_def)
  from inv ka obtain rest where fl: "fl = mem # rest" and um: "usable s mem"
    and inv1: "as_inv s1 rest 2 pt" and mem: "mem \<notin> tables s pt \<union> set rest"
    and out1: "same_outside {mem} s s1" and t1: "tables s1 pt = tables s pt"
    and p1: "pte_of s1 pt = pte_of s pt"
    by (cases rule: kalloc_as_inv) (use nz in auto)
  have out12: "same_outside {mem} s1 s2" using m2 by (simp add: same_outside_def s2)
  have tree1: "pt_tree (usable s1) (pmem s1) 2 pt" using inv1 by (simp add: as_inv_def)
  have "tables s1 pt \<inter> {mem} = {}" using mem t1 by auto
  note fr = space_frame [OF tree1 out12 this]
  have "free_pages s2 rest"
    unfolding s2 by (rule free_pages_frame) (use inv1 mem in \<open>auto simp: as_inv_def intro!: m2\<close>)
  then have inv2: "as_inv s2 rest 2 pt" using fr inv1 by (simp add: as_inv_def)
  have out2: "same_outside {mem} s s2" using same_outside_trans [OF out1 out12] by simp
  have t2: "tables s2 pt = tables s pt" and p2: "pte_of s2 pt = pte_of s pt"
    using fr t1 p1 by simp_all
  have "\<not> valid (pte_of s2 pt va)" using new p2 by simp
  from mappages_page [OF inv2 va(1) TRAPFRAME_MAXVA [OF va(2)] this, of mem perm]
  obtain r s3 where mp: "mappages pt va PGSIZE mem perm s2 = Ok (r, s3)"
    and post: "map_post s2 rest pt va 1 mem perm r s3" by blast
  from post obtain used fl' k where rest: "rest = used @ fl'" and inv3: "as_inv s3 fl' 2 pt"
    and tou: "touched s2 pt used s3" and k: "k \<le> 1" "r = (if k = 1 then 0 else -1)"
      "k < 1 \<longrightarrow> fl' = []"
    and few: "length used + (if k < 1 then 1 else 0) \<le> 2 * k + (if k < 1 then 2 else 0)"
    and run: "mapped_run (pte_of s2 pt) (pte_of s3 pt) va k mem perm"
    unfolding map_post_def by blast
  have "same_outside ({mem} \<union> (tables s2 pt \<union> set used)) s s3"
    by (rule same_outside_trans [OF out2 touched_outside [OF tou]])
  then have out3: "same_outside (tables s pt \<union> set fl) s s3"
    by (rule same_outside_mono) (auto simp: t2 fl rest)
  have t3: "tables s3 pt = tables s pt \<union> set used" using tou t2 by (simp add: touched_def)
  have us3: "usable s3 = usable s" by (rule same_outside_usable [OF out3])
  have mem_own: "mem \<notin> upages s pt" using own fl by auto
  have mem3: "mem \<notin> tables s3 pt" "mem \<notin> set fl'" using mem t3 rest by auto
  have dis: "upages s pt \<inter> (tables s3 pt \<union> set fl') = {}"
    using own t3 fl rest by fastforce
  have dist: "distinct rest" using inv1 by (simp add: as_inv_def free_pages_def)
  show ?thesis
  proof (cases "k = 1")
    case True
    have pte: "pte_of s3 pt x =
        (if PGROUNDDOWN x = va then PA2PTE mem OR perm OR PTE_V else pte_of s pt x)"
      if "x < VATOP" for x
      using run that in_run_1 [OF va(1), of x] True p2 by (simp add: mapped_run_def)
    note add = uspace_add [OF us va new inv3 us3 um perm mem_own mem3 dis pte]
    have "account s3 fl' pt = account s fl pt"
      using add(2) t3 fl rest by (auto simp: account_def)
    moreover have "same_page m2 (pmem s3) mem"
      using tou t2 mem rest by (auto simp: touched_def s2)
    moreover have "set fl' \<subseteq> set fl" using fl rest by auto
    moreover have "length fl \<le> length fl' + 3" using fl rest few True by simp
    ultimately show ?thesis
      using mp k True add(1) out3 um mem_own pte fl rest
      by (intro that(1) [of s3 fl']) simp_all
  next
    case False
    then have k0: "k = 0" "r = -1" "fl' = []" using k by auto
    have pte: "same_map s s3 pt"
      using run k0 p2 by (simp add: mapped_run_def same_map_def)
    have "usable s3 mem" using um us3 by simp
    from kfree_as_inv [OF inv3 this] mem3 obtain s4 where
      kf: "kfree mem s3 = Ok s4" and inv4: "as_inv s4 [mem] 2 pt"
      and out34: "same_outside {mem} s3 s4" and t4: "tables s4 pt = tables s3 pt"
      and p4: "pte_of s4 pt = pte_of s3 pt" using k0 by auto
    have out4: "same_outside (tables s pt \<union> set fl) s s4"
      by (rule same_outside_mono [OF same_outside_trans [OF out3 out34]]) (use fl in auto)
    have "upages s pt \<inter> (tables s4 pt \<union> set [mem]) = {}" using dis mem_own t4 by auto
    moreover have "usable s4 = usable s" by (rule same_outside_usable [OF out4])
    moreover have p: "same_map s s4 pt" using p4 pte by (simp add: same_map_def)
    ultimately have "uspace s4 [mem] pt" by (intro uspace_cong [OF us inv4]) auto
    moreover have "account s4 [mem] pt = account s fl pt"
      using upages_cong [OF p] t4 t3 fl rest k0 by (auto simp: account_def)
    moreover have "length fl \<le> 2" using fl rest k0 few by simp
    ultimately show ?thesis using that(2) mp k0 kf out4 p fl by simp
  qed
qed

section \<open>Unmapping a run\<close>

lemma in_run_page: "page_aligned a \<Longrightarrow> PGROUNDDOWN x = PGROUNDDOWN y \<Longrightarrow> in_run a n x \<longleftrightarrow> in_run a n y"
proof -
  assume a: "page_aligned a" "PGROUNDDOWN x = PGROUNDDOWN y"
  obtain k where k: "unat a = 4096 * k" using a(1) by (auto simp: page_aligned_unat elim: dvdE)
  have "in_run a n z \<longleftrightarrow> k \<le> unat z div 4096 \<and> unat z div 4096 < k + n" for z
    using k by (auto simp: in_run_def)
  moreover have "unat x div 4096 = unat y div 4096"
    using arg_cong [OF a(2), of unat] by (simp add: unat_PGROUNDDOWN minus_mod_eq_mult_div)
  ultimately show ?thesis by simp
qed

lemma in_run_split:
  assumes "page_aligned a" "unat a + 4096 * Suc n \<le> unat TRAPFRAME"
  shows "in_run a (Suc n) va \<longleftrightarrow> PGROUNDDOWN va = a \<or> in_run (a + PGSIZE) n va"
    "\<not> (PGROUNDDOWN va = a \<and> in_run (a + PGSIZE) n va)"
proof -
  have "unat (a + PGSIZE) = unat a + 4096"
    using assms(2) by (simp add: unat_word_ariths TRAPFRAME_val)
  then show "\<not> (PGROUNDDOWN va = a \<and> in_run (a + PGSIZE) n va)"
    using in_run_1 [OF assms(1), of va] by (auto simp: in_run_def)
  show "in_run a (Suc n) va \<longleftrightarrow> PGROUNDDOWN va = a \<or> in_run (a + PGSIZE) n va"
    using in_run_Suc [OF assms(1)] assms(2) by (simp add: TRAPFRAME_val)
qed

lemma run_limit_Suc:
  assumes "unat a + 4096 * Suc n \<le> unat TRAPFRAME"
  shows "unat (a + PGSIZE) + 4096 * n \<le> unat TRAPFRAME" "a < TRAPFRAME"
  using assms by (simp_all add: unat_word_ariths TRAPFRAME_val word_less_nat_alt)

lemma run_pages_mapped:
  "page_aligned a \<Longrightarrow> unat a + 4096 * n \<le> unat TRAPFRAME \<Longrightarrow>
   set (run_pages (pte_of s pt) a n) = page_of s pt ` {va. mapped s pt va \<and> in_run a n va}"
proof (induction n arbitrary: a)
  case (Suc n)
  note lim = run_limit_Suc [OF Suc.prems(2)]
  have IH: "set (run_pages (pte_of s pt) (a + PGSIZE) n) =
      page_of s pt ` {va. mapped s pt va \<and> in_run (a + PGSIZE) n va}"
    using Suc.prems(1) lim by (intro Suc.IH page_aligned_add)
  have eq: "pte_of s pt va = pte_of s pt a" if "PGROUNDDOWN va = a" for va
    using that pte_of_PGROUNDDOWN [of s pt va] by simp
  have ida: "PGROUNDDOWN a = a" using Suc.prems(1) by (simp flip: PGROUNDDOWN_id)
  let ?A = "{va. mapped s pt va \<and> PGROUNDDOWN va = a}"
  have img: "page_of s pt ` ?A = (if valid (pte_of s pt a) then {PTE2PA (pte_of s pt a)} else {})"
  proof (cases "valid (pte_of s pt a)")
    case True
    then have "a \<in> ?A" using ida lim(2) by (simp add: mapped_def)
    moreover have "page_of s pt x = page_of s pt a" if "x \<in> ?A" for x
      using that page_of_PGROUNDDOWN [of s pt x] by simp
    ultimately have "page_of s pt ` ?A = {page_of s pt a}" by blast
    then show ?thesis using True by (simp add: page_of_def)
  next
    case False
    have "?A = {}" using False eq by (simp add: mapped_def) metis
    then show ?thesis using False by simp
  qed
  moreover have "{va. mapped s pt va \<and> in_run a (Suc n) va} =
      {va. mapped s pt va \<and> PGROUNDDOWN va = a} \<union>
      {va. mapped s pt va \<and> in_run (a + PGSIZE) n va}"
    using in_run_split(1) [OF Suc.prems] by auto
  ultimately show ?case using IH img by (simp add: image_Un)
qed simp

lemma run_pages_distinct:
  "uspace s fl pt \<Longrightarrow> page_aligned a \<Longrightarrow> unat a + 4096 * n \<le> unat TRAPFRAME \<Longrightarrow>
   distinct (run_pages (pte_of s pt) a n)"
proof (induction n arbitrary: a)
  case (Suc n)
  note lim = run_limit_Suc [OF Suc.prems(3)]
  have al: "page_aligned (a + PGSIZE)" using Suc.prems(2) by (rule page_aligned_add)
  have "PTE2PA (pte_of s pt a) \<notin> set (run_pages (pte_of s pt) (a + PGSIZE) n)"
    if v: "valid (pte_of s pt a)"
  proof
    assume "PTE2PA (pte_of s pt a) \<in> set (run_pages (pte_of s pt) (a + PGSIZE) n)"
    then obtain va where va: "mapped s pt va" "in_run (a + PGSIZE) n va"
      "page_of s pt a = page_of s pt va"
      unfolding run_pages_mapped [OF al lim(1)] by (auto simp: page_of_def)
    have "mapped s pt a" using v lim(2) by (simp add: mapped_def)
    from uspace_inj [OF Suc.prems(1) this va(1,3)] have "PGROUNDDOWN va = a"
      using Suc.prems(2) by (simp add: PGROUNDDOWN_id)
    then show False using va(2) in_run_split(2) [OF Suc.prems(2,3)] by blast
  qed
  then show ?case using Suc.IH [OF Suc.prems(1) al lim(1)] by simp
qed simp

lemma unmap_owned:
  assumes us: "uspace s fl pt" and a: "page_aligned a" "unat a + 4096 * n \<le> unat TRAPFRAME"
  shows "\<exists>s' fl'. uvmunmap pt a (of_nat n) True s = Ok s' \<and> uspace s' fl' pt \<and>
    fl' = rev (run_pages (pte_of s pt) a n) @ fl \<and>
    account s' fl' pt = account s fl pt \<and> tables s' pt = tables s pt \<and>
    same_outside (tables s pt \<union> set (run_pages (pte_of s pt) a n)) s s' \<and>
    cleared_run (pte_of s pt) (pte_of s' pt) a n"
proof -
  let ?ps = "run_pages (pte_of s pt) a n"
  have ps: "set ?ps = page_of s pt ` {va. mapped s pt va \<and> in_run a n va}"
    by (rule run_pages_mapped [OF a])
  then have sub: "set ?ps \<subseteq> upages s pt" by (auto simp: upages_def)
  have inv: "as_inv s fl 2 pt" and own: "\<forall>p \<in> upages s pt. usable s p \<and> p \<notin> tables s pt \<union> set fl"
    using us by (auto simp: uspace_def)
  have "True \<longrightarrow> releasable s fl pt ?ps"
    using run_pages_distinct [OF us a] own sub by (auto simp: releasable_def)
  moreover have "unat a + 4096 * n \<le> 2 ^ 38" using a(2) by (simp add: TRAPFRAME_val)
  ultimately obtain s' where s': "uvmunmap pt a (of_nat n) True s = Ok s'"
    and post: "unmap_post s fl pt a n ?ps s'"
    using uvmunmap_spec [OF inv a(1), of n True] by auto
  from post have inv': "as_inv s' (rev ?ps @ fl) 2 pt"
    and out: "same_outside (tables s pt \<union> set ?ps) s s'" and t: "tables s' pt = tables s pt"
    and clr: "cleared_run (pte_of s pt) (pte_of s' pt) a n" by (auto simp: unmap_post_def)
  have m: "mapped s' pt va \<longleftrightarrow> mapped s pt va \<and> \<not> in_run a n va" for va
    using clr TRAPFRAME_VATOP [of va] by (auto simp: cleared_run_def mapped_def split: if_splits)
  have pg: "page_of s' pt va = page_of s pt va" if "mapped s' pt va" for va
    using that m [of va] clr TRAPFRAME_VATOP [of va]
    by (auto simp: cleared_run_def mapped_def page_of_def split: if_splits)
  have up: "upages s' pt = upages s pt - set ?ps"
  proof
    show "upages s' pt \<subseteq> upages s pt - set ?ps"
    proof
      fix p assume "p \<in> upages s' pt"
      then obtain va where va: "mapped s pt va" "\<not> in_run a n va" "p = page_of s pt va"
        using m pg by (auto simp: upages_def)
      have "p \<notin> set ?ps"
      proof
        assume "p \<in> set ?ps"
        then obtain va' where va': "mapped s pt va'" "in_run a n va'" "p = page_of s pt va'"
          using ps by auto
        then have "PGROUNDDOWN va = PGROUNDDOWN va'" using uspace_inj [OF us va(1) va'(1)] va by simp
        then show False using va va' in_run_page [OF a(1)] by metis
      qed
      then show "p \<in> upages s pt - set ?ps" using va mapped_upages by auto
    qed
    show "upages s pt - set ?ps \<subseteq> upages s' pt"
    proof
      fix p assume "p \<in> upages s pt - set ?ps"
      then obtain va where "mapped s pt va" "\<not> in_run a n va" "p = page_of s pt va"
        using ps by (auto simp: upages_def)
      then show "p \<in> upages s' pt" using m [of va] pg [of va] mapped_upages [of s' pt va] by simp
    qed
  qed
  have us': "usable s' = usable s" by (rule same_outside_usable [OF out])
  have "usable s' p \<and> p \<notin> tables s' pt \<union> set (rev ?ps @ fl)" if "p \<in> upages s' pt" for p
    using that up own us' t by auto
  moreover have "PGROUNDDOWN va = PGROUNDDOWN va'"
    if "mapped s' pt va" "mapped s' pt va'" "page_of s' pt va = page_of s' pt va'" for va va'
    using that m pg uspace_inj [OF us, of va va'] by auto
  moreover have "valid (pte_of s' pt va) \<longrightarrow> va < MAXVA \<and> \<not> bit (pte_of s' pt va) 4"
    if "va < VATOP" "TRAPFRAME \<le> va" for va
    using clr us that by (auto simp: cleared_run_def uspace_def split: if_splits)
  ultimately have "uspace s' (rev ?ps @ fl) pt" using inv' unfolding uspace_def by blast
  moreover have "account s' (rev ?ps @ fl) pt = account s fl pt"
    using up t sub by (auto simp: account_def)
  ultimately show ?thesis using s' out t clr by blast
qed

end
