(* ===== verification/Vm_Free.thy ===== *)
theory Vm_Free
  imports Vm_Space
begin

text \<open>
  \<open>freewalk\<close> and \<open>uvmfree\<close>: once no leaf is mapped, every table page goes back to the free
  list exactly once, and the recursion returns.
\<close>

section \<open>Tables without leaves\<close>

primrec no_leaves :: "mem \<Rightarrow> nat \<Rightarrow> u64 \<Rightarrow> bool" where
  "no_leaves m 0 t \<longleftrightarrow> (\<forall>i < 512. \<not> valid (ent m t i))"
| "no_leaves m (Suc l) t \<longleftrightarrow>
     (\<forall>i < 512. valid (ent m t i) \<longrightarrow> no_leaves m l (PTE2PA (ent m t i)))"

text \<open>The virtual address with the given three indices.\<close>

definition mk_va :: "u64 \<Rightarrow> u64 \<Rightarrow> u64 \<Rightarrow> u64" where
  "mk_va i2 i1 i0 = push_bit 30 i2 OR push_bit 21 i1 OR push_bit 12 i0"

lemma bit_index: "(i :: u64) < 512 \<Longrightarrow> bit i k \<Longrightarrow> k < 9"
proof -
  assume "i < 512" "bit i k"
  then have "i AND mask 9 = i" by (intro less_mask_eq) simp
  then have "bit (i AND mask 9) k" using \<open>bit i k\<close> by simp
  then show "k < 9" by (simp add: bit_simps)
qed

lemma PX_mk_va:
  assumes "i2 < 512" "i1 < 512" "i0 < 512"
  shows "PX 2 (mk_va i2 i1 i0) = i2" "PX 1 (mk_va i2 i1 i0) = i1" "PX 0 (mk_va i2 i1 i0) = i0"
    "mk_va i2 i1 i0 < VATOP"
proof -
  have b: "bit i2 k \<Longrightarrow> k < 9" "bit i1 k \<Longrightarrow> k < 9" "bit i0 k \<Longrightarrow> k < 9" for k
    using assms bit_index by blast+
  show "PX 2 (mk_va i2 i1 i0) = i2"
    by (rule bit_word_eqI) (auto simp: bit_PX mk_va_def bit_simps dest: b)
  show "PX 1 (mk_va i2 i1 i0) = i1"
    by (rule bit_word_eqI) (auto simp: bit_PX mk_va_def bit_simps dest: b)
  show "PX 0 (mk_va i2 i1 i0) = i0"
    by (rule bit_word_eqI) (auto simp: bit_PX mk_va_def bit_simps dest: b)
  have "mk_va i2 i1 i0 AND mask 39 = mk_va i2 i1 i0"
    by (rule bit_word_eqI) (auto simp: mk_va_def bit_simps dest: b)
  then show "mk_va i2 i1 i0 < VATOP"
    using and_mask_less' [of 39 "mk_va i2 i1 i0"] by simp
qed

lemma no_leaves_lookup:
  assumes "\<forall>va < VATOP. \<not> valid (pt_look m 2 t va)"
  shows "no_leaves m 2 t"
proof -
  have "\<not> valid (ent m (PTE2PA (ent m (PTE2PA (ent m t i2)) i1)) i0)"
    if "i2 < 512" "valid (ent m t i2)" "i1 < 512" "valid (ent m (PTE2PA (ent m t i2)) i1)"
      "i0 < 512" for i2 i1 i0
    using spec [OF assms, of "mk_va i2 i1 i0"] PX_mk_va [of i2 i1 i0] that
    by (simp add: numeral_2_eq_2 Let_def)
  then show ?thesis by (simp add: numeral_2_eq_2)
qed

lemma no_leaves_frame:
  assumes al: "\<And>p. ok p \<Longrightarrow> page_aligned p"
  shows "pt_tree ok m l t \<Longrightarrow> (\<And>p. p \<in> pt_set m l t \<Longrightarrow> same_page m m' p) \<Longrightarrow>
    no_leaves m l t \<Longrightarrow> no_leaves m' l t"
proof (induction l arbitrary: t)
  case 0
  then have "page_aligned t" "same_page m m' t" using al by auto
  then show ?case using 0 by (simp add: load64_slot_same_page)
next
  case (Suc l)
  have "page_aligned t" "same_page m m' t" using Suc.prems al by auto
  then have e: "ent m' t i = ent m t i" if "i < 512" for i
    using that by (simp add: load64_slot_same_page)
  have "no_leaves m' l (PTE2PA (ent m t i))" if "i < 512" "valid (ent m t i)" for i
    using Suc.prems that by (intro Suc.IH) auto
  then show ?case using e by simp
qed

text \<open>Removing the child at index \<open>i\<close>.\<close>

lemma drop_child:
  assumes tree: "pt_tree (usable s) m (Suc l) t" and i: "i < 512" "valid (ent m t i)"
    and e: "\<forall>j < 512. j \<noteq> i \<longrightarrow> ent m' t j = ent m t j" "\<not> valid (ent m' t i)"
    and fr: "\<forall>p. p \<noteq> t \<longrightarrow> p \<notin> pt_set m l (PTE2PA (ent m t i)) \<longrightarrow> same_page m m' p"
    and nl: "no_leaves m (Suc l) t"
  shows "pt_tree (usable s) m' (Suc l) t" "no_leaves m' (Suc l) t"
    "pt_set m (Suc l) t = pt_set m l (PTE2PA (ent m t i)) \<union> pt_set m' (Suc l) t"
    "pt_set m l (PTE2PA (ent m t i)) \<inter> pt_set m' (Suc l) t = {}"
proof -
  let ?c = "\<lambda>j. PTE2PA (ent m t j)"
  have apart: "pt_set m l (?c i) \<inter> pt_set m l (?c j) = {}" "t \<notin> pt_set m l (?c j)"
    if "j < 512" "j \<noteq> i" "valid (ent m t j)" for j
    using tree i that by auto
  have same: "same_page m m' p" if "j < 512" "j \<noteq> i" "valid (ent m t j)" "p \<in> pt_set m l (?c j)" for j p
  proof -
    have "p \<noteq> t" using apart(2) [OF that(1-3)] that(4) by metis
    moreover have "p \<notin> pt_set m l (?c i)"
      using apart(1) [OF that(1-3)] that(4) unfolding disjoint_iff by metis
    ultimately show ?thesis by (rule fr [rule_format])
  qed
  have old: "pt_tree (usable s) m' l (?c j) \<and> pt_set m' l (?c j) = pt_set m l (?c j) \<and>
      pt_look m' l (?c j) = pt_look m l (?c j) \<and> leaf m' l (?c j) = leaf m l (?c j)"
    if "j < 512" "j \<noteq> i" "valid (ent m t j)" for j
  proof (rule pt_frame [OF tp.ok_al _ same [OF that]])
    show "pt_tree (usable s) m l (?c j)" using tree that by simp
  qed
  have oldn: "no_leaves m' l (?c j)" if "j < 512" "j \<noteq> i" "valid (ent m t j)" for j
  proof (rule no_leaves_frame [OF tp.ok_al _ same [OF that]])
    show "pt_tree (usable s) m l (?c j)" using tree that by simp
    show "no_leaves m l (?c j)" using nl that by simp
  qed
  have v': "j < 512 \<and> valid (ent m' t j) \<longleftrightarrow> j < 512 \<and> j \<noteq> i \<and> valid (ent m t j)" for j
    using e by (cases "j = i") auto
  show "no_leaves m' (Suc l) t" using v' e(1) oldn by (simp only: no_leaves.simps) metis
  have set': "pt_set m' (Suc l) t =
      insert t (\<Union>j \<in> {j. j < 512 \<and> j \<noteq> i \<and> valid (ent m t j)}. pt_set m l (?c j))"
    using e old by (simp add: v')
  have "{j. j < 512 \<and> valid (ent m t j)} = insert i {j. j < 512 \<and> j \<noteq> i \<and> valid (ent m t j)}"
    using i by auto
  then show "pt_set m (Suc l) t = pt_set m l (?c i) \<union> pt_set m' (Suc l) t"
    unfolding set' by auto
  show "pt_set m l (?c i) \<inter> pt_set m' (Suc l) t = {}"
    unfolding set' using apart tree i by auto
  have one: "interior (ent m' t j) \<and> pt_tree (usable s) m' l (PTE2PA (ent m' t j)) \<and>
      t \<notin> pt_set m' l (PTE2PA (ent m' t j))" if "j < 512" "valid (ent m' t j)" for j
  proof -
    have j: "j \<noteq> i" "valid (ent m t j)" using v' that by blast+
    then show ?thesis using e(1) old [OF that(1) j] tree that(1) by simp
  qed
  have two: "pt_set m' l (PTE2PA (ent m' t j)) \<inter> pt_set m' l (PTE2PA (ent m' t k)) = {}"
    if "j < 512" "valid (ent m' t j)" "k < 512" "k \<noteq> j" "valid (ent m' t k)" for j k
  proof -
    have j: "j \<noteq> i" "valid (ent m t j)" and k: "k \<noteq> i" "valid (ent m t k)" using v' that by blast+
    then show ?thesis
      using e(1) old [OF that(1) j] old [OF that(3) k] tree that by simp
  qed
  show "pt_tree (usable s) m' (Suc l) t"
    using one two tree by (simp del: pt_set.simps)
qed

section \<open>freewalk\<close>

definition freed :: "phys \<Rightarrow> u64 list \<Rightarrow> nat \<Rightarrow> u64 \<Rightarrow> phys \<Rightarrow> u64 list \<Rightarrow> bool" where
  "freed s fl l t s' fl' \<longleftrightarrow> free_pages s' fl' \<and> set fl' = set fl \<union> pt_set (pmem s) l t \<and>
     same_outside (pt_set (pmem s) l t) s s'"

lemma index_induct [consumes 1, case_names over step]:
  assumes "i \<le> 512" "P 512" "\<And>i :: u64. i < 512 \<Longrightarrow> P (i + 1) \<Longrightarrow> P i"
  shows "P i"
  using assms(1)
proof (induction "512 - unat i" arbitrary: i)
  case 0
  then have "i = 512" by (simp add: word_le_nat_alt word_unat_eq_iff)
  then show ?case using assms(2) by simp
next
  case (Suc n)
  then have lt: "i < 512" by (simp add: word_less_nat_alt)
  then have "unat (i + 1) = unat i + 1" by (simp add: unat_word_ariths word_less_nat_alt)
  then have "P (i + 1)" using Suc lt by (intro Suc.hyps) (auto simp: word_le_nat_alt word_less_nat_alt)
  then show ?case using assms(3) lt by blast
qed

lemma freewalk_empty:
  "i \<le> 512 \<Longrightarrow> (\<forall>j < 512. \<not> valid (ent (pmem s) t j)) \<Longrightarrow> freewalk_from t i s = Some (kfree t s)"
proof (induction i rule: index_induct)
  case over
  show ?case by (simp add: freewalk_from.simps)
next
  case (step i)
  then have "freewalk_from t i s = freewalk_from t (i + 1) s"
    by (subst freewalk_from.simps) (auto simp: valid_def Let_def)
  then show ?case using step by simp
qed

text \<open>One iteration that frees the child at index \<open>i\<close>.\<close>

lemma freewalk_child:
  assumes inv: "as_inv s fl (Suc l) t" and nl: "no_leaves (pmem s) (Suc l) t"
    and i: "i < 512" "valid (ent (pmem s) t i)"
    and sub: "freewalk_from (PTE2PA (ent (pmem s) t i)) 0 s = Some (Ok s1)"
      "freed s fl l (PTE2PA (ent (pmem s) t i)) s1 fl1"
    and s2: "s2 = s1\<lparr>pmem := store64 (pmem s1) (slot t i) 0\<rparr>"
  shows "freewalk_from t i s = freewalk_from t (i + 1) s2" "as_inv s2 fl1 (Suc l) t"
    "no_leaves (pmem s2) (Suc l) t" "same_outside (pt_set (pmem s) (Suc l) t) s s2"
    "pt_set (pmem s2) (Suc l) t \<subseteq> pt_set (pmem s) (Suc l) t"
    "set fl1 \<union> pt_set (pmem s2) (Suc l) t = set fl \<union> pt_set (pmem s) (Suc l) t"
    "\<forall>j < 512. j \<noteq> i \<longrightarrow> ent (pmem s2) t j = ent (pmem s) t j" "\<not> valid (ent (pmem s2) t i)"
proof -
  let ?c = "PTE2PA (ent (pmem s) t i)"
  have tree: "pt_tree (usable s) (pmem s) (Suc l) t" and dis: "pt_set (pmem s) (Suc l) t \<inter> set fl = {}"
    using inv by (auto simp: as_inv_def)
  have al: "page_aligned t" using tree by (simp add: usable_def)
  have fp1: "free_pages s1 fl1" and fl1: "set fl1 = set fl \<union> pt_set (pmem s) l ?c"
    and out1: "same_outside (pt_set (pmem s) l ?c) s s1"
    using sub(2) by (auto simp: freed_def)
  have sub_t: "pt_set (pmem s) l ?c \<subseteq> pt_set (pmem s) (Suc l) t" using i by auto
  have tc: "t \<notin> pt_set (pmem s) l ?c" using tree i by simp
  have "interior (ent (pmem s) t i)" using tree i by simp
  then show "freewalk_from t i s = freewalk_from t (i + 1) s2"
    using i sub(1) by (subst freewalk_from.simps) (simp add: valid_def interior_def s2 Let_def)
  have st1: "same_page (pmem s) (pmem s1) t" using out1 tc by (simp add: same_outside_def)
  have e1: "ent (pmem s1) t j = ent (pmem s) t j" if "j < 512" for j
    using st1 al that by (simp add: load64_slot_same_page)
  show e: "\<forall>j < 512. j \<noteq> i \<longrightarrow> ent (pmem s2) t j = ent (pmem s) t j" "\<not> valid (ent (pmem s2) t i)"
    using i(1) e1 by (auto simp: s2 load64_slot_store64)
  have st2: "same_page (pmem s1) (pmem s2) p" if "p \<noteq> t" for p
    unfolding s2 using al i(1) that by (simp add: same_page_store64_slot)
  then have out12: "same_outside {t} s1 s2" by (simp add: same_outside_def s2)
  have out2: "same_outside (pt_set (pmem s) l ?c \<union> {t}) s s2"
    by (rule same_outside_trans [OF out1 out12])
  then have fr: "\<forall>p. p \<noteq> t \<longrightarrow> p \<notin> pt_set (pmem s) l ?c \<longrightarrow> same_page (pmem s) (pmem s2) p"
    by (simp add: same_outside_def)
  note dc = drop_child [OF tree i e fr nl]
  show "no_leaves (pmem s2) (Suc l) t" by (rule dc(2))
  show "same_outside (pt_set (pmem s) (Suc l) t) s s2"
    by (rule same_outside_mono [OF out2]) (use sub_t in simp)
  show sub2: "pt_set (pmem s2) (Suc l) t \<subseteq> pt_set (pmem s) (Suc l) t" using dc(3) by blast
  show "set fl1 \<union> pt_set (pmem s2) (Suc l) t = set fl \<union> pt_set (pmem s) (Suc l) t"
    using fl1 dc(3) by blast
  have "t \<notin> set fl1" using fl1 tc dis by auto
  then have ne: "a \<noteq> t" if "a \<in> set fl1" for a using that by blast
  have "free_pages s2 fl1"
    unfolding s2 by (rule free_pages_frame [OF fp1]) (use st2 [OF ne] in \<open>simp add: s2\<close>)
  moreover have "pt_set (pmem s2) (Suc l) t \<inter> set fl1 = {}" using fl1 dc(4) sub2 dis by blast
  ultimately show "as_inv s2 fl1 (Suc l) t"
    using dc(1) same_outside_usable [OF out2] by (simp add: as_inv_def)
qed

lemma freewalk_root:
  assumes inv: "as_inv s fl l t" and e: "\<forall>j < 512. \<not> valid (ent (pmem s) t j)"
  shows "\<exists>s' fl'. kfree t s = Ok s' \<and> freed s fl l t s' fl'"
proof -
  have "usable s t" "t \<notin> set fl" "free_pages s fl"
    using inv pt_tree_ok [of "usable s" "pmem s" l t] pt_set_root [of t "pmem s" l]
    unfolding as_inv_def by blast+
  from kfree_spec [OF this(3,1,2)] obtain m where
    m: "kfree t s = Ok (s\<lparr>pmem := m, freelist := t\<rparr>)"
      "free_pages (s\<lparr>pmem := m, freelist := t\<rparr>) (t # fl)"
      "\<forall>p. p \<noteq> t \<longrightarrow> same_page (pmem s) m p" by blast
  have "pt_set (pmem s) l t = {t}" using e by (cases l) auto
  then show ?thesis
    using m by (intro exI [of _ "s\<lparr>pmem := m, freelist := t\<rparr>"] exI [of _ "t # fl"])
      (simp add: freed_def same_outside_def)
qed

lemma freewalk_spec:
  "as_inv s fl l t \<Longrightarrow> no_leaves (pmem s) l t \<Longrightarrow>
   \<exists>s' fl'. freewalk_from t 0 s = Some (Ok s') \<and> freed s fl l t s' fl'"
proof (induction l arbitrary: s fl t)
  case 0
  then have "\<forall>j < 512. \<not> valid (ent (pmem s) t j)" by simp
  then show ?case using freewalk_root [OF 0(1)] freewalk_empty [of 0 s t] by simp
next
  case (Suc l)
  have "\<exists>s' fl'. freewalk_from t i s = Some (Ok s') \<and> freed s fl (Suc l) t s' fl'"
    if "i \<le> 512" "as_inv s fl (Suc l) t" "no_leaves (pmem s) (Suc l) t"
      "\<forall>j < i. \<not> valid (ent (pmem s) t j)" for i s fl
    using that
  proof (induction i arbitrary: s fl rule: index_induct)
    case over
    then show ?case using freewalk_root [OF over(1)] freewalk_empty [of 512 s t] by simp
  next
    case (step i)
    have lt: "j < i + 1 \<longleftrightarrow> j < i \<or> j = i" for j
    proof -
      have "unat (i + 1) = unat i + 1"
        using step(1) by (simp add: unat_word_ariths word_less_nat_alt)
      then show ?thesis by (auto simp: word_less_nat_alt word_unat_eq_iff)
    qed
    show ?case
    proof (cases "valid (ent (pmem s) t i)")
      case False
      then have "freewalk_from t i s = freewalk_from t (i + 1) s"
        using step(1) by (subst freewalk_from.simps) (simp add: valid_def Let_def)
      moreover have "\<forall>j < i + 1. \<not> valid (ent (pmem s) t j)" using step(5) False lt by blast
      ultimately show ?thesis using step by metis
    next
      case True
      let ?c = "PTE2PA (ent (pmem s) t i)"
      have "as_inv s fl l ?c" "no_leaves (pmem s) l ?c"
        using step(1,3,4) True by (auto simp: as_inv_def)
      from Suc.IH [OF this] obtain s1 fl1 where
        c: "freewalk_from ?c 0 s = Some (Ok s1)" "freed s fl l ?c s1 fl1" by blast
      define s2 where "s2 = s1\<lparr>pmem := store64 (pmem s1) (slot t i) 0\<rparr>"
      note ch = freewalk_child [OF step(3,4,1) True c s2_def]
      have "\<forall>j < i + 1. \<not> valid (ent (pmem s2) t j)"
      proof (intro allI impI)
        fix j assume "j < i + 1"
        then have "j = i \<or> j < i" by (simp only: lt disj_commute)
        then have "j = i \<or> j < i \<and> j < 512" using less_trans [OF _ step(1)] by blast
        then show "\<not> valid (ent (pmem s2) t j)"
        proof
          assume "j = i"
          then show ?thesis using ch(8) by simp
        next
          assume j: "j < i \<and> j < 512"
          then have "j \<noteq> i" by auto
          then have "ent (pmem s2) t j = ent (pmem s) t j" using ch(7) j by blast
          then show ?thesis using step(5) j by simp
        qed
      qed
      from step(2) [OF ch(2,3) this] obtain s' fl' where
        r: "freewalk_from t (i + 1) s2 = Some (Ok s')" "freed s2 fl1 (Suc l) t s' fl'" by blast
      have "same_outside (pt_set (pmem s) (Suc l) t \<union> pt_set (pmem s2) (Suc l) t) s s'"
        by (rule same_outside_trans [OF ch(4)]) (use r(2) in \<open>simp add: freed_def\<close>)
      then have "same_outside (pt_set (pmem s) (Suc l) t) s s'"
        by (rule same_outside_mono) (use ch(5) in blast)
      then have "freed s fl (Suc l) t s' fl'"
        using r(2) ch(6) unfolding freed_def by metis
      then show ?thesis using r(1) unfolding ch(1) by blast
    qed
  qed
  from this [of 0] Suc.prems show ?case by simp
qed


section \<open>Creating and freeing an address space\<close>

lemma uvmcreate_spec:
  assumes fp: "free_pages s (p # rest)"
  shows "\<exists>s'. uvmcreate s = (p, s') \<and> uspace s' rest p \<and> p \<noteq> 0 \<and> tables s' p = {p} \<and>
    upages s' p = {} \<and> (\<forall>va. pte_of s' p va = 0) \<and> same_outside {p} s s'"
proof -
  obtain s1 where ka: "kalloc s = (p, s1)" and fp1: "free_pages s1 rest" and us: "usable s1 = usable s"
    and fr: "\<forall>q. q \<noteq> p \<longrightarrow> same_page (pmem s) (pmem s1) q"
    using ka.alloc_cons [OF fp] by blast
  have p: "usable s p" "p \<noteq> 0" "p \<notin> set rest" using fp by (auto simp: free_pages_def usable_def)
  have al: "page_aligned p" using p(1) by (rule usable_aligned)
  define s' where "s' = s1\<lparr>pmem := memset (pmem s1) p 0 PGSIZE\<rparr>"
  have e: "ent (pmem s') p j = 0" if "j < 512" for j
    using that al by (simp add: s'_def load64_slot_memset0)
  have st: "same_page (pmem s1) (pmem s') q" if "q \<noteq> p" for q
    using that al by (simp add: s'_def same_page_memset)
  have fp': "free_pages s' rest"
    unfolding s'_def
  proof (rule free_pages_frame [OF fp1])
    fix a assume "a \<in> set rest"
    then have "a \<noteq> p" using p by auto
    from st [OF this] show "same_page (pmem s1) (memset (pmem s1) p 0 PGSIZE) a"
      by (simp add: s'_def)
  qed
  have tree: "pt_tree (usable s') (pmem s') 2 p" "tables s' p = {p}"
    and lk: "\<And>va. pt_look (pmem s') 2 p va = 0"
    using zero_table [of "pmem s'" p "usable s'" 2, OF e] p us by (auto simp: s'_def)
  have "kend s1 = kend s" using ka by (auto simp: kalloc_def Let_def split: if_splits)
  then have "same_outside {p} s s'"
    using fr st by (simp add: same_outside_def s'_def same_page_def)
  moreover have nv: "pte_of s' p va = 0" for va by (simp add: pte_of_def lk)
  moreover have "upages s' p = {}" using nv by (simp add: upages_def mapped_def)
  moreover have "as_inv s' rest 2 p" using tree fp' p by (simp add: as_inv_def)
  ultimately show ?thesis
    using ka p tree by (simp add: uvmcreate_def s'_def uspace_def mapped_def)
qed

text \<open>The number of pages below a page boundary.\<close>

lemma page_count:
  assumes "page_aligned a"
  shows "a div PGSIZE = of_nat (unat a div 4096)" "4096 * (unat a div 4096) = unat a"
proof -
  show "a div PGSIZE = of_nat (unat a div 4096)"
    using word_arith_nat_div [of a PGSIZE] by simp
  show "4096 * (unat a div 4096) = unat a" using assms by (simp add: page_aligned_unat)
qed

lemma uvmfree_spec:
  assumes us: "uspace s fl pt" and sz: "PGROUNDUP sz \<le> TRAPFRAME"
    and all: "\<forall>va < VATOP. valid (pte_of s pt va) \<longrightarrow> va < PGROUNDUP sz"
  shows "\<exists>s' fl'. uvmfree pt sz s = Some (Ok s') \<and> free_pages s' fl' \<and>
    set fl' = account s fl pt \<and> same_outside (account s fl pt) s s'"
proof -
  let ?n = "unat (PGROUNDUP sz) div 4096"
  have n: "PGROUNDUP sz div PGSIZE = of_nat ?n" "4096 * ?n = unat (PGROUNDUP sz)"
    using page_count [of "PGROUNDUP sz"] by simp_all
  have "unat 0 + 4096 * ?n \<le> unat TRAPFRAME" using n(2) sz by (simp add: word_le_nat_alt)
  from unmap_owned [OF us _ this] obtain s1 where
    un: "uvmunmap pt 0 (of_nat ?n) True s = Ok s1"
    and us1: "uspace s1 (rev (run_pages (pte_of s pt) 0 ?n) @ fl) pt"
    and acc: "account s1 (rev (run_pages (pte_of s pt) 0 ?n) @ fl) pt = account s fl pt"
    and out: "same_outside (tables s pt \<union> set (run_pages (pte_of s pt) 0 ?n)) s s1"
    and clr: "cleared_run (pte_of s pt) (pte_of s1 pt) 0 ?n"
    by (auto simp: page_aligned_def)
  obtain s2 fl2 where st: "(if sz > 0 then uvmunmap pt 0 (PGROUNDUP sz div PGSIZE) True s else Ok s) = Ok s2"
    and us2: "uspace s2 fl2 pt" and acc2: "account s2 fl2 pt = account s fl pt"
    and out2: "same_outside (account s fl pt) s s2"
    and nv: "\<forall>va < VATOP. \<not> valid (pte_of s2 pt va)"
  proof (cases "sz > 0")
    case True
    have "same_outside (account s fl pt) s s1"
      by (rule same_outside_mono [OF out]) (use acc in \<open>auto simp: account_def\<close>)
    moreover have "\<not> valid (pte_of s1 pt va)" if "va < VATOP" for va
      using that clr all n(2) by (auto simp: cleared_run_def in_run_def word_less_nat_alt)
    ultimately show ?thesis
      using that [OF _ us1 acc] True un n(1) by simp
  next
    case False
    then have "sz = 0" using word_neq_0_conv [of sz] by blast
    then have "PGROUNDUP sz = 0" by (simp add: PGROUNDUP_def)
    then show ?thesis using that [OF _ us refl] False all by simp
  qed
  have "no_leaves (pmem s2) 2 pt" using nv by (intro no_leaves_lookup) (simp add: pte_of_def)
  from freewalk_spec [OF uspace_as_inv [OF us2] this] obtain s' fl' where
    fw: "freewalk_from pt 0 s2 = Some (Ok s')" and fr: "freed s2 fl2 2 pt s' fl'" by blast
  have "upages s2 pt = {}" using nv TRAPFRAME_VATOP by (auto simp: upages_def mapped_def)
  then have "set fl' = account s fl pt" using fr acc2 by (auto simp: freed_def account_def)
  moreover have "same_outside (account s fl pt \<union> tables s2 pt) s s'"
    by (rule same_outside_trans [OF out2]) (use fr in \<open>simp add: freed_def\<close>)
  then have "same_outside (account s fl pt) s s'"
    by (rule same_outside_mono) (use acc2 in \<open>auto simp: account_def\<close>)
  moreover have "uvmfree pt sz s = Some (Ok s')" using st fw by (simp add: uvmfree_def freewalk_def)
  ultimately show ?thesis using fr by (auto simp: freed_def)
qed

end
