(* ===== verification/Vm_Sizes.thy ===== *)
theory Vm_Sizes
  imports Vm_Free
begin

text \<open>
  \<open>uvmalloc\<close> and \<open>uvmdealloc\<close> on the map and the contents of an address space: growth maps
  zeroed pages or rolls back completely, shrinking gives exactly the pages above the new
  size back.
\<close>

section \<open>Bytes of user memory\<close>

definition ubyte :: "phys \<Rightarrow> u64 \<Rightarrow> u64 \<Rightarrow> u8" where
  "ubyte s pt va = pmem s (page_of s pt va + (va - PGROUNDDOWN va))"

lemma page_offset: "page_aligned p \<Longrightarrow> PGROUNDDOWN (p + (va - PGROUNDDOWN va)) = p"
  by (rule PGROUNDDOWN_add [OF _ PGROUNDDOWN_offset])

lemma page_of_aligned [simp]: "page_aligned (page_of s pt va)"
  by (simp add: page_of_def)

lemma ubyte_outside:
  assumes "mapped s pt va" "same_outside P s s'" "P \<inter> upages s pt = {}"
    "page_of s' pt va = page_of s pt va"
  shows "ubyte s' pt va = ubyte s pt va"
proof -
  have "page_of s pt va \<notin> P" using assms(1,3) mapped_upages by auto
  then have "same_page (pmem s) (pmem s') (page_of s pt va)"
    using assms(2) by (simp add: same_outside_def)
  then show ?thesis
    using assms(4) page_offset [of "page_of s pt va" va] by (simp add: ubyte_def same_page_def)
qed

lemma uspace_disjoint:
  "uspace s fl pt \<Longrightarrow> (tables s pt \<union> set fl) \<inter> upages s pt = {}"
  by (auto simp: uspace_def)

section \<open>Rounding\<close>

lemma below_PGROUNDUP:
  assumes "page_aligned a" "b \<le> - PGSIZE"
  shows "a < b \<longleftrightarrow> a < PGROUNDUP b"
  using PGROUNDUP_least [OF assms(2)] assms(1) by (meson leD leI le_less_trans less_le_trans)

lemma pages_between:
  assumes "page_aligned a" "page_aligned b" "a \<le> b"
  shows "unat a + 4096 * (unat (b - a) div 4096) = unat b"
    "(b - a) div PGSIZE = of_nat (unat (b - a) div 4096)"
proof -
  have "unat (b - a) = unat b - unat a" using assms(3) by (simp add: unat_sub)
  then have "4096 dvd unat (b - a)" using assms(1,2) by (simp add: page_aligned_unat)
  then have "4096 * (unat (b - a) div 4096) = unat (b - a)" by simp
  moreover have "unat a + unat (b - a) = unat b"
    using \<open>unat (b - a) = unat b - unat a\<close> assms(3) by (simp add: word_le_nat_alt)
  ultimately show "unat a + 4096 * (unat (b - a) div 4096) = unat b" by simp
  show "(b - a) div PGSIZE = of_nat (unat (b - a) div 4096)"
    using word_arith_nat_div [of "b - a" PGSIZE] by simp
qed

lemma npages_cast: "n \<le> 2 ^ 26 \<Longrightarrow> (scast (ucast (of_nat n :: u64) :: u32) :: u64) = of_nat n"
proof (rule bit_word_eqI)
  fix k assume n: "n \<le> 2 ^ 26" and k: "k < LENGTH(64)"
  have "unat (of_nat n :: u64) = n" using n by (simp add: unat_of_nat)
  then have "(of_nat n :: u64) < 2 ^ 27" using n by (simp add: word_less_nat_alt)
  then have "(of_nat n :: u64) AND mask 27 = of_nat n" by (rule less_mask_eq)
  then have b: "bit (of_nat n :: u64) j \<Longrightarrow> j < 27" for j
    by (metis bit_and_iff bit_mask_iff)
  show "bit (scast (ucast (of_nat n :: u64) :: u32) :: u64) k = bit (of_nat n :: u64) k"
    using k b [of k] b [of 31] by (cases "k < 32") (auto simp: bit_simps min_def simp del: of_nat_numeral)
qed

section \<open>uvmdealloc\<close>

definition shrunk :: "phys \<Rightarrow> phys \<Rightarrow> u64 \<Rightarrow> u64 \<Rightarrow> u64 \<Rightarrow> bool" where
  "shrunk s s' pt lo hi \<longleftrightarrow> (\<forall>va < VATOP. pte_of s' pt va =
     (if lo \<le> va \<and> va < hi \<and> valid (pte_of s pt va) then 0 else pte_of s pt va))"

lemma uvmdealloc_spec:
  assumes us: "uspace s fl pt" and sz: "PGROUNDUP oldsz \<le> TRAPFRAME" "oldsz \<le> - PGSIZE"
    and lt: "newsz < oldsz"
  shows "\<exists>s' fl'. uvmdealloc pt oldsz newsz s = Ok (newsz, s') \<and> uspace s' fl' pt \<and>
    account s' fl' pt = account s fl pt \<and> tables s' pt = tables s pt \<and> set fl \<subseteq> set fl' \<and>
    same_outside (account s fl pt) s s' \<and>
    shrunk s s' pt (PGROUNDUP newsz) (PGROUNDUP oldsz) \<and>
    (\<forall>va. mapped s' pt va \<longrightarrow> ubyte s' pt va = ubyte s pt va)"
proof -
  let ?lo = "PGROUNDUP newsz" and ?hi = "PGROUNDUP oldsz"
  have new: "newsz \<le> - PGSIZE" using lt sz(2) by simp
  have "newsz \<le> ?hi" using PGROUNDUP_least(1) [OF sz(2)] lt by simp
  then have le: "?lo \<le> ?hi" using PGROUNDUP_least(2) [OF new] by simp
  let ?n = "unat (?hi - ?lo) div 4096"
  have n: "unat ?lo + 4096 * ?n = unat ?hi" "(?hi - ?lo) div PGSIZE = of_nat ?n"
    using pages_between [of ?lo ?hi] le by simp_all
  have lim: "unat ?lo + 4096 * ?n \<le> unat TRAPFRAME" using n sz(1) by (simp add: word_le_nat_alt)
  then have "?n \<le> 2 ^ 26" by (simp add: TRAPFRAME_val)
  then have cast: "scast (ucast ((?hi - ?lo) div PGSIZE) :: u32) = (of_nat ?n :: u64)"
    unfolding n(2) by (rule npages_cast)
  from unmap_owned [OF us _ lim] obtain s' fl' where
    un: "uvmunmap pt ?lo (of_nat ?n) True s = Ok s'" and us': "uspace s' fl' pt"
    and acc: "account s' fl' pt = account s fl pt" and t: "tables s' pt = tables s pt"
    and out: "same_outside (tables s pt \<union> set (run_pages (pte_of s pt) ?lo ?n)) s s'"
    and clr: "cleared_run (pte_of s pt) (pte_of s' pt) ?lo ?n"
    and fl': "fl' = rev (run_pages (pte_of s pt) ?lo ?n) @ fl" by auto
  have call: "uvmdealloc pt oldsz newsz s = Ok (newsz, s')"
  proof (cases "?lo < ?hi")
    case True
    then show ?thesis using leD [of oldsz newsz] lt un cast by (auto simp: uvmdealloc_def Let_def)
  next
    case False
    then have "?lo = ?hi" using le by simp
    then have "s' = s" using un by (simp add: uvmunmap_def uvmunmap_loop.simps page_aligned_mod)
    then show ?thesis using leD [of oldsz newsz] lt False by (auto simp: uvmdealloc_def)
  qed
  have run: "in_run ?lo ?n va \<longleftrightarrow> ?lo \<le> va \<and> va < ?hi" for va
    using n(1) by (simp add: in_run_def word_le_nat_alt word_less_nat_alt)
  have sh: "shrunk s s' pt ?lo ?hi"
    using clr by (simp add: shrunk_def cleared_run_def run)
  have ub: "ubyte s' pt va = ubyte s pt va" if m': "mapped s' pt va" for va
  proof -
    have v: "va < VATOP" using m' TRAPFRAME_VATOP by (simp add: mapped_def)
    then have eq: "pte_of s' pt va = pte_of s pt va"
      using m' clr by (auto simp: cleared_run_def mapped_def split: if_splits)
    then have m: "mapped s pt va" and p: "page_of s' pt va = page_of s pt va"
      using m' by (simp_all add: mapped_def page_of_def)
    have "page_of s' pt va \<notin> tables s' pt" "page_of s' pt va \<notin> set fl'"
      using uspace_page [OF us' m'] by auto
    then have "page_of s pt va \<notin> tables s pt \<union> set (run_pages (pte_of s pt) ?lo ?n)"
      using p t fl' by simp
    then have "same_page (pmem s) (pmem s') (page_of s pt va)"
      using out by (simp add: same_outside_def)
    then show ?thesis
      using p page_offset [of "page_of s pt va" va] by (simp add: ubyte_def same_page_def)
  qed
  have "same_outside (account s fl pt) s s'"
    by (rule same_outside_mono [OF out]) (use acc fl' in \<open>auto simp: account_def\<close>)
  then show ?thesis using call us' acc t sh ub fl' by auto
qed

section \<open>uvmalloc\<close>

text \<open>The range from \<open>lo\<close> to \<open>hi\<close> is mapped to zeroed pages, the rest is as before.\<close>

definition grown :: "phys \<Rightarrow> phys \<Rightarrow> u64 \<Rightarrow> u64 \<Rightarrow> u64 \<Rightarrow> u64 \<Rightarrow> bool" where
  "grown s s' pt lo hi perm \<longleftrightarrow> (\<forall>va < VATOP.
     if lo \<le> va \<and> va < hi
     then mapped s' pt va \<and> PTE_FLAGS (pte_of s' pt va) = perm OR PTE_V \<and> ubyte s' pt va = 0
     else pte_of s' pt va = pte_of s pt va \<and>
          (mapped s pt va \<longrightarrow> ubyte s' pt va = ubyte s pt va))"

definition rolled_back :: "phys \<Rightarrow> phys \<Rightarrow> u64 \<Rightarrow> u64 \<Rightarrow> u64 \<Rightarrow> bool" where
  "rolled_back s s' pt lo hi \<longleftrightarrow> (\<forall>va < VATOP.
     if lo \<le> va \<and> va < hi then \<not> valid (pte_of s' pt va)
     else pte_of s' pt va = pte_of s pt va \<and>
          (mapped s pt va \<longrightarrow> ubyte s' pt va = ubyte s pt va))"

definition grow_post ::
  "phys \<Rightarrow> u64 list \<Rightarrow> u64 \<Rightarrow> u64 \<Rightarrow> u64 \<Rightarrow> u64 \<Rightarrow> u64 \<Rightarrow> u64 \<Rightarrow> u64 \<Rightarrow> phys \<Rightarrow> bool" where
  "grow_post s fl pt old a hi newsz perm r s' \<longleftrightarrow> (\<exists>fl'. uspace s' fl' pt \<and>
     account s' fl' pt = account s fl pt \<and> same_outside (account s fl pt) s s' \<and>
     (r = newsz \<and> grown s s' pt a hi perm \<and> set fl' \<subseteq> set fl \<or>
      r = 0 \<and> rolled_back s s' pt old hi))"

lemma PTE_FLAGS_leaf:
  assumes "perm < 1024"
  shows "PTE_FLAGS (PA2PTE p OR perm OR PTE_V) = perm OR PTE_V"
proof -
  have "perm AND mask 10 = perm" using assms by (intro less_mask_eq) simp
  moreover have "PTE_V AND mask 10 = PTE_V" by (simp add: PTE_V_def masks [symmetric])
  ultimately have "(perm OR PTE_V) AND mask 10 = perm OR PTE_V"
    by (simp add: bit.conj_disj_distrib2)
  then have "perm OR PTE_V < 1024"
    using and_mask_less' [of 10 "perm OR PTE_V"] by simp
  then show ?thesis using PTE_FLAGS_PA2PTE [of "perm OR PTE_V" p] by (simp add: or.assoc)
qed


text \<open>The page just mapped at \<open>a\<close>, seen as one step of growth.\<close>

lemma grown_page:
  assumes us: "uspace s fl pt" and a: "page_aligned a" "a < TRAPFRAME" and mem: "page_aligned mem"
    and perm: "perm < 1024" and out: "same_outside (tables s pt \<union> set fl) s s'"
    and zero: "same_page (memset m mem 0 PGSIZE) (pmem s') mem"
    and pte: "\<forall>x < VATOP. pte_of s' pt x =
      (if PGROUNDDOWN x = a then PA2PTE mem OR perm OR PTE_V else pte_of s pt x)"
  shows "PGROUNDDOWN va = a \<Longrightarrow>
      mapped s' pt va \<and> PTE_FLAGS (pte_of s' pt va) = perm OR PTE_V \<and> ubyte s' pt va = 0"
    "va < VATOP \<Longrightarrow> PGROUNDDOWN va \<noteq> a \<Longrightarrow> pte_of s' pt va = pte_of s pt va \<and>
      (mapped s pt va \<longrightarrow> mapped s' pt va \<and> ubyte s' pt va = ubyte s pt va)"
proof -
  assume va: "PGROUNDDOWN va = a"
  then have lt: "va < TRAPFRAME" using below_TRAPFRAME_page [OF a] by simp
  then have e: "pte_of s' pt va = PA2PTE mem OR perm OR PTE_V"
    using pte TRAPFRAME_VATOP va by simp
  then have p: "page_of s' pt va = mem" using PTE2PA_leaf [OF mem perm] by (simp add: page_of_def)
  have "ubyte s' pt va = 0"
    using zero page_offset [OF mem, of va] page_region [OF mem, of "mem + (va - PGROUNDDOWN va)"]
    by (simp add: ubyte_def p same_page_def memset_def)
  then show "mapped s' pt va \<and> PTE_FLAGS (pte_of s' pt va) = perm OR PTE_V \<and> ubyte s' pt va = 0"
    using e lt PTE_FLAGS_leaf [OF perm] by (simp add: mapped_def)
next
  assume va: "va < VATOP" "PGROUNDDOWN va \<noteq> a"
  then have e: "pte_of s' pt va = pte_of s pt va" using pte by simp
  have "ubyte s' pt va = ubyte s pt va" if "mapped s pt va"
    by (rule ubyte_outside [OF that out uspace_disjoint [OF us]]) (simp add: page_of_def e)
  then show "pte_of s' pt va = pte_of s pt va \<and>
      (mapped s pt va \<longrightarrow> mapped s' pt va \<and> ubyte s' pt va = ubyte s pt va)"
    using e by (simp add: mapped_def)
qed

text \<open>Growing failed at \<open>a\<close>: \<open>uvmdealloc\<close> takes back the pages from \<open>old\<close> on.\<close>

lemma grow_fail:
  assumes us: "uspace s fl pt" and al: "page_aligned old" "page_aligned a" and lim: "a \<le> hi" "hi \<le> TRAPFRAME"
    and old: "old \<le> a" and none: "\<And>va. a \<le> va \<Longrightarrow> va < hi \<Longrightarrow> \<not> valid (pte_of s pt va)"
  shows "\<exists>s' v. uvmdealloc pt a old s = Ok (v, s') \<and>
    (\<exists>fl'. uspace s' fl' pt \<and> account s' fl' pt = account s fl pt \<and>
      same_outside (account s fl pt) s s' \<and> rolled_back s s' pt old hi)"
proof (cases "old < a")
  case True
  have up: "PGROUNDUP x = x" if "page_aligned x" "x \<le> TRAPFRAME" for x
  proof -
    have x: "x \<le> - PGSIZE" using that(2) by (simp add: TRAPFRAME_val word_le_nat_alt)
    show ?thesis using PGROUNDUP_least [OF x] that(1) by (simp add: antisym)
  qed
  have a: "PGROUNDUP a = a" "PGROUNDUP old = old" "a \<le> TRAPFRAME" "a \<le> - PGSIZE"
    using up al lim old by (auto simp: TRAPFRAME_val word_le_nat_alt)
  from uvmdealloc_spec [OF us _ a(4) True] a obtain s' fl' where
    d: "uvmdealloc pt a old s = Ok (old, s')" "uspace s' fl' pt"
      "account s' fl' pt = account s fl pt" "same_outside (account s fl pt) s s'"
    and sh: "shrunk s s' pt old a"
    and ub: "\<forall>va. mapped s' pt va \<longrightarrow> ubyte s' pt va = ubyte s pt va" by auto
  have "rolled_back s s' pt old hi"
    unfolding rolled_back_def
  proof (intro allI impI)
    fix va assume va: "va < VATOP"
    have e: "pte_of s' pt va = (if old \<le> va \<and> va < a \<and> valid (pte_of s pt va) then 0
      else pte_of s pt va)" using sh va by (simp add: shrunk_def)
    show "if old \<le> va \<and> va < hi then \<not> valid (pte_of s' pt va)
      else pte_of s' pt va = pte_of s pt va \<and> (mapped s pt va \<longrightarrow> ubyte s' pt va = ubyte s pt va)"
    proof (cases "old \<le> va \<and> va < hi")
      case True
      then show ?thesis using e none [of va] by (cases "va < a") auto
    next
      case False
      then have "\<not> (old \<le> va \<and> va < a)" using lim(1) by auto
      then have "pte_of s' pt va = pte_of s pt va" using e by auto
      then show ?thesis using False ub by (auto simp: mapped_def)
    qed
  qed
  then show ?thesis using d by blast
next
  case False
  then have "old = a" using old by simp
  moreover have "rolled_back s s pt a hi" using none by (simp add: rolled_back_def)
  ultimately show ?thesis
    using us by (intro exI [of _ s]) (auto simp: uvmdealloc_def)
qed

lemma page_range:
  assumes "page_aligned a" "unat (a + PGSIZE) = unat a + 4096"
  shows "PGROUNDDOWN va = a \<longleftrightarrow> a \<le> va \<and> va < a + PGSIZE"
  using in_run_1 [OF assms(1), of va] assms(2)
  by (simp add: in_run_def word_le_nat_alt word_less_nat_alt)

lemma grown_step:
  assumes al: "page_aligned a" and u: "unat (a + PGSIZE) = unat a + 4096"
    and hi: "a + PGSIZE \<le> hi"
    and pg: "\<And>va. PGROUNDDOWN va = a \<Longrightarrow>
        mapped s1 pt va \<and> PTE_FLAGS (pte_of s1 pt va) = perm OR PTE_V \<and> ubyte s1 pt va = 0"
      "\<And>va. va < VATOP \<Longrightarrow> PGROUNDDOWN va \<noteq> a \<Longrightarrow> pte_of s1 pt va = pte_of s pt va \<and>
        (mapped s pt va \<longrightarrow> mapped s1 pt va \<and> ubyte s1 pt va = ubyte s pt va)"
    and g: "grown s1 s' pt (a + PGSIZE) hi perm"
  shows "grown s s' pt a hi perm"
proof -
  have ge: "a \<le> a + PGSIZE" using u by (simp add: word_le_nat_alt)
  have in_a: "PGROUNDDOWN va = a \<longleftrightarrow> a \<le> va \<and> va < a + PGSIZE" for va
    by (rule page_range [OF al u])
  show ?thesis
    unfolding grown_def
  proof (intro allI impI)
    fix va assume va: "va < VATOP"
    note gv = g [unfolded grown_def, rule_format, OF va]
    show "if a \<le> va \<and> va < hi
      then mapped s' pt va \<and> PTE_FLAGS (pte_of s' pt va) = perm OR PTE_V \<and> ubyte s' pt va = 0
      else pte_of s' pt va = pte_of s pt va \<and> (mapped s pt va \<longrightarrow> ubyte s' pt va = ubyte s pt va)"
    proof (cases "PGROUNDDOWN va = a")
      case True
      then have "a \<le> va" "va < hi" "\<not> a + PGSIZE \<le> va" using in_a [of va] hi by auto
      then show ?thesis using gv pg(1) [OF True] by (simp add: mapped_def)
    next
      case False
      then have "a \<le> va \<longleftrightarrow> a + PGSIZE \<le> va" using in_a [of va] ge by auto
      then show ?thesis using gv pg(2) [OF va False] by auto
    qed
  qed
qed

lemma grow_post_step:
  assumes us: "uspace s fl pt" and al: "page_aligned a" and u: "unat (a + PGSIZE) = unat a + 4096"
    and old: "old \<le> a" and hi: "a + PGSIZE \<le> hi"
    and pg: "\<And>va. PGROUNDDOWN va = a \<Longrightarrow>
        mapped s1 pt va \<and> PTE_FLAGS (pte_of s1 pt va) = perm OR PTE_V \<and> ubyte s1 pt va = 0"
      "\<And>va. va < VATOP \<Longrightarrow> PGROUNDDOWN va \<noteq> a \<Longrightarrow> pte_of s1 pt va = pte_of s pt va \<and>
        (mapped s pt va \<longrightarrow> mapped s1 pt va \<and> ubyte s1 pt va = ubyte s pt va)"
    and acc: "account s1 fl1 pt = account s fl pt"
    and out: "same_outside (tables s pt \<union> set fl) s s1" and sub: "set fl1 \<subseteq> set fl"
    and post: "grow_post s1 fl1 pt old (a + PGSIZE) hi newsz perm r s'"
  shows "grow_post s fl pt old a hi newsz perm r s'"
proof -
  from post obtain fl' where p: "uspace s' fl' pt" "account s' fl' pt = account s1 fl1 pt"
    "same_outside (account s1 fl1 pt) s1 s'"
    and cs: "r = newsz \<and> grown s1 s' pt (a + PGSIZE) hi perm \<and> set fl' \<subseteq> set fl1 \<or>
      r = 0 \<and> rolled_back s1 s' pt old hi"
    unfolding grow_post_def by blast
  have ge: "a \<le> a + PGSIZE" using u by (simp add: word_le_nat_alt)
  have in_a: "PGROUNDDOWN va = a \<longleftrightarrow> a \<le> va \<and> va < a + PGSIZE" for va
    by (rule page_range [OF al u])
  have "same_outside (tables s pt \<union> set fl \<union> account s fl pt) s s'"
    using same_outside_trans [OF out p(3)] acc by simp
  then have out': "same_outside (account s fl pt) s s'"
    by (rule same_outside_mono) (auto simp: account_def)
  have "grown s s' pt a hi perm" if "grown s1 s' pt (a + PGSIZE) hi perm"
    by (rule grown_step [OF al u hi pg that])
  moreover have "rolled_back s s' pt old hi" if g: "rolled_back s1 s' pt old hi"
    unfolding rolled_back_def
  proof (intro allI impI)
    fix va assume va: "va < VATOP"
    note gv = g [unfolded rolled_back_def, rule_format, OF va]
    have "PGROUNDDOWN va \<noteq> a" if "\<not> (old \<le> va \<and> va < hi)"
      using that in_a [of va] old hi by auto
    then show "if old \<le> va \<and> va < hi then \<not> valid (pte_of s' pt va)
      else pte_of s' pt va = pte_of s pt va \<and> (mapped s pt va \<longrightarrow> ubyte s' pt va = ubyte s pt va)"
      using gv pg(2) [OF va] by auto
  qed
  ultimately have "r = newsz \<and> grown s s' pt a hi perm \<and> set fl' \<subseteq> set fl \<or>
      r = 0 \<and> rolled_back s s' pt old hi"
    using cs sub by blast
  then show ?thesis
    using p(1,2) acc out' unfolding grow_post_def by (intro exI [of _ fl']) simp
qed

lemma grow_post_rollback:
  assumes us: "uspace s fl pt" and sm: "same_map s s4 pt"
    and out: "same_outside (tables s pt \<union> set fl) s s4" and acc: "account s4 fl4 pt = account s fl pt"
    and d: "uspace s' fl' pt" "account s' fl' pt = account s4 fl4 pt"
      "same_outside (account s4 fl4 pt) s4 s'" "rolled_back s4 s' pt old hi"
  shows "grow_post s fl pt old a hi newsz perm 0 s'"
proof -
  have "same_outside (tables s pt \<union> set fl \<union> account s fl pt) s s'"
    using same_outside_trans [OF out d(3)] acc by simp
  then have "same_outside (account s fl pt) s s'"
    by (rule same_outside_mono) (auto simp: account_def)
  moreover have "rolled_back s s' pt old hi"
    unfolding rolled_back_def
  proof (intro allI impI)
    fix va assume va: "va < VATOP"
    note rb = d(4) [unfolded rolled_back_def, rule_format, OF va]
    have e: "pte_of s4 pt va = pte_of s pt va" using sm va by (simp add: same_map_def)
    have "mapped s4 pt va \<and> ubyte s4 pt va = ubyte s pt va" if m: "mapped s pt va"
    proof
      show "mapped s4 pt va" using m e by (simp add: mapped_def)
      show "ubyte s4 pt va = ubyte s pt va"
        by (rule ubyte_outside [OF m out uspace_disjoint [OF us]]) (simp add: page_of_def e)
    qed
    then show "if old \<le> va \<and> va < hi then \<not> valid (pte_of s' pt va)
      else pte_of s' pt va = pte_of s pt va \<and> (mapped s pt va \<longrightarrow> ubyte s' pt va = ubyte s pt va)"
      using rb unfolding e by presburger
  qed
  ultimately show ?thesis using d(1,2) acc unfolding grow_post_def by blast
qed

lemma uvmalloc_loop_spec:
  "uspace s fl pt \<Longrightarrow> page_aligned a \<Longrightarrow> unat a + 4096 * n = unat (PGROUNDUP newsz) \<Longrightarrow>
   old \<le> a \<Longrightarrow>
   (\<And>va. a \<le> va \<Longrightarrow> va < PGROUNDUP newsz \<Longrightarrow> \<not> valid (pte_of s pt va)) \<Longrightarrow>
   page_aligned old \<Longrightarrow> newsz \<le> - PGSIZE \<Longrightarrow> PGROUNDUP newsz \<le> TRAPFRAME \<Longrightarrow> xperm < 1024 \<Longrightarrow>
   \<exists>r s'. uvmalloc_loop pt a old newsz xperm s = Ok (r, s') \<and>
     grow_post s fl pt old a (PGROUNDUP newsz) newsz (PTE_R OR PTE_U OR xperm) r s' \<and>
     (3 * n \<le> length fl \<longrightarrow> r = newsz \<and> grown s s' pt a (PGROUNDUP newsz) (PTE_R OR PTE_U OR xperm))"
proof (induction n arbitrary: a s fl)
  case (0 a s fl)
  then have "a = PGROUNDUP newsz" by (simp add: word_unat_eq_iff)
  moreover from this have "\<not> a < newsz" using below_PGROUNDUP [OF 0(2,7)] by simp
  ultimately show ?case
    using 0(1) by (subst uvmalloc_loop.simps) (auto simp: grow_post_def grown_def not_le)
next
  case (Suc n a s fl)
  let ?hi = "PGROUNDUP newsz"
  let ?perm = "PTE_R OR PTE_U OR xperm"
  note us = Suc.prems(1) and al = Suc.prems(2) and none = Suc.prems(5)
  have lim: "?hi \<le> TRAPFRAME" and old: "old \<le> a" and alo: "page_aligned old"
    using Suc.prems by auto
  have u: "unat (a + PGSIZE) = unat a + 4096" and lt: "a < ?hi"
    using Suc.prems(3) lim by (simp_all add: unat_word_ariths TRAPFRAME_val word_less_nat_alt word_le_nat_alt)
  have aT: "a < TRAPFRAME" using lt lim by simp
  have an: "a < newsz" using lt below_PGROUNDUP [OF al Suc.prems(7)] by simp
  have perm: "?perm < 1024"
  proof -
    have "xperm AND mask 10 = xperm" using Suc.prems(9) by (intro less_mask_eq) simp
    moreover have "(PTE_R OR PTE_U) AND mask 10 = PTE_R OR PTE_U"
      by (simp add: PTE_R_def PTE_U_def masks [symmetric])
    ultimately have "?perm AND mask 10 = ?perm"
      by (simp add: bit.conj_disj_distrib2 flip: or.assoc)
    then show ?thesis using and_mask_less' [of 10 ?perm] by simp
  qed
  have new: "\<not> valid (pte_of s pt a)" using none [of a] lt by simp
  obtain mem s1 where ka: "kalloc s = (mem, s1)" by fastforce
  show ?case
  proof (cases "mem = 0")
    case True
    with ka us have s1: "s1 = s" and nil: "fl = []" by (auto elim: kalloc_as_inv [OF uspace_as_inv])
    from grow_fail [OF us alo al _ lim old none] lt obtain s' v fl' where
      d: "uvmdealloc pt a old s = Ok (v, s')" "uspace s' fl' pt"
        "account s' fl' pt = account s fl pt" "same_outside (account s fl pt) s s'"
        "rolled_back s s' pt old ?hi" by (auto simp: less_imp_le)
    have "uvmalloc_loop pt a old newsz xperm s = Ok (0, s')"
      using ka True s1 d(1) an by (subst uvmalloc_loop.simps) simp
    moreover have "grow_post s fl pt old a ?hi newsz ?perm 0 s'"
      using d unfolding grow_post_def by blast
    ultimately show ?thesis using nil by (intro exI [of _ 0] exI [of _ s']) simp
  next
    case False
    define s2 where "s2 = s1\<lparr>pmem := memset (pmem s1) mem 0 PGSIZE\<rparr>"
    have al_mem: "page_aligned mem"
      using ka False by (cases rule: kalloc_as_inv [OF uspace_as_inv [OF us]])
        (auto dest: usable_aligned)
    have m2: "\<And>q. q \<noteq> mem \<Longrightarrow> same_page (pmem s1) (memset (pmem s1) mem 0 PGSIZE) q"
      using al_mem by (simp add: same_page_memset)
    show ?thesis
    proof (rule map_fresh [OF us al aT new perm ka False s2_def m2], goal_cases)
      case mapped: (2 s3 fl3)
      have acc: "tables s pt \<union> set fl \<subseteq> account s fl pt" by (auto simp: account_def)
      note pg = grown_page [OF us al aT al_mem perm mapped(4,5,10)]
      have step: "uvmalloc_loop pt a old newsz xperm s =
          uvmalloc_loop pt (a + PGSIZE) old newsz xperm s3"
        using ka False mapped(1) an by (subst uvmalloc_loop.simps) (simp add: s2_def)
      have al': "page_aligned (a + PGSIZE)" using al by (rule page_aligned_add)
      have n': "unat (a + PGSIZE) + 4096 * n = unat ?hi" using Suc.prems(3) u by simp
      have ge: "a \<le> a + PGSIZE" using u by (simp add: word_le_nat_alt)
      have none': "\<not> valid (pte_of s3 pt va)" if "a + PGSIZE \<le> va" "va < ?hi" for va
      proof -
        have "va < VATOP" using that(2) lim TRAPFRAME_VATOP by simp
        moreover have "PGROUNDDOWN va \<noteq> a" using page_range [OF al u, of va] that(1) by auto
        ultimately show ?thesis using pg(2) [of va] none [of va] ge that by auto
      qed
      have "\<exists>r s'. uvmalloc_loop pt (a + PGSIZE) old newsz xperm s3 = Ok (r, s') \<and>
        grow_post s3 fl3 pt old (a + PGSIZE) ?hi newsz ?perm r s' \<and>
        (3 * n \<le> length fl3 \<longrightarrow> r = newsz \<and> grown s3 s' pt (a + PGSIZE) ?hi ?perm)"
        by (rule Suc.IH [OF mapped(2) al' n' _ none' alo Suc.prems(7) lim Suc.prems(9)])
          (use old ge in auto)
      then obtain r s' where r: "uvmalloc_loop pt (a + PGSIZE) old newsz xperm s3 = Ok (r, s')"
        and post: "grow_post s3 fl3 pt old (a + PGSIZE) ?hi newsz ?perm r s'"
        and succ: "3 * n \<le> length fl3 \<longrightarrow> r = newsz \<and> grown s3 s' pt (a + PGSIZE) ?hi ?perm" by blast
      have hi: "a + PGSIZE \<le> ?hi" using Suc.prems(3) u by (simp add: word_le_nat_alt)
      have "grow_post s fl pt old a ?hi newsz ?perm r s'"
        by (rule grow_post_step [OF us al u old hi pg mapped(3,4,8) post])
      moreover have "grown s s' pt a ?hi ?perm" if "grown s3 s' pt (a + PGSIZE) ?hi ?perm"
        by (rule grown_step [OF al u hi pg that])
      moreover have "3 * n \<le> length fl3" if "3 * Suc n \<le> length fl" using that mapped(11) by simp
      ultimately show ?thesis using step r succ by auto
    next
      case no_table: (3 s3 s4)
      have none4: "\<not> valid (pte_of s4 pt va)" if "a \<le> va" "va < ?hi" for va
        using none [OF that] no_table(6) that lim TRAPFRAME_VATOP by (simp add: same_map_def)
      from grow_fail [OF no_table(3) alo al _ lim old none4] lt obtain s' v fl' where
        d: "uvmdealloc pt a old s4 = Ok (v, s')" "uspace s' fl' pt"
          "account s' fl' pt = account s4 [mem] pt" "same_outside (account s4 [mem] pt) s4 s'"
          "rolled_back s4 s' pt old ?hi" by (auto simp: less_imp_le)
      have "uvmalloc_loop pt a old newsz xperm s = Ok (0, s')"
        using ka False no_table(1,2) d(1) an by (subst uvmalloc_loop.simps) (simp add: s2_def)
      moreover have "grow_post s fl pt old a ?hi newsz ?perm 0 s'"
        by (rule grow_post_rollback [OF us no_table(6,5,4) d(2-5)])
      ultimately show ?thesis using no_table(8) by (intro exI [of _ 0] exI [of _ s']) simp
    qed
  qed
qed

lemma uvmalloc_spec:
  assumes "uspace s fl pt" "oldsz \<le> newsz" "newsz \<le> - PGSIZE" "PGROUNDUP newsz \<le> TRAPFRAME"
    "xperm < 1024"
    "\<And>va. PGROUNDUP oldsz \<le> va \<Longrightarrow> va < PGROUNDUP newsz \<Longrightarrow> \<not> valid (pte_of s pt va)"
  shows "\<exists>r s' fl'. uvmalloc pt oldsz newsz xperm s = Ok (r, s') \<and> uspace s' fl' pt \<and>
    account s' fl' pt = account s fl pt \<and> same_outside (account s fl pt) s s' \<and>
    (r = newsz \<and> grown s s' pt (PGROUNDUP oldsz) (PGROUNDUP newsz) (PTE_R OR PTE_U OR xperm) \<or>
     r = 0 \<and> rolled_back s s' pt (PGROUNDUP oldsz) (PGROUNDUP newsz)) \<and>
    (3 * (unat (PGROUNDUP newsz - PGROUNDUP oldsz) div 4096) \<le> length fl \<longrightarrow>
       r = newsz \<and> grown s s' pt (PGROUNDUP oldsz) (PGROUNDUP newsz) (PTE_R OR PTE_U OR xperm))"
proof -
  let ?a = "PGROUNDUP oldsz" and ?hi = "PGROUNDUP newsz"
  have old: "oldsz \<le> - PGSIZE" using assms(2,3) by simp
  have "oldsz \<le> ?hi" using PGROUNDUP_least(1) [OF assms(3)] assms(2) by simp
  then have le: "?a \<le> ?hi" using PGROUNDUP_least(2) [OF old] by simp
  have n: "unat ?a + 4096 * (unat (?hi - ?a) div 4096) = unat ?hi"
    using pages_between(1) [of ?a ?hi] le by simp
  from uvmalloc_loop_spec [OF assms(1) _ n order_refl _ _ assms(3,4,5)] assms(6)
  obtain r s' where call: "uvmalloc_loop pt ?a ?a newsz xperm s = Ok (r, s')"
    and post: "grow_post s fl pt ?a ?a ?hi newsz (PTE_R OR PTE_U OR xperm) r s'"
    and succ: "3 * (unat (?hi - ?a) div 4096) \<le> length fl \<longrightarrow>
      r = newsz \<and> grown s s' pt ?a ?hi (PTE_R OR PTE_U OR xperm)" by auto
  have "uvmalloc pt oldsz newsz xperm s = Ok (r, s')"
    using call leD [OF assms(2)] by (auto simp: uvmalloc_def)
  then show ?thesis using post succ unfolding grow_post_def by blast
qed

end
