(* ===== verification/Vm_Copy.thy ===== *)
theory Vm_Copy
  imports Vm_Sizes
begin

text \<open>
  \<open>vmfault\<close>, \<open>copyout\<close>, \<open>copyin\<close> and \<open>copyinstr\<close> against an abstract user memory. The
  abstraction \<open>lbyte\<close> hides lazy allocation: below the process size a page that has no
  entry yet reads as zero. A page fault then changes nothing abstractly, \<open>copyin\<close> reads
  the abstract memory and \<open>copyout\<close> updates it.
\<close>

section \<open>Abstract user memory\<close>

definition user_pte :: "u64 \<Rightarrow> bool" where
  "user_pte e \<longleftrightarrow> valid e \<and> bit e 4"

definition lbyte :: "phys \<Rightarrow> u64 \<Rightarrow> u64 \<Rightarrow> u64 \<Rightarrow> u8 option" where
  "lbyte s pt psz va =
     (if va < TRAPFRAME \<and> user_pte (pte_of s pt va) then Some (ubyte s pt va)
      else if PGROUNDDOWN va < psz \<and> va < TRAPFRAME \<and> \<not> valid (pte_of s pt va) then Some 0 else None)"

text \<open>Where \<open>copyout\<close> may write.\<close>

definition lwrite :: "phys \<Rightarrow> u64 \<Rightarrow> u64 \<Rightarrow> u64 \<Rightarrow> bool" where
  "lwrite s pt psz va \<longleftrightarrow> va < TRAPFRAME \<and>
     (user_pte (pte_of s pt va) \<and> bit (pte_of s pt va) 2 \<or>
      \<not> valid (pte_of s pt va) \<and> PGROUNDDOWN va < psz)"

text \<open>What every step keeps: the invariant, the pages, the abstract memory's shape.\<close>

definition keeps :: "phys \<Rightarrow> u64 list \<Rightarrow> u64 \<Rightarrow> u64 \<Rightarrow> phys \<Rightarrow> u64 list \<Rightarrow> bool" where
  "keeps s fl pt psz s' fl' \<longleftrightarrow> uspace s' fl' pt \<and> account s' fl' pt = account s fl pt \<and>
     same_outside (account s fl pt) s s' \<and> set fl' \<subseteq> set fl \<and>
     lwrite s' pt psz = lwrite s pt psz \<and>
     (\<forall>x < VATOP. valid (pte_of s pt x) \<or> psz \<le> PGROUNDDOWN x \<longrightarrow> pte_of s' pt x = pte_of s pt x)"

lemma keeps_refl: "uspace s fl pt \<Longrightarrow> keeps s fl pt psz s fl"
  by (simp add: keeps_def)

lemma keeps_trans:
  assumes "keeps s fl pt psz s1 fl1" "keeps s1 fl1 pt psz s2 fl2"
  shows "keeps s fl pt psz s2 fl2"
proof -
  have "same_outside (account s fl pt \<union> account s1 fl1 pt) s s2"
    by (rule same_outside_trans) (use assms in \<open>auto simp: keeps_def\<close>)
  then have "same_outside (account s fl pt) s s2" using assms(1) by (simp add: keeps_def)
  moreover have "set fl2 \<subseteq> set fl" using assms unfolding keeps_def by blast
  ultimately show ?thesis using assms by (simp add: keeps_def)
qed

lemma keeps_invalid:
  "keeps s fl pt psz s' fl' \<Longrightarrow> x < TRAPFRAME \<Longrightarrow> \<not> valid (pte_of s' pt x) \<Longrightarrow> \<not> valid (pte_of s pt x)"
  using TRAPFRAME_VATOP [of x] unfolding keeps_def by metis

text \<open>The copy could not go on at \<open>va\<close>: not user memory, or memory ran out on a lazy page.\<close>

definition stuck :: "phys \<Rightarrow> u64 \<Rightarrow> u64 \<Rightarrow> u64 \<Rightarrow> u64 list \<Rightarrow> bool" where
  "stuck s pt psz va fl' \<longleftrightarrow>
     lbyte s pt psz va = None \<or> \<not> valid (pte_of s pt va) \<and> length fl' \<le> 1"

lemma lbyte_high: "\<not> va < TRAPFRAME \<Longrightarrow> lbyte s pt psz va = None"
  by (simp add: lbyte_def)

lemma keeps_stuck:
  "keeps s fl pt psz s1 fl1 \<Longrightarrow> lbyte s1 pt psz = lbyte s pt psz \<Longrightarrow> stuck s1 pt psz va fl' \<Longrightarrow>
   stuck s pt psz va fl'"
  using keeps_invalid [of s fl pt psz s1 fl1 va] lbyte_high [of va s pt psz]
  unfolding stuck_def by metis

lemma tables_fl_account: "tables s pt \<union> set fl \<subseteq> account s fl pt"
  by (auto simp: account_def)

lemma walkaddr_user:
  assumes "uspace s fl pt"
  shows "walkaddr pt va s =
    Ok (if va < TRAPFRAME \<and> user_pte (pte_of s pt va) then page_of s pt va else 0, s)"
proof -
  have "va < MAXVA \<and> valid (pte_of s pt va) \<and> bit (pte_of s pt va) 4 \<longleftrightarrow>
      va < TRAPFRAME \<and> user_pte (pte_of s pt va)"
    using uspace_high [OF assms, of va] MAXVA_VATOP [of va] TRAPFRAME_MAXVA [of va]
    by (auto simp: user_pte_def not_le [symmetric])
  then show ?thesis
    unfolding walkaddr_spec [OF uspace_as_inv [OF assms]] page_of_def by simp
qed

section \<open>vmfault\<close>

lemma bit_fresh: "bit (PA2PTE p OR (PTE_W OR PTE_U OR PTE_R) OR PTE_V) 4"
    "bit (PA2PTE p OR (PTE_W OR PTE_U OR PTE_R) OR PTE_V) 2"
  by (simp_all add: bit_or_iff bit_pte_bits)

lemma fresh_perm: "PTE_W OR PTE_U OR PTE_R < 1024"
  by (simp add: pte_bits)

lemma vmfault_spec:
  assumes us: "uspace s fl pt" and psz: "psz \<le> TRAPFRAME"
  shows "\<exists>r s' fl'. vmfault pt psz va rd s = Ok (r, s') \<and> keeps s fl pt psz s' fl' \<and>
    lbyte s' pt psz = lbyte s pt psz \<and>
    (r \<noteq> 0 \<longrightarrow> va < psz \<and> user_pte (pte_of s' pt va) \<and> page_of s' pt va = r) \<and>
    (r = 0 \<longrightarrow> psz \<le> va \<or> valid (pte_of s pt va) \<or> length fl' \<le> 1)"
proof (cases "psz \<le> va")
  case True
  then show ?thesis using us by (auto simp: vmfault_def intro: keeps_refl)
next
  case lt: False
  define a where "a = PGROUNDDOWN va"
  have al: "page_aligned a" by (simp add: a_def)
  have aT: "a < TRAPFRAME" using lt psz PGROUNDDOWN_le [of va] by (simp add: a_def not_le)
  have ev: "pte_of s pt a = pte_of s pt va" by (simp add: a_def pte_of_PGROUNDDOWN)
  note im = ismapped_spec [OF uspace_as_inv [OF us] TRAPFRAME_MAXVA [OF aT]]
  show ?thesis
  proof (cases "valid (pte_of s pt a)")
    case True
    then show ?thesis
      using us lt im ev by (auto simp: vmfault_def simp flip: a_def intro: keeps_refl)
  next
    case new: False
    obtain mem s1 where ka: "kalloc s = (mem, s1)" by fastforce
    show ?thesis
    proof (cases "mem = 0")
      case True
      with ka have "s1 = s" "fl = []" by (auto elim: kalloc_as_inv [OF uspace_as_inv [OF us]])
      then show ?thesis
        using us lt im new ka True
        by (intro exI [of _ 0] exI [of _ s] exI [of _ fl])
          (auto simp: vmfault_def keeps_refl Let_def simp flip: a_def)
    next
      case nz: False
      define s2 where "s2 = s1\<lparr>pmem := memset (pmem s1) mem 0 PGSIZE\<rparr>"
      have al_mem: "page_aligned mem"
        using ka nz by (cases rule: kalloc_as_inv [OF uspace_as_inv [OF us]])
          (auto dest: usable_aligned)
      have m2: "\<And>q. q \<noteq> mem \<Longrightarrow> same_page (pmem s1) (memset (pmem s1) mem 0 PGSIZE) q"
        using al_mem by (simp add: same_page_memset)
      show ?thesis
      proof (rule map_fresh [OF us al aT new fresh_perm ka nz s2_def m2], goal_cases)
        case mapped: (2 s3 fl3)
        note pg = grown_page [OF us al aT al_mem fresh_perm mapped(4,5,10)]
        have call: "vmfault pt psz va rd s = Ok (mem, s3)"
          using lt im new ka nz mapped(1) by (simp add: vmfault_def Let_def s2_def flip: a_def)
        have out: "same_outside (account s fl pt) s s3"
          by (rule same_outside_mono [OF mapped(4) tables_fl_account])
        have e: "pte_of s3 pt x = PA2PTE mem OR (PTE_W OR PTE_U OR PTE_R) OR PTE_V"
          if "PGROUNDDOWN x = a" for x
          using mapped(10) that below_TRAPFRAME_page [OF al aT that] TRAPFRAME_VATOP by simp
        have old: "\<not> valid (pte_of s pt x)" "x < TRAPFRAME" if "PGROUNDDOWN x = a" for x
          using new pte_of_PGROUNDDOWN [of s pt x] that below_TRAPFRAME_page [OF al aT that] by auto
        have ap: "a < psz" using lt PGROUNDDOWN_le [of va] by (simp add: a_def not_le)
        have other: "pte_of s3 pt x = pte_of s pt x" "mapped s pt x \<Longrightarrow> ubyte s3 pt x = ubyte s pt x"
          if "PGROUNDDOWN x \<noteq> a" "x < TRAPFRAME" for x
          using pg(2) [of x] that TRAPFRAME_VATOP by auto
        have lb: "lbyte s3 pt psz x = lbyte s pt psz x \<and> lwrite s3 pt psz x = lwrite s pt psz x" for x
        proof (cases "PGROUNDDOWN x = a")
          case True
          then show ?thesis
            using e [OF True] old [OF True] pg(1) [OF True] ap bit_fresh [of mem]
            by (simp add: lbyte_def lwrite_def user_pte_def)
        next
          case False
          then show ?thesis
            using other [OF False] by (auto simp: lbyte_def lwrite_def user_pte_def mapped_def)
        qed
        have "pte_of s3 pt x = pte_of s pt x"
          if "x < VATOP" "valid (pte_of s pt x) \<or> psz \<le> PGROUNDDOWN x" for x
          using mapped(10) old(1) [of x] that ap by auto
        then have "keeps s fl pt psz s3 fl3"
          using mapped(2,3,8) out lb by (simp add: keeps_def fun_eq_iff)
        moreover have "page_of s3 pt va = mem" "user_pte (pte_of s3 pt va)"
          using e [of va] PTE2PA_leaf [OF al_mem fresh_perm] bit_fresh [of mem]
          by (simp_all add: page_of_def user_pte_def a_def)
        ultimately show ?case
          using call lb lt nz by (intro exI [of _ mem] exI [of _ s3] exI [of _ fl3])
            (simp add: fun_eq_iff not_le)
      next
        case no_table: (3 s3 s4)
        have call: "vmfault pt psz va rd s = Ok (0, s4)"
          using lt im new ka nz no_table(1,2) by (simp add: vmfault_def Let_def s2_def flip: a_def)
        have out: "same_outside (account s fl pt) s s4"
          by (rule same_outside_mono [OF no_table(5) tables_fl_account])
        have other: "pte_of s4 pt x = pte_of s pt x" "mapped s pt x \<Longrightarrow> ubyte s4 pt x = ubyte s pt x"
          if "x < TRAPFRAME" for x
        proof -
          show e: "pte_of s4 pt x = pte_of s pt x"
            using no_table(6) that TRAPFRAME_VATOP by (simp add: same_map_def)
          show "ubyte s4 pt x = ubyte s pt x" if "mapped s pt x"
            by (rule ubyte_outside [OF that no_table(5) uspace_disjoint [OF us]])
              (simp add: page_of_def e)
        qed
        have lb: "lbyte s4 pt psz x = lbyte s pt psz x \<and> lwrite s4 pt psz x = lwrite s pt psz x" for x
          using other [of x] by (auto simp: lbyte_def lwrite_def user_pte_def mapped_def)
        have "keeps s fl pt psz s4 [mem]"
          using no_table(3,4,6,7) out lb by (simp add: keeps_def fun_eq_iff same_map_def)
        then show ?case
          using call lb by (intro exI [of _ 0] exI [of _ s4] exI [of _ "[mem]"])
            (simp add: fun_eq_iff)
      qed
    qed
  qed
qed

text \<open>The page of one copy step: present, faulted in, or refused.\<close>

lemma user_page_spec:
  assumes us: "uspace s fl pt" and psz: "psz \<le> TRAPFRAME" and al: "page_aligned va0"
  shows "\<exists>pa s' fl'. user_page pt psz va0 rd s = Ok (pa, s') \<and> keeps s fl pt psz s' fl' \<and>
    lbyte s' pt psz = lbyte s pt psz \<and>
    (pa \<noteq> 0 \<longrightarrow> va0 < TRAPFRAME \<and> user_pte (pte_of s' pt va0) \<and> page_of s' pt va0 = pa) \<and>
    (pa = 0 \<longrightarrow> stuck s pt psz va0 fl')"
proof (cases "va0 < TRAPFRAME \<and> user_pte (pte_of s pt va0)")
  case True
  then have "mapped s pt va0" by (simp add: mapped_def user_pte_def)
  then have "page_of s pt va0 \<noteq> 0" using uspace_page(1) [OF us] by (auto simp: usable_def)
  then show ?thesis
    using True walkaddr_user [OF us, of va0] us by (auto simp: user_page_def intro: keeps_refl)
next
  case False
  from vmfault_spec [OF us psz, of va0 rd] obtain r s' fl' where
    f: "vmfault pt psz va0 rd s = Ok (r, s')" "keeps s fl pt psz s' fl'"
      "lbyte s' pt psz = lbyte s pt psz"
      "r \<noteq> 0 \<longrightarrow> va0 < psz \<and> user_pte (pte_of s' pt va0) \<and> page_of s' pt va0 = r"
      "r = 0 \<longrightarrow> psz \<le> va0 \<or> valid (pte_of s pt va0) \<or> length fl' \<le> 1" by blast
  have "user_page pt psz va0 rd s = Ok (r, s')"
    using walkaddr_user [OF us, of va0] False f(1) by (auto simp: user_page_def)
  moreover have "lbyte s pt psz va0 = None" if "psz \<le> va0 \<or> valid (pte_of s pt va0)"
    using that False al by (auto simp: lbyte_def PGROUNDDOWN_id)
  moreover have "r \<noteq> 0 \<longrightarrow> va0 < TRAPFRAME" using f(4) psz by auto
  moreover have "stuck s pt psz va0 fl'" if "r = 0"
    using f(5) that calculation(2) unfolding stuck_def by blast
  ultimately show ?thesis using f by blast
qed

section \<open>Bytes of one page\<close>

text \<open>A copy step handles the \<open>n\<close> bytes from \<open>va\<close> to the end of its page or of the buffer.\<close>

lemma unat_chunk: "unat (chunk va len) = min (4096 - unat (va - PGROUNDDOWN va)) (unat len)"
proof -
  let ?o = "va - PGROUNDDOWN va"
  have "unat ?o < 4096" using PGROUNDDOWN_offset [of va] by (simp add: word_less_nat_alt)
  then have "unat (PGSIZE - ?o) = 4096 - unat ?o" by (simp add: unat_sub_if')
  then show ?thesis by (simp add: chunk_def Let_def word_less_nat_alt min_def)
qed

lemma chunk_page:
  assumes "i < unat (chunk va len)"
  shows "PGROUNDDOWN (va + of_nat i) = PGROUNDDOWN va"
    "va + of_nat i - PGROUNDDOWN va = (va - PGROUNDDOWN va) + of_nat i"
proof -
  let ?o = "va - PGROUNDDOWN va"
  have o: "unat ?o < 4096" using PGROUNDDOWN_offset [of va] by (simp add: word_less_nat_alt)
  have i: "i < 4096 - unat ?o" using assms by (simp add: unat_chunk)
  then have "unat (?o + of_nat i) = unat ?o + i" by (simp add: unat_word_ariths unat_of_nat)
  then have "?o + of_nat i < PGSIZE" using i by (simp add: word_less_nat_alt)
  from PGROUNDDOWN_add [OF PGROUNDDOWN_aligned [of va] this]
  show "PGROUNDDOWN (va + of_nat i) = PGROUNDDOWN va" by (simp add: algebra_simps)
  show "va + of_nat i - PGROUNDDOWN va = ?o + of_nat i" by (simp add: algebra_simps)
qed

text \<open>Past the chunk, the copy goes on at the next page, if anything is left.\<close>

lemma chunk_next:
  assumes "chunk va len \<noteq> len"
  shows "PGROUNDDOWN va + PGSIZE = va + chunk va len"
  using assms by (auto simp: chunk_def Let_def split: if_splits)

lemma lbyte_page:
  assumes "user_pte (pte_of s pt va0)" "va0 < TRAPFRAME" "page_aligned va0" "PGROUNDDOWN va = va0"
  shows "lbyte s pt psz va = Some (pmem s (page_of s pt va0 + (va - va0)))"
proof -
  have "va < TRAPFRAME" using below_TRAPFRAME_page assms by blast
  moreover have "pte_of s pt va = pte_of s pt va0" using pte_of_PGROUNDDOWN [of s pt va] assms(4) by simp
  ultimately show ?thesis
    using assms(1,4) by (simp add: lbyte_def ubyte_def page_of_def)
qed

section \<open>copyin\<close>

definition read_post ::
  "phys \<Rightarrow> u64 list \<Rightarrow> u64 \<Rightarrow> u64 \<Rightarrow> u64 \<Rightarrow> u64 \<Rightarrow> int \<Rightarrow> u8 list \<Rightarrow> phys \<Rightarrow> bool" where
  "read_post s fl pt psz va len r bs s' \<longleftrightarrow> (\<exists>fl'. keeps s fl pt psz s' fl' \<and>
     lbyte s' pt psz = lbyte s pt psz \<and> length bs \<le> unat len \<and>
     (\<forall>i < length bs. lbyte s pt psz (va + of_nat i) = Some (bs ! i)) \<and>
     (r = 0 \<and> length bs = unat len \<or>
      r = -1 \<and> length bs < unat len \<and> stuck s pt psz (PGROUNDDOWN (va + of_nat (length bs))) fl'))"

lemma read_chunk:
  assumes "user_pte (pte_of s pt (PGROUNDDOWN va))" "PGROUNDDOWN va < TRAPFRAME"
    "i < unat (chunk va len)"
  shows "lbyte s pt psz (va + of_nat i) =
    Some (pmem s (page_of s pt (PGROUNDDOWN va) + (va - PGROUNDDOWN va) + of_nat i))"
  using lbyte_page [OF assms(1,2) PGROUNDDOWN_aligned chunk_page(1) [OF assms(3)]]
  unfolding chunk_page(2) [OF assms(3)] by (simp only: add.assoc)

lemma read_post_step:
  assumes k1: "keeps s fl pt psz s1 fl1" and l1: "lbyte s1 pt psz = lbyte s pt psz"
    and bs1: "length bs1 = unat (chunk va len)"
      "\<And>i. i < unat (chunk va len) \<Longrightarrow> lbyte s pt psz (va + of_nat i) = Some (bs1 ! i)"
    and post: "read_post s1 fl1 pt psz (PGROUNDDOWN va + PGSIZE) (len - chunk va len) r bs s'"
  shows "read_post s fl pt psz va len r (bs1 @ bs) s'"
proof -
  let ?n = "chunk va len"
  from post obtain fl' where k2: "keeps s1 fl1 pt psz s' fl'" and l2: "lbyte s' pt psz = lbyte s1 pt psz"
    and le: "length bs \<le> unat (len - ?n)"
    and nth: "\<forall>i < length bs. lbyte s1 pt psz (PGROUNDDOWN va + PGSIZE + of_nat i) = Some (bs ! i)"
    and res: "r = 0 \<and> length bs = unat (len - ?n) \<or> r = -1 \<and> length bs < unat (len - ?n) \<and>
      stuck s1 pt psz (PGROUNDDOWN (PGROUNDDOWN va + PGSIZE + of_nat (length bs))) fl'"
    unfolding read_post_def by blast
  have un: "unat (len - ?n) = unat len - unat ?n" "unat ?n \<le> unat len"
    using chunk_le [of va len] by (simp_all add: unat_sub word_le_nat_alt)
  have nx: "PGROUNDDOWN va + PGSIZE + of_nat i = va + of_nat (unat ?n + i)" if "len \<noteq> ?n" for i
    using chunk_next [of va len] that by (simp add: algebra_simps)
  have ne: "len \<noteq> ?n" if "0 < unat (len - ?n)" using that by auto
  have "lbyte s pt psz (va + of_nat i) = Some ((bs1 @ bs) ! i)" if "i < length (bs1 @ bs)" for i
  proof (cases "i < unat ?n")
    case True
    then show ?thesis using bs1 by (simp add: nth_append)
  next
    case False
    define j where "j = i - unat ?n"
    have j: "i = unat ?n + j" "j < length bs" using False that bs1(1) by (auto simp: j_def)
    have "lbyte s pt psz (PGROUNDDOWN va + PGSIZE + of_nat j) = Some (bs ! j)"
      using nth j(2) l1 by simp
    moreover have "PGROUNDDOWN va + PGSIZE + of_nat j = va + of_nat i"
      unfolding j(1) by (rule nx [OF ne]) (use j(2) le in simp)
    ultimately show ?thesis using j(1) bs1(1) by (simp only: nth_append) simp
  qed
  moreover have "r = 0 \<and> length (bs1 @ bs) = unat len \<or> r = -1 \<and> length (bs1 @ bs) < unat len \<and>
      stuck s pt psz (PGROUNDDOWN (va + of_nat (length (bs1 @ bs)))) fl'"
    using res
  proof
    assume "r = 0 \<and> length bs = unat (len - ?n)"
    then show ?thesis using un bs1(1) by simp
  next
    assume r: "r = -1 \<and> length bs < unat (len - ?n) \<and>
      stuck s1 pt psz (PGROUNDDOWN (PGROUNDDOWN va + PGSIZE + of_nat (length bs))) fl'"
    then have "PGROUNDDOWN va + PGSIZE + of_nat (length bs) = va + of_nat (unat ?n + length bs)"
      by (intro nx ne) simp
    moreover have "length (bs1 @ bs) = unat ?n + length bs" using bs1(1) by simp
    moreover have "unat ?n + length bs < unat len" using r un by (simp add: less_diff_conv)
    ultimately show ?thesis using r keeps_stuck [OF k1 l1] by (simp only: simp_thms)
  qed
  moreover have "length (bs1 @ bs) \<le> unat len" using le un bs1(1) by simp
  ultimately show ?thesis
    using keeps_trans [OF k1 k2] l1 l2 unfolding read_post_def by (intro exI [of _ fl']) simp
qed

lemma copyin_spec:
  "uspace s fl pt \<Longrightarrow> psz \<le> TRAPFRAME \<Longrightarrow>
   \<exists>r bs s'. copyin pt psz va len s = Ok (r, bs, s') \<and> read_post s fl pt psz va len r bs s'"
proof (induction "unat len" arbitrary: va len s fl rule: less_induct)
  case less
  let ?va0 = "PGROUNDDOWN va" and ?n = "chunk va len"
  show ?case
  proof (cases "len = 0")
    case True
    then show ?thesis
      using less.prems(1) by (auto simp: copyin.simps read_post_def intro: keeps_refl)
  next
    case False
    then have pos: "0 < len" by (simp add: word_neq_0_conv)
    from user_page_spec [OF less.prems PGROUNDDOWN_aligned, of va True]
    obtain pa s1 fl1 where up: "user_page pt psz ?va0 True s = Ok (pa, s1)"
      and k1: "keeps s fl pt psz s1 fl1" and l1: "lbyte s1 pt psz = lbyte s pt psz"
      and ok: "pa \<noteq> 0 \<longrightarrow> ?va0 < TRAPFRAME \<and> user_pte (pte_of s1 pt ?va0) \<and> page_of s1 pt ?va0 = pa"
      and bad: "pa = 0 \<longrightarrow> stuck s pt psz ?va0 fl1" by blast
    show ?thesis
    proof (cases "pa = 0")
      case True
      then show ?thesis
        using up pos k1 l1 bad False
        by (intro exI [of _ "-1"] exI [of _ "[]"] exI [of _ s1])
          (auto simp: copyin.simps [of pt psz va] read_post_def Let_def unat_gt_0
            intro!: exI [of _ fl1])
    next
      case nz: False
      let ?bs = "read_bytes (pmem s1) (pa + (va - ?va0)) (unat ?n)"
      have lt: "unat (len - ?n) < unat len" using chunk_measure [OF pos] .
      have us1: "uspace s1 fl1 pt" using k1 by (simp add: keeps_def)
      from less.hyps [OF lt us1 less.prems(2), of "?va0 + PGSIZE"]
      obtain r bs s' where c: "copyin pt psz (?va0 + PGSIZE) (len - ?n) s1 = Ok (r, bs, s')"
        and post: "read_post s1 fl1 pt psz (?va0 + PGSIZE) (len - ?n) r bs s'" by blast
      have call: "copyin pt psz va len s = Ok (r, ?bs @ bs, s')"
        using pos up nz c by (subst copyin.simps) (simp add: Let_def)
      have lb: "length ?bs = unat ?n" by (simp add: read_bytes_def)
      have nth: "lbyte s pt psz (va + of_nat i) = Some (?bs ! i)" if "i < unat ?n" for i
        using read_chunk [of s1 pt va i len psz] that ok nz l1 by (simp add: read_bytes_def)
      have "read_post s fl pt psz va len r (?bs @ bs) s'"
        by (rule read_post_step [OF k1 l1 lb nth post])
      then show ?thesis using call by blast
    qed
  qed
qed

section \<open>copyinstr\<close>

definition read_ok ::
  "phys \<Rightarrow> u64 list \<Rightarrow> u64 \<Rightarrow> u64 \<Rightarrow> u64 \<Rightarrow> u8 list \<Rightarrow> phys \<Rightarrow> u64 list \<Rightarrow> bool" where
  "read_ok s fl pt psz va bs s' fl' \<longleftrightarrow> keeps s fl pt psz s' fl' \<and>
     lbyte s' pt psz = lbyte s pt psz \<and>
     (\<forall>i < length bs. lbyte s pt psz (va + of_nat i) = Some (bs ! i))"

lemma read_ok_append:
  assumes "read_ok s fl pt psz va bs1 s1 fl1"
    "read_ok s1 fl1 pt psz (va + of_nat (length bs1)) bs s' fl'"
  shows "read_ok s fl pt psz va (bs1 @ bs) s' fl'"
proof -
  have l1: "lbyte s1 pt psz = lbyte s pt psz" using assms(1) by (simp add: read_ok_def)
  have "lbyte s pt psz (va + of_nat i) = Some ((bs1 @ bs) ! i)" if "i < length (bs1 @ bs)" for i
  proof (cases "i < length bs1")
    case True
    then show ?thesis using assms(1) by (simp add: read_ok_def nth_append)
  next
    case False
    then obtain j where j: "i = length bs1 + j" by (metis le_iff_add not_less)
    moreover from this have "lbyte s pt psz (va + of_nat (length bs1) + of_nat j) = Some (bs ! j)"
      using assms(2) that l1 by (simp add: read_ok_def)
    ultimately show ?thesis by (simp add: add.assoc)
  qed
  moreover have "keeps s fl pt psz s' fl'"
    using assms unfolding read_ok_def by (blast intro: keeps_trans)
  ultimately show ?thesis using assms(2) l1 unfolding read_ok_def by simp
qed

lemma str_chunk_spec:
  "str_chunk m p n = (bs, g) \<Longrightarrow> length bs \<le> n \<and> (\<forall>i < length bs. bs ! i = m (p + of_nat i)) \<and>
   (if g then bs \<noteq> [] \<and> last bs = 0 \<and> 0 \<notin> set (butlast bs) else length bs = n \<and> 0 \<notin> set bs)"
proof (induction n arbitrary: p bs)
  case (Suc n)
  show ?case
  proof (cases "m p = 0")
    case True
    then show ?thesis using Suc.prems by auto
  next
    case False
    then obtain bs' where bs': "str_chunk m (p + 1) n = (bs', g)" "bs = m p # bs'"
      using Suc.prems by (auto split: prod.splits)
    have "(m p # bs') ! i = m (p + of_nat i)" if "i < Suc (length bs')" for i
      using Suc.IH [OF bs'(1)] that by (cases i) (auto simp: add.assoc)
    then show ?thesis using Suc.IH [OF bs'(1)] bs'(2) False by (cases g) auto
  qed
qed auto

text \<open>The outcome of \<open>copyinstr\<close>: a string of at most \<open>n\<close> bytes with its NUL, or none.\<close>

definition str_out ::
  "phys \<Rightarrow> u64 \<Rightarrow> u64 \<Rightarrow> u64 \<Rightarrow> nat \<Rightarrow> int \<Rightarrow> u8 list \<Rightarrow> u64 list \<Rightarrow> bool" where
  "str_out s pt psz va n r bs fl' \<longleftrightarrow> length bs \<le> n \<and>
     (r = 0 \<and> bs \<noteq> [] \<and> last bs = 0 \<and> 0 \<notin> set (butlast bs) \<or>
      r = -1 \<and> 0 \<notin> set bs \<and> (length bs = n \<or>
        stuck s pt psz (PGROUNDDOWN (va + of_nat (length bs))) fl'))"

lemma copyinstr_spec:
  "uspace s fl pt \<Longrightarrow> psz \<le> TRAPFRAME \<Longrightarrow>
   \<exists>r bs s' fl'. copyinstr pt psz va mx s = Ok (r, bs, s') \<and>
     read_ok s fl pt psz va bs s' fl' \<and> str_out s pt psz va (unat mx) r bs fl'"
proof (induction "unat mx" arbitrary: va mx s fl rule: less_induct)
  case less
  let ?va0 = "PGROUNDDOWN va" and ?n = "chunk va mx"
  show ?case
  proof (cases "mx = 0")
    case True
    then show ?thesis
      using less.prems(1) by (intro exI [of _ "-1"] exI [of _ "[]"] exI [of _ s] exI [of _ fl])
        (simp add: copyinstr.simps read_ok_def str_out_def keeps_refl)
  next
    case False
    then have pos: "0 < mx" by (simp add: word_neq_0_conv)
    from user_page_spec [OF less.prems PGROUNDDOWN_aligned, of va True]
    obtain pa s1 fl1 where up: "user_page pt psz ?va0 True s = Ok (pa, s1)"
      and k1: "keeps s fl pt psz s1 fl1" and l1: "lbyte s1 pt psz = lbyte s pt psz"
      and ok: "pa \<noteq> 0 \<longrightarrow> ?va0 < TRAPFRAME \<and> user_pte (pte_of s1 pt ?va0) \<and> page_of s1 pt ?va0 = pa"
      and bad: "pa = 0 \<longrightarrow> stuck s pt psz ?va0 fl1" by blast
    show ?thesis
    proof (cases "pa = 0")
      case True
      then show ?thesis
        using up pos k1 l1 bad
        by (intro exI [of _ "-1"] exI [of _ "[]"] exI [of _ s1] exI [of _ fl1])
          (auto simp: copyinstr.simps [of pt psz va] read_ok_def str_out_def Let_def)
    next
      case nz: False
      obtain bs g where sc: "str_chunk (pmem s1) (pa + (va - ?va0)) (unat ?n) = (bs, g)" by fastforce
      note scs = str_chunk_spec [OF sc]
      have nle: "unat ?n \<le> unat mx" using chunk_le [of va mx] by (simp add: word_le_nat_alt)
      have "lbyte s pt psz (va + of_nat i) = Some (bs ! i)" if "i < length bs" for i
      proof -
        have "i < unat ?n" using that scs by simp
        from read_chunk [of s1 pt va i mx psz, OF _ _ this]
        show ?thesis using ok nz l1 scs that by simp
      qed
      then have ro: "read_ok s fl pt psz va bs s1 fl1" using k1 l1 by (simp add: read_ok_def)
      show ?thesis
      proof (cases g)
        case True
        have "copyinstr pt psz va mx s = Ok (0, bs, s1)"
          using pos up nz sc True by (subst copyinstr.simps) (simp add: Let_def)
        moreover have "str_out s pt psz va (unat mx) 0 bs fl1"
          using scs True nle by (simp add: str_out_def)
        ultimately show ?thesis using ro by blast
      next
        case ng: False
        have lt: "unat (mx - ?n) < unat mx" using chunk_measure [OF pos] .
        have us1: "uspace s1 fl1 pt" using k1 by (simp add: keeps_def)
        have un: "unat (mx - ?n) = unat mx - unat ?n" using chunk_le [of va mx] by (simp add: unat_sub)
        from less.hyps [OF lt us1 less.prems(2), of "?va0 + PGSIZE"]
        obtain r bs' s' fl' where c: "copyinstr pt psz (?va0 + PGSIZE) (mx - ?n) s1 = Ok (r, bs', s')"
          and ro': "read_ok s1 fl1 pt psz (?va0 + PGSIZE) bs' s' fl'"
          and so': "str_out s1 pt psz (?va0 + PGSIZE) (unat (mx - ?n)) r bs' fl'" by blast
        have call: "copyinstr pt psz va mx s = Ok (r, bs @ bs', s')"
          using pos up nz sc ng c by (subst copyinstr.simps) (simp add: Let_def)
        show ?thesis
        proof (cases "mx = ?n")
          case True
          then have "copyinstr pt psz (?va0 + PGSIZE) (mx - ?n) s1 = Ok (-1, [], s1)"
            by (simp add: copyinstr.simps)
          then have "r = -1" "bs' = []" "s' = s1" using c by auto
          moreover from this have "str_out s pt psz va (unat mx) r bs fl1"
            using scs ng True by (simp add: str_out_def)
          ultimately show ?thesis using call ro by auto
        next
          case False
          then have nx: "?va0 + PGSIZE = va + of_nat (length bs)"
            using chunk_next [of va mx] scs ng by simp
          have "read_ok s fl pt psz va (bs @ bs') s' fl'"
            using read_ok_append [OF ro] ro' unfolding nx by blast
          moreover have "str_out s pt psz va (unat mx) r (bs @ bs') fl'"
          proof -
            have "length bs = unat ?n" "0 \<notin> set bs" using scs ng by simp_all
            then show ?thesis
              using so' un nle keeps_stuck [OF k1 l1] unfolding nx str_out_def
              by (auto simp: butlast_append add.assoc)
          qed
          ultimately show ?thesis using call by blast
        qed
      qed
    qed
  qed
qed

section \<open>copyout\<close>

text \<open>Writing inside a mapped user page.\<close>

definition put_bytes :: "(u64 \<Rightarrow> u8 option) \<Rightarrow> u64 \<Rightarrow> u8 list \<Rightarrow> u64 \<Rightarrow> u8 option" where
  "put_bytes f va bs = (\<lambda>x. if unat (x - va) < length bs then Some (bs ! unat (x - va)) else f x)"

lemma write_user:
  assumes us: "uspace s fl pt" and va0: "page_aligned va0" "va0 < TRAPFRAME" "user_pte (pte_of s pt va0)"
    and va: "PGROUNDDOWN va = va0" and len: "length bs \<le> 4096 - unat (va - va0)"
    and s': "s' = s\<lparr>pmem := write_bytes (pmem s) (page_of s pt va0 + (va - va0)) bs\<rparr>"
  shows "keeps s fl pt psz s' fl" "lbyte s' pt psz = put_bytes (lbyte s pt psz) va bs"
    "pte_of s' pt = pte_of s pt"
proof -
  let ?p = "page_of s pt va0" and ?o = "va - va0"
  have va0': "PGROUNDDOWN va = va0" by (rule va)
  have o: "unat ?o < 4096" using PGROUNDDOWN_offset [of va] va by (simp add: word_less_nat_alt)
  have m0: "mapped s pt va0" using va0 by (simp add: mapped_def user_pte_def)
  have near: "PGROUNDDOWN (q + (?o + d)) = q" if "page_aligned q" "unat d < length bs" for q d
  proof -
    have "unat (?o + d) = unat ?o + unat d" using that(2) len o by (simp add: unat_word_ariths)
    then have "?o + d < PGSIZE" using that(2) len o by (simp add: word_less_nat_alt)
    then show ?thesis by (rule PGROUNDDOWN_add [OF that(1)])
  qed
  have hit: "PGROUNDDOWN x = ?p" if "unat (x - (?p + ?o)) < length bs" for x
    using near [OF page_of_aligned [of s pt va0] that] by (simp add: algebra_simps)
  have st: "same_page (pmem s) (pmem s') q" if "q \<noteq> ?p" for q
    using that hit by (auto simp: same_page_def s' write_bytes_def)
  have out: "same_outside {?p} s s'" using st by (simp add: same_outside_def s')
  have up: "?p \<in> upages s pt" using m0 by (rule mapped_upages)
  have inv: "as_inv s fl 2 pt" using us by (rule uspace_as_inv)
  then have tree: "pt_tree (usable s) (pmem s) 2 pt" and free: "free_pages s fl"
    and dis: "tables s pt \<inter> set fl = {}"
    by (auto simp: as_inv_def)
  have np: "?p \<notin> tables s pt" "?p \<notin> set fl" using uspace_page [OF us m0] by auto
  then have "tables s pt \<inter> {?p} = {}" by simp
  note fr = space_frame [OF tree out this]
  show pte: "pte_of s' pt = pte_of s pt" by (rule fr(3))
  have "free_pages s' fl"
    unfolding s' by (rule free_pages_frame [OF free]) (use st np in \<open>force simp: s'\<close>)
  then have inv': "as_inv s' fl 2 pt" using fr dis by (simp add: as_inv_def)
  have us': "uspace s' fl pt"
    by (rule uspace_cong [OF us inv'])
      (use pte same_outside_usable [OF out] uspace_disjoint [OF us] fr in \<open>auto simp: same_map_def\<close>)
  have up': "upages s' pt = upages s pt" by (rule upages_cong) (simp add: same_map_def pte)
  show "keeps s fl pt psz s' fl"
    using us' up up' fr same_outside_mono [OF out, of "account s fl pt"] pte
    by (auto simp: keeps_def account_def lwrite_def fun_eq_iff)
  have ub: "ubyte s' pt x = (if unat (x - va) < length bs then bs ! unat (x - va) else ubyte s pt x)"
    if x: "mapped s pt x" for x
  proof (cases "PGROUNDDOWN x = va0")
    case True
    have "page_of s pt x = ?p" using page_of_PGROUNDDOWN [of s pt x] True by simp
    moreover have "?p + (x - va0) - (?p + ?o) = x - va" by (simp add: algebra_simps)
    ultimately show ?thesis
      using True pte by (simp add: ubyte_def page_of_def s' write_bytes_def)
  next
    case False
    have "page_of s pt x \<noteq> ?p"
      using uspace_inj [OF us x m0] False va0(1) by (auto simp: PGROUNDDOWN_id)
    then have "{?p} \<inter> {page_of s pt x} = {}" by simp
    then have "same_page (pmem s) (pmem s') (page_of s pt x)" using st by auto
    moreover have "page_of s' pt x = page_of s pt x" by (simp add: page_of_def pte)
    ultimately have "ubyte s' pt x = ubyte s pt x"
      using page_offset [of "page_of s pt x" x] by (simp add: ubyte_def same_page_def)
    moreover have "\<not> unat (x - va) < length bs"
    proof
      assume "unat (x - va) < length bs"
      from near [OF va0(1) this] False show False by (simp add: algebra_simps)
    qed
    ultimately show ?thesis by simp
  qed
  have "lbyte s' pt psz x = put_bytes (lbyte s pt psz) va bs x" for x
  proof (cases "unat (x - va) < length bs")
    case True
    from near [OF va0(1) True] have px: "PGROUNDDOWN x = va0" by (simp add: algebra_simps)
    then have "pte_of s pt x = pte_of s pt va0" using pte_of_PGROUNDDOWN [of s pt x] by simp
    moreover have "x < TRAPFRAME" using below_TRAPFRAME_page [OF va0(1,2) px] .
    ultimately have "mapped s pt x" "user_pte (pte_of s' pt x)" "x < TRAPFRAME"
      using va0(3) pte by (auto simp: mapped_def user_pte_def)
    then show ?thesis using ub True by (simp add: lbyte_def put_bytes_def)
  next
    case False
    then show ?thesis
      using ub [of x] pte by (auto simp: lbyte_def put_bytes_def mapped_def user_pte_def)
  qed
  then show "lbyte s' pt psz = put_bytes (lbyte s pt psz) va bs" by (simp add: fun_eq_iff)
qed

lemma put_bytes_append:
  assumes "length bs1 + length bs2 \<le> 2 ^ 64"
  shows "put_bytes (put_bytes f va bs1) (va + of_nat (length bs1)) bs2 = put_bytes f va (bs1 @ bs2)"
proof
  fix x
  let ?d = "x - va" and ?n = "length bs1"
  have eq: "x - (va + of_nat ?n) = ?d - of_nat ?n" by (simp add: algebra_simps)
  show "put_bytes (put_bytes f va bs1) (va + of_nat ?n) bs2 x = put_bytes f va (bs1 @ bs2) x"
  proof (cases "bs2 = []")
    case True
    then show ?thesis by (simp add: put_bytes_def)
  next
    case False
    then have n: "?n < 2 ^ 64" using assms by (cases bs2) auto
    then have un: "unat (of_nat ?n :: u64) = ?n" by (simp add: unat_of_nat)
    show ?thesis
    proof (cases "?n \<le> unat ?d")
      case True
      then have "unat (?d - of_nat ?n) = unat ?d - ?n" using un by (simp add: unat_sub_if')
      then show ?thesis using True unfolding put_bytes_def eq by (auto simp: nth_append)
    next
      case lt: False
      then have "unat (?d - of_nat ?n) = unat ?d + 2 ^ 64 - ?n" using un by (simp add: unat_sub_if')
      moreover have "\<not> unat ?d + 2 ^ 64 - ?n < length bs2" using assms lt by simp
      ultimately show ?thesis using lt unfolding put_bytes_def eq by (simp add: nth_append)
    qed
  qed
qed

definition blocked :: "phys \<Rightarrow> u64 \<Rightarrow> u64 \<Rightarrow> u64 \<Rightarrow> u64 list \<Rightarrow> bool" where
  "blocked s pt psz va fl' \<longleftrightarrow>
     \<not> lwrite s pt psz va \<or> \<not> valid (pte_of s pt va) \<and> length fl' \<le> 1"

lemma keeps_blocked:
  "keeps s fl pt psz s1 fl1 \<Longrightarrow> blocked s1 pt psz va fl' \<Longrightarrow> blocked s pt psz va fl'"
proof -
  assume k: "keeps s fl pt psz s1 fl1" and b: "blocked s1 pt psz va fl'"
  have "lwrite s1 pt psz = lwrite s pt psz" using k by (simp add: keeps_def)
  then show ?thesis
    using b keeps_invalid [OF k, of va] by (auto simp: blocked_def lwrite_def [of s])
qed

definition user_wpte :: "u64 \<Rightarrow> bool" where
  "user_wpte e \<longleftrightarrow> user_pte e \<and> bit e 2"

definition write_post ::
  "phys \<Rightarrow> u64 list \<Rightarrow> u64 \<Rightarrow> u64 \<Rightarrow> u64 \<Rightarrow> u8 list \<Rightarrow> int \<Rightarrow> phys \<Rightarrow> bool" where
  "write_post s fl pt psz va src r s' \<longleftrightarrow> (\<exists>fl' k. keeps s fl pt psz s' fl' \<and> k \<le> length src \<and>
     lbyte s' pt psz = put_bytes (lbyte s pt psz) va (take k src) \<and>
     (\<forall>i < k. user_wpte (pte_of s' pt (va + of_nat i)) \<and> va + of_nat i < TRAPFRAME) \<and>
     (r = 0 \<and> k = length src \<or> r = -1 \<and> k < length src \<and>
       blocked s pt psz (PGROUNDDOWN (va + of_nat k)) fl'))"

lemma lwrite_lbyte: "lwrite s pt psz va \<Longrightarrow> page_aligned va \<Longrightarrow> lbyte s pt psz va \<noteq> None"
  by (auto simp: lwrite_def lbyte_def)

lemma put_bytes_Nil [simp]: "put_bytes f va [] = f"
  by (simp add: put_bytes_def)


text \<open>One page copied, then the rest.\<close>

lemma write_post_step:
  assumes k1: "keeps s fl pt psz s1 fl1" and l1: "lbyte s1 pt psz = lbyte s pt psz"
    and k2: "keeps s1 fl1 pt psz s2 fl1"
    and l2: "lbyte s2 pt psz = put_bytes (lbyte s1 pt psz) va (take (unat (chunk va len)) src)"
    and len: "length src = unat len"
    and pg: "user_wpte (pte_of s2 pt (PGROUNDDOWN va))" "PGROUNDDOWN va < TRAPFRAME"
    and post: "write_post s2 fl1 pt psz (PGROUNDDOWN va + PGSIZE) (drop (unat (chunk va len)) src) r s'"
  shows "write_post s fl pt psz va src r s'"
proof -
  let ?n = "chunk va len"
  have nle: "unat ?n \<le> unat len" using chunk_le [of va len] by (simp add: word_le_nat_alt)
  from post obtain fl' k where k3: "keeps s2 fl1 pt psz s' fl'" and k: "k \<le> unat len - unat ?n"
    and l3: "lbyte s' pt psz = put_bytes (lbyte s2 pt psz) (PGROUNDDOWN va + PGSIZE)
      (take k (drop (unat ?n) src))"
    and res: "r = 0 \<and> k = unat len - unat ?n \<or> r = -1 \<and> k < unat len - unat ?n \<and>
      blocked s2 pt psz (PGROUNDDOWN (PGROUNDDOWN va + PGSIZE + of_nat k)) fl'"
    and us3: "\<forall>i < k. user_wpte (pte_of s' pt (PGROUNDDOWN va + PGSIZE + of_nat i)) \<and>
      PGROUNDDOWN va + PGSIZE + of_nat i < TRAPFRAME"
    unfolding write_post_def by (auto simp: len)
  have ks: "keeps s fl pt psz s' fl'" using keeps_trans [OF keeps_trans [OF k1 k2] k3] .
  have bl: "blocked s2 pt psz x fl' \<Longrightarrow> blocked s pt psz x fl'" for x
    using keeps_blocked keeps_trans [OF k1 k2] by blast
  have nx: "PGROUNDDOWN va + PGSIZE = va + of_nat (unat ?n)" if "0 < k \<or> r = -1"
  proof -
    have "len \<noteq> ?n" using that k res by auto
    then show ?thesis using chunk_next [of va len] by simp
  qed
  have "unat len < 2 ^ LENGTH(64)" by (rule unsigned_less)
  then have small: "length (take (unat ?n) src) + length (take k (drop (unat ?n) src)) \<le> 2 ^ 64"
    using len k nle by simp
  have lb: "lbyte s' pt psz = put_bytes (lbyte s pt psz) va (take (unat ?n + k) src)"
  proof (cases "k = 0")
    case True
    then show ?thesis using l1 l2 l3 by simp
  next
    case False
    have "length (take (unat ?n) src) = unat ?n" using len nle by simp
    then have "lbyte s' pt psz = put_bytes (lbyte s1 pt psz) va
        (take (unat ?n) src @ take k (drop (unat ?n) src))"
      using put_bytes_append [OF small, of "lbyte s1 pt psz" va] l3 l2 nx False by simp
    then show ?thesis using l1 by (simp add: take_add)
  qed
  have usr: "\<forall>i < unat ?n + k. user_wpte (pte_of s' pt (va + of_nat i)) \<and> va + of_nat i < TRAPFRAME"
  proof (intro allI impI)
    fix i assume i: "i < unat ?n + k"
    show "user_wpte (pte_of s' pt (va + of_nat i)) \<and> va + of_nat i < TRAPFRAME"
    proof (cases "i < unat ?n")
      case True
      have px: "PGROUNDDOWN (va + of_nat i) = PGROUNDDOWN va" by (rule chunk_page(1) [OF True])
      have lt: "va + of_nat i < TRAPFRAME"
        by (rule below_TRAPFRAME_page [OF PGROUNDDOWN_aligned pg(2) px])
      have "pte_of s2 pt (va + of_nat i) = pte_of s2 pt (PGROUNDDOWN va)"
        using pte_of_PGROUNDDOWN [of s2 pt "va + of_nat i"] px by simp
      then have "pte_of s' pt (va + of_nat i) = pte_of s2 pt (PGROUNDDOWN va)"
        using k3 pg(1) TRAPFRAME_VATOP [OF lt] by (simp add: keeps_def user_pte_def user_wpte_def)
      then show ?thesis using pg(1) lt by simp
    next
      case False
      define j where "j = i - unat ?n"
      have j: "i = unat ?n + j" "j < k" using False i by (auto simp: j_def)
      then have "PGROUNDDOWN va + PGSIZE + of_nat j = va + of_nat i"
        using nx by (simp add: add.assoc)
      then show ?thesis using us3 j(2) by metis
    qed
  qed
  from res show ?thesis
  proof
    assume r: "r = 0 \<and> k = unat len - unat ?n"
    then have "unat ?n + k = length src" using nle len by simp
    then show ?thesis
      unfolding write_post_def using ks lb r usr
      by (intro exI [of _ fl'] exI [of _ "unat ?n + k"]) simp
  next
    assume r: "r = -1 \<and> k < unat len - unat ?n \<and>
      blocked s2 pt psz (PGROUNDDOWN (PGROUNDDOWN va + PGSIZE + of_nat k)) fl'"
    moreover from this have "PGROUNDDOWN va + PGSIZE + of_nat k = va + of_nat (unat ?n + k)"
      using nx by (simp add: add.assoc)
    moreover have "unat ?n + k < length src" using r nle len by (simp add: less_diff_conv add.commute)
    ultimately show ?thesis
      unfolding write_post_def using ks lb bl usr
      by (intro exI [of _ fl'] exI [of _ "unat ?n + k"]) simp
  qed
qed

lemma copyout_loop_spec:
  "uspace s fl pt \<Longrightarrow> psz \<le> TRAPFRAME \<Longrightarrow> length src = unat len \<Longrightarrow>
   \<exists>r s'. copyout_loop pt psz va src len s = Ok (r, s') \<and> write_post s fl pt psz va src r s'"
proof (induction "unat len" arbitrary: va src len s fl rule: less_induct)
  case less
  let ?va0 = "PGROUNDDOWN va" and ?n = "chunk va len"
  note us = less.prems(1) and psz = less.prems(2) and len = less.prems(3)
  show ?case
  proof (cases "len = 0")
    case True
    then show ?thesis
      using us len by (intro exI [of _ 0] exI [of _ s])
        (auto simp: copyout_loop.simps write_post_def intro: keeps_refl)
  next
    case False
    then have pos: "0 < len" "src \<noteq> []" using len by (auto simp: word_neq_0_conv unat_eq_0)
    have refuse: ?thesis if "copyout_loop pt psz va src len s = Ok (-1, s1)"
      "keeps s fl pt psz s1 fl1" "lbyte s1 pt psz = lbyte s pt psz"
      "blocked s pt psz ?va0 fl1" for s1 fl1
      using that pos(2) unfolding write_post_def
      by (intro exI [of _ "-1"] exI [of _ s1] conjI exI [of _ fl1] exI [of _ 0]) auto
    show ?thesis
    proof (cases "?va0 \<ge> MAXVA")
      case True
      then have "copyout_loop pt psz va src len s = Ok (-1, s)"
        using pos by (simp add: copyout_loop.simps)
      moreover have "\<not> ?va0 < TRAPFRAME" using True TRAPFRAME_MAXVA leD by blast
      then have "blocked s pt psz ?va0 fl" by (simp add: lwrite_def blocked_def)
      ultimately show ?thesis using refuse keeps_refl [OF us] by blast
    next
      case low: False
      from user_page_spec [OF us psz PGROUNDDOWN_aligned, of va False]
      obtain pa s1 fl1 where up: "user_page pt psz ?va0 False s = Ok (pa, s1)"
        and k1: "keeps s fl pt psz s1 fl1" and l1: "lbyte s1 pt psz = lbyte s pt psz"
        and ok: "pa \<noteq> 0 \<longrightarrow> ?va0 < TRAPFRAME \<and> user_pte (pte_of s1 pt ?va0) \<and> page_of s1 pt ?va0 = pa"
        and bad: "pa = 0 \<longrightarrow> stuck s pt psz ?va0 fl1" by blast
      have us1: "uspace s1 fl1 pt" using k1 by (simp add: keeps_def)
      show ?thesis
      proof (cases "pa = 0")
        case True
        have "copyout_loop pt psz va src len s = Ok (-1, s1)"
          using up pos low True by (simp add: copyout_loop.simps Let_def)
        moreover have "blocked s pt psz ?va0 fl1"
          using bad True lwrite_lbyte [of s pt psz ?va0] by (auto simp: stuck_def blocked_def)
        ultimately show ?thesis using refuse k1 l1 by blast
      next
        case nz: False
        have v: "?va0 < TRAPFRAME" "user_pte (pte_of s1 pt ?va0)" "page_of s1 pt ?va0 = pa"
          using ok nz by auto
        have lf: "leaf (pmem s1) 2 pt ?va0 \<noteq> 0"
          using v(2) no_leaf [OF uspace_as_inv [OF us1], of ?va0] by (auto simp: user_pte_def)
        have w: "walk pt ?va0 False s1 = Ok (leaf (pmem s1) 2 pt ?va0, s1)"
          using TRAPFRAME_MAXVA [OF v(1)] by (rule walk_lookup)
        have ld: "load64 (pmem s1) (leaf (pmem s1) 2 pt ?va0) = pte_of s1 pt ?va0"
          by (rule load_leaf [OF uspace_as_inv [OF us1] lf])
        show ?thesis
        proof (cases "bit (pte_of s1 pt ?va0) 2")
          case False
          have "copyout_loop pt psz va src len s = Ok (-1, s1)"
            using up pos low nz w ld False by (simp add: copyout_loop.simps Let_def test_pte_bits)
          moreover have "\<not> lwrite s1 pt psz ?va0" using False v(2) by (simp add: lwrite_def user_pte_def)
          then have "blocked s pt psz ?va0 fl1" using k1 by (simp add: keeps_def blocked_def)
          ultimately show ?thesis using refuse k1 l1 by blast
        next
          case W: True
          let ?bs = "take (unat ?n) src" and ?rest = "drop (unat ?n) src"
          define s2 where "s2 = s1\<lparr>pmem := write_bytes (pmem s1) (page_of s1 pt ?va0 + (va - ?va0)) ?bs\<rparr>"
          have "length ?bs \<le> 4096 - unat (va - ?va0)" by (simp add: unat_chunk)
          note wu = write_user [OF us1 PGROUNDDOWN_aligned v(1,2) refl this s2_def]
          have us2: "uspace s2 fl1 pt" using wu(1) by (simp add: keeps_def)
          have lt: "unat (len - ?n) < unat len" using chunk_measure [OF pos(1)] .
          have "length ?rest = unat (len - ?n)"
            using len chunk_le [of va len] by (simp add: unat_sub)
          from less.hyps [OF lt us2 psz this, of "?va0 + PGSIZE"] obtain r s' where
            c: "copyout_loop pt psz (?va0 + PGSIZE) ?rest (len - ?n) s2 = Ok (r, s')"
            and post: "write_post s2 fl1 pt psz (?va0 + PGSIZE) ?rest r s'" by blast
          have "copyout_loop pt psz va src len s = Ok (r, s')"
            using up pos low nz w ld W v(3) c
            by (subst copyout_loop.simps) (simp add: Let_def test_pte_bits s2_def)
          moreover have "user_wpte (pte_of s2 pt ?va0)" using v(2) W wu(3) by (simp add: user_wpte_def)
          ultimately show ?thesis using write_post_step [OF k1 l1 wu(1,2) len _ v(1) post] by blast
        qed
      qed
    qed
  qed
qed

lemma copyout_spec:
  assumes "uspace s fl pt" "psz \<le> TRAPFRAME" "length src < 2 ^ 64"
  shows "\<exists>r s'. copyout pt psz va src s = Ok (r, s') \<and> write_post s fl pt psz va src r s'"
  unfolding copyout_def using assms by (intro copyout_loop_spec) (simp_all add: unat_of_nat)

end
