(* ===== verification/Vm_Fork.thy ===== *)
theory Vm_Fork
  imports Vm_Copy
begin

text \<open>
  \<open>uvmcopy\<close>: the child's address space maps fresh pages with the parent's flags and bytes,
  the parent is untouched, and a failure takes back every page.
\<close>

section \<open>Two address spaces\<close>

text \<open>\<open>old\<close> is a space of its own, apart from everything \<open>new\<close> holds or may take.\<close>

definition apart :: "phys \<Rightarrow> u64 list \<Rightarrow> u64 \<Rightarrow> u64 \<Rightarrow> bool" where
  "apart s fl old new \<longleftrightarrow> uspace s fl old \<and>
     (tables s old \<union> upages s old) \<inter> account s fl new = {}"

text \<open>Operations on \<open>new\<close> leave \<open>old\<close> as it was.\<close>

lemma apart_keep:
  assumes ap: "apart s fl old new" and out: "same_outside (account s fl new) s s'"
    and acc: "account s' fl' new = account s fl new" and us: "uspace s' fl' new"
  shows "apart s' fl' old new" "pte_of s' old = pte_of s old"
    "mapped s old va \<Longrightarrow> ubyte s' old va = ubyte s old va"
    "tables s' old = tables s old" "upages s' old = upages s old"
proof -
  have uso: "uspace s fl old" and dis: "(tables s old \<union> upages s old) \<inter> account s fl new = {}"
    using ap by (auto simp: apart_def)
  have tree: "pt_tree (usable s) (pmem s) 2 old"
    using uspace_as_inv [OF uso] by (simp add: as_inv_def)
  have "tables s old \<inter> account s fl new = {}" using dis by auto
  note fr = space_frame [OF tree out this]
  show pte: "pte_of s' old = pte_of s old" by (rule fr(3))
  show t: "tables s' old = tables s old" by (rule fr(2))
  have sm: "same_map s s' old" by (simp add: same_map_def pte)
  show up: "upages s' old = upages s old" by (rule upages_cong [OF sm])
  have fl': "set fl' \<subseteq> account s fl new" using acc by (auto simp: account_def)
  have "free_pages s' fl'" using uspace_as_inv [OF us] by (simp add: as_inv_def)
  then have inv': "as_inv s' fl' 2 old" using fr dis fl' by (auto simp: as_inv_def)
  have "upages s old \<inter> (tables s' old \<union> set fl') = {}"
    using uspace_disjoint [OF uso] dis fl' t by auto
  then have "uspace s' fl' old"
    by (rule uspace_cong [OF uso inv' sm same_outside_usable [OF out]])
  then show "apart s' fl' old new" using dis t up acc by (simp add: apart_def)
  show "ubyte s' old va = ubyte s old va" if "mapped s old va"
    by (rule ubyte_outside [OF that out]) (use dis pte in \<open>auto simp: page_of_def\<close>)
qed

definition copied :: "phys \<Rightarrow> phys \<Rightarrow> u64 \<Rightarrow> u64 \<Rightarrow> u64 \<Rightarrow> u64 \<Rightarrow> bool" where
  "copied s s' old new lo hi \<longleftrightarrow> (\<forall>va < VATOP.
     if lo \<le> va \<and> va < hi
     then (if mapped s old va
           then mapped s' new va \<and> PTE_FLAGS (pte_of s' new va) = PTE_FLAGS (pte_of s old va) \<and>
                ubyte s' new va = ubyte s old va
           else \<not> valid (pte_of s' new va))
     else pte_of s' new va = pte_of s new va \<and>
          (mapped s new va \<longrightarrow> ubyte s' new va = ubyte s new va))"

definition copy_post ::
  "phys \<Rightarrow> u64 list \<Rightarrow> u64 \<Rightarrow> u64 \<Rightarrow> u64 \<Rightarrow> u64 \<Rightarrow> int \<Rightarrow> phys \<Rightarrow> bool" where
  "copy_post s fl old new lo hi r s' \<longleftrightarrow> (\<exists>fl'. uspace s' fl' new \<and>
     account s' fl' new = account s fl new \<and> same_outside (account s fl new) s s' \<and>
     (r = 0 \<and> copied s s' old new lo hi \<or> r = -1 \<and> rolled_back s s' new 0 hi))"

section \<open>One page\<close>

lemma PTE_FLAGS_less: "PTE_FLAGS e < 1024"
  unfolding PTE_FLAGS_def masks using and_mask_less' [where 'a = 64, of 10] by simp

lemma PTE_FLAGS_valid: "valid e \<Longrightarrow> PTE_FLAGS e OR PTE_V = PTE_FLAGS e"
  by (rule bit_word_eqI) (auto simp: valid_bit PTE_FLAGS_def masks bit_simps bit_pte_bits)

text \<open>A page mapped at \<open>a\<close> by \<open>map_fresh\<close> shows the bytes it was filled with.\<close>

lemma fresh_page:
  assumes us: "uspace s fl pt" and a: "page_aligned a" "a < TRAPFRAME" and mem: "page_aligned mem"
    and perm: "perm < 1024" and out: "same_outside (tables s pt \<union> set fl) s s'"
    and fill: "same_page m2 (pmem s') mem"
    and pte: "\<forall>x < VATOP. pte_of s' pt x =
      (if PGROUNDDOWN x = a then PA2PTE mem OR perm OR PTE_V else pte_of s pt x)"
  shows "PGROUNDDOWN va = a \<Longrightarrow> mapped s' pt va \<and> PTE_FLAGS (pte_of s' pt va) = perm OR PTE_V \<and>
      ubyte s' pt va = m2 (mem + (va - a))"
    "va < VATOP \<Longrightarrow> PGROUNDDOWN va \<noteq> a \<Longrightarrow> pte_of s' pt va = pte_of s pt va \<and>
      (mapped s pt va \<longrightarrow> mapped s' pt va \<and> ubyte s' pt va = ubyte s pt va)"
proof -
  assume va: "PGROUNDDOWN va = a"
  then have lt: "va < TRAPFRAME" using below_TRAPFRAME_page [OF a] by simp
  then have e: "pte_of s' pt va = PA2PTE mem OR perm OR PTE_V"
    using pte TRAPFRAME_VATOP va by simp
  then have p: "page_of s' pt va = mem" using PTE2PA_leaf [OF mem perm] by (simp add: page_of_def)
  have "ubyte s' pt va = m2 (mem + (va - a))"
    using fill page_offset [OF mem, of va] by (simp add: ubyte_def p same_page_def va)
  then show "mapped s' pt va \<and> PTE_FLAGS (pte_of s' pt va) = perm OR PTE_V \<and>
      ubyte s' pt va = m2 (mem + (va - a))"
    using e lt PTE_FLAGS_leaf [OF perm] by (simp add: mapped_def)
next
  assume va: "va < VATOP" "PGROUNDDOWN va \<noteq> a"
  then have e: "pte_of s' pt va = pte_of s pt va" using pte by simp
  have "ubyte s' pt va = ubyte s pt va" if "mapped s pt va"
    by (rule ubyte_outside [OF that out uspace_disjoint [OF us]]) (simp add: page_of_def e)
  then show "pte_of s' pt va = pte_of s pt va \<and>
      (mapped s pt va \<longrightarrow> mapped s' pt va \<and> ubyte s' pt va = ubyte s pt va)"
    using e by (simp add: mapped_def)
qed

section \<open>Failure\<close>

lemma uvmcopy_err_spec:
  assumes us: "uspace s fl new" and i: "page_aligned i" "i \<le> hi" "hi \<le> TRAPFRAME"
    and none: "\<And>va. i \<le> va \<Longrightarrow> va < hi \<Longrightarrow> \<not> valid (pte_of s new va)"
  shows "\<exists>s'. uvmcopy_err new i s = Ok (-1, s') \<and> (\<exists>fl'. uspace s' fl' new \<and>
    account s' fl' new = account s fl new \<and> same_outside (account s fl new) s s' \<and>
    rolled_back s s' new 0 hi)"
proof -
  let ?n = "unat i div 4096"
  have n: "i div PGSIZE = of_nat ?n" "4096 * ?n = unat i" using page_count [OF i(1)] by simp_all
  have "unat 0 + 4096 * ?n \<le> unat TRAPFRAME" using n(2) i by (simp add: word_le_nat_alt)
  from unmap_owned [OF us _ this] obtain s' fl' where
    un: "uvmunmap new 0 (of_nat ?n) True s = Ok s'" and us': "uspace s' fl' new"
    and acc: "account s' fl' new = account s fl new" and t: "tables s' new = tables s new"
    and out: "same_outside (tables s new \<union> set (run_pages (pte_of s new) 0 ?n)) s s'"
    and clr: "cleared_run (pte_of s new) (pte_of s' new) 0 ?n"
    and fl': "fl' = rev (run_pages (pte_of s new) 0 ?n) @ fl"
    by (auto simp: page_aligned_def)
  have run: "in_run 0 ?n va \<longleftrightarrow> va < i" for va
    using n(2) by (simp add: in_run_def word_less_nat_alt)
  have "rolled_back s s' new 0 hi"
    unfolding rolled_back_def
  proof (intro allI impI)
    fix va assume va: "va < VATOP"
    have e: "pte_of s' new va = (if va < i \<and> valid (pte_of s new va) then 0 else pte_of s new va)"
      using clr va by (simp add: cleared_run_def run)
    have "ubyte s' new va = ubyte s new va" if m: "mapped s new va" and ge: "\<not> va < hi"
    proof -
      have eq: "pte_of s' new va = pte_of s new va" using e ge i(2) by auto
      then have m': "mapped s' new va" and p: "page_of s' new va = page_of s new va"
        using m by (simp_all add: mapped_def page_of_def)
      have "page_of s' new va \<notin> tables s' new" "page_of s' new va \<notin> set fl'"
        using uspace_page [OF us' m'] by auto
      then have "page_of s new va \<notin> tables s new \<union> set (run_pages (pte_of s new) 0 ?n)"
        using p t fl' by simp
      then have "same_page (pmem s) (pmem s') (page_of s new va)"
        using out by (simp add: same_outside_def)
      then show ?thesis
        using p page_offset [of "page_of s new va" va] by (simp add: ubyte_def same_page_def)
    qed
    then show "if 0 \<le> va \<and> va < hi then \<not> valid (pte_of s' new va)
      else pte_of s' new va = pte_of s new va \<and>
        (mapped s new va \<longrightarrow> ubyte s' new va = ubyte s new va)"
      using e none [of va] i(2) by (auto simp: not_less)
  qed
  moreover have "same_outside (account s fl new) s s'"
    by (rule same_outside_mono [OF out]) (use acc fl' in \<open>auto simp: account_def\<close>)
  ultimately show ?thesis using un n(1) us' acc by (auto simp: uvmcopy_err_def)
qed

section \<open>The loop\<close>

text \<open>One page of \<open>old\<close> handled, absent or copied, then the rest.\<close>

lemma copy_post_step:
  assumes ap: "apart s fl old new" and al: "page_aligned i"
    and u: "unat (i + PGSIZE) = unat i + 4096" and hi: "i + PGSIZE \<le> hi"
    and here: "\<And>va. PGROUNDDOWN va = i \<Longrightarrow> if mapped s old va
        then mapped s1 new va \<and> PTE_FLAGS (pte_of s1 new va) = PTE_FLAGS (pte_of s old va) \<and>
             ubyte s1 new va = ubyte s old va
        else \<not> valid (pte_of s1 new va)"
    and rest: "\<And>va. va < VATOP \<Longrightarrow> PGROUNDDOWN va \<noteq> i \<Longrightarrow> pte_of s1 new va = pte_of s new va \<and>
        (mapped s new va \<longrightarrow> mapped s1 new va \<and> ubyte s1 new va = ubyte s new va)"
    and us1: "uspace s1 fl1 new" and acc: "account s1 fl1 new = account s fl new"
    and out: "same_outside (account s fl new) s s1"
    and post: "copy_post s1 fl1 old new (i + PGSIZE) hi r s'"
  shows "copy_post s fl old new i hi r s'"
proof -
  from post obtain fl' where p: "uspace s' fl' new" "account s' fl' new = account s1 fl1 new"
    "same_outside (account s1 fl1 new) s1 s'"
    and cs: "r = 0 \<and> copied s1 s' old new (i + PGSIZE) hi \<or> r = -1 \<and> rolled_back s1 s' new 0 hi"
    unfolding copy_post_def by blast
  note old = apart_keep [OF ap out acc us1]
  have ge: "i \<le> i + PGSIZE" using u by (simp add: word_le_nat_alt)
  have in_i: "PGROUNDDOWN va = i \<longleftrightarrow> i \<le> va \<and> va < i + PGSIZE" for va
    by (rule page_range [OF al u])
  have m_old: "mapped s1 old va = mapped s old va" for va using old(2) by (simp add: mapped_def)
  have out': "same_outside (account s fl new) s s'"
    using same_outside_trans [OF out p(3)] acc by simp
  have C: "copied s s' old new i hi" if g: "copied s1 s' old new (i + PGSIZE) hi"
    unfolding copied_def
  proof (intro allI impI)
    fix va assume va: "va < VATOP"
    note gv = g [unfolded copied_def, rule_format, OF va]
    show "if i \<le> va \<and> va < hi
     then (if mapped s old va
           then mapped s' new va \<and> PTE_FLAGS (pte_of s' new va) = PTE_FLAGS (pte_of s old va) \<and>
                ubyte s' new va = ubyte s old va
           else \<not> valid (pte_of s' new va))
     else pte_of s' new va = pte_of s new va \<and>
          (mapped s new va \<longrightarrow> ubyte s' new va = ubyte s new va)"
    proof (cases "PGROUNDDOWN va = i")
      case True
      then have c: "i \<le> va" "va < hi" "\<not> i + PGSIZE \<le> va" using in_i [of va] hi by auto
      then have "pte_of s' new va = pte_of s1 new va"
        "mapped s1 new va \<longrightarrow> ubyte s' new va = ubyte s1 new va" using gv by auto
      then show ?thesis using c here [OF True] by (auto simp: mapped_def split: if_splits)
    next
      case False
      then have c: "i \<le> va \<longleftrightarrow> i + PGSIZE \<le> va" using in_i [of va] ge by auto
      show ?thesis
        using gv rest [OF va False] old(2) old(3) [of va] m_old [of va] unfolding c
        by (auto split: if_splits)
    qed
  qed
  have R: "rolled_back s s' new 0 hi" if g: "rolled_back s1 s' new 0 hi"
    unfolding rolled_back_def
  proof (intro allI impI)
    fix va assume va: "va < VATOP"
    note gv = g [unfolded rolled_back_def, rule_format, OF va]
    have "PGROUNDDOWN va \<noteq> i" if "\<not> va < hi" using that in_i [of va] hi by auto
    then show "if 0 \<le> va \<and> va < hi then \<not> valid (pte_of s' new va)
      else pte_of s' new va = pte_of s new va \<and>
        (mapped s new va \<longrightarrow> ubyte s' new va = ubyte s new va)"
      using gv rest [OF va] by auto
  qed
  have "r = 0 \<and> copied s s' old new i hi \<or> r = -1 \<and> rolled_back s s' new 0 hi"
    using cs C R by blast
  then show ?thesis
    using p(1,2) acc out' unfolding copy_post_def by (intro exI [of _ fl']) simp
qed

text \<open>A failed step: \<open>new\<close> is unchanged on the map, then everything below \<open>i\<close> is taken back.\<close>

lemma copy_post_fail:
  assumes us: "uspace s fl new" and sm: "same_map s s4 new"
    and out: "same_outside (tables s new \<union> set fl) s s4" and acc: "account s4 fl4 new = account s fl new"
    and d: "uspace s' fl' new" "account s' fl' new = account s4 fl4 new"
      "same_outside (account s4 fl4 new) s4 s'" "rolled_back s4 s' new 0 hi"
  shows "copy_post s fl old new i hi (-1) s'"
proof -
  from grow_post_rollback [OF us sm out acc d, where newsz = 1] obtain fl'' where
    "uspace s' fl'' new" "account s' fl'' new = account s fl new"
    "same_outside (account s fl new) s s'" "rolled_back s s' new 0 hi"
    unfolding grow_post_def using d by auto
  then show ?thesis unfolding copy_post_def by blast
qed

lemma uvmcopy_loop_spec:
  "apart s fl old new \<Longrightarrow> uspace s fl new \<Longrightarrow> page_aligned i \<Longrightarrow>
   unat i + 4096 * n = unat (PGROUNDUP sz) \<Longrightarrow>
   (\<And>va. i \<le> va \<Longrightarrow> va < PGROUNDUP sz \<Longrightarrow> \<not> valid (pte_of s new va)) \<Longrightarrow>
   sz \<le> - PGSIZE \<Longrightarrow> PGROUNDUP sz \<le> TRAPFRAME \<Longrightarrow>
   \<exists>r s'. uvmcopy_loop old new i sz s = Ok (r, s') \<and>
     copy_post s fl old new i (PGROUNDUP sz) r s' \<and> (3 * n \<le> length fl \<longrightarrow> r = 0)"
proof (induction n arbitrary: i s fl)
  case (0 i s fl)
  then have "i = PGROUNDUP sz" by (simp add: word_unat_eq_iff)
  moreover from this have "\<not> i < sz" using below_PGROUNDUP [OF 0(3,6)] by simp
  ultimately show ?case
    using 0(2) by (subst uvmcopy_loop.simps) (auto simp: copy_post_def copied_def not_le)
next
  case (Suc n i s fl)
  let ?hi = "PGROUNDUP sz"
  note ap = Suc.prems(1) and us = Suc.prems(2) and al = Suc.prems(3) and none = Suc.prems(5)
    and lim = Suc.prems(7)
  have u: "unat (i + PGSIZE) = unat i + 4096" and lt: "i < ?hi"
    using Suc.prems(4) lim
    by (simp_all add: unat_word_ariths TRAPFRAME_val word_less_nat_alt word_le_nat_alt)
  have iT: "i < TRAPFRAME" using lt lim by simp
  have isz: "i < sz" using lt below_PGROUNDUP [OF al Suc.prems(6)] by simp
  have al': "page_aligned (i + PGSIZE)" using al by (rule page_aligned_add)
  have n': "unat (i + PGSIZE) + 4096 * n = unat ?hi" using Suc.prems(4) u by simp
  have ge: "i \<le> i + PGSIZE" using u by (simp add: word_le_nat_alt)
  have hi: "i + PGSIZE \<le> ?hi" using n' by (simp add: word_le_nat_alt)
  have uso: "uspace s fl old" using ap by (simp add: apart_def)
  let ?lf = "leaf (pmem s) 2 old i" and ?e = "pte_of s old i"
  have w: "walk old i False s = Ok (?lf, s)" by (rule walk_lookup [OF TRAPFRAME_MAXVA [OF iT]])
  have here_i: "PGROUNDDOWN va = i \<Longrightarrow> mapped s old va \<longleftrightarrow> valid ?e" for va
    using pte_of_PGROUNDDOWN [of s old va] below_TRAPFRAME_page [OF al iT, of va]
    by (auto simp: mapped_def)
  show ?case
  proof (cases "valid ?e")
    case False
    have step: "uvmcopy_loop old new i sz s = uvmcopy_loop old new (i + PGSIZE) sz s"
      using isz w load_leaf [OF uspace_as_inv [OF uso], of i] False
      by (subst uvmcopy_loop.simps) (auto simp: valid_def)
    have "\<exists>r s'. uvmcopy_loop old new (i + PGSIZE) sz s = Ok (r, s') \<and>
        copy_post s fl old new (i + PGSIZE) ?hi r s' \<and> (3 * n \<le> length fl \<longrightarrow> r = 0)"
      by (rule Suc.IH [OF ap us al' n' _ Suc.prems(6) lim]) (use none ge in auto)
    then obtain r s' where r: "uvmcopy_loop old new (i + PGSIZE) sz s = Ok (r, s')"
      and post: "copy_post s fl old new (i + PGSIZE) ?hi r s'"
      and succ: "3 * n \<le> length fl \<longrightarrow> r = 0" by blast
    have "copy_post s fl old new i ?hi r s'"
    proof (rule copy_post_step [OF ap al u hi _ _ us refl same_outside_refl post])
      show "if mapped s old va then mapped s new va \<and>
          PTE_FLAGS (pte_of s new va) = PTE_FLAGS (pte_of s old va) \<and>
          ubyte s new va = ubyte s old va else \<not> valid (pte_of s new va)"
        if "PGROUNDDOWN va = i" for va
        using here_i [OF that] False none [of i] lt pte_of_PGROUNDDOWN [of s new va] that by auto
    qed simp
    then show ?thesis using step r succ by auto
  next
    case True
    have lf: "?lf \<noteq> 0" using True no_leaf [OF uspace_as_inv [OF uso], of i] by auto
    have ld: "load64 (pmem s) ?lf = ?e" by (rule load_leaf [OF uspace_as_inv [OF uso] lf])
    let ?pa = "page_of s old i"
    have mi: "mapped s old i" using True iT by (simp add: mapped_def)
    obtain mem s1 where ka: "kalloc s = (mem, s1)" by fastforce
    have new: "\<not> valid (pte_of s new i)" using none [of i] lt by simp
    show ?thesis
    proof (cases "mem = 0")
      case True
      with ka have s1: "s1 = s" and nil: "fl = []"
        by (auto elim: kalloc_as_inv [OF uspace_as_inv [OF us]])
      from uvmcopy_err_spec [OF us al _ lim none] lt obtain s' fl' where
        d: "uvmcopy_err new i s = Ok (-1, s')" "uspace s' fl' new"
          "account s' fl' new = account s fl new" "same_outside (account s fl new) s s'"
          "rolled_back s s' new 0 ?hi" by (auto simp: less_imp_le)
      have "uvmcopy_loop old new i sz s = Ok (-1, s')"
        using isz w lf ld \<open>valid ?e\<close> ka True s1 d(1)
        by (subst uvmcopy_loop.simps) (simp add: valid_def Let_def)
      moreover have "copy_post s fl old new i ?hi (-1) s'" using d unfolding copy_post_def by blast
      ultimately show ?thesis using nil by (intro exI [of _ "-1"] exI [of _ s']) simp
    next
      case nz: False
      define m2 where "m2 = memmove (pmem s1) mem ?pa PGSIZE"
      define s2 where "s2 = s1\<lparr>pmem := m2\<rparr>"
      obtain mem_ok: "page_aligned mem" "mem \<in> set fl" and out1: "same_outside {mem} s s1"
        using ka nz by (cases rule: kalloc_as_inv [OF uspace_as_inv [OF us]])
          (auto dest: usable_aligned)
      have m2: "\<And>q. q \<noteq> mem \<Longrightarrow> same_page (pmem s1) m2 q"
        using mem_ok by (simp add: same_page_memmove m2_def)
      have "?pa \<notin> set fl" using uspace_page [OF uso mi] by simp
      then have "?pa \<noteq> mem" using mem_ok by auto
      then have pa: "same_page (pmem s) (pmem s1) ?pa" using out1 by (simp add: same_outside_def)
      have bytes: "m2 (mem + (va - i)) = ubyte s old va" if "PGROUNDDOWN va = i" for va
      proof -
        have o: "va - i < PGSIZE" using that PGROUNDDOWN_offset [of va] by simp
        have "PGROUNDDOWN (?pa + (va - i)) = ?pa" using page_offset [of ?pa va] that by simp
        then have "pmem s1 (?pa + (va - i)) = pmem s (?pa + (va - i))"
          using pa by (simp add: same_page_def)
        moreover have "page_of s old va = ?pa" using page_of_PGROUNDDOWN [of s old va] that by simp
        ultimately show ?thesis using o that by (simp add: m2_def memmove_def ubyte_def)
      qed
      let ?perm = "PTE_FLAGS ?e"
      have start: "uvmcopy_loop old new i sz s =
          bnd (mappages new i PGSIZE mem ?perm s2) (\<lambda>r. case r of (r, s) \<Rightarrow>
            if r \<noteq> 0 then bnd (kfree mem s) (\<lambda>s. uvmcopy_err new i s)
            else uvmcopy_loop old new (i + PGSIZE) sz s)"
        using isz w lf ld True ka nz
        by (subst uvmcopy_loop.simps) (simp add: valid_def Let_def s2_def m2_def page_of_def)
      show ?thesis
      proof (rule map_fresh [OF us al iT new PTE_FLAGS_less [of ?e] ka nz s2_def m2], goal_cases)
        case mp: (2 s3 fl3)
        note pg = fresh_page [OF us al iT mem_ok(1) PTE_FLAGS_less mp(4,5,10)]
        have out3: "same_outside (account s fl new) s s3"
          by (rule same_outside_mono [OF mp(4) tables_fl_account])
        have ap3: "apart s3 fl3 old new" by (rule apart_keep(1) [OF ap out3 mp(3,2)])
        have none3: "\<not> valid (pte_of s3 new va)" if "i + PGSIZE \<le> va" "va < ?hi" for va
        proof -
          have "va < VATOP" using that(2) lim TRAPFRAME_VATOP by simp
          moreover have "PGROUNDDOWN va \<noteq> i" using page_range [OF al u, of va] that(1) by auto
          ultimately show ?thesis using pg(2) [of va] none [of va] ge that by auto
        qed
        from Suc.IH [OF ap3 mp(2) al' n' none3 Suc.prems(6) lim] obtain r s' where
          r: "uvmcopy_loop old new (i + PGSIZE) sz s3 = Ok (r, s')"
          and post: "copy_post s3 fl3 old new (i + PGSIZE) ?hi r s'"
          and succ: "3 * n \<le> length fl3 \<longrightarrow> r = 0" by blast
        have "copy_post s fl old new i ?hi r s'"
        proof (rule copy_post_step [OF ap al u hi _ pg(2) mp(2,3) out3 post])
          show "if mapped s old va then mapped s3 new va \<and>
              PTE_FLAGS (pte_of s3 new va) = PTE_FLAGS (pte_of s old va) \<and>
              ubyte s3 new va = ubyte s old va else \<not> valid (pte_of s3 new va)"
            if "PGROUNDDOWN va = i" for va
            using here_i [OF that] True pg(1) [OF that] bytes [OF that] PTE_FLAGS_valid [OF True]
              pte_of_PGROUNDDOWN [of s old va] that by simp
        qed
        moreover have "3 * n \<le> length fl3" if "3 * Suc n \<le> length fl" using that mp(11) by simp
        ultimately show ?case using start mp(1) r succ by auto
      next
        case nt: (3 s3 s4)
        have none4: "\<not> valid (pte_of s4 new va)" if "i \<le> va" "va < ?hi" for va
          using none [OF that] nt(6) that lim TRAPFRAME_VATOP by (simp add: same_map_def)
        from uvmcopy_err_spec [OF nt(3) al _ lim none4] lt obtain s' fl' where
          d: "uvmcopy_err new i s4 = Ok (-1, s')" "uspace s' fl' new"
            "account s' fl' new = account s4 [mem] new" "same_outside (account s4 [mem] new) s4 s'"
            "rolled_back s4 s' new 0 ?hi" by (auto simp: less_imp_le)
        have "uvmcopy_loop old new i sz s = Ok (-1, s')"
          using start nt(1,2) d(1) by simp
        then show ?case using copy_post_fail [OF us nt(6,5,4) d(2-5)] nt(8)
          by (intro exI [of _ "-1"] exI [of _ s']) simp
      qed
    qed
  qed
qed

lemma uvmcopy_spec:
  assumes "apart s fl old new" "uspace s fl new" "sz \<le> - PGSIZE" "PGROUNDUP sz \<le> TRAPFRAME"
    "\<forall>va < PGROUNDUP sz. \<not> valid (pte_of s new va)"
  shows "\<exists>r s' fl'. uvmcopy old new sz s = Ok (r, s') \<and> uspace s' fl' new \<and>
    apart s' fl' old new \<and> account s' fl' new = account s fl new \<and>
    same_outside (account s fl new) s s' \<and> pte_of s' old = pte_of s old \<and> (\<forall>va. mapped s old va \<longrightarrow> ubyte s' old va = ubyte s old va) \<and>
    (r = 0 \<and> copied s s' old new 0 (PGROUNDUP sz) \<or>
     r = -1 \<and> rolled_back s s' new 0 (PGROUNDUP sz)) \<and>
    (3 * (unat (PGROUNDUP sz) div 4096) \<le> length fl \<longrightarrow> r = 0)"
proof -
  have al: "page_aligned 0" by (simp add: page_aligned_def)
  have n: "unat 0 + 4096 * (unat (PGROUNDUP sz) div 4096) = unat (PGROUNDUP sz)"
    using page_count(2) [of "PGROUNDUP sz"] by simp
  from uvmcopy_loop_spec [OF assms(1,2) al n _ assms(3,4)] assms(5)
  obtain r s' where call: "uvmcopy_loop old new 0 sz s = Ok (r, s')"
    and post: "copy_post s fl old new 0 (PGROUNDUP sz) r s'"
    and succ: "3 * (unat (PGROUNDUP sz) div 4096) \<le> length fl \<longrightarrow> r = 0" by blast
  from post obtain fl' where p: "uspace s' fl' new" "account s' fl' new = account s fl new"
    "same_outside (account s fl new) s s'"
    "r = 0 \<and> copied s s' old new 0 (PGROUNDUP sz) \<or> r = -1 \<and> rolled_back s s' new 0 (PGROUNDUP sz)"
    unfolding copy_post_def by blast
  note keep = apart_keep [OF assms(1) p(3,2,1)]
  show ?thesis
    using call p keep(1-3) succ unfolding uvmcopy_def by blast
qed

end
