(* ===== verification/Proc.thy ===== *)
theory Proc
  imports Vm_Fork
begin

text \<open>
  The process table: \<open>Proyecto3/kernel/proc.c\<close> and \<open>proc.h\<close>. A process is named by its
  index in \<open>proc[]\<close>, \<open>myproc()\<close> is the argument \<open>p\<close>, and a null pointer is \<open>None\<close>. Each
  routine is modelled as one uninterrupted run of the C code; the locks of the code make
  its critical sections atomic, and the interleaving of those sections is modelled
  separately where it matters. The file system layer is not part of the repository: its
  state is a type parameter and its calls are the record \<open>fsops\<close>.

  A routine that reaches \<open>freewalk\<close> may in principle not return, hence \<open>'a run\<close>: \<open>None\<close> for
  a run that does not end, otherwise a panic or a value.
\<close>

section \<open>Runs\<close>

type_synonym 'a run = "'a res option"

abbreviation lift :: "'a res \<Rightarrow> 'a run" where "lift m \<equiv> Some m"

abbreviation ret :: "'a \<Rightarrow> 'a run" where "ret x \<equiv> Some (Ok x)"

definition rbnd :: "'a run \<Rightarrow> ('a \<Rightarrow> 'b run) \<Rightarrow> 'b run" where
  "rbnd m f = (case m of None \<Rightarrow> None | Some (Panic e) \<Rightarrow> Some (Panic e) | Some (Ok x) \<Rightarrow> f x)"

lemma rbnd_simps [simp]:
  "rbnd None f = None" "rbnd (Some (Panic e)) f = Some (Panic e)" "rbnd (Some (Ok x)) f = f x"
  by (simp_all add: rbnd_def)

lemma rbnd_eq_ret [res_simps]: "rbnd m f = Some (Ok y) \<longleftrightarrow> (\<exists>x. m = Some (Ok x) \<and> f x = Some (Ok y))"
  by (auto simp: rbnd_def split: option.splits res.splits)

section \<open>State\<close>

type_synonym i32 = "32 word"

datatype procstate = UNUSED | USED | SLEEPING | RUNNABLE | RUNNING | ZOMBIE

text \<open>Sleep channels are addresses: null, a process structure, or another kernel object.\<close>

datatype chan = Null | Proc_chan nat | Obj_chan u64

record kcontext =
  c_ra :: u64
  c_sp :: u64
  c_s :: "u64 list"

record proc =
  p_state :: procstate
  p_chan :: chan
  p_killed :: i32
  p_xstate :: i32
  p_pid :: i32
  p_parent :: "nat option"
  p_kstack :: u64
  p_sz :: u64
  p_pagetable :: u64
  p_trapframe :: u64
  p_usyscall :: u64
  p_context :: kcontext
  p_ofile :: "u64 list"
  p_cwd :: u64
  p_name :: string

text \<open>What the code keeps per CPU: the model has the CPU that runs the routine.\<close>

record cpu =
  cpu_proc :: "nat option"
  cpu_context :: kcontext
  cpu_noff :: int
  cpu_intena :: bool

text \<open>
  What the kernel prints on behalf of system calls, one entry per message: the page table,
  an unknown call number, an unknown name given to \<open>trace\<close>, and the report of a traced call
  (\<open>PID\<close>, \<open>SYSCALL\<close>, \<open>RETURN\<close>, \<open>s0\<close>, \<open>s1\<close>, \<open>a0\<close>, \<open>a1\<close>).
\<close>

datatype console =
    Vm_table "printed list"
  | Unknown_call i32 string i32
  | Unknown_trace string
  | Traced i32 string i32 u32 u32 u32 u32

record 'fs kst =
  k_mem :: phys
  procs :: "proc list"
  initproc :: "nat option"
  nextpid :: i32
  k_fs :: 'fs
  k_trampoline :: u64
  k_forkret :: u64
  k_cpu :: cpu
  k_ticks :: u32
  k_console :: "console list"

text \<open>The calls into the file system layer.\<close>

record 'fs fsops =
  filedup :: "u64 \<Rightarrow> 'fs \<Rightarrow> u64 \<times> 'fs"
  idup :: "u64 \<Rightarrow> 'fs \<Rightarrow> u64 \<times> 'fs"
  fileclose :: "u64 \<Rightarrow> 'fs \<Rightarrow> 'fs"
  iput :: "u64 \<Rightarrow> 'fs \<Rightarrow> 'fs"
  begin_op :: "'fs \<Rightarrow> 'fs"
  end_op :: "'fs \<Rightarrow> 'fs"
  namei :: "string \<Rightarrow> 'fs \<Rightarrow> u64 \<times> 'fs"

definition upd :: "nat \<Rightarrow> (proc \<Rightarrow> proc) \<Rightarrow> 'fs kst \<Rightarrow> 'fs kst" where
  "upd i f k = k\<lparr>procs := (procs k)[i := f (procs k ! i)]\<rparr>"

abbreviation set_mem :: "phys \<Rightarrow> 'fs kst \<Rightarrow> 'fs kst" where
  "set_mem s k \<equiv> k\<lparr>k_mem := s\<rparr>"

section \<open>Boot and process identifiers\<close>

definition procinit :: "'fs kst \<Rightarrow> 'fs kst" where
  "procinit k = k\<lparr>procs := map (\<lambda>i. (procs k ! i)\<lparr>p_state := UNUSED, p_kstack := KSTACK (of_nat i)\<rparr>)
     [0..<length (procs k)]\<rparr>"

definition allocpid :: "'fs kst \<Rightarrow> i32 \<times> 'fs kst" where
  "allocpid k = (nextpid k, k\<lparr>nextpid := nextpid k + 1\<rparr>)"

section \<open>Address space of a process\<close>

definition proc_pagetable :: "u64 \<Rightarrow> u64 \<Rightarrow> u64 \<Rightarrow> phys \<Rightarrow> (u64 \<times> phys) run" where
  "proc_pagetable trampoline trapframe usyscall s =
     (case uvmcreate s of (pagetable, s) \<Rightarrow>
      if pagetable = 0 then ret (0, s)
      else rbnd (lift (mappages pagetable TRAMPOLINE PGSIZE trampoline (PTE_R OR PTE_X) s)) (\<lambda>(r, s).
        if r < 0 then rbnd (uvmfree pagetable 0 s) (\<lambda>s. ret (0, s))
        else rbnd (lift (mappages pagetable TRAPFRAME PGSIZE trapframe (PTE_R OR PTE_W) s)) (\<lambda>(r, s).
          if r < 0
          then rbnd (lift (uvmunmap pagetable TRAMPOLINE 1 False s)) (\<lambda>s.
               rbnd (uvmfree pagetable 0 s) (\<lambda>s. ret (0, s)))
          else rbnd (lift (mappages pagetable USYSCALL PGSIZE usyscall (PTE_R OR PTE_U) s)) (\<lambda>(r, s).
            if r < 0
            then rbnd (lift (uvmunmap pagetable TRAPFRAME 1 False s)) (\<lambda>s.
                 rbnd (lift (uvmunmap pagetable TRAMPOLINE 1 False s)) (\<lambda>s.
                 rbnd (uvmfree pagetable 0 s) (\<lambda>s. ret (0, s))))
            else ret (pagetable, s)))))"

definition proc_freepagetable :: "u64 \<Rightarrow> u64 \<Rightarrow> phys \<Rightarrow> phys run" where
  "proc_freepagetable pagetable sz s =
     rbnd (lift (uvmunmap pagetable TRAMPOLINE 1 False s)) (\<lambda>s.
     rbnd (lift (uvmunmap pagetable TRAPFRAME 1 False s)) (\<lambda>s.
     rbnd (lift (uvmunmap pagetable USYSCALL 1 False s)) (\<lambda>s.
     uvmfree pagetable sz s)))"

section \<open>Allocating and freeing a process\<close>

definition freeproc :: "nat \<Rightarrow> 'fs kst \<Rightarrow> 'fs kst run" where
  "freeproc i k =
     (let p = procs k ! i in
      rbnd (if p_trapframe p \<noteq> 0 then lift (kfree (p_trapframe p) (k_mem k)) else ret (k_mem k)) (\<lambda>s.
      rbnd (if p_usyscall p \<noteq> 0 then lift (kfree (p_usyscall p) s) else ret s) (\<lambda>s.
      rbnd (if p_pagetable p \<noteq> 0 then proc_freepagetable (p_pagetable p) (p_sz p) s else ret s) (\<lambda>s.
        ret (upd i (\<lambda>p. p\<lparr>p_trapframe := 0, p_usyscall := 0, p_pagetable := 0, p_sz := 0,
               p_pid := 0, p_name := '''', p_chan := Null, p_killed := 0, p_xstate := 0,
               p_state := UNUSED\<rparr>) (set_mem s k))))))"

definition find_unused :: "'fs kst \<Rightarrow> nat option" where
  "find_unused k = find (\<lambda>i. p_state (procs k ! i) = UNUSED) [0..<length (procs k)]"

text \<open>From \<open>found:\<close> on.\<close>

definition allocproc_at :: "nat \<Rightarrow> 'fs kst \<Rightarrow> (nat option \<times> 'fs kst) run" where
  "allocproc_at i k =
     (case allocpid k of (pid, k) \<Rightarrow>
      let k = upd i (\<lambda>p. p\<lparr>p_pid := pid, p_state := USED\<rparr>) k in
      case kalloc (k_mem k) of (tf, s) \<Rightarrow>
      let k = upd i (\<lambda>p. p\<lparr>p_trapframe := tf\<rparr>) (set_mem s k) in
      if tf = 0 then rbnd (freeproc i k) (\<lambda>k. ret (None, k))
      else case kalloc (k_mem k) of (us, s) \<Rightarrow>
      let k = upd i (\<lambda>p. p\<lparr>p_usyscall := us\<rparr>) (set_mem s k) in
      if us = 0 then rbnd (freeproc i k) (\<lambda>k. ret (None, k))
      else let m = memset (pmem (k_mem k)) us 0 PGSIZE;
               m = store32 m us (p_pid (procs k ! i));
               k = set_mem ((k_mem k)\<lparr>pmem := m\<rparr>) k in
      rbnd (proc_pagetable (k_trampoline k) tf us (k_mem k)) (\<lambda>(pt, s).
      let k = upd i (\<lambda>p. p\<lparr>p_pagetable := pt\<rparr>) (set_mem s k) in
      if pt = 0 then rbnd (freeproc i k) (\<lambda>k. ret (None, k))
      else ret (Some i, upd i (\<lambda>p. p\<lparr>p_context :=
             \<lparr>c_ra = k_forkret k, c_sp = p_kstack p + PGSIZE, c_s = replicate 12 0\<rparr>\<rparr>) k)))"

definition allocproc :: "'fs kst \<Rightarrow> (nat option \<times> 'fs kst) run" where
  "allocproc k = (case find_unused k of None \<Rightarrow> ret (None, k) | Some i \<Rightarrow> allocproc_at i k)"

text \<open>
  \<open>userinit\<close> does not test the result of \<open>allocproc\<close>; writing through the null pointer
  it would get has no value in the model.
\<close>

definition userinit :: "'fs fsops \<Rightarrow> 'fs kst \<Rightarrow> 'fs kst run" where
  "userinit fs k =
     rbnd (allocproc k) (\<lambda>(r, k).
       case r of None \<Rightarrow> None
       | Some i \<Rightarrow> (case namei fs ''/'' (k_fs k) of (ip, f) \<Rightarrow>
           ret (upd i (\<lambda>p. p\<lparr>p_cwd := ip, p_state := RUNNABLE\<rparr>)
                 (k\<lparr>initproc := Some i, k_fs := f\<rparr>))))"

definition growproc :: "nat \<Rightarrow> i32 \<Rightarrow> 'fs kst \<Rightarrow> (int \<times> 'fs kst) res" where
  "growproc p n k =
     (let pr = procs k ! p; sz = p_sz pr; pt = p_pagetable pr;
          done = (\<lambda>sz s. Ok (0, upd p (\<lambda>q. q\<lparr>p_sz := sz\<rparr>) (set_mem s k)))
      in if sint n > 0
         then if sz + scast n > USYSCALL then Ok (-1, k)
              else bnd (uvmalloc pt sz (sz + scast n) PTE_W (k_mem k)) (\<lambda>(sz, s).
                     if sz = 0 then Ok (-1, set_mem s k) else done sz s)
         else if sint n < 0
         then bnd (uvmdealloc pt sz (sz + scast n) (k_mem k)) (\<lambda>(sz, s). done sz s)
         else done sz (k_mem k))"

section \<open>Sleeping, waking, killing\<close>

text \<open>
  The checks of \<open>sched\<close> before it switches: whether \<open>p->lock\<close> is held, the depth of
  \<open>push_off\<close>, and whether interrupts are on are what it reads of the lock and the CPU.
\<close>

definition sched :: "bool \<Rightarrow> int \<Rightarrow> bool \<Rightarrow> nat \<Rightarrow> 'fs kst \<Rightarrow> unit res" where
  "sched holding noff intr p k =
     (if \<not> holding then Panic ''sched p->lock''
      else if noff \<noteq> 1 then Panic ''sched locks''
      else if p_state (procs k ! p) = RUNNING then Panic ''sched RUNNING''
      else if intr then Panic ''sched interruptible''
      else Ok ())"

text \<open>
  A routine that has taken only \<open>p->lock\<close> since its entry calls \<open>sched\<close> with that lock held,
  with interrupts off and one level deeper than its caller. The result is the state the
  scheduler gets.
\<close>

definition switch :: "nat \<Rightarrow> 'fs kst \<Rightarrow> 'fs kst res" where
  "switch p k = bnd (sched True (cpu_noff (k_cpu k) + 1) False p k) (\<lambda>_. Ok k)"

definition sleep_prepare :: "nat \<Rightarrow> chan \<Rightarrow> 'fs kst \<Rightarrow> 'fs kst res" where
  "sleep_prepare p c k =
     (if c = Null then Panic ''sleep_prepare: zero chan''
      else Ok (upd p (\<lambda>q. q\<lparr>p_chan := c\<rparr>) k))"

text \<open>\<open>sleep\<close> up to the switch to the scheduler, if it switches.\<close>

definition sleep :: "nat \<Rightarrow> 'fs kst \<Rightarrow> 'fs kst res" where
  "sleep p k =
     (if p_chan (procs k ! p) \<noteq> Null then switch p (upd p (\<lambda>q. q\<lparr>p_state := SLEEPING\<rparr>) k)
      else Ok k)"

definition wake :: "chan \<Rightarrow> proc \<Rightarrow> proc" where
  "wake c p =
     (if p_chan p = c
      then let p = p\<lparr>p_chan := Null\<rparr>
           in if p_state p = SLEEPING then p\<lparr>p_state := RUNNABLE\<rparr> else p
      else p)"

definition wakeup :: "chan \<Rightarrow> 'fs kst \<Rightarrow> 'fs kst" where
  "wakeup c k = k\<lparr>procs := map (wake c) (procs k)\<rparr>"

fun kill_loop :: "i32 \<Rightarrow> proc list \<Rightarrow> int \<times> proc list" where
  "kill_loop pid [] = (-1, [])"
| "kill_loop pid (p # ps) =
     (if p_pid p = pid
      then let p = p\<lparr>p_killed := 1\<rparr>;
               p = (if p_state p = SLEEPING then p\<lparr>p_state := RUNNABLE\<rparr> else p)
           in (0, p # ps)
      else case kill_loop pid ps of (r, ps) \<Rightarrow> (r, p # ps))"

definition kkill :: "i32 \<Rightarrow> 'fs kst \<Rightarrow> int \<times> 'fs kst" where
  "kkill pid k =
     (if pid = 0 then (-1, k)
      else case kill_loop pid (procs k) of (r, ps) \<Rightarrow> (r, k\<lparr>procs := ps\<rparr>))"

definition setkilled :: "nat \<Rightarrow> 'fs kst \<Rightarrow> 'fs kst" where
  "setkilled p k = upd p (\<lambda>q. q\<lparr>p_killed := 1\<rparr>) k"

definition killed :: "nat \<Rightarrow> 'fs kst \<Rightarrow> i32" where
  "killed p k = p_killed (procs k ! p)"

text \<open>\<open>Proyecto2\<close> has the same loop without the test of the pid, and counts runnable processes.\<close>

definition kkill_p2 :: "i32 \<Rightarrow> 'fs kst \<Rightarrow> int \<times> 'fs kst" where
  "kkill_p2 pid k = (case kill_loop pid (procs k) of (r, ps) \<Rightarrow> (r, k\<lparr>procs := ps\<rparr>))"

fun runnable_loop :: "proc list \<Rightarrow> i32 \<Rightarrow> i32" where
  "runnable_loop [] n = n"
| "runnable_loop (p # ps) n = runnable_loop ps (if p_state p = RUNNABLE then n + 1 else n)"

definition get_runnable_count :: "'fs kst \<Rightarrow> i32" where
  "get_runnable_count k = runnable_loop (procs k) 0"

section \<open>fork, exit, wait\<close>

text \<open>\<open>safestrcpy(t, s, 16)\<close>: at most 15 characters are copied, then a NUL is written.\<close>

definition safestrcpy16 :: "string \<Rightarrow> string" where
  "safestrcpy16 s = take 15 (takeWhile (\<lambda>c. c \<noteq> CHR 0x00) s)"

text \<open>Offset of \<open>a0\<close> in the trapframe, and the size of the structure.\<close>

abbreviation TF_A0 :: u64 where "TF_A0 \<equiv> 112"

abbreviation TF_SIZE :: u64 where "TF_SIZE \<equiv> 288"

fun dup_files :: "'fs fsops \<Rightarrow> u64 list \<Rightarrow> u64 list \<Rightarrow> 'fs \<Rightarrow> u64 list \<times> 'fs" where
  "dup_files fs (f # fls) (g # gs) s =
     (case (if f \<noteq> 0 then filedup fs f s else (g, s)) of (g, s) \<Rightarrow>
      case dup_files fs fls gs s of (gs, s) \<Rightarrow> (g # gs, s))"
| "dup_files fs _ gs s = (gs, s)"

definition kfork :: "'fs fsops \<Rightarrow> nat \<Rightarrow> 'fs kst \<Rightarrow> (i32 \<times> 'fs kst) run" where
  "kfork fs p k =
     rbnd (allocproc k) (\<lambda>(r, k).
       case r of None \<Rightarrow> ret (-1, k)
       | Some np \<Rightarrow>
         rbnd (lift (uvmcopy (p_pagetable (procs k ! p)) (p_pagetable (procs k ! np))
                 (p_sz (procs k ! p)) (k_mem k))) (\<lambda>(r, s).
         let k = set_mem s k in
         if r < 0 then rbnd (freeproc np k) (\<lambda>k. ret (-1, k))
         else
           let pp = procs k ! p; c = procs k ! np;
               m = memmove (pmem (k_mem k)) (p_trapframe c) (p_trapframe pp) TF_SIZE;
               m = store64 m (p_trapframe c + TF_A0) 0
           in case dup_files fs (p_ofile pp) (p_ofile c) (k_fs k) of (ofile, f) \<Rightarrow>
              case idup fs (p_cwd pp) f of (cwd, f) \<Rightarrow>
                ret (p_pid c, upd np (\<lambda>c. c\<lparr>p_sz := p_sz pp, p_ofile := ofile, p_cwd := cwd,
                        p_name := safestrcpy16 (p_name pp), p_parent := Some p, p_state := RUNNABLE\<rparr>)
                      (k\<lparr>k_mem := (k_mem k)\<lparr>pmem := m\<rparr>, k_fs := f\<rparr>))))"

text \<open>The channel that a pointer to a process is.\<close>

definition proc_ptr :: "nat option \<Rightarrow> chan" where
  "proc_ptr p = (case p of None \<Rightarrow> Null | Some i \<Rightarrow> Proc_chan i)"

fun reparent_loop :: "nat \<Rightarrow> nat list \<Rightarrow> 'fs kst \<Rightarrow> 'fs kst" where
  "reparent_loop p [] k = k"
| "reparent_loop p (i # is) k =
     reparent_loop p is
       (if p_parent (procs k ! i) = Some p
        then wakeup (proc_ptr (initproc k)) (upd i (\<lambda>q. q\<lparr>p_parent := initproc k\<rparr>) k)
        else k)"

definition reparent :: "nat \<Rightarrow> 'fs kst \<Rightarrow> 'fs kst" where
  "reparent p k = reparent_loop p [0..<length (procs k)] k"

fun close_files :: "'fs fsops \<Rightarrow> u64 list \<Rightarrow> 'fs \<Rightarrow> u64 list \<times> 'fs" where
  "close_files fs [] s = ([], s)"
| "close_files fs (f # fls) s =
     (case (if f \<noteq> 0 then (0, fileclose fs f s) else (f, s)) of (f, s) \<Rightarrow>
      case close_files fs fls s of (fls, s) \<Rightarrow> (f # fls, s))"

text \<open>\<open>kexit\<close> up to the final switch to the scheduler, from which it does not come back.\<close>

definition kexit :: "'fs fsops \<Rightarrow> nat \<Rightarrow> i32 \<Rightarrow> 'fs kst \<Rightarrow> 'fs kst res" where
  "kexit fs p status k =
     (if initproc k = Some p then Panic ''init exiting''
      else case close_files fs (p_ofile (procs k ! p)) (k_fs k) of (ofile, f) \<Rightarrow>
        let f = end_op fs (iput fs (p_cwd (procs k ! p)) (begin_op fs f));
            k = upd p (\<lambda>q. q\<lparr>p_ofile := ofile, p_cwd := 0\<rparr>) (k\<lparr>k_fs := f\<rparr>);
            k = reparent p k;
            k = wakeup (proc_ptr (p_parent (procs k ! p))) k
        in switch p (upd p (\<lambda>q. q\<lparr>p_xstate := status, p_state := ZOMBIE\<rparr>) k))"

text \<open>The four bytes of an \<open>int\<close>, as \<open>copyout\<close> sees them.\<close>

definition int_bytes :: "i32 \<Rightarrow> u8 list" where
  "int_bytes x = map (\<lambda>i. ucast (drop_bit (8 * i) x)) [0..<4]"

text \<open>
  One round of the loop of \<open>kwait\<close>: the scan of the table, then either the return value or
  \<open>Wait_sleep\<close>, with the caller registered on its own channel and asleep.
\<close>

datatype wait_result = Wait_return i32 | Wait_sleep

fun wait_scan ::
  "nat \<Rightarrow> u64 \<Rightarrow> nat list \<Rightarrow> bool \<Rightarrow> 'fs kst \<Rightarrow> ((i32 + bool) \<times> 'fs kst) run" where
  "wait_scan p addr [] havekids k = ret (Inr havekids, k)"
| "wait_scan p addr (i # is) havekids k =
     (let pp = procs k ! i in
      if p_parent pp = Some p
      then if p_state pp = ZOMBIE
           then rbnd (if addr \<noteq> 0
                      then lift (copyout (p_pagetable (procs k ! p)) (p_sz (procs k ! p)) addr
                                   (int_bytes (p_xstate pp)) (k_mem k))
                      else ret (0, k_mem k)) (\<lambda>(r, s).
                let k = set_mem s k in
                if r < 0 then ret (Inl (-1), k)
                else rbnd (freeproc i (upd i (\<lambda>q. q\<lparr>p_parent := None\<rparr>) k)) (\<lambda>k.
                       ret (Inl (p_pid pp), k)))
           else wait_scan p addr is True k
      else wait_scan p addr is havekids k)"

definition kwait :: "nat \<Rightarrow> u64 \<Rightarrow> 'fs kst \<Rightarrow> (wait_result \<times> 'fs kst) run" where
  "kwait p addr k =
     rbnd (wait_scan p addr [0..<length (procs k)] False k) (\<lambda>(r, k).
       case r of Inl v \<Rightarrow> ret (Wait_return v, k)
       | Inr havekids \<Rightarrow>
           if \<not> havekids \<or> killed p k \<noteq> 0 then ret (Wait_return (-1), k)
           else rbnd (lift (sleep_prepare p (Proc_chan p) k)) (\<lambda>k.
                rbnd (lift (sleep p k)) (\<lambda>k. ret (Wait_sleep, k))))"

section \<open>Switching\<close>

text \<open>\<open>yield\<close> up to the switch.\<close>

definition yield :: "nat \<Rightarrow> 'fs kst \<Rightarrow> 'fs kst res" where
  "yield p k = switch p (upd p (\<lambda>q. q\<lparr>p_state := RUNNABLE\<rparr>) k)"

text \<open>
  One pass of the scheduler over the table: a runnable process is marked running, becomes
  \<open>c->proc\<close>, and runs until it switches back, which is the parameter \<open>run\<close>.
\<close>

fun sched_pass ::
  "(nat \<Rightarrow> 'fs kst \<Rightarrow> 'fs kst) \<Rightarrow> nat list \<Rightarrow> bool \<Rightarrow> 'fs kst \<Rightarrow> bool \<times> 'fs kst" where
  "sched_pass run [] found k = (found, k)"
| "sched_pass run (i # is) found k =
     (if p_state (procs k ! i) = RUNNABLE
      then let k = upd i (\<lambda>q. q\<lparr>p_state := RUNNING\<rparr>) k;
               k = run i (k\<lparr>k_cpu := (k_cpu k)\<lparr>cpu_proc := Some i\<rparr>\<rparr>);
               k = k\<lparr>k_cpu := (k_cpu k)\<lparr>cpu_intena := False, cpu_proc := None\<rparr>\<rparr>
           in sched_pass run is True k
      else sched_pass run is found k)"

text \<open>One turn of the endless loop; the flag says whether the core goes on without \<open>wfi\<close>. The first
  assignment \<open>c->proc = 0\<close> and the \<open>intr_on\<close> and \<open>intr_off\<close> at the head of a turn are not part of it.\<close>

definition scheduler_round :: "(nat \<Rightarrow> 'fs kst \<Rightarrow> 'fs kst) \<Rightarrow> 'fs kst \<Rightarrow> bool \<times> 'fs kst" where
  "scheduler_round run k = sched_pass run [0..<length (procs k)] False k"

section \<open>Copies on behalf of a process, and the listing\<close>

definition either_copyout :: "nat \<Rightarrow> bool \<Rightarrow> u64 \<Rightarrow> u8 list \<Rightarrow> 'fs kst \<Rightarrow> (int \<times> 'fs kst) res" where
  "either_copyout p user_dst dst src k =
     (if user_dst
      then bnd (copyout (p_pagetable (procs k ! p)) (p_sz (procs k ! p)) dst src (k_mem k))
             (\<lambda>(r, s). Ok (r, set_mem s k))
      else Ok (0, set_mem ((k_mem k)\<lparr>pmem := write_bytes (pmem (k_mem k)) dst src\<rparr>) k))"

definition either_copyin :: "nat \<Rightarrow> bool \<Rightarrow> u64 \<Rightarrow> u64 \<Rightarrow> 'fs kst \<Rightarrow> (int \<times> u8 list \<times> 'fs kst) res" where
  "either_copyin p user_src src len k =
     (if user_src
      then bnd (copyin (p_pagetable (procs k ! p)) (p_sz (procs k ! p)) src len (k_mem k))
             (\<lambda>(r, bs, s). Ok (r, bs, set_mem s k))
      else Ok (0, read_bytes (pmem (k_mem k)) src (unat len), k))"

fun state_name :: "procstate \<Rightarrow> string" where
  "state_name UNUSED = ''unused''"
| "state_name USED = ''used''"
| "state_name SLEEPING = ''sleep ''"
| "state_name RUNNABLE = ''runble''"
| "state_name RUNNING = ''run   ''"
| "state_name ZOMBIE = ''zombie''"

text \<open>One entry per \<open>printk("%d %s %s", ...)\<close> line.\<close>

definition procdump :: "'fs kst \<Rightarrow> (i32 \<times> string \<times> string) list" where
  "procdump k = map (\<lambda>p. (p_pid p, state_name (p_state p), p_name p))
     (filter (\<lambda>p. p_state p \<noteq> UNUSED) (procs k))"

text \<open>
  \<open>forkret\<close>: the first process initialises the file system and loads \<open>/init\<close>; these and
  \<open>prepare_return\<close> of \<open>trap.c\<close> are parameters. The result is the address it jumps to, the
  \<open>satp\<close> value it passes and the new value of the static flag.
\<close>

definition forkret ::
  "('fs kst \<Rightarrow> 'fs kst) \<Rightarrow> ('fs kst \<Rightarrow> u64 \<times> 'fs kst) \<Rightarrow> (nat \<Rightarrow> 'fs kst \<Rightarrow> 'fs kst) \<Rightarrow> u64 \<Rightarrow>
   nat \<Rightarrow> bool \<Rightarrow> 'fs kst \<Rightarrow> (u64 \<times> u64 \<times> bool \<times> 'fs kst) res" where
  "forkret fsinit kexec_init prepare_return userret p first k =
     bnd (if first
          then case kexec_init (fsinit k) of (r, k) \<Rightarrow>
            let tf = p_trapframe (procs k ! p);
                k = set_mem ((k_mem k)\<lparr>pmem := store64 (pmem (k_mem k)) (tf + TF_A0) r\<rparr>) k
            in if r = -1 then Panic ''exec'' else Ok k
          else Ok k) (\<lambda>k.
     let k = prepare_return p k
     in Ok (TRAMPOLINE + (userret - k_trampoline k), MAKE_SATP (p_pagetable (procs k ! p)), False, k))"

end
