(* ===== verification/Proc_Mem.thy ===== *)
theory Proc_Mem
  imports Proc
begin

text \<open>
  The memory of a process: \<open>proc_pagetable\<close> builds an address space with the trampoline,
  the trapframe and the read-only \<open>USYSCALL\<close> page and nothing else, or gives back every
  page it took; \<open>proc_freepagetable\<close> takes the space down.
\<close>

section \<open>Single pages\<close>

lemma map_one:
  assumes inv: "as_inv s fl 2 pt" and va: "page_aligned va" "va < MAXVA"
    and new: "\<not> valid (pte_of s pt va)"
  obtains (mapped) s' fl' where
      "mappages pt va PGSIZE pa perm s = Ok (0, s')" "as_inv s' fl' 2 pt"
      "set fl' \<union> tables s' pt = set fl \<union> tables s pt" "set fl' \<subseteq> set fl"
      "same_outside (tables s pt \<union> set fl) s s'" "length fl \<le> length fl' + 2"
      "\<forall>x < VATOP. pte_of s' pt x =
         (if PGROUNDDOWN x = va then PA2PTE pa OR perm OR PTE_V else pte_of s pt x)"
  | (failed) s' fl' where
      "mappages pt va PGSIZE pa perm s = Ok (-1, s')" "as_inv s' fl' 2 pt"
      "set fl' \<union> tables s' pt = set fl \<union> tables s pt" "set fl' \<subseteq> set fl"
      "same_outside (tables s pt \<union> set fl) s s'" "length fl \<le> 1" "same_map s s' pt"
proof -
  from mappages_page [OF inv va new, of pa perm] obtain r s' where
    mp: "mappages pt va PGSIZE pa perm s = Ok (r, s')" and "map_post s fl pt va 1 pa perm r s'" by blast
  then obtain used fl' k where p: "fl = used @ fl'" "as_inv s' fl' 2 pt" "touched s pt used s'"
    "k \<le> 1" "r = (if k = 1 then 0 else -1)" "k < 1 \<longrightarrow> fl' = []"
    "length used + (if k < 1 then 1 else 0) \<le> 2 * k + (if k < 1 then 2 else 0)"
    "mapped_run (pte_of s pt) (pte_of s' pt) va k pa perm"
    unfolding map_post_def by blast
  have out: "same_outside (tables s pt \<union> set fl) s s'"
    by (rule same_outside_mono [OF touched_outside [OF p(3)]]) (use p(1) in auto)
  have acc: "set fl' \<union> tables s' pt = set fl \<union> tables s pt"
    using p(1,3) by (auto simp: touched_def)
  show ?thesis
  proof (cases "k = 1")
    case True
    have "\<forall>x < VATOP. pte_of s' pt x =
        (if PGROUNDDOWN x = va then PA2PTE pa OR perm OR PTE_V else pte_of s pt x)"
      using p(8) True in_run_1 [OF va(1)] by (simp add: mapped_run_def)
    then show ?thesis using that(1) mp p True out acc by simp
  next
    case False
    then have k: "k = 0" using p(4) by simp
    then have "same_map s s' pt" using p(8) by (simp add: mapped_run_def same_map_def)
    moreover have "length fl \<le> 1" using p k by simp
    ultimately show ?thesis using that(2) mp p k out acc by simp
  qed
qed

lemma unmap_one:
  assumes inv: "as_inv s fl 2 pt" and va: "page_aligned va" "unat va + 4096 \<le> 2 ^ 38"
  shows "\<exists>s'. uvmunmap pt va 1 False s = Ok s' \<and> as_inv s' fl 2 pt \<and> tables s' pt = tables s pt \<and>
    same_outside (tables s pt) s s' \<and>
    (\<forall>x < VATOP. pte_of s' pt x =
       (if PGROUNDDOWN x = va \<and> valid (pte_of s pt x) then 0 else pte_of s pt x))"
proof -
  from uvmunmap_spec [OF inv va(1), of 1 False] va(2) obtain s' where
    "uvmunmap pt va 1 False s = Ok s'" "unmap_post s fl pt va 1 [] s'" by auto
  then show ?thesis
    using in_run_1 [OF va(1)] by (auto simp: unmap_post_def cleared_run_def)
qed

text \<open>A space that maps nothing is a user space without pages.\<close>

lemma empty_uspace:
  assumes "as_inv s fl 2 pt" "\<forall>va < VATOP. \<not> valid (pte_of s pt va)"
  shows "uspace s fl pt" "upages s pt = {}"
proof -
  have m: "\<not> mapped s pt va" for va
    using assms(2) TRAPFRAME_VATOP by (auto simp: mapped_def)
  then show up: "upages s pt = {}" by (simp add: upages_def)
  show "uspace s fl pt" using assms m up by (simp add: uspace_def)
qed

lemma uvmfree_empty:
  assumes "as_inv s fl 2 pt" "\<forall>va < VATOP. \<not> valid (pte_of s pt va)"
  shows "\<exists>s' fl'. uvmfree pt 0 s = Some (Ok s') \<and> free_pages s' fl' \<and>
    set fl' = set fl \<union> tables s pt \<and> same_outside (set fl \<union> tables s pt) s s'"
proof -
  have "PGROUNDUP 0 \<le> TRAPFRAME" by (simp add: PGROUNDUP_def)
  from uvmfree_spec [OF empty_uspace(1) [OF assms] this] assms(2)
  show ?thesis by (auto simp: account_def empty_uspace(2) [OF assms])
qed

section \<open>Three fixed pages\<close>

lemma fixed_pages:
  "page_aligned TRAMPOLINE" "page_aligned TRAPFRAME" "page_aligned USYSCALL"
  "TRAMPOLINE < MAXVA" "TRAPFRAME < MAXVA" "USYSCALL < MAXVA"
  "unat TRAMPOLINE + 4096 \<le> 2 ^ 38" "unat TRAPFRAME + 4096 \<le> 2 ^ 38"
  "unat USYSCALL + 4096 \<le> 2 ^ 38"
  "TRAMPOLINE \<noteq> TRAPFRAME" "TRAMPOLINE \<noteq> USYSCALL" "TRAPFRAME \<noteq> USYSCALL"
  by (simp_all add: layout_vals page_aligned_unat)

lemma fixed_high:
  "x < TRAPFRAME \<Longrightarrow> PGROUNDDOWN x \<noteq> TRAPFRAME" "x < TRAPFRAME \<Longrightarrow> PGROUNDDOWN x \<noteq> TRAMPOLINE"
  using PGROUNDDOWN_le [of x] by (auto simp: layout_vals word_le_nat_alt word_less_nat_alt)

text \<open>The map of a new process.\<close>

definition proc_map :: "u64 \<Rightarrow> u64 \<Rightarrow> u64 \<Rightarrow> u64 \<Rightarrow> u64" where
  "proc_map trampoline trapframe usyscall va =
     (if PGROUNDDOWN va = TRAMPOLINE then PA2PTE trampoline OR (PTE_R OR PTE_X) OR PTE_V
      else if PGROUNDDOWN va = TRAPFRAME then PA2PTE trapframe OR (PTE_R OR PTE_W) OR PTE_V
      else if PGROUNDDOWN va = USYSCALL then PA2PTE usyscall OR (PTE_R OR PTE_U) OR PTE_V
      else 0)"

text \<open>Outcome of a failed construction: every page is back on the free list.\<close>

definition gave_back :: "phys \<Rightarrow> u64 list \<Rightarrow> phys \<Rightarrow> bool" where
  "gave_back s fl s' \<longleftrightarrow> (\<exists>fl'. free_pages s' fl' \<and> set fl' = set fl) \<and> same_outside (set fl) s s'"

lemma proc_pagetable_spec:
  assumes fp: "free_pages s fl"
  shows "\<exists>pt s'. proc_pagetable tramp tf us s = ret (pt, s') \<and>
    (if pt = 0 then gave_back s fl s' \<and> length fl \<le> 6
     else \<exists>fl'. as_inv s' fl' 2 pt \<and> set fl' \<union> tables s' pt = set fl \<and> set fl' \<subseteq> set fl \<and>
          same_outside (set fl) s s' \<and> (\<forall>va < VATOP. pte_of s' pt va = proc_map tramp tf us va) \<and>
          length fl \<le> length fl' + 7)"
proof (cases fl)
  case Nil
  then have "uvmcreate s = (0, s)" using fp kalloc_empty by (simp add: uvmcreate_def)
  then show ?thesis using fp Nil by (auto simp: proc_pagetable_def gave_back_def)
next
  case (Cons pt fl0)
  from uvmcreate_spec [of s pt fl0] fp Cons obtain s0 where
    c: "uvmcreate s = (pt, s0)" and u0: "uspace s0 fl0 pt" and nz: "pt \<noteq> 0"
    and t0: "tables s0 pt = {pt}" and e0: "\<forall>va. pte_of s0 pt va = 0"
    and out0: "same_outside {pt} s s0" by auto
  have inv0: "as_inv s0 fl0 2 pt" using u0 by (rule uspace_as_inv)
  have ft0: "set fl0 \<union> tables s0 pt = set fl" using t0 Cons by auto
  have o0: "same_outside (set fl) s s0" by (rule same_outside_mono [OF out0]) (use Cons in simp)
  have chain: "same_outside (set fl) s s2"
    if "same_outside (set fl) s s1" "same_outside (tables s1 pt \<union> set fl1) s1 s2"
      "set fl1 \<union> tables s1 pt = set fl" for s1 s2 fl1
    using same_outside_trans [OF that(1,2)] that(3) by (simp add: Un_commute)
  have give_back: "\<exists>s'. uvmfree pt 0 s1 = Some (Ok s') \<and> gave_back s fl s'"
    if "as_inv s1 fl1 2 pt" "\<forall>va < VATOP. \<not> valid (pte_of s1 pt va)"
      "set fl1 \<union> tables s1 pt = set fl" "same_outside (set fl) s s1" for s1 fl1
  proof -
    from uvmfree_empty [OF that(1,2)] obtain s' fl' where
      f: "uvmfree pt 0 s1 = Some (Ok s')" "free_pages s' fl'" "set fl' = set fl1 \<union> tables s1 pt"
        "same_outside (set fl1 \<union> tables s1 pt) s1 s'" by blast
    have "same_outside (set fl) s s'"
      using same_outside_trans [OF that(4) f(4)] that(3) by simp
    then show ?thesis using f that(3) unfolding gave_back_def by auto
  qed
  note fx = fixed_pages
  have "\<not> valid (pte_of s0 pt TRAMPOLINE)" using e0 by simp
  then show ?thesis
  proof (rule map_one [OF inv0 fx(1,4), where pa = tramp and perm = "PTE_R OR PTE_X"], goal_cases)
    case f: (2 s1 fl1)
    have "\<forall>va < VATOP. \<not> valid (pte_of s1 pt va)" using f(7) e0 by (simp add: same_map_def)
    from give_back [OF f(2) this _ chain [OF o0 f(5) ft0]] f(3) ft0 obtain s' where
      "uvmfree pt 0 s1 = Some (Ok s')" "gave_back s fl s'" by auto
    then show ?case using c nz f(1,6) Cons by (auto simp: proc_pagetable_def)
  next
    case m1: (1 s1 fl1)
    have ft1: "set fl1 \<union> tables s1 pt = set fl" using m1(3) ft0 by simp
    have o1: "same_outside (set fl) s s1" by (rule chain [OF o0 m1(5) ft0])
    have e1: "\<forall>x < VATOP. pte_of s1 pt x =
        (if PGROUNDDOWN x = TRAMPOLINE then PA2PTE tramp OR (PTE_R OR PTE_X) OR PTE_V else 0)"
      using m1(7) e0 by simp
    have vt: "TRAMPOLINE < VATOP" "TRAPFRAME < VATOP" "USYSCALL < VATOP" by (simp_all add: layout_vals)
    have pid: "PGROUNDDOWN TRAMPOLINE = TRAMPOLINE" "PGROUNDDOWN TRAPFRAME = TRAPFRAME"
      "PGROUNDDOWN USYSCALL = USYSCALL"
      using fx(1-3) by (simp_all flip: PGROUNDDOWN_id)
    have "\<not> valid (pte_of s1 pt TRAPFRAME)" using e1 vt pid fx by simp
    then show ?case
    proof (rule map_one [OF m1(2) fx(2,5), where pa = tf and perm = "PTE_R OR PTE_W"], goal_cases)
      case f: (2 s2 fl2)
      have ft2: "set fl2 \<union> tables s2 pt = set fl" using f(3) ft1 by simp
      have o2: "same_outside (set fl) s s2" by (rule chain [OF o1 f(5) ft1])
      from unmap_one [OF f(2) fx(1,7)] obtain s3 where
        un: "uvmunmap pt TRAMPOLINE 1 False s2 = Ok s3" "as_inv s3 fl2 2 pt"
          "tables s3 pt = tables s2 pt" "same_outside (tables s2 pt) s2 s3"
          "\<forall>x < VATOP. pte_of s3 pt x =
            (if PGROUNDDOWN x = TRAMPOLINE \<and> valid (pte_of s2 pt x) then 0 else pte_of s2 pt x)" by blast
      have "\<forall>va < VATOP. \<not> valid (pte_of s3 pt va)"
        using un(5) f(7) e1 by (simp add: same_map_def)
      moreover have "same_outside (set fl) s s3"
        by (rule same_outside_mono [OF same_outside_trans [OF o2 un(4)]]) (use ft2 in auto)
      ultimately obtain s' where "uvmfree pt 0 s3 = Some (Ok s')" "gave_back s fl s'"
        using give_back [OF un(2)] un(3) ft2 by auto
      then show ?case
        using c nz m1(1,6) f(1,6) un(1) Cons by (auto simp: proc_pagetable_def)
    next
      case m2: (1 s2 fl2)
      have ft2: "set fl2 \<union> tables s2 pt = set fl" using m2(3) ft1 by simp
      have o2: "same_outside (set fl) s s2" by (rule chain [OF o1 m2(5) ft1])
      have e2: "\<forall>x < VATOP. pte_of s2 pt x =
        (if PGROUNDDOWN x = TRAPFRAME then PA2PTE tf OR (PTE_R OR PTE_W) OR PTE_V
         else if PGROUNDDOWN x = TRAMPOLINE then PA2PTE tramp OR (PTE_R OR PTE_X) OR PTE_V else 0)"
        using m2(7) e1 by simp
      have "\<not> valid (pte_of s2 pt USYSCALL)" using e2 vt pid fx by simp
      then show ?case
      proof (rule map_one [OF m2(2) fx(3,6), where pa = us and perm = "PTE_R OR PTE_U"], goal_cases)
        case f: (2 s3 fl3)
        have ft3: "set fl3 \<union> tables s3 pt = set fl" using f(3) ft2 by simp
        have o3: "same_outside (set fl) s s3" by (rule chain [OF o2 f(5) ft2])
        from unmap_one [OF f(2) fx(2,8)] obtain s4 where
          un1: "uvmunmap pt TRAPFRAME 1 False s3 = Ok s4" "as_inv s4 fl3 2 pt"
            "tables s4 pt = tables s3 pt" "same_outside (tables s3 pt) s3 s4"
            "\<forall>x < VATOP. pte_of s4 pt x =
              (if PGROUNDDOWN x = TRAPFRAME \<and> valid (pte_of s3 pt x) then 0 else pte_of s3 pt x)" by blast
        from unmap_one [OF un1(2) fx(1,7)] obtain s5 where
          un2: "uvmunmap pt TRAMPOLINE 1 False s4 = Ok s5" "as_inv s5 fl3 2 pt"
            "tables s5 pt = tables s4 pt" "same_outside (tables s4 pt) s4 s5"
            "\<forall>x < VATOP. pte_of s5 pt x =
              (if PGROUNDDOWN x = TRAMPOLINE \<and> valid (pte_of s4 pt x) then 0 else pte_of s4 pt x)" by blast
        have "\<forall>va < VATOP. \<not> valid (pte_of s5 pt va)"
        proof (intro allI impI)
          fix va :: u64
          assume va: "va < VATOP"
          have "pte_of s3 pt va = pte_of s2 pt va" using f(7) va by (simp add: same_map_def)
          then show "\<not> valid (pte_of s5 pt va)"
            using un2(5) [rule_format, OF va] un1(5) [rule_format, OF va] e2 [rule_format, OF va]
            by (auto split: if_splits)
        qed
        moreover have o4: "same_outside (set fl) s s4"
          by (rule same_outside_mono [OF same_outside_trans [OF o3 un1(4)]]) (use ft3 in auto)
        have "same_outside (set fl) s s5"
          by (rule same_outside_mono [OF same_outside_trans [OF o4 un2(4)]]) (use ft3 un1(3) in auto)
        ultimately obtain s' where "uvmfree pt 0 s5 = Some (Ok s')" "gave_back s fl s'"
          using give_back [OF un2(2)] un2(3) un1(3) ft3 by auto
        then show ?case
          using c nz m1(1,6) m2(1,6) f(1,6) un1(1) un2(1) Cons by (auto simp: proc_pagetable_def)
      next
        case m3: (1 s3 fl3)
        have "\<forall>va < VATOP. pte_of s3 pt va = proc_map tramp tf us va"
          using m3(7) e2 fx(10-12) by (simp add: proc_map_def)
        moreover have "set fl3 \<union> tables s3 pt = set fl" using m3(3) ft2 by simp
        moreover have "same_outside (set fl) s s3" by (rule chain [OF o2 m3(5) ft2])
        ultimately show ?case
          using c nz m1(1,6) m2(1,6) m3(1,2,6) Cons by (auto simp: proc_pagetable_def)
      qed
    qed
  qed
qed

section \<open>The space of a live process\<close>

lemma USYSCALL_limits:
  assumes "sz \<le> USYSCALL"
  shows "PGROUNDUP sz \<le> USYSCALL" "sz \<le> - PGSIZE" "PGROUNDUP sz \<le> TRAPFRAME"
proof -
  show a: "sz \<le> - PGSIZE" using assms by (simp add: layout_vals word_le_nat_alt)
  show b: "PGROUNDUP sz \<le> USYSCALL" by (rule PGROUNDUP_least(2) [OF a fixed_pages(3) assms])
  show "PGROUNDUP sz \<le> TRAPFRAME" using b by (simp add: layout_vals word_le_nat_alt)
qed

text \<open>
  \<open>proc_space s fl pt sz tf us\<close>: the space \<open>pt\<close> maps user pages below \<open>sz\<close>, the
  \<open>USYSCALL\<close> page \<open>us\<close>, and above it only the trapframe and the trampoline; the trapframe page
  \<open>tf\<close> belongs to the process and is none of its user or table pages.
\<close>

definition proc_space :: "phys \<Rightarrow> u64 list \<Rightarrow> u64 \<Rightarrow> u64 \<Rightarrow> u64 \<Rightarrow> u64 \<Rightarrow> bool" where
  "proc_space s fl pt sz tf us \<longleftrightarrow> uspace s fl pt \<and> sz \<le> USYSCALL \<and>
     usable s tf \<and> tf \<notin> account s fl pt \<and>
     mapped s pt USYSCALL \<and> page_of s pt USYSCALL = us \<and> bit (pte_of s pt USYSCALL) 1 \<and>
     bit (pte_of s pt USYSCALL) 4 \<and> \<not> bit (pte_of s pt USYSCALL) 2 \<and>
     (\<forall>va < VATOP. valid (pte_of s pt va) \<longrightarrow>
        PGROUNDDOWN va \<in> {TRAMPOLINE, TRAPFRAME, USYSCALL} \<or> va < PGROUNDUP sz)"

lemma proc_space_free:
  assumes ps: "proc_space s fl pt sz tf us"
  shows "\<exists>s1 s2 s' fl'. kfree tf s = Ok s1 \<and> kfree us s1 = Ok s2 \<and>
    proc_freepagetable pt sz s2 = ret s' \<and> free_pages s' fl' \<and>
    set fl' = insert tf (account s fl pt) \<and> same_outside (insert tf (account s fl pt)) s s'"
proof -
  have sp: "uspace s fl pt" and sz: "sz \<le> USYSCALL" and tf: "usable s tf" "tf \<notin> account s fl pt"
    and mu: "mapped s pt USYSCALL" and us: "page_of s pt USYSCALL = us"
    and all: "\<forall>va < VATOP. valid (pte_of s pt va) \<longrightarrow>
        PGROUNDDOWN va \<in> {TRAMPOLINE, TRAPFRAME, USYSCALL} \<or> va < PGROUNDUP sz"
    using ps by (auto simp: proc_space_def)
  have u: "usable s us" "us \<notin> tables s pt" "us \<notin> set fl" "us \<in> upages s pt"
    using uspace_page [OF sp mu] mapped_upages [OF mu] us by auto
  have utf: "us \<noteq> tf" using u(4) tf(2) by (auto simp: account_def)
  from kfree_as_inv [OF uspace_as_inv [OF sp] tf(1)] tf(2) obtain s1 where
    k1: "kfree tf s = Ok s1" "as_inv s1 (tf # fl) 2 pt" "same_outside {tf} s s1"
      "tables s1 pt = tables s pt" "pte_of s1 pt = pte_of s pt" by (auto simp: account_def)
  have us1: "usable s1 = usable s" using k1(3) by (rule same_outside_usable)
  from kfree_as_inv [OF k1(2), of us] u utf k1(4) us1 obtain s2 where
    k2: "kfree us s1 = Ok s2" "as_inv s2 (us # tf # fl) 2 pt" "same_outside {us} s1 s2"
      "tables s2 pt = tables s pt" "pte_of s2 pt = pte_of s pt" using k1(5) by auto
  note fx = fixed_pages
  from unmap_one [OF k2(2) fx(1,7)] obtain s3 where
    m3: "uvmunmap pt TRAMPOLINE 1 False s2 = Ok s3" "as_inv s3 (us # tf # fl) 2 pt"
      "tables s3 pt = tables s pt" "same_outside (tables s pt) s2 s3"
      "\<forall>x < VATOP. pte_of s3 pt x =
        (if PGROUNDDOWN x = TRAMPOLINE \<and> valid (pte_of s pt x) then 0 else pte_of s pt x)"
    using k2(4,5) by auto
  from unmap_one [OF m3(2) fx(2,8)] obtain s4 where
    m4: "uvmunmap pt TRAPFRAME 1 False s3 = Ok s4" "as_inv s4 (us # tf # fl) 2 pt"
      "tables s4 pt = tables s pt" "same_outside (tables s pt) s3 s4"
      "\<forall>x < VATOP. pte_of s4 pt x =
        (if PGROUNDDOWN x = TRAPFRAME \<and> valid (pte_of s3 pt x) then 0 else pte_of s3 pt x)"
    using m3(3) by auto
  from unmap_one [OF m4(2) fx(3,9)] obtain s5 where
    m5: "uvmunmap pt USYSCALL 1 False s4 = Ok s5" "as_inv s5 (us # tf # fl) 2 pt"
      "tables s5 pt = tables s pt" "same_outside (tables s pt) s4 s5"
      "\<forall>x < VATOP. pte_of s5 pt x =
        (if PGROUNDDOWN x = USYSCALL \<and> valid (pte_of s4 pt x) then 0 else pte_of s4 pt x)"
    using m4(3) by auto
  have e5: "pte_of s5 pt x = (if PGROUNDDOWN x \<in> {TRAMPOLINE, TRAPFRAME, USYSCALL} \<and> valid (pte_of s pt x)
      then 0 else pte_of s pt x)" if "x < VATOP" for x
    using m3(5) [rule_format, OF that] m4(5) [rule_format, OF that] m5(5) [rule_format, OF that]
    by (auto split: if_splits)
  have o5: "same_outside ({tf, us} \<union> tables s pt) s s5"
    by (rule same_outside_mono [OF same_outside_trans [OF same_outside_trans [OF same_outside_trans
        [OF same_outside_trans [OF k1(3) k2(3)] m3(4)] m4(4)] m5(4)]]) auto
  have m: "mapped s5 pt x \<longleftrightarrow> mapped s pt x \<and> PGROUNDDOWN x \<noteq> USYSCALL" for x
    using e5 [OF TRAPFRAME_VATOP, of x] fixed_high [of x] by (auto simp: mapped_def split: if_splits)
  have pg: "page_of s5 pt x = page_of s pt x" if "mapped s5 pt x" for x
    using that e5 [OF TRAPFRAME_VATOP, of x] by (auto simp: page_of_def mapped_def split: if_splits)
  have up: "upages s5 pt = upages s pt - {us}"
  proof -
    have "page_of s pt x = us \<longleftrightarrow> PGROUNDDOWN x = USYSCALL" if "mapped s pt x" for x
    proof -
      have "PGROUNDDOWN USYSCALL = USYSCALL" using fx(3) by (simp flip: PGROUNDDOWN_id)
      then show ?thesis
        using uspace_inj [OF sp that mu] us page_of_PGROUNDDOWN [of s pt x] by metis
    qed
    then show ?thesis using m pg by (auto simp: upages_def image_iff)
  qed
  have usab: "usable s5 = usable s" using o5 by (rule same_outside_usable)
  have sp5: "uspace s5 (us # tf # fl) pt"
    unfolding uspace_def
  proof (intro conjI ballI allI impI m5(2))
    fix p assume p: "p \<in> upages s5 pt"
    then have p': "p \<in> upages s pt" "p \<noteq> us" using up by auto
    then have pu: "usable s p" "p \<notin> tables s pt" "p \<notin> set fl" using sp by (auto simp: uspace_def)
    show "usable s5 p" using pu usab by simp
    show "p \<notin> tables s5 pt \<union> set (us # tf # fl)"
      using pu p' tf(2) m5(3) by (auto simp: account_def)
  next
    fix va va' assume "mapped s5 pt va" "mapped s5 pt va'" "page_of s5 pt va = page_of s5 pt va'"
    then show "PGROUNDDOWN va = PGROUNDDOWN va'"
      using uspace_inj [OF sp, of va va'] m pg by simp
  next
    fix va assume "va < VATOP" "TRAPFRAME \<le> va" "valid (pte_of s5 pt va)"
    then show "va < MAXVA" "\<not> bit (pte_of s5 pt va) 4"
      using uspace_high [OF sp, of va] e5 [of va] by (auto split: if_splits)
  qed
  have "PGROUNDUP sz \<le> TRAPFRAME" using sz by (rule USYSCALL_limits)
  moreover have "\<forall>va < VATOP. valid (pte_of s5 pt va) \<longrightarrow> va < PGROUNDUP sz"
    using all e5 by (auto split: if_splits)
  ultimately obtain s' fl' where
    f: "uvmfree pt sz s5 = Some (Ok s')" "free_pages s' fl'"
      "set fl' = account s5 (us # tf # fl) pt" "same_outside (account s5 (us # tf # fl) pt) s5 s'"
    using uvmfree_spec [OF sp5] by blast
  have acc: "account s5 (us # tf # fl) pt = insert tf (account s fl pt)"
    using up m5(3) u(4) by (auto simp: account_def)
  have "same_outside (insert tf (account s fl pt)) s s'"
    by (rule same_outside_mono [OF same_outside_trans [OF o5 f(4)]])
      (use acc u(4) in \<open>auto simp: account_def\<close>)
  moreover have "proc_freepagetable pt sz s2 = ret s'"
    using m3(1) m4(1) m5(1) f(1) by (simp add: proc_freepagetable_def)
  ultimately show ?thesis using k1(1) k2(1) f(2,3) acc by auto
qed

end
