(* ===== verification/Proc_Inv.thy ===== *)
theory Proc_Inv
  imports Proc_Mem
begin

text \<open>
  The invariant of the process table and the memory it owns. Every slot is either unused and
  cleared, or has an address space of its own; no page belongs to two slots or is both free
  and owned. The rule \<open>mem_inv_upd\<close> reduces its preservation to the one slot an operation
  works on.
\<close>

section \<open>The invariant\<close>

definition pid_page :: "phys \<Rightarrow> u64 \<Rightarrow> i32 \<Rightarrow> bool" where
  "pid_page s pt pid \<longleftrightarrow>
     (\<forall>i < 4. ubyte s pt (USYSCALL + of_nat i) = ucast (drop_bit (8 * i) pid))"

definition idle :: "proc \<Rightarrow> bool" where
  "idle p \<longleftrightarrow> p_state p = UNUSED \<and> p_trapframe p = 0 \<and> p_usyscall p = 0 \<and> p_pagetable p = 0 \<and>
     p_sz p = 0 \<and> p_pid p = 0 \<and> p_chan p = Null \<and> p_killed p = 0 \<and> p_xstate p = 0 \<and> p_name p = ''''"

definition live :: "phys \<Rightarrow> u64 list \<Rightarrow> proc \<Rightarrow> bool" where
  "live s fl p \<longleftrightarrow> p_state p \<noteq> UNUSED \<and>
     proc_space s fl (p_pagetable p) (p_sz p) (p_trapframe p) (p_usyscall p) \<and>
     pid_page s (p_pagetable p) (p_pid p) \<and> (p_state p = SLEEPING \<longrightarrow> p_chan p \<noteq> Null)"

definition pages_of :: "phys \<Rightarrow> proc \<Rightarrow> u64 set" where
  "pages_of s p = (if p_state p = UNUSED then {}
     else insert (p_trapframe p) (tables s (p_pagetable p) \<union> upages s (p_pagetable p)))"

definition proc_ok :: "phys \<Rightarrow> u64 list \<Rightarrow> proc \<Rightarrow> bool" where
  "proc_ok s fl p \<longleftrightarrow> idle p \<or> live s fl p"

definition mem_inv :: "u64 list \<Rightarrow> 'fs kst \<Rightarrow> bool" where
  "mem_inv fl k \<longleftrightarrow> free_pages (k_mem k) fl \<and>
     (\<forall>i < length (procs k). proc_ok (k_mem k) fl (procs k ! i)) \<and>
     (\<forall>i < length (procs k). \<forall>j < length (procs k). i \<noteq> j \<longrightarrow>
        pages_of (k_mem k) (procs k ! i) \<inter> pages_of (k_mem k) (procs k ! j) = {})"

text \<open>All the pages of the system: the free ones and those of the processes.\<close>

definition all_pages :: "u64 list \<Rightarrow> 'fs kst \<Rightarrow> u64 set" where
  "all_pages fl k = set fl \<union> (\<Union>p \<in> set (procs k). pages_of (k_mem k) p)"

lemma pages_of_unused [simp]: "p_state p = UNUSED \<Longrightarrow> pages_of s p = {}"
  by (simp add: pages_of_def)

lemma idle_unused: "idle p \<Longrightarrow> p_state p = UNUSED"
  by (simp add: idle_def)

lemma proc_ok_unused: "proc_ok s fl p \<Longrightarrow> p_state p = UNUSED \<longleftrightarrow> idle p"
  by (auto simp: proc_ok_def idle_def live_def)

lemma proc_ok_used: "proc_ok s fl p \<Longrightarrow> p_state p \<noteq> UNUSED \<longleftrightarrow> live s fl p"
  by (auto simp: proc_ok_def idle_def live_def)

lemma live_space:
  "live s fl p \<Longrightarrow> proc_space s fl (p_pagetable p) (p_sz p) (p_trapframe p) (p_usyscall p)"
  by (simp add: live_def)

lemma proc_space_uspace: "proc_space s fl pt sz tf us \<Longrightarrow> uspace s fl pt"
  by (simp add: proc_space_def)

lemma live_disjoint: "live s fl p \<Longrightarrow> pages_of s p \<inter> set fl = {}"
proof -
  assume lv: "live s fl p"
  then have us: "uspace s fl (p_pagetable p)" by (simp add: live_def proc_space_def)
  have "tables s (p_pagetable p) \<inter> set fl = {}" using uspace_as_inv [OF us] by (simp add: as_inv_def)
  moreover have "upages s (p_pagetable p) \<inter> set fl = {}" using us by (auto simp: uspace_def)
  moreover have "p_trapframe p \<notin> set fl" using lv by (auto simp: live_def proc_space_def account_def)
  ultimately show ?thesis by (auto simp: pages_of_def)
qed

lemma proc_ok_disjoint: "proc_ok s fl p \<Longrightarrow> pages_of s p \<inter> set fl = {}"
  using live_disjoint by (auto simp: proc_ok_def idle_def)

section \<open>Framing\<close>

lemma uspace_frame:
  assumes us: "uspace s fl pt" and out: "same_outside P s s'"
    and P: "(tables s pt \<union> upages s pt) \<inter> P = {}"
    and fp: "free_pages s' fl'" and fl': "(tables s pt \<union> upages s pt) \<inter> set fl' = {}"
  shows "uspace s' fl' pt" "pte_of s' pt = pte_of s pt" "tables s' pt = tables s pt"
    "upages s' pt = upages s pt" "mapped s pt va \<Longrightarrow> ubyte s' pt va = ubyte s pt va"
proof -
  have tree: "pt_tree (usable s) (pmem s) 2 pt" using uspace_as_inv [OF us] by (simp add: as_inv_def)
  have "tables s pt \<inter> P = {}" using P by auto
  note fr = space_frame [OF tree out this]
  show pte: "pte_of s' pt = pte_of s pt" by (rule fr(3))
  show t: "tables s' pt = tables s pt" by (rule fr(2))
  have sm: "same_map s s' pt" by (simp add: same_map_def pte)
  show up: "upages s' pt = upages s pt" by (rule upages_cong [OF sm])
  have inv': "as_inv s' fl' 2 pt" using fr fp fl' by (auto simp: as_inv_def)
  have d: "upages s pt \<inter> (tables s' pt \<union> set fl') = {}" using uspace_disjoint [OF us] fl' t by auto
  show "uspace s' fl' pt" by (rule uspace_cong [OF us inv' sm same_outside_usable [OF out] d])
  have dP: "P \<inter> upages s pt = {}" using P by auto
  show "ubyte s' pt va = ubyte s pt va" if "mapped s pt va"
    by (rule ubyte_outside [OF that out dP]) (simp add: page_of_def pte)
qed

lemma USYSCALL_near: "(i :: nat) < 4096 \<Longrightarrow> PGROUNDDOWN (USYSCALL + of_nat i) = USYSCALL"
  using PGROUNDDOWN_add [OF fixed_pages(3), of "of_nat i"]
  by (simp add: word_less_nat_alt unat_of_nat)

lemma mapped_page: "mapped s pt va \<Longrightarrow> page_aligned va \<Longrightarrow> PGROUNDDOWN x = va \<Longrightarrow> mapped s pt x"
  using below_TRAPFRAME_page pte_of_PGROUNDDOWN [of s pt x] by (auto simp: mapped_def)

lemma proc_space_pid_mapped:
  "proc_space s fl pt sz tf us \<Longrightarrow> i < 4096 \<Longrightarrow> mapped s pt (USYSCALL + of_nat i)"
  using mapped_page [OF _ fixed_pages(3) USYSCALL_near] by (simp add: proc_space_def)

lemma live_frame:
  assumes lv: "live s fl p" and out: "same_outside P s s'" and P: "pages_of s p \<inter> P = {}"
    and fp: "free_pages s' fl'" and fl': "pages_of s p \<inter> set fl' = {}"
  shows "live s' fl' p" "pages_of s' p = pages_of s p"
proof -
  let ?pt = "p_pagetable p"
  have ps: "proc_space s fl ?pt (p_sz p) (p_trapframe p) (p_usyscall p)" and u: "p_state p \<noteq> UNUSED"
    using lv by (auto simp: live_def)
  have tP: "(tables s ?pt \<union> upages s ?pt) \<inter> P = {}" "(tables s ?pt \<union> upages s ?pt) \<inter> set fl' = {}"
    "p_trapframe p \<notin> set fl'"
    using P fl' u by (auto simp: pages_of_def)
  note fr = uspace_frame [OF proc_space_uspace [OF ps] out tP(1) fp tP(2)]
  show "pages_of s' p = pages_of s p" by (simp add: pages_of_def fr)
  have "p_trapframe p \<notin> account s' fl' ?pt" using ps tP(3) fr(3,4) by (auto simp: proc_space_def account_def)
  then have "proc_space s' fl' ?pt (p_sz p) (p_trapframe p) (p_usyscall p)"
    using ps fr(1,2) same_outside_usable [OF out] by (simp add: proc_space_def mapped_def page_of_def)
  moreover have "pid_page s' ?pt (p_pid p)"
    using lv fr(5) proc_space_pid_mapped [OF ps] by (simp add: live_def pid_page_def)
  ultimately show "live s' fl' p" using lv by (simp add: live_def)
qed

lemma proc_ok_frame:
  assumes "proc_ok s fl p" "same_outside P s s'" "pages_of s p \<inter> P = {}"
    "free_pages s' fl'" "pages_of s p \<inter> set fl' = {}"
  shows "proc_ok s' fl' p \<and> pages_of s' p = pages_of s p"
proof (cases "idle p")
  case True
  then show ?thesis by (simp add: proc_ok_def idle_def pages_of_def)
next
  case False
  then have "live s fl p" using assms(1) by (simp add: proc_ok_def)
  from live_frame [OF this assms(2-5)] show ?thesis by (simp add: proc_ok_def)
qed

section \<open>Updating one slot\<close>

lemma UN_nth: "(\<Union>x \<in> set xs. f x) = (\<Union>j < length xs. f (xs ! j))"
  by (force simp: set_conv_nth)

lemma upd_procs [simp]: "procs (upd i f k) = (procs k)[i := f (procs k ! i)]"
  by (simp add: upd_def)

lemma upd_sel [simp]:
  "k_mem (upd i f k) = k_mem k" "initproc (upd i f k) = initproc k" "nextpid (upd i f k) = nextpid k"
  "k_fs (upd i f k) = k_fs k" "k_trampoline (upd i f k) = k_trampoline k"
  "k_forkret (upd i f k) = k_forkret k" "k_cpu (upd i f k) = k_cpu k"
  by (simp_all add: upd_def)

lemma mem_inv_slot: "mem_inv fl k \<Longrightarrow> i < length (procs k) \<Longrightarrow> proc_ok (k_mem k) fl (procs k ! i)"
  by (simp add: mem_inv_def)

lemma mem_inv_free: "mem_inv fl k \<Longrightarrow> free_pages (k_mem k) fl"
  by (simp add: mem_inv_def)

lemma mem_inv_upd:
  assumes inv: "mem_inv fl k" and i: "i < length (procs k)"
    and k': "k_mem k' = s'" "procs k' = (procs k)[i := q]"
    and out: "same_outside (set fl \<union> pages_of (k_mem k) (procs k ! i)) (k_mem k) s'"
    and fp: "free_pages s' fl'" and q: "proc_ok s' fl' q"
    and acc: "set fl' \<union> pages_of s' q = set fl \<union> pages_of (k_mem k) (procs k ! i)"
  shows "mem_inv fl' k'" "all_pages fl' k' = all_pages fl k"
proof -
  let ?s = "k_mem k" and ?p = "\<lambda>j. procs k ! j"
  have ok: "proc_ok ?s fl (?p j)" if "j < length (procs k)" for j using inv that by (simp add: mem_inv_def)
  have dis: "pages_of ?s (?p j) \<inter> pages_of ?s (?p l) = {}"
    if "j < length (procs k)" "l < length (procs k)" "j \<noteq> l" for j l
    using inv that by (simp add: mem_inv_def)
  have away: "pages_of ?s (?p j) \<inter> (set fl \<union> pages_of ?s (?p i)) = {}"
    if "j < length (procs k)" "j \<noteq> i" for j
    using dis [OF that(1) i that(2)] proc_ok_disjoint [OF ok [OF that(1)]] by auto
  have fr: "proc_ok s' fl' (?p j) \<and> pages_of s' (?p j) = pages_of ?s (?p j)"
    if "j < length (procs k)" "j \<noteq> i" for j
    using away [OF that] acc by (intro proc_ok_frame [OF ok [OF that(1)] out _ fp]) auto
  have new: "pages_of s' q \<inter> pages_of ?s (?p j) = {}" if "j < length (procs k)" "j \<noteq> i" for j
    using away [OF that] acc by auto
  have nth: "(procs k)[i := q] ! j = (if j = i then q else ?p j)" for j
    using i by (simp add: nth_list_update)
  show "mem_inv fl' k'"
    unfolding mem_inv_def k'
  proof (intro conjI allI impI fp)
    fix j assume "j < length ((procs k)[i := q])"
    then show "proc_ok s' fl' ((procs k)[i := q] ! j)" using fr q by (simp add: nth)
  next
    fix j l assume "j < length ((procs k)[i := q])" "l < length ((procs k)[i := q])" "j \<noteq> l"
    then show "pages_of s' ((procs k)[i := q] ! j) \<inter> pages_of s' ((procs k)[i := q] ! l) = {}"
      using fr [of j] fr [of l] dis [of j l] new [of j] new [of l] by (auto simp: nth)
  qed
  have split: "(\<Union>j < length (procs k). f j) = f i \<union> (\<Union>j \<in> {..<length (procs k)} - {i}. f j)"
    for f :: "nat \<Rightarrow> u64 set" using i by auto
  have "(\<Union>j \<in> {..<length (procs k)} - {i}. pages_of s' ((procs k)[i := q] ! j)) =
      (\<Union>j \<in> {..<length (procs k)} - {i}. pages_of ?s (?p j))"
    by (rule SUP_cong) (use fr in \<open>simp_all add: nth\<close>)
  then show "all_pages fl' k' = all_pages fl k"
    unfolding all_pages_def k' UN_nth length_list_update split using acc by (simp add: nth Un_assoc [symmetric])
qed

text \<open>An update that leaves the memory of the slot alone.\<close>

definition same_space :: "proc \<Rightarrow> proc \<Rightarrow> bool" where
  "same_space p q \<longleftrightarrow> p_trapframe q = p_trapframe p \<and> p_usyscall q = p_usyscall p \<and>
     p_pagetable q = p_pagetable p \<and> p_sz q = p_sz p \<and> p_pid q = p_pid p \<and>
     (p_state q = UNUSED \<longleftrightarrow> p_state p = UNUSED) \<and>
     (p_state p = UNUSED \<longrightarrow> idle p \<longrightarrow> idle q) \<and>
     (p_state q = SLEEPING \<longrightarrow> p_chan q = Null \<longrightarrow> p_state p = SLEEPING \<and> p_chan p = Null)"

lemma same_space_ok: "same_space p q \<Longrightarrow> proc_ok s fl p \<Longrightarrow> proc_ok s fl q \<and> pages_of s q = pages_of s p"
  by (auto simp: same_space_def proc_ok_def idle_def live_def pages_of_def)

lemma mem_inv_same:
  assumes inv: "mem_inv fl k" and m: "k_mem k' = k_mem k"
    and ps: "list_all2 same_space (procs k) (procs k')"
  shows "mem_inv fl k'" "all_pages fl k' = all_pages fl k"
proof -
  have len: "length (procs k') = length (procs k)" using ps by (simp add: list_all2_lengthD)
  have j: "proc_ok (k_mem k) fl (procs k' ! j)" "pages_of (k_mem k) (procs k' ! j) = pages_of (k_mem k) (procs k ! j)"
    if "j < length (procs k)" for j
    using same_space_ok [OF list_all2_nthD [OF ps that] mem_inv_slot [OF inv that]] by simp_all
  show "mem_inv fl k'" using inv j by (simp add: mem_inv_def len m)
  have "(\<Union>p \<in> set (procs k'). pages_of (k_mem k) p) = (\<Union>p \<in> set (procs k). pages_of (k_mem k) p)"
    unfolding UN_nth len by (rule SUP_cong) (use j in simp_all)
  then show "all_pages fl k' = all_pages fl k" by (simp add: all_pages_def m)
qed

lemma same_space_refl [simp]: "same_space p p"
  by (simp add: same_space_def)

lemma same_space_trans: "same_space p q \<Longrightarrow> same_space q r \<Longrightarrow> same_space p r"
  by (auto simp: same_space_def)

lemma same_space_upd: "same_space (ps ! i) q \<Longrightarrow> list_all2 same_space ps (ps[i := q])"
  by (cases "i < length ps") (auto simp: list_all2_conv_all_nth nth_list_update)

lemma mem_inv_upd_same:
  assumes "mem_inv fl k" "same_space (procs k ! i) (f (procs k ! i))"
  shows "mem_inv fl (upd i f k) \<and> all_pages fl (upd i f k) = all_pages fl k"
  using mem_inv_same [OF assms(1), of "upd i f k"] same_space_upd [OF assms(2)] by simp

end
