(* ===== verification/Proc_Life.thy ===== *)
theory Proc_Life
  imports Proc_Inv
begin

text \<open>
  Birth and death of a process: \<open>freeproc\<close> returns every page of a slot, \<open>allocproc\<close> builds
  a process whose \<open>USYSCALL\<close> page holds its pid, or restores the slot and the free list.
\<close>

section \<open>Taking and returning one page\<close>

lemma kalloc_step:
  assumes "free_pages s (p # fl)"
  shows "\<exists>s'. kalloc s = (p, s') \<and> free_pages s' fl \<and> same_outside {p} s s' \<and> usable s p \<and>
    p \<noteq> 0 \<and> p \<notin> set fl"
proof -
  obtain m f where "kalloc s = (p, s\<lparr>pmem := m, freelist := f\<rparr>)"
    "free_pages (s\<lparr>pmem := m, freelist := f\<rparr>) fl" "\<forall>q. q \<noteq> p \<longrightarrow> same_page (pmem s) m q"
    using kalloc_cons [OF assms] by blast
  then show ?thesis using assms by (auto simp: free_pages_def usable_def same_outside_def)
qed

lemma kfree_step:
  assumes "free_pages s fl" "usable s p" "p \<notin> set fl"
  shows "\<exists>s'. kfree p s = Ok s' \<and> free_pages s' (p # fl) \<and> same_outside {p} s s'"
  using kfree_spec [OF assms] by (auto simp: same_outside_def)

section \<open>freeproc\<close>

definition cleared :: "proc \<Rightarrow> proc" where
  "cleared p = p\<lparr>p_trapframe := 0, p_usyscall := 0, p_pagetable := 0, p_sz := 0,
     p_pid := 0, p_name := '''', p_chan := Null, p_killed := 0, p_xstate := 0, p_state := UNUSED\<rparr>"

lemma cleared_idle [simp]: "idle (cleared p)"
  by (simp add: cleared_def idle_def)

lemma cleared_unused [simp]: "p_state (cleared p) = UNUSED" "p_parent (cleared p) = p_parent p"
  by (simp_all add: cleared_def)

lemma live_nonzero:
  assumes "live s fl p"
  shows "p_trapframe p \<noteq> 0" "p_usyscall p \<noteq> 0" "p_pagetable p \<noteq> 0"
proof -
  have ps: "proc_space s fl (p_pagetable p) (p_sz p) (p_trapframe p) (p_usyscall p)"
    using assms by (rule live_space)
  then have us: "uspace s fl (p_pagetable p)" and m: "mapped s (p_pagetable p) USYSCALL"
    and u: "page_of s (p_pagetable p) USYSCALL = p_usyscall p"
    by (auto simp: proc_space_def)
  show "p_trapframe p \<noteq> 0" using ps by (auto simp: proc_space_def usable_def)
  show "p_usyscall p \<noteq> 0" using uspace_page(1) [OF us m] u by (auto simp: usable_def)
  have "pt_tree (usable s) (pmem s) 2 (p_pagetable p)" using uspace_as_inv [OF us] by (simp add: as_inv_def)
  from pt_tree_ok [OF this] show "p_pagetable p \<noteq> 0" by (auto simp: usable_def)
qed

lemma live_account:
  "live s fl p \<Longrightarrow> insert (p_trapframe p) (account s fl (p_pagetable p)) = set fl \<union> pages_of s p"
  by (auto simp: live_def pages_of_def account_def)

lemma freeproc_live:
  assumes inv: "mem_inv fl k" and i: "i < length (procs k)" and lv: "live (k_mem k) fl (procs k ! i)"
  shows "\<exists>s' fl'. freeproc i k = ret (upd i cleared (set_mem s' k)) \<and>
    mem_inv fl' (upd i cleared (set_mem s' k)) \<and>
    all_pages fl' (upd i cleared (set_mem s' k)) = all_pages fl k \<and>
    set fl' = set fl \<union> pages_of (k_mem k) (procs k ! i) \<and>
    same_outside (set fl \<union> pages_of (k_mem k) (procs k ! i)) (k_mem k) s'"
proof -
  let ?p = "procs k ! i"
  from proc_space_free [OF live_space [OF lv]] obtain s1 s2 s' fl' where
    f: "kfree (p_trapframe ?p) (k_mem k) = Ok s1" "kfree (p_usyscall ?p) s1 = Ok s2"
      "proc_freepagetable (p_pagetable ?p) (p_sz ?p) s2 = ret s'" "free_pages s' fl'"
    and fl': "set fl' = set fl \<union> pages_of (k_mem k) ?p"
    and out: "same_outside (set fl \<union> pages_of (k_mem k) ?p) (k_mem k) s'"
    unfolding live_account [OF lv] by blast
  let ?k = "upd i cleared (set_mem s' k)"
  have q: "proc_ok s' fl' (cleared ?p)" by (simp add: proc_ok_def)
  have "freeproc i k = ret ?k"
    using live_nonzero [OF lv] f(1-3) by (simp add: freeproc_def cleared_def [abs_def] Let_def)
  moreover have "mem_inv fl' ?k" "all_pages fl' ?k = all_pages fl k"
    using mem_inv_upd [OF inv i, of ?k s' "cleared ?p", OF _ _ out f(4) q] fl' by simp_all
  ultimately show ?thesis using fl' out by blast
qed

section \<open>allocproc\<close>

definition born :: "i32 \<Rightarrow> u64 \<Rightarrow> u64 \<Rightarrow> u64 \<Rightarrow> u64 \<Rightarrow> proc \<Rightarrow> proc" where
  "born pid tf us pt fret p = p\<lparr>p_pid := pid, p_state := USED, p_trapframe := tf, p_usyscall := us,
     p_pagetable := pt,
     p_context := \<lparr>c_ra = fret, c_sp = p_kstack p + PGSIZE, c_s = replicate 12 0\<rparr>\<rparr>"

lemma PA2PTE_low: "n < 10 \<Longrightarrow> \<not> bit (PA2PTE p) n"
  by (simp add: PA2PTE_def bit_simps)

lemma fixed_VATOP: "TRAMPOLINE < VATOP" "TRAPFRAME < VATOP" "USYSCALL < VATOP"
  by (simp_all add: layout_vals)

lemma fixed_id: "PGROUNDDOWN TRAMPOLINE = TRAMPOLINE" "PGROUNDDOWN TRAPFRAME = TRAPFRAME"
  "PGROUNDDOWN USYSCALL = USYSCALL"
  using fixed_pages(1-3) by (simp_all flip: PGROUNDDOWN_id)

lemma below_TRAPFRAME_neq:
  "x < TRAPFRAME \<Longrightarrow> PGROUNDDOWN x = USYSCALL \<or> PGROUNDDOWN x \<notin> {TRAMPOLINE, TRAPFRAME, USYSCALL}"
  using fixed_high [of x] by auto

lemma high_page:
  assumes "PGROUNDDOWN x = TRAPFRAME \<or> PGROUNDDOWN x = TRAMPOLINE"
  shows "x < MAXVA"
proof -
  have "x - PGROUNDDOWN x < PGSIZE" by (rule PGROUNDDOWN_offset)
  moreover have "PGROUNDDOWN x \<le> x" by (rule PGROUNDDOWN_le)
  ultimately show ?thesis
    using assms by (auto simp: layout_vals word_less_nat_alt word_le_nat_alt unat_sub)
qed

text \<open>The space that \<open>proc_pagetable\<close> built is the space of a process of size 0.\<close>

lemma fresh_space:
  assumes inv: "as_inv s fl 2 pt" and map: "\<forall>va < VATOP. pte_of s pt va = proc_map tramp tf us va"
    and us: "usable s us" "us \<notin> tables s pt" "us \<notin> set fl"
    and tf: "usable s tf" "tf \<notin> tables s pt" "tf \<notin> set fl" "tf \<noteq> us"
  shows "proc_space s fl pt 0 tf us" "upages s pt = {us}"
proof -
  have pte: "pte_of s pt va = proc_map tramp tf us va" if "va < VATOP" for va using map that by simp
  have m: "mapped s pt va \<longleftrightarrow> PGROUNDDOWN va = USYSCALL" for va
  proof -
    have "va < TRAPFRAME" if "PGROUNDDOWN va = USYSCALL"
      using below_TRAPFRAME_page [OF fixed_pages(3) _ that] by (simp add: layout_vals)
    then show ?thesis
      using pte [OF TRAPFRAME_VATOP] fixed_high [of va] by (auto simp: mapped_def proc_map_def split: if_splits)
  qed
  have us_pte: "pte_of s pt va = PA2PTE us OR (PTE_R OR PTE_U) OR PTE_V" if "PGROUNDDOWN va = USYSCALL" for va
    using that m [of va] pte [OF TRAPFRAME_VATOP, of va] fixed_pages(11,12)
    by (simp add: proc_map_def mapped_def)
  have pg: "page_of s pt va = us" if "PGROUNDDOWN va = USYSCALL" for va
    using us_pte [OF that] PTE2PA_leaf [OF usable_aligned [OF us(1)], of "PTE_R OR PTE_U"]
    by (simp add: page_of_def PTE_R_def PTE_U_def)
  show up: "upages s pt = {us}"
    using m pg fixed_id(3) by (auto simp: upages_def image_iff)
  have "uspace s fl pt"
    unfolding uspace_def
  proof (intro conjI allI impI inv)
    show "\<forall>p \<in> upages s pt. usable s p \<and> p \<notin> tables s pt \<union> set fl" using up us by simp
    show "PGROUNDDOWN va = PGROUNDDOWN va'" if "mapped s pt va" "mapped s pt va'" for va va'
      using that m by simp
  next
    fix va assume va: "va < VATOP" "TRAPFRAME \<le> va" "valid (pte_of s pt va)"
    have "PGROUNDDOWN va \<noteq> USYSCALL" using va m [of va] by (auto simp: mapped_def)
    then have h: "PGROUNDDOWN va = TRAPFRAME \<or> PGROUNDDOWN va = TRAMPOLINE"
      using va(3) pte [OF va(1)] by (auto simp: proc_map_def split: if_splits)
    then show "va < MAXVA" by (rule high_page)
    show "\<not> bit (pte_of s pt va) 4"
      using h pte [OF va(1)] by (auto simp: proc_map_def bit_or_iff bit_pte_bits PA2PTE_low)
  qed
  moreover have "bit (pte_of s pt USYSCALL) 1 \<and> bit (pte_of s pt USYSCALL) 4 \<and> \<not> bit (pte_of s pt USYSCALL) 2"
    using us_pte [OF fixed_id(3)] by (simp add: bit_or_iff bit_pte_bits PA2PTE_low)
  moreover have "\<forall>va < VATOP. valid (pte_of s pt va) \<longrightarrow> PGROUNDDOWN va \<in> {TRAMPOLINE, TRAPFRAME, USYSCALL}"
    using pte by (auto simp: proc_map_def split: if_splits)
  moreover have "tf \<notin> account s fl pt" using tf up by (simp add: account_def)
  ultimately show "proc_space s fl pt 0 tf us"
    using m [of USYSCALL] pg [of USYSCALL] fixed_id(3) tf(1)
    by (auto simp: proc_space_def PGROUNDUP_def)
qed

lemma same_page_memset_store32:
  assumes "page_aligned a" "p \<noteq> a"
  shows "same_page m (store32 (memset m a c PGSIZE) a v) p"
  unfolding same_page_def
proof (intro allI impI)
  fix x assume x: "PGROUNDDOWN x = p"
  then have "\<not> x - a < PGSIZE" using assms by (simp add: page_region)
  moreover from this have "\<not> x - a < 4" by (simp add: word_less_nat_alt)
  ultimately show "store32 (memset m a c PGSIZE) a v x = m x" by (simp add: store32_def memset_def)
qed

text \<open>What a new process holds at \<open>USYSCALL\<close>.\<close>

lemma store32_byte: "i < 4 \<Longrightarrow> store32 m a v (a + of_nat i) = ucast (drop_bit (8 * i) v)"
  by (simp add: store32_def word_less_nat_alt unat_of_nat)

lemma fresh_pid:
  assumes map: "\<forall>va < VATOP. pte_of s pt va = proc_map tramp tf us va" and us: "page_aligned us"
    and m: "same_page (store32 m us pid) (pmem s) us"
  shows "pid_page s pt pid"
  unfolding pid_page_def
proof (intro allI impI)
  fix i :: nat assume i: "i < 4"
  have n: "PGROUNDDOWN (USYSCALL + of_nat i) = USYSCALL" using i by (intro USYSCALL_near) simp
  have lt: "USYSCALL + of_nat i < VATOP"
    using below_TRAPFRAME_page [OF fixed_pages(3) _ n] TRAPFRAME_VATOP by (simp add: layout_vals)
  have "pte_of s pt (USYSCALL + of_nat i) = PA2PTE us OR (PTE_R OR PTE_U) OR PTE_V"
    using map lt n fixed_pages(11,12) by (simp add: proc_map_def)
  then have "page_of s pt (USYSCALL + of_nat i) = us"
    using PTE2PA_leaf [OF us, of "PTE_R OR PTE_U"] by (simp add: page_of_def PTE_R_def PTE_U_def)
  then have "ubyte s pt (USYSCALL + of_nat i) = pmem s (us + of_nat i)" using n by (simp add: ubyte_def)
  also have "\<dots> = store32 m us pid (us + of_nat i)"
    using m PGROUNDDOWN_add [OF us, of "of_nat i"] i
    by (simp add: same_page_def word_less_nat_alt unat_of_nat)
  finally show "ubyte s pt (USYSCALL + of_nat i) = ucast (drop_bit (8 * i) pid)"
    using store32_byte [OF i] by simp
qed

definition alloc_post :: "u64 list \<Rightarrow> nat \<Rightarrow> 'fs kst \<Rightarrow> nat option \<Rightarrow> u64 list \<Rightarrow> 'fs kst \<Rightarrow> bool" where
  "alloc_post fl i k r fl' k' \<longleftrightarrow> mem_inv fl' k' \<and> all_pages fl' k' = all_pages fl k \<and>
     same_outside (set fl) (k_mem k) (k_mem k') \<and>
     (\<exists>q. k' = k\<lparr>k_mem := k_mem k', nextpid := nextpid k + 1, procs := (procs k)[i := q]\<rparr> \<and>
       (case r of
          None \<Rightarrow> q = cleared (procs k ! i) \<and> set fl' = set fl \<and> length fl \<le> 8
        | Some j \<Rightarrow> j = i \<and> set fl' \<subseteq> set fl \<and> length fl \<le> length fl' + 9 \<and> live (k_mem k') fl' q \<and>
            set fl' \<union> pages_of (k_mem k') q = set fl \<and>
            (\<exists>pt tf us. q = born (nextpid k) tf us pt (k_forkret k) (procs k ! i) \<and> usable (k_mem k) tf \<and>
              (\<forall>va < VATOP. pte_of (k_mem k') pt va = proc_map (k_trampoline k) tf us va))))"

lemma alloc_post_fail:
  assumes inv: "mem_inv fl k" and i: "i < length (procs k)" and un: "p_state (procs k ! i) = UNUSED"
    and fp: "free_pages s' fl'" and eq: "set fl' = set fl" and out: "same_outside (set fl) (k_mem k) s'"
    and few: "length fl \<le> 8"
  shows "alloc_post fl i k None fl' (k\<lparr>k_mem := s', nextpid := nextpid k + 1,
    procs := (procs k)[i := cleared (procs k ! i)]\<rparr>)" (is "alloc_post _ _ _ _ _ ?k")
proof -
  have q: "proc_ok s' fl' (cleared (procs k ! i))" by (simp add: proc_ok_def)
  have o: "same_outside (set fl \<union> pages_of (k_mem k) (procs k ! i)) (k_mem k) s'" using out un by simp
  have "mem_inv fl' ?k" "all_pages fl' ?k = all_pages fl k"
    using mem_inv_upd [OF inv i, of ?k s' "cleared (procs k ! i)", OF _ _ o fp q] eq un by simp_all
  then show ?thesis unfolding alloc_post_def
    by (simp add: out eq few)
qed

lemma alloc_post_ok:
  assumes inv: "mem_inv fl k" and i: "i < length (procs k)" and un: "p_state (procs k ! i) = UNUSED"
    and fp: "free_pages s' fl'" and out: "same_outside (set fl) (k_mem k) s'"
    and lv: "live s' fl' q" and q: "q = born (nextpid k) tf us pt (k_forkret k) (procs k ! i)"
    and tf: "usable (k_mem k) tf"
    and acc: "set fl' \<union> pages_of s' q = set fl"
    and map: "\<forall>va < VATOP. pte_of s' pt va = proc_map (k_trampoline k) tf us va"
    and len: "length fl \<le> length fl' + 9"
  shows "alloc_post fl i k (Some i) fl' (k\<lparr>k_mem := s', nextpid := nextpid k + 1,
    procs := (procs k)[i := q]\<rparr>)" (is "alloc_post _ _ _ _ _ ?k")
proof -
  have ok: "proc_ok s' fl' q" using lv by (simp add: proc_ok_def)
  have o: "same_outside (set fl \<union> pages_of (k_mem k) (procs k ! i)) (k_mem k) s'" using out un by simp
  have "mem_inv fl' ?k" "all_pages fl' ?k = all_pages fl k"
    using mem_inv_upd [OF inv i, of ?k s' q, OF _ _ o fp ok] acc un by simp_all
  moreover have "set fl' \<subseteq> set fl" using acc by auto
  ultimately show ?thesis unfolding alloc_post_def using lv q tf map out acc len
    by (simp add: i) (rule exI [of _ q], auto)
qed

lemma allocproc_at_spec:
  assumes inv: "mem_inv fl k" and i: "i < length (procs k)" and id: "idle (procs k ! i)"
  shows "\<exists>r fl' k'. allocproc_at i k = ret (r, k') \<and> alloc_post fl i k r fl' k'"
proof -
  let ?p = "procs k ! i" and ?s = "k_mem k"
  have un: "p_state ?p = UNUSED" and z: "p_trapframe ?p = 0" "p_usyscall ?p = 0" "p_pagetable ?p = 0"
    using id by (auto simp: idle_def)
  have fp: "free_pages ?s fl" using inv by (rule mem_inv_free)
  note fail = alloc_post_fail [OF inv i un]
  note simps = allocproc_at_def allocpid_def freeproc_def upd_def cleared_def Let_def
  show ?thesis
  proof (cases fl)
    case Nil
    then have "kalloc ?s = (0, ?s)" using fp kalloc_empty by simp
    then have "allocproc_at i k = ret (None, k\<lparr>k_mem := ?s, nextpid := nextpid k + 1,
        procs := (procs k)[i := cleared ?p]\<rparr>)" using i z by (simp add: simps)
    then show ?thesis using fail [OF fp] Nil by auto
  next
    case (Cons tf fl1)
    from kalloc_step [of ?s tf fl1] fp Cons obtain s1 where
      a1: "kalloc ?s = (tf, s1)" "free_pages s1 fl1" "same_outside {tf} ?s s1" "usable ?s tf" "tf \<noteq> 0"
        "tf \<notin> set fl1" by auto
    have u1: "usable s1 = usable ?s" using a1(3) by (rule same_outside_usable)
    show ?thesis
    proof (cases fl1)
      case Nil
      then have k2: "kalloc s1 = (0, s1)" using a1(2) kalloc_empty by simp
      from kfree_step [OF a1(2) _ a1(6)] a1(4) u1 obtain s2 where
        f: "kfree tf s1 = Ok s2" "free_pages s2 [tf]" "same_outside {tf} s1 s2" using Nil by auto
      have "allocproc_at i k = ret (None, k\<lparr>k_mem := s2, nextpid := nextpid k + 1,
        procs := (procs k)[i := cleared ?p]\<rparr>)" using i z a1(1,5) k2 f(1) by (simp add: simps)
      moreover have "same_outside (set fl) ?s s2"
        by (rule same_outside_mono [OF same_outside_trans [OF a1(3) f(3)]]) (use Cons in simp)
      ultimately show ?thesis using fail [OF f(2)] Cons Nil by auto
    next
      case c2: (Cons us fl2)
      from kalloc_step [of s1 us fl2] a1(2) c2 obtain s2 where
        a2: "kalloc s1 = (us, s2)" "free_pages s2 fl2" "same_outside {us} s1 s2" "usable s1 us" "us \<noteq> 0"
          "us \<notin> set fl2" by auto
      define m where "m = store32 (memset (pmem s2) us 0 PGSIZE) us (nextpid k)"
      define s3 where "s3 = s2\<lparr>pmem := m\<rparr>"
      have al: "page_aligned us" using a2(4) by (rule usable_aligned)
      have m: "same_page (pmem s2) m q" if "q \<noteq> us" for q
        unfolding m_def by (rule same_page_memset_store32 [OF al that])
      have o3: "same_outside {us} s2 s3" using m by (simp add: s3_def same_outside_def)
      have fp3: "free_pages s3 fl2"
        unfolding s3_def by (rule free_pages_frame [OF a2(2)], rule m) (use a2(6) in auto)
      have o03: "same_outside (set fl) ?s s3"
        by (rule same_outside_mono [OF same_outside_trans [OF a1(3) same_outside_trans [OF a2(3) o3]]])
          (use Cons c2 in auto)
      have u3: "usable s3 = usable ?s" using o03 by (rule same_outside_usable)
      from proc_pagetable_spec [OF fp3, of "k_trampoline k" tf us] obtain pt s4 where
        pp: "proc_pagetable (k_trampoline k) tf us s3 = ret (pt, s4)"
        and post: "if pt = 0 then gave_back s3 fl2 s4 \<and> length fl2 \<le> 6
          else \<exists>fl'. as_inv s4 fl' 2 pt \<and> set fl' \<union> tables s4 pt = set fl2 \<and> set fl' \<subseteq> set fl2 \<and>
            same_outside (set fl2) s3 s4 \<and>
            (\<forall>va < VATOP. pte_of s4 pt va = proc_map (k_trampoline k) tf us va) \<and>
            length fl2 \<le> length fl' + 7" by blast
      have o34: "same_outside (set fl2) s3 s4" using post by (auto simp: gave_back_def split: if_splits)
      have o04: "same_outside (set fl) ?s s4"
        by (rule same_outside_mono [OF same_outside_trans [OF o03 o34]]) (use Cons c2 in auto)
      have u4: "usable s4 = usable ?s" using o04 by (rule same_outside_usable)
      have dist: "tf \<noteq> us" "tf \<notin> set fl2" "us \<notin> set fl2" using a1(6) a2(6) c2 by auto
      show ?thesis
      proof (cases "pt = 0")
        case True
        then obtain fl4 where g: "free_pages s4 fl4" "set fl4 = set fl2" "length fl2 \<le> 6"
          using post by (auto simp: gave_back_def)
        from kfree_step [OF g(1), of tf] dist g(2) a1(4) u4 obtain s5 where
          f5: "kfree tf s4 = Ok s5" "free_pages s5 (tf # fl4)" "same_outside {tf} s4 s5" by auto
        from kfree_step [OF f5(2), of us] dist g(2) a2(4) u1 u4 same_outside_usable [OF f5(3)] obtain s6 where
          f6: "kfree us s5 = Ok s6" "free_pages s6 (us # tf # fl4)" "same_outside {us} s5 s6" by auto
        have "allocproc_at i k = ret (None, k\<lparr>k_mem := s6, nextpid := nextpid k + 1,
            procs := (procs k)[i := cleared ?p]\<rparr>)"
          using i z a1(1,5) a2(1,5) pp f5(1) f6(1) True by (simp add: simps m_def s3_def)
        moreover have "same_outside (set fl) ?s s6"
          by (rule same_outside_mono [OF same_outside_trans [OF o04 same_outside_trans [OF f5(3) f6(3)]]])
            (use Cons c2 in auto)
        ultimately show ?thesis using fail [OF f6(2)] Cons c2 g(2,3) by auto
      next
        case False
        then obtain fl4 where g: "as_inv s4 fl4 2 pt" "set fl4 \<union> tables s4 pt = set fl2"
            "set fl4 \<subseteq> set fl2" "\<forall>va < VATOP. pte_of s4 pt va = proc_map (k_trampoline k) tf us va"
            "length fl2 \<le> length fl4 + 7"
          using post by auto
        let ?q = "born (nextpid k) tf us pt (k_forkret k) ?p"
        have ut: "us \<notin> tables s4 pt" "us \<notin> set fl4" "tf \<notin> tables s4 pt" "tf \<notin> set fl4"
          using g(2) dist by auto
        have ok: "usable s4 us" "usable s4 tf" using a1(4) a2(4) u1 u4 by simp_all
        note sp = fresh_space [OF g(1,4) ok(1) ut(1,2) ok(2) ut(3,4) dist(1)]
        have "same_page (store32 (memset (pmem s2) us 0 PGSIZE) us (nextpid k)) (pmem s4) us"
          using o34 dist(3) by (simp add: same_outside_def s3_def m_def)
        then have "pid_page s4 pt (nextpid k)" by (rule fresh_pid [OF g(4) al])
        then have lv: "live s4 fl4 ?q" using sp(1) id by (simp add: live_def born_def idle_def)
        have acc: "set fl4 \<union> pages_of s4 ?q = set fl"
          using g(2) sp(2) Cons c2 by (auto simp: pages_of_def born_def)
        have fp4: "free_pages s4 fl4" using g(1) by (simp add: as_inv_def)
        have "allocproc_at i k = ret (Some i, k\<lparr>k_mem := s4, nextpid := nextpid k + 1,
            procs := (procs k)[i := ?q]\<rparr>)"
          using i z a1(1,5) a2(1,5) pp False
          by (simp add: simps m_def s3_def born_def)
        then show ?thesis
          using alloc_post_ok [OF inv i un fp4 o04 lv refl a1(4) acc g(4)] g(5) Cons c2 by auto
      qed
    qed
  qed
qed

lemma find_unused_Some:
  "find_unused k = Some i \<Longrightarrow> i < length (procs k) \<and> p_state (procs k ! i) = UNUSED"
  by (auto simp: find_unused_def find_Some_iff)

lemma find_unused_None: "find_unused k = None \<longleftrightarrow> (\<forall>p \<in> set (procs k). p_state p \<noteq> UNUSED)"
  by (force simp: find_unused_def find_None_iff in_set_conv_nth)

lemma allocproc_spec:
  assumes inv: "mem_inv fl k"
  shows "\<exists>r fl' k'. allocproc k = ret (r, k') \<and>
    (case find_unused k of None \<Rightarrow> r = None \<and> k' = k \<and> fl' = fl
     | Some i \<Rightarrow> i < length (procs k) \<and> idle (procs k ! i) \<and> alloc_post fl i k r fl' k')"
proof (cases "find_unused k")
  case None
  then show ?thesis by (simp add: allocproc_def)
next
  case (Some i)
  from find_unused_Some [OF this] have i: "i < length (procs k)" and u: "p_state (procs k ! i) = UNUSED"
    by auto
  then have "idle (procs k ! i)" using proc_ok_unused [OF mem_inv_slot [OF inv i]] by simp
  from allocproc_at_spec [OF inv i this] this show ?thesis using Some i by (simp add: allocproc_def)
qed

end
