(* ===== verification/Proc_Ops.thy ===== *)
theory Proc_Ops
  imports Proc_Life
begin

text \<open>
  \<open>growproc\<close> and \<open>kfork\<close> keep the invariant of the process table: what a process can reach
  changes as its size does, the child's memory is a copy of its parent's, and on every
  failure the pages taken so far are back on the free list.
\<close>

section \<open>Changing the size of a process\<close>

lemma live_resize:
  assumes lv: "live s fl p" and us: "uspace s' fl' (p_pagetable p)"
    and acc: "account s' fl' (p_pagetable p) = account s fl (p_pagetable p)"
    and usab: "usable s' = usable s"
    and high: "\<And>va. va < VATOP \<Longrightarrow> USYSCALL \<le> va \<Longrightarrow>
      pte_of s' (p_pagetable p) va = pte_of s (p_pagetable p) va \<and>
      (mapped s (p_pagetable p) va \<longrightarrow> ubyte s' (p_pagetable p) va = ubyte s (p_pagetable p) va)"
    and low: "\<And>va. va < USYSCALL \<Longrightarrow> valid (pte_of s' (p_pagetable p) va) \<Longrightarrow> va < PGROUNDUP sz"
    and sz: "sz \<le> USYSCALL"
  shows "live s' fl' (p\<lparr>p_sz := sz\<rparr>)" "set fl' \<union> pages_of s' (p\<lparr>p_sz := sz\<rparr>) = set fl \<union> pages_of s p"
proof -
  let ?pt = "p_pagetable p"
  have ps: "proc_space s fl ?pt (p_sz p) (p_trapframe p) (p_usyscall p)" using lv by (rule live_space)
  have e: "pte_of s' ?pt USYSCALL = pte_of s ?pt USYSCALL" using high [OF fixed_VATOP(3)] by simp
  have "PGROUNDDOWN va \<in> {TRAMPOLINE, TRAPFRAME, USYSCALL} \<or> va < PGROUNDUP sz"
    if va: "va < VATOP" "valid (pte_of s' ?pt va)" for va
  proof (cases "va < USYSCALL")
    case True
    then show ?thesis using low va by simp
  next
    case False
    then have "valid (pte_of s ?pt va)" using high [of va] va by simp
    moreover have "\<not> va < PGROUNDUP (p_sz p)"
      using False ps USYSCALL_limits(1) [of "p_sz p"] by (auto simp: proc_space_def)
    ultimately show ?thesis using ps va(1) unfolding proc_space_def by blast
  qed
  then have sp: "proc_space s' fl' ?pt sz (p_trapframe p) (p_usyscall p)"
    using ps us sz usab acc e by (simp add: proc_space_def mapped_def page_of_def)
  have "ubyte s' ?pt (USYSCALL + of_nat i) = ubyte s ?pt (USYSCALL + of_nat i)" if "i < 4" for i
  proof -
    have m: "mapped s ?pt (USYSCALL + of_nat i)" using that by (intro proc_space_pid_mapped [OF ps]) simp
    moreover have "USYSCALL \<le> USYSCALL + of_nat i"
      using PGROUNDDOWN_le [of "USYSCALL + of_nat i"] USYSCALL_near [of i] that by simp
    ultimately show ?thesis using high TRAPFRAME_VATOP by (simp add: mapped_def)
  qed
  then show lv': "live s' fl' (p\<lparr>p_sz := sz\<rparr>)" using lv sp by (simp add: live_def pid_page_def)
  have u: "p_state p \<noteq> UNUSED" using lv by (simp add: live_def)
  show "set fl' \<union> pages_of s' (p\<lparr>p_sz := sz\<rparr>) = set fl \<union> pages_of s p"
    using live_account [OF lv] live_account [OF lv'] acc by simp
qed

definition size_post :: "u64 list \<Rightarrow> nat \<Rightarrow> 'fs kst \<Rightarrow> u64 \<Rightarrow> u64 list \<Rightarrow> 'fs kst \<Rightarrow> bool" where
  "size_post fl p k sz fl' k' \<longleftrightarrow> mem_inv fl' k' \<and> all_pages fl' k' = all_pages fl k \<and>
     k' = upd p (\<lambda>q. q\<lparr>p_sz := sz\<rparr>) (set_mem (k_mem k') k)"

lemma size_postI:
  assumes inv: "mem_inv fl k" and p: "p < length (procs k)" and lv: "live (k_mem k) fl (procs k ! p)"
    and us: "uspace s' fl' (p_pagetable (procs k ! p))"
    and acc: "account s' fl' (p_pagetable (procs k ! p)) = account (k_mem k) fl (p_pagetable (procs k ! p))"
    and out: "same_outside (account (k_mem k) fl (p_pagetable (procs k ! p))) (k_mem k) s'"
    and high: "\<And>va. va < VATOP \<Longrightarrow> USYSCALL \<le> va \<Longrightarrow>
      pte_of s' (p_pagetable (procs k ! p)) va = pte_of (k_mem k) (p_pagetable (procs k ! p)) va \<and>
      (mapped (k_mem k) (p_pagetable (procs k ! p)) va \<longrightarrow>
        ubyte s' (p_pagetable (procs k ! p)) va = ubyte (k_mem k) (p_pagetable (procs k ! p)) va)"
    and low: "\<And>va. va < USYSCALL \<Longrightarrow> valid (pte_of s' (p_pagetable (procs k ! p)) va) \<Longrightarrow> va < PGROUNDUP sz"
    and sz: "sz \<le> USYSCALL"
  shows "size_post fl p k sz fl' (upd p (\<lambda>q. q\<lparr>p_sz := sz\<rparr>) (set_mem s' k))"
proof -
  let ?k = "upd p (\<lambda>q. q\<lparr>p_sz := sz\<rparr>) (set_mem s' k)" and ?q = "(procs k ! p)\<lparr>p_sz := sz\<rparr>"
  note r = live_resize [OF lv us acc same_outside_usable [OF out] high low sz]
  have o: "same_outside (set fl \<union> pages_of (k_mem k) (procs k ! p)) (k_mem k) s'"
    by (rule same_outside_mono [OF out]) (use live_account [OF lv] in auto)
  have fp: "free_pages s' fl'" using uspace_as_inv [OF us] by (simp add: as_inv_def)
  have ok: "proc_ok s' fl' ?q" using r(1) by (simp add: proc_ok_def)
  have "mem_inv fl' ?k" "all_pages fl' ?k = all_pages fl k"
    using mem_inv_upd [OF inv p, of ?k s' ?q, OF _ _ o fp ok r(2)] by simp_all
  then show ?thesis by (simp add: size_post_def)
qed

lemma live_low:
  "live s fl p \<Longrightarrow> va < USYSCALL \<Longrightarrow> valid (pte_of s (p_pagetable p) va) \<Longrightarrow> va < PGROUNDUP (p_sz p)"
proof -
  assume lv: "live s fl p" and va: "va < USYSCALL" "valid (pte_of s (p_pagetable p) va)"
  have "va < VATOP" using va(1) by (simp add: layout_vals word_less_nat_alt)
  moreover have "PGROUNDDOWN va \<notin> {TRAMPOLINE, TRAPFRAME, USYSCALL}"
    using PGROUNDDOWN_le [of va] va(1) by (auto simp: layout_vals word_le_nat_alt word_less_nat_alt)
  ultimately show ?thesis using live_space [OF lv] va(2) unfolding proc_space_def by blast
qed

lemma shrunk_same: "shrunk s s' pt lo hi \<Longrightarrow> va < VATOP \<Longrightarrow> \<not> (lo \<le> va \<and> va < hi) \<Longrightarrow>
   pte_of s' pt va = pte_of s pt va"
  by (auto simp: shrunk_def)

lemma growproc_spec:
  assumes inv: "mem_inv fl k" and p: "p < length (procs k)" and lv: "live (k_mem k) fl (procs k ! p)"
  shows "\<exists>r fl' k' sz. growproc p n k = Ok (r, k') \<and> size_post fl p k sz fl' k' \<and>
    (let pt = p_pagetable (procs k ! p); old = p_sz (procs k ! p); new = old + scast n in
     r = 0 \<and> sint n > 0 \<and> sz = new \<and> new \<le> USYSCALL \<and>
       grown (k_mem k) (k_mem k') pt (PGROUNDUP old) (PGROUNDUP new) (PTE_R OR PTE_U OR PTE_W) \<or>
     r = -1 \<and> sint n > 0 \<and> sz = old \<and>
       (k' = k \<and> new > USYSCALL \<or>
        rolled_back (k_mem k) (k_mem k') pt (PGROUNDUP old) (PGROUNDUP new)) \<or>
     r = 0 \<and> sint n < 0 \<and> new < old \<and> sz = new \<and>
       shrunk (k_mem k) (k_mem k') pt (PGROUNDUP new) (PGROUNDUP old) \<and>
       (\<forall>va. mapped (k_mem k') pt va \<longrightarrow> ubyte (k_mem k') pt va = ubyte (k_mem k) pt va) \<or>
     r = 0 \<and> (sint n = 0 \<or> sint n < 0 \<and> old \<le> new) \<and> sz = old \<and> k' = k)"
proof -
  let ?p = "procs k ! p" and ?s = "k_mem k"
  let ?pt = "p_pagetable ?p" and ?old = "p_sz ?p" and ?new = "p_sz ?p + scast n"
  have ps: "proc_space ?s fl ?pt ?old (p_trapframe ?p) (p_usyscall ?p)" using lv by (rule live_space)
  then have us: "uspace ?s fl ?pt" and old: "?old \<le> USYSCALL" by (auto simp: proc_space_def)
  note post = size_postI [OF inv p lv]
  have same: "upd p (\<lambda>q. q\<lparr>p_sz := ?old\<rparr>) (set_mem ?s k) = k"
    by (simp add: upd_def)
  have "upd p (\<lambda>q. q\<lparr>p_sz := ?old\<rparr>) k = k" by (simp add: upd_def)
  then have noop: "size_post fl p k ?old fl k"
    using inv by (simp add: size_post_def)
  consider (big) "sint n > 0" "?new > USYSCALL" | (grow) "sint n > 0" "?new \<le> USYSCALL"
    | (shrink) "sint n < 0" "?new < ?old" | (none) "sint n = 0 \<or> sint n < 0 \<and> ?old \<le> ?new"
    by force
  then show ?thesis
  proof cases
    case big
    then have "growproc p n k = Ok (-1, k)" by (simp add: growproc_def Let_def)
    then show ?thesis using noop big by (auto simp: Let_def)
  next
    case none
    then have "growproc p n k = Ok (0, upd p (\<lambda>q. q\<lparr>p_sz := ?old\<rparr>) (set_mem ?s k))"
      by (auto simp: growproc_def uvmdealloc_def Let_def)
    then show ?thesis using noop none unfolding same by (auto simp: Let_def)
  next
    case shrink
    from uvmdealloc_spec [OF us USYSCALL_limits(3,2) [OF old] shrink(2)] obtain s' fl' where
      d: "uvmdealloc ?pt ?old ?new ?s = Ok (?new, s')" "uspace s' fl' ?pt"
        "account s' fl' ?pt = account ?s fl ?pt" "same_outside (account ?s fl ?pt) ?s s'"
      and sh: "shrunk ?s s' ?pt (PGROUNDUP ?new) (PGROUNDUP ?old)"
      and ub: "\<forall>va. mapped s' ?pt va \<longrightarrow> ubyte s' ?pt va = ubyte ?s ?pt va" by blast
    have new: "?new \<le> USYSCALL" using shrink(2) old by simp
    have le: "PGROUNDUP ?new \<le> USYSCALL" "PGROUNDUP ?old \<le> USYSCALL"
      using USYSCALL_limits(1) new old by blast+
    have "size_post fl p k ?new fl' (upd p (\<lambda>q. q\<lparr>p_sz := ?new\<rparr>) (set_mem s' k))"
    proof (rule post [OF d(2-4) _ _ new])
      fix va assume va: "va < VATOP" "USYSCALL \<le> va"
      then have e: "pte_of s' ?pt va = pte_of ?s ?pt va"
        using le(2) by (intro shrunk_same [OF sh]) auto
      then show "pte_of s' ?pt va = pte_of ?s ?pt va \<and> (mapped ?s ?pt va \<longrightarrow> ubyte s' ?pt va = ubyte ?s ?pt va)"
        using ub by (simp add: mapped_def)
    next
      fix va assume va: "va < USYSCALL" "valid (pte_of s' ?pt va)"
      have vt: "va < VATOP" using va(1) fixed_VATOP(3) by simp
      then have "valid (pte_of ?s ?pt va)" "\<not> (PGROUNDUP ?new \<le> va \<and> va < PGROUNDUP ?old)"
        using va(2) sh [unfolded shrunk_def, rule_format, OF vt] by (auto split: if_splits)
      then show "va < PGROUNDUP ?new" using live_low [OF lv va(1)] by auto
    qed
    moreover have "growproc p n k = Ok (0, upd p (\<lambda>q. q\<lparr>p_sz := ?new\<rparr>) (set_mem s' k))"
      using shrink(1) d(1) by (simp add: growproc_def Let_def)
    ultimately show ?thesis using shrink sh ub by (auto simp: Let_def)
  next
    case grow
    have "unat ?new = unat ?old + nat (sint n)"
      using unat_scast [of n] grow(1) old
      by (simp add: unat_word_ariths layout_vals word_le_nat_alt)
    then have lt: "?old < ?new" using grow(1) by (simp add: word_less_nat_alt)
    have "?new \<noteq> 0" using lt by auto
    have none: "\<not> valid (pte_of ?s ?pt va)" if "PGROUNDUP ?old \<le> va" "va < PGROUNDUP ?new" for va
    proof -
      have "va < USYSCALL" using that(2) USYSCALL_limits(1) [OF grow(2)] by (rule less_le_trans)
      then show ?thesis using live_low [OF lv, of va] that(1) by auto
    qed
    have W: "PTE_W < 1024" by (simp add: PTE_W_def)
    from uvmalloc_spec [OF us less_imp_le [OF lt] USYSCALL_limits(2,3) [OF grow(2)] W none]
    obtain r s' fl' where d: "uvmalloc ?pt ?old ?new PTE_W ?s = Ok (r, s')" "uspace s' fl' ?pt"
        "account s' fl' ?pt = account ?s fl ?pt" "same_outside (account ?s fl ?pt) ?s s'"
      and cs: "r = ?new \<and> grown ?s s' ?pt (PGROUNDUP ?old) (PGROUNDUP ?new) (PTE_R OR PTE_U OR PTE_W) \<or>
        r = 0 \<and> rolled_back ?s s' ?pt (PGROUNDUP ?old) (PGROUNDUP ?new)" by blast
    have hi: "PGROUNDUP ?new \<le> USYSCALL" using grow(2) by (rule USYSCALL_limits)
    from cs show ?thesis
    proof
      assume g: "r = ?new \<and> grown ?s s' ?pt (PGROUNDUP ?old) (PGROUNDUP ?new) (PTE_R OR PTE_U OR PTE_W)"
      then have gr: "\<And>va. va < VATOP \<Longrightarrow> \<not> (PGROUNDUP ?old \<le> va \<and> va < PGROUNDUP ?new) \<Longrightarrow>
          pte_of s' ?pt va = pte_of ?s ?pt va \<and> (mapped ?s ?pt va \<longrightarrow> ubyte s' ?pt va = ubyte ?s ?pt va)"
        by (auto simp: grown_def)
      have "size_post fl p k ?new fl' (upd p (\<lambda>q. q\<lparr>p_sz := ?new\<rparr>) (set_mem s' k))"
      proof (rule post [OF d(2-4) _ _ grow(2)])
        fix va assume "va < VATOP" "USYSCALL \<le> va"
        then show "pte_of s' ?pt va = pte_of ?s ?pt va \<and> (mapped ?s ?pt va \<longrightarrow> ubyte s' ?pt va = ubyte ?s ?pt va)"
          using hi by (intro gr) auto
      next
        fix va assume va: "va < USYSCALL" "valid (pte_of s' ?pt va)"
        show "va < PGROUNDUP ?new"
        proof (rule ccontr)
          assume nl: "\<not> va < PGROUNDUP ?new"
          have "valid (pte_of ?s ?pt va)" using va nl gr [of va] fixed_VATOP(3) by auto
          then have "va < PGROUNDUP ?old" using live_low [OF lv va(1)] by simp
          moreover have "PGROUNDUP ?old \<le> PGROUNDUP ?new"
            using PGROUNDUP_least USYSCALL_limits(2) grow(2) old lt
            by (meson PGROUNDUP_aligned less_imp_le order_trans)
          ultimately show False using nl by simp
        qed
      qed
      moreover have "growproc p n k = Ok (0, upd p (\<lambda>q. q\<lparr>p_sz := ?new\<rparr>) (set_mem s' k))"
        using grow d(1) g \<open>?new \<noteq> 0\<close> by (simp add: growproc_def Let_def)
      ultimately show ?thesis using grow g by (auto simp: Let_def)
    next
      assume g: "r = 0 \<and> rolled_back ?s s' ?pt (PGROUNDUP ?old) (PGROUNDUP ?new)"
      have rb: "(if PGROUNDUP ?old \<le> va \<and> va < PGROUNDUP ?new then \<not> valid (pte_of s' ?pt va)
          else pte_of s' ?pt va = pte_of ?s ?pt va \<and> (mapped ?s ?pt va \<longrightarrow> ubyte s' ?pt va = ubyte ?s ?pt va))"
        if "va < VATOP" for va
        using g that unfolding rolled_back_def by blast
      have "size_post fl p k ?old fl' (upd p (\<lambda>q. q\<lparr>p_sz := ?old\<rparr>) (set_mem s' k))"
      proof (rule post [OF d(2-4) _ _ old])
        fix va assume va: "va < VATOP" "USYSCALL \<le> va"
        have "\<not> va < PGROUNDUP ?new" using order_trans [OF hi va(2)] by simp
        then show "pte_of s' ?pt va = pte_of ?s ?pt va \<and> (mapped ?s ?pt va \<longrightarrow> ubyte s' ?pt va = ubyte ?s ?pt va)"
          using rb [OF va(1)] by simp
      next
        fix va assume va: "va < USYSCALL" "valid (pte_of s' ?pt va)"
        then have vt: "va < VATOP" using fixed_VATOP(3) by simp
        show "va < PGROUNDUP ?old"
          using rb [OF vt] va live_low [OF lv va(1)] by (auto split: if_splits)
      qed
      moreover have "upd p (\<lambda>q. q\<lparr>p_sz := ?old\<rparr>) (set_mem s' k) = set_mem s' k"
        by (simp add: upd_def)
      moreover have "growproc p n k = Ok (-1, set_mem s' k)"
        using grow d(1) g by (simp add: growproc_def Let_def)
      ultimately show ?thesis using grow g by (auto simp: Let_def)
    qed
  qed
qed

section \<open>fork\<close>

text \<open>The child's trapframe: the parent's, except that \<open>fork\<close> returns 0 in it.\<close>

definition child_frame :: "mem \<Rightarrow> u64 \<Rightarrow> mem \<Rightarrow> u64 \<Rightarrow> bool" where
  "child_frame m tfp m' tfc \<longleftrightarrow> load64 m' (tfc + TF_A0) = 0 \<and>
     (\<forall>i < TF_SIZE. \<not> i - TF_A0 < 8 \<longrightarrow> m' (tfc + i) = m (tfp + i))"

lemma child_frameI:
  assumes m': "m' = store64 (memmove m tfc tfp TF_SIZE) (tfc + TF_A0) 0"
  shows "child_frame m tfp m' tfc"
  unfolding child_frame_def
proof (intro conjI allI impI)
  show "load64 m' (tfc + TF_A0) = 0" by (simp add: m' load64_store64)
  show "m' (tfc + i) = m (tfp + i)" if "i < TF_SIZE" "\<not> i - TF_A0 < 8" for i
    using that by (simp add: m' store64_def memmove_def)
qed

lemma same_page_frame:
  assumes al: "page_aligned tfc" and q: "q \<noteq> tfc"
  shows "same_page m (store64 (memmove m tfc tfp TF_SIZE) (tfc + TF_A0) 0) q"
  unfolding same_page_def
proof (intro allI impI)
  fix x assume x: "PGROUNDDOWN x = q"
  have n: "\<not> x - tfc < PGSIZE" using al q x by (simp add: page_region)
  then have "\<not> x - tfc < TF_SIZE" by (simp add: word_less_nat_alt)
  moreover have "\<not> x - (tfc + TF_A0) < 8"
  proof
    assume "x - (tfc + TF_A0) < 8"
    moreover define d where "d = x - (tfc + TF_A0)"
    ultimately have d: "unat d < 8" by (simp add: word_less_nat_alt)
    have "x - tfc = d + TF_A0" by (simp add: d_def)
    moreover have "unat (d + TF_A0) < 4096" using d by (simp add: unat_word_ariths)
    ultimately show False using n by (simp add: word_less_nat_alt)
  qed
  ultimately show "store64 (memmove m tfc tfp TF_SIZE) (tfc + TF_A0) 0 x = m x"
    by (simp add: store64_def memmove_def)
qed

text \<open>Two live processes, seen as the two spaces that \<open>uvmcopy\<close> works on.\<close>

lemma mem_inv_live_disjoint:
  assumes inv: "mem_inv fl k" and i: "i < length (procs k)" "j < length (procs k)" "i \<noteq> j"
  shows "pages_of (k_mem k) (procs k ! i) \<inter> pages_of (k_mem k) (procs k ! j) = {}"
  using assms by (simp add: mem_inv_def)

lemma mem_inv_apart:
  assumes inv: "mem_inv fl k" and i: "i < length (procs k)" "j < length (procs k)" "i \<noteq> j"
    and lv: "live (k_mem k) fl (procs k ! i)" "live (k_mem k) fl (procs k ! j)"
  shows "apart (k_mem k) fl (p_pagetable (procs k ! i)) (p_pagetable (procs k ! j))"
proof -
  have us: "uspace (k_mem k) fl (p_pagetable (procs k ! i))"
    using live_space [OF lv(1)] by (rule proc_space_uspace)
  have "pages_of (k_mem k) (procs k ! i) \<inter> (set fl \<union> pages_of (k_mem k) (procs k ! j)) = {}"
    using mem_inv_live_disjoint [OF inv i] live_disjoint [OF lv(1)] by auto
  then show ?thesis
    using us lv by (auto simp: apart_def pages_of_def account_def live_def)
qed

definition fork_child ::
  "nat \<Rightarrow> 'fs kst \<Rightarrow> nat \<Rightarrow> u64 list \<Rightarrow> u64 \<Rightarrow> proc \<Rightarrow> bool" where
  "fork_child p k np ofile cwd c \<longleftrightarrow> p_state c = RUNNABLE \<and> p_pid c = nextpid k \<and>
     p_parent c = Some p \<and> p_sz c = p_sz (procs k ! p) \<and> p_ofile c = ofile \<and> p_cwd c = cwd \<and>
     p_name c = safestrcpy16 (p_name (procs k ! p)) \<and> p_chan c = Null \<and> p_killed c = 0 \<and>
     p_context c = \<lparr>c_ra = k_forkret k, c_sp = p_kstack (procs k ! np) + PGSIZE, c_s = replicate 12 0\<rparr>"

text \<open>The user memory below \<open>hi\<close> of one process, as the copy of that of another.\<close>

definition same_memory :: "phys \<Rightarrow> u64 \<Rightarrow> phys \<Rightarrow> u64 \<Rightarrow> u64 \<Rightarrow> bool" where
  "same_memory s old s' new hi \<longleftrightarrow> (\<forall>va < hi.
     if mapped s old va
     then mapped s' new va \<and> PTE_FLAGS (pte_of s' new va) = PTE_FLAGS (pte_of s old va) \<and>
          ubyte s' new va = ubyte s old va
     else \<not> valid (pte_of s' new va))"

lemma fresh_low:
  "\<forall>va < VATOP. pte_of s pt va = proc_map tramp tf us va \<Longrightarrow> va < USYSCALL \<Longrightarrow> \<not> valid (pte_of s pt va)"
  using PGROUNDDOWN_le [of va] fixed_VATOP(3)
  by (auto simp: proc_map_def layout_vals word_le_nat_alt word_less_nat_alt)

definition fork_ok ::
  "'fs fsops \<Rightarrow> nat \<Rightarrow> 'fs kst \<Rightarrow> nat \<Rightarrow> u64 list \<Rightarrow> i32 \<Rightarrow> 'fs kst \<Rightarrow> bool" where
  "fork_ok fs p k np fl' r k' \<longleftrightarrow> (\<exists>c files cwd f. r = nextpid k \<and>
     k' = k\<lparr>k_mem := k_mem k', nextpid := nextpid k + 1, procs := (procs k)[np := c], k_fs := k_fs k'\<rparr> \<and>
     live (k_mem k') fl' c \<and> fork_child p k np files cwd c \<and>
     dup_files fs (p_ofile (procs k ! p)) (p_ofile (procs k ! np)) (k_fs k) = (files, f) \<and>
     idup fs (p_cwd (procs k ! p)) f = (cwd, k_fs k') \<and>
     same_memory (k_mem k) (p_pagetable (procs k ! p)) (k_mem k') (p_pagetable c)
       (PGROUNDUP (p_sz (procs k ! p))) \<and>
     child_frame (pmem (k_mem k)) (p_trapframe (procs k ! p)) (pmem (k_mem k')) (p_trapframe c))"

text \<open>From the successful \<open>uvmcopy\<close> on: the child keeps the invariant and has the parent's memory.\<close>

lemma fork_child_space:
  assumes lv: "live s1 fl1 q" and map: "\<forall>va < VATOP. pte_of s1 (p_pagetable q) va = proc_map tramp tf us va"
    and ap: "apart s1 fl1 old (p_pagetable q)" and sz: "sz \<le> USYSCALL"
    and us': "uspace s' fl' (p_pagetable q)"
    and acc: "account s' fl' (p_pagetable q) = account s1 fl1 (p_pagetable q)"
    and out: "same_outside (account s1 fl1 (p_pagetable q)) s1 s'"
    and cp: "copied s1 s' old (p_pagetable q) 0 (PGROUNDUP sz)"
    and m: "m = store64 (memmove (pmem s') (p_trapframe q) tfp TF_SIZE) (p_trapframe q + TF_A0) 0"
  shows "live (s'\<lparr>pmem := m\<rparr>) fl' (q\<lparr>p_sz := sz\<rparr>)"
    "set fl' \<union> pages_of (s'\<lparr>pmem := m\<rparr>) (q\<lparr>p_sz := sz\<rparr>) = set fl1 \<union> pages_of s1 q"
    "same_memory s1 old (s'\<lparr>pmem := m\<rparr>) (p_pagetable q) (PGROUNDUP sz)"
    "same_outside (set fl1 \<union> pages_of s1 q) s1 (s'\<lparr>pmem := m\<rparr>)"
proof -
  let ?new = "p_pagetable q" and ?tf = "p_trapframe q" and ?s2 = "s'\<lparr>pmem := m\<rparr>"
  have ps: "proc_space s1 fl1 ?new (p_sz q) ?tf (p_usyscall q)" using lv by (rule live_space)
  have al: "page_aligned ?tf" and tfn: "?tf \<notin> account s' fl' ?new"
    using ps acc by (auto simp: proc_space_def usable_def)
  have o2: "same_outside {?tf} s' ?s2"
    using same_page_frame [OF al] by (simp add: same_outside_def m)
  have fp2: "free_pages ?s2 fl'"
  proof (rule free_pages_frame)
    show "free_pages s' fl'" using uspace_as_inv [OF us'] by (simp add: as_inv_def)
    show "same_page (pmem s') m a" if "a \<in> set fl'" for a
      unfolding m using that tfn by (intro same_page_frame [OF al]) (auto simp: account_def)
  qed
  have d: "(tables s' ?new \<union> upages s' ?new) \<inter> {?tf} = {}"
    "(tables s' ?new \<union> upages s' ?new) \<inter> set fl' = {}"
    using tfn uspace_disjoint [OF us'] uspace_as_inv [OF us'] by (auto simp: account_def as_inv_def)
  note fr = uspace_frame [OF us' o2 d(1) fp2 d(2)]
  have acc2: "account ?s2 fl' ?new = account s1 fl1 ?new" using acc fr(3,4) by (simp add: account_def)
  have o12: "same_outside (insert ?tf (account s1 fl1 ?new)) s1 ?s2"
    by (rule same_outside_mono [OF same_outside_trans [OF out o2]]) auto
  then show "same_outside (set fl1 \<union> pages_of s1 q) s1 ?s2" using live_account [OF lv] by simp
  note hi = USYSCALL_limits(1) [OF sz]
  have far: "pte_of ?s2 ?new va = pte_of s1 ?new va \<and> (mapped s1 ?new va \<longrightarrow> ubyte ?s2 ?new va = ubyte s1 ?new va)"
    if "va < VATOP" "\<not> va < PGROUNDUP sz" for va
  proof -
    have c: "pte_of s' ?new va = pte_of s1 ?new va" "mapped s1 ?new va \<longrightarrow> ubyte s' ?new va = ubyte s1 ?new va"
      using cp that unfolding copied_def by auto
    moreover from c(1) have "mapped s' ?new va \<longleftrightarrow> mapped s1 ?new va" by (simp add: mapped_def)
    ultimately show ?thesis using fr(2,5) by simp
  qed
  have high: "pte_of ?s2 ?new va = pte_of s1 ?new va \<and> (mapped s1 ?new va \<longrightarrow> ubyte ?s2 ?new va = ubyte s1 ?new va)"
    if "va < VATOP" "USYSCALL \<le> va" for va
    using far [OF that(1)] order_trans [OF hi that(2)] by (simp add: leD)
  have low: "va < PGROUNDUP sz" if va: "va < USYSCALL" "valid (pte_of ?s2 ?new va)" for va
  proof -
    have "va < VATOP" using va(1) fixed_VATOP(3) by simp
    then show ?thesis using va far [of va] fresh_low [OF map va(1)] by (cases "va < PGROUNDUP sz") simp_all
  qed
  note r = live_resize [OF lv fr(1) acc2 same_outside_usable [OF o12] high low sz]
  show "live ?s2 fl' (q\<lparr>p_sz := sz\<rparr>)" "set fl' \<union> pages_of ?s2 (q\<lparr>p_sz := sz\<rparr>) = set fl1 \<union> pages_of s1 q"
    using r by simp_all
  show "same_memory s1 old ?s2 ?new (PGROUNDUP sz)"
    unfolding same_memory_def
  proof (intro allI impI)
    fix va assume va: "va < PGROUNDUP sz"
    have "va < VATOP" using va hi fixed_VATOP(3) by simp
    then have "if mapped s1 old va
      then mapped s' ?new va \<and> PTE_FLAGS (pte_of s' ?new va) = PTE_FLAGS (pte_of s1 old va) \<and>
           ubyte s' ?new va = ubyte s1 old va
      else \<not> valid (pte_of s' ?new va)"
      using cp va unfolding copied_def by auto
    then show "if mapped s1 old va
      then mapped ?s2 ?new va \<and> PTE_FLAGS (pte_of ?s2 ?new va) = PTE_FLAGS (pte_of s1 old va) \<and>
           ubyte ?s2 ?new va = ubyte s1 old va
      else \<not> valid (pte_of ?s2 ?new va)"
      using fr(2,5) by (auto simp: mapped_def split: if_splits)
  qed
qed

text \<open>The failing \<open>uvmcopy\<close>: the child's pages go back.\<close>

lemma fork_fail:
  assumes inv: "mem_inv fl1 k1" and np: "np < length (procs k1)" and lv: "live (k_mem k1) fl1 (procs k1 ! np)"
    and us': "uspace s' fl' (p_pagetable (procs k1 ! np))"
    and acc: "account s' fl' (p_pagetable (procs k1 ! np)) = account (k_mem k1) fl1 (p_pagetable (procs k1 ! np))"
    and out: "same_outside (account (k_mem k1) fl1 (p_pagetable (procs k1 ! np))) (k_mem k1) s'"
    and rb: "rolled_back (k_mem k1) s' (p_pagetable (procs k1 ! np)) 0 hi" and hi: "hi \<le> USYSCALL"
    and low: "\<And>va. va < USYSCALL \<Longrightarrow> \<not> valid (pte_of (k_mem k1) (p_pagetable (procs k1 ! np)) va)"
  shows "\<exists>s2 fl2. freeproc np (set_mem s' k1) = ret (upd np cleared (set_mem s2 k1)) \<and>
    mem_inv fl2 (upd np cleared (set_mem s2 k1)) \<and>
    all_pages fl2 (upd np cleared (set_mem s2 k1)) = all_pages fl1 k1 \<and>
    set fl2 = set fl1 \<union> pages_of (k_mem k1) (procs k1 ! np) \<and>
    same_outside (set fl1 \<union> pages_of (k_mem k1) (procs k1 ! np)) (k_mem k1) s2"
proof -
  let ?q = "procs k1 ! np" and ?s = "k_mem k1"
  have rb': "(if va < hi then \<not> valid (pte_of s' (p_pagetable ?q) va)
      else pte_of s' (p_pagetable ?q) va = pte_of ?s (p_pagetable ?q) va \<and>
        (mapped ?s (p_pagetable ?q) va \<longrightarrow> ubyte s' (p_pagetable ?q) va = ubyte ?s (p_pagetable ?q) va))"
    if "va < VATOP" for va
    using rb that unfolding rolled_back_def by auto
  have sz: "p_sz ?q \<le> USYSCALL" using live_space [OF lv] by (simp add: proc_space_def)
  have "size_post fl1 np k1 (p_sz ?q) fl' (upd np (\<lambda>q. q\<lparr>p_sz := p_sz ?q\<rparr>) (set_mem s' k1))"
  proof (rule size_postI [OF inv np lv us' acc out _ _ sz])
    fix va assume va: "va < VATOP" "USYSCALL \<le> va"
    have "\<not> va < hi" using order_trans [OF hi va(2)] by simp
    then show "pte_of s' (p_pagetable ?q) va = pte_of ?s (p_pagetable ?q) va \<and>
      (mapped ?s (p_pagetable ?q) va \<longrightarrow> ubyte s' (p_pagetable ?q) va = ubyte ?s (p_pagetable ?q) va)"
      using rb' [OF va(1)] by simp
  next
    fix va assume va: "va < USYSCALL" "valid (pte_of s' (p_pagetable ?q) va)"
    have "va < VATOP" using va(1) fixed_VATOP(3) by simp
    from rb' [OF this] va low [OF va(1)] show "va < PGROUNDUP (p_sz ?q)" by (auto split: if_splits)
  qed
  moreover have id: "upd np (\<lambda>q. q\<lparr>p_sz := p_sz ?q\<rparr>) (set_mem s' k1) = set_mem s' k1"
    by (simp add: upd_def)
  ultimately have inv': "mem_inv fl' (set_mem s' k1)" and all: "all_pages fl' (set_mem s' k1) = all_pages fl1 k1"
    by (auto simp: size_post_def)
  have "p_state ?q \<noteq> UNUSED" using lv by (simp add: live_def)
  then have lv': "live (k_mem (set_mem s' k1)) fl' (procs (set_mem s' k1) ! np)"
    using proc_ok_used [OF mem_inv_slot [OF inv', of np]] np by simp
  have tot: "set fl' \<union> pages_of s' ?q = set fl1 \<union> pages_of ?s ?q"
    using live_account [OF lv] live_account [OF lv'] acc by simp
  from freeproc_live [OF inv' _ lv'] np obtain s2 fl2 where
    f: "freeproc np (set_mem s' k1) = ret (upd np cleared (set_mem s2 k1))"
      "mem_inv fl2 (upd np cleared (set_mem s2 k1))"
      "all_pages fl2 (upd np cleared (set_mem s2 k1)) = all_pages fl1 k1"
      "set fl2 = set fl1 \<union> pages_of ?s ?q" "same_outside (set fl1 \<union> pages_of ?s ?q) s' s2"
    using all tot by auto
  have "same_outside (set fl1 \<union> pages_of ?s ?q) ?s s2"
    by (rule same_outside_mono [OF same_outside_trans [OF out f(5)]]) (use live_account [OF lv] in auto)
  then show ?thesis using f(1-4) by blast
qed

definition fork_post :: "'fs fsops \<Rightarrow> nat \<Rightarrow> u64 list \<Rightarrow> 'fs kst \<Rightarrow> i32 \<Rightarrow> u64 list \<Rightarrow> 'fs kst \<Rightarrow> bool" where
  "fork_post fs p fl k r fl' k' \<longleftrightarrow> mem_inv fl' k' \<and> all_pages fl' k' = all_pages fl k \<and>
     same_outside (set fl) (k_mem k) (k_mem k') \<and>
     (case find_unused k of
        None \<Rightarrow> r = -1 \<and> k' = k \<and> fl' = fl
      | Some np \<Rightarrow> np \<noteq> p \<and>
         (fork_ok fs p k np fl' r k' \<or>
          r = -1 \<and> set fl' = set fl \<and>
            length fl < 9 + 3 * (unat (PGROUNDUP (p_sz (procs k ! p))) div 4096) \<and> (\<exists>q. idle q \<and> p_parent q = p_parent (procs k ! np) \<and>
            k' = k\<lparr>k_mem := k_mem k', nextpid := nextpid k + 1, procs := (procs k)[np := q]\<rparr>)))"

lemma fork_post_fail:
  assumes "find_unused k = Some np" "np \<noteq> p" "mem_inv fl' k'" "all_pages fl' k' = all_pages fl k"
    "same_outside (set fl) (k_mem k) (k_mem k')" "set fl' = set fl"
    "k' = k\<lparr>k_mem := k_mem k', nextpid := nextpid k + 1, procs := (procs k)[np := q]\<rparr>"
    "idle q" "p_parent q = p_parent (procs k ! np)"
    "length fl < 9 + 3 * (unat (PGROUNDUP (p_sz (procs k ! p))) div 4096)"
  shows "fork_post fs p fl k (-1) fl' k'"
  unfolding fork_post_def assms(1) option.case using assms by blast

lemma kfork_spec:
  assumes inv: "mem_inv fl k" and p: "p < length (procs k)" and lv: "live (k_mem k) fl (procs k ! p)"
  shows "\<exists>r fl' k'. kfork fs p k = ret (r, k') \<and> fork_post fs p fl k r fl' k'"
proof -
  let ?pp = "procs k ! p" and ?s = "k_mem k"
  obtain r fl1 k1 where al: "allocproc k = ret (r, k1)" and
    cs: "case find_unused k of None \<Rightarrow> r = None \<and> k1 = k \<and> fl1 = fl
     | Some i \<Rightarrow> i < length (procs k) \<and> idle (procs k ! i) \<and> alloc_post fl i k r fl1 k1"
    using allocproc_spec [OF inv] by blast
  show ?thesis
  proof (cases "find_unused k")
    case None
    then have "kfork fs p k = ret (-1, k)" using al cs by (simp add: kfork_def)
    then show ?thesis using inv None by (auto simp: fork_post_def)
  next
    case fu: (Some np)
    then have np: "np < length (procs k)" "idle (procs k ! np)" and post: "alloc_post fl np k r fl1 k1"
      using cs by auto
    have neq: "np \<noteq> p" using np(2) lv by (auto simp: idle_def live_def)
    show ?thesis
    proof (cases r)
      case None
      then have "kfork fs p k = ret (-1, k1)" using al by (simp add: kfork_def)
      moreover have "fork_post fs p fl k (-1) fl1 k1"
        using post None neq unfolding alloc_post_def
        by (intro fork_post_fail [OF fu, of p _ _ _ "cleared (procs k ! np)"]) auto
      ultimately show ?thesis by blast
    next
      case (Some i)
      then have i: "i = np" using post by (auto simp: alloc_post_def)
      obtain q pt tf us where inv1: "mem_inv fl1 k1" and all1: "all_pages fl1 k1 = all_pages fl k"
        and o1: "same_outside (set fl) ?s (k_mem k1)" and sub: "set fl1 \<subseteq> set fl"
        and used: "length fl \<le> length fl1 + 9"
        and k1: "k1 = k\<lparr>k_mem := k_mem k1, nextpid := nextpid k + 1, procs := (procs k)[np := q]\<rparr>"
        and lq: "live (k_mem k1) fl1 q" and own: "set fl1 \<union> pages_of (k_mem k1) q = set fl" and q: "q = born (nextpid k) tf us pt (k_forkret k) (procs k ! np)"
        and map: "\<forall>va < VATOP. pte_of (k_mem k1) pt va = proc_map (k_trampoline k) tf us va"
        using post Some unfolding alloc_post_def by auto
      have sel: "k_trampoline k1 = k_trampoline k" "k_forkret k1 = k_forkret k" "k_fs k1 = k_fs k"
          "procs k1 = (procs k)[np := q]" "nextpid k1 = nextpid k + 1"
        using arg_cong [OF k1, of k_trampoline] arg_cong [OF k1, of k_forkret]
          arg_cong [OF k1, of k_fs] arg_cong [OF k1, of procs] arg_cong [OF k1, of nextpid] by simp_all
      have at: "procs k1 ! np = q" "procs k1 ! p = ?pp" "np < length (procs k1)" "p < length (procs k1)"
        using np(1) p neq sel(4) by auto
      have ptq: "p_pagetable q = pt" by (simp add: q born_def)
      have lp: "live (k_mem k1) fl1 (procs k1 ! p)"
        using proc_ok_used [OF mem_inv_slot [OF inv1 at(4)]] lv at(2) by (simp add: live_def)
      have lq': "live (k_mem k1) fl1 (procs k1 ! np)" using lq at(1) by simp
      have ap: "apart (k_mem k1) fl1 (p_pagetable ?pp) pt"
        using mem_inv_apart [OF inv1 at(4,3) _ lp lq'] neq at(1,2) ptq by simp
      have usq: "uspace (k_mem k1) fl1 pt"
        using proc_space_uspace [OF live_space [OF lq]] ptq by simp
      have sz: "p_sz ?pp \<le> USYSCALL" using live_space [OF lv] by (simp add: proc_space_def)
      have low: "\<not> valid (pte_of (k_mem k1) pt va)" if "va < USYSCALL" for va
        using fresh_low [OF map that] .
      then have none: "\<forall>va < PGROUNDUP (p_sz ?pp). \<not> valid (pte_of (k_mem k1) pt va)"
        using USYSCALL_limits(1) [OF sz] by (meson less_le_trans)
      have fr: "pte_of (k_mem k1) (p_pagetable ?pp) = pte_of ?s (p_pagetable ?pp)"
          "mapped ?s (p_pagetable ?pp) va \<Longrightarrow> ubyte (k_mem k1) (p_pagetable ?pp) va = ubyte ?s (p_pagetable ?pp) va"
        for va
      proof -
        have us: "uspace ?s fl (p_pagetable ?pp)" using live_space [OF lv] by (rule proc_space_uspace)
        have d: "(tables ?s (p_pagetable ?pp) \<union> upages ?s (p_pagetable ?pp)) \<inter> set fl = {}"
          using live_disjoint [OF lv] lv by (auto simp: pages_of_def live_def)
        moreover have "(tables ?s (p_pagetable ?pp) \<union> upages ?s (p_pagetable ?pp)) \<inter> set fl1 = {}"
          using d sub by auto
        ultimately show "pte_of (k_mem k1) (p_pagetable ?pp) = pte_of ?s (p_pagetable ?pp)"
          "mapped ?s (p_pagetable ?pp) va \<Longrightarrow> ubyte (k_mem k1) (p_pagetable ?pp) va = ubyte ?s (p_pagetable ?pp) va"
          using uspace_frame [OF us o1 _ mem_inv_free [OF inv1]] by simp_all
      qed
      from uvmcopy_spec [OF ap usq USYSCALL_limits(2,3) [OF sz] none] obtain c s' fl' where
        uc: "uvmcopy (p_pagetable ?pp) pt (p_sz ?pp) (k_mem k1) = Ok (c, s')" "uspace s' fl' pt"
          "account s' fl' pt = account (k_mem k1) fl1 pt" "same_outside (account (k_mem k1) fl1 pt) (k_mem k1) s'"
        and uo: "c = 0 \<and> copied (k_mem k1) s' (p_pagetable ?pp) pt 0 (PGROUNDUP (p_sz ?pp)) \<or>
          c = -1 \<and> rolled_back (k_mem k1) s' pt 0 (PGROUNDUP (p_sz ?pp))"
        and suc: "3 * (unat (PGROUNDUP (p_sz ?pp)) div 4096) \<le> length fl1 \<longrightarrow> c = 0" by blast
      note spaces = uc(2-4) [folded ptq]
      from uo show ?thesis
      proof
        assume rb: "c = -1 \<and> rolled_back (k_mem k1) s' pt 0 (PGROUNDUP (p_sz ?pp))"
        note ff = fork_fail [OF inv1 at(3) lq', unfolded at(1), OF spaces, of "PGROUNDUP (p_sz ?pp)"]
        from ff rb low USYSCALL_limits(1) [OF sz] obtain s2 fl2 where
          f: "freeproc np (set_mem s' k1) = ret (upd np cleared (set_mem s2 k1))"
            "mem_inv fl2 (upd np cleared (set_mem s2 k1))"
            "all_pages fl2 (upd np cleared (set_mem s2 k1)) = all_pages fl1 k1"
            "set fl2 = set fl" "same_outside (set fl) (k_mem k1) s2"
          unfolding ptq own by blast
        have "kfork fs p k = ret (-1, upd np cleared (set_mem s2 k1))"
          using al Some i uc(1) rb f(1) at(1,2) ptq by (simp add: kfork_def Let_def)
        moreover have "same_outside (set fl) ?s s2"
          using same_outside_trans [OF o1 f(5)] by simp
        moreover have "upd np cleared (set_mem s2 k1) =
            k\<lparr>k_mem := s2, nextpid := nextpid k + 1, procs := (procs k)[np := cleared q]\<rparr>"
          using np(1) at(1) by (subst k1, simp add: upd_def)
        moreover have "p_parent (cleared q) = p_parent (procs k ! np)" by (simp add: q born_def)
        ultimately have "fork_post fs p fl k (-1) fl2 (upd np cleared (set_mem s2 k1))"
          using f(2-4) all1 neq suc rb used by (intro fork_post_fail [OF fu, of p _ _ _ "cleared q"]) simp_all
        then show ?thesis using \<open>kfork fs p k = _\<close> by blast
      next
        assume cp: "c = 0 \<and> copied (k_mem k1) s' (p_pagetable ?pp) pt 0 (PGROUNDUP (p_sz ?pp))"
        obtain files f where df: "dup_files fs (p_ofile ?pp) (p_ofile q) (k_fs k) = (files, f)" by force
        obtain cwd f' where ic: "idup fs (p_cwd ?pp) f = (cwd, f')" by force
        define m where "m = store64 (memmove (pmem s') (p_trapframe q) (p_trapframe ?pp) TF_SIZE)
          (p_trapframe q + TF_A0) 0"
        note ch = fork_child_space [OF lq _ _ sz spaces _ m_def, of "k_trampoline k" tf us "p_pagetable ?pp",
            unfolded ptq, OF map ap conjunct2 [OF cp]]
        let ?s2 = "s'\<lparr>pmem := m\<rparr>"
        let ?c = "q\<lparr>p_sz := p_sz ?pp, p_ofile := files, p_cwd := cwd,
          p_name := safestrcpy16 (p_name ?pp), p_parent := Some p, p_state := RUNNABLE\<rparr>"
        let ?k = "upd np (\<lambda>c. c\<lparr>p_sz := p_sz ?pp, p_ofile := files, p_cwd := cwd,
          p_name := safestrcpy16 (p_name ?pp), p_parent := Some p, p_state := RUNNABLE\<rparr>)
          (k1\<lparr>k_mem := ?s2, k_fs := f'\<rparr>)"
        have k': "k_mem ?k = ?s2" "procs ?k = (procs k1)[np := ?c]" by (simp_all add: at(1))
        have run: "kfork fs p k = ret (p_pid q, ?k)"
          using al Some i uc(1) cp at(1,2) ptq df ic sel(3) by (simp add: kfork_def Let_def m_def)
        have ss: "same_space (q\<lparr>p_sz := p_sz ?pp\<rparr>) ?c"
          using lq by (simp add: same_space_def live_def)
        have "proc_ok ?s2 fl' (q\<lparr>p_sz := p_sz ?pp\<rparr>)" using ch(1) by (simp add: proc_ok_def)
        from same_space_ok [OF ss this] have okc: "proc_ok ?s2 fl' ?c"
          and pg: "pages_of ?s2 ?c = pages_of ?s2 (q\<lparr>p_sz := p_sz ?pp\<rparr>)" by simp_all
        have lc: "live ?s2 fl' ?c" using proc_ok_used [OF okc] by simp
        have fp2: "free_pages ?s2 fl'"
          using proc_space_uspace [OF live_space [OF lc]] by (simp add: uspace_def as_inv_def)
        have ou: "same_outside (set fl1 \<union> pages_of (k_mem k1) (procs k1 ! np)) (k_mem k1) ?s2"
          and ac: "set fl' \<union> pages_of ?s2 ?c = set fl1 \<union> pages_of (k_mem k1) (procs k1 ! np)"
          using ch(2,4) pg at(1) by simp_all
        note inv2 = mem_inv_upd [OF inv1 at(3) k' ou fp2 okc ac]
        have o2: "same_outside (set fl) ?s ?s2"
          using same_outside_trans [OF o1 ou] at(1) own by simp
        have mem: "same_memory ?s (p_pagetable ?pp) ?s2 pt (PGROUNDUP (p_sz ?pp))"
          unfolding same_memory_def
        proof (intro allI impI)
          fix va assume "va < PGROUNDUP (p_sz ?pp)"
          then show "if mapped ?s (p_pagetable ?pp) va
            then mapped ?s2 pt va \<and> PTE_FLAGS (pte_of ?s2 pt va) = PTE_FLAGS (pte_of ?s (p_pagetable ?pp) va) \<and>
              ubyte ?s2 pt va = ubyte ?s (p_pagetable ?pp) va
            else \<not> valid (pte_of ?s2 pt va)"
            using ch(3) [unfolded same_memory_def, rule_format, of va] fr(1) fr(2) [of va]
            by (cases "mapped ?s (p_pagetable ?pp) va") (simp_all add: mapped_def [of "k_mem k1"] mapped_def [of ?s])
        qed
        have tfp: "p_trapframe ?pp \<notin> set fl"
          using live_disjoint [OF lv] lv by (auto simp: pages_of_def live_def)
        have "child_frame (pmem s') (p_trapframe ?pp) m (p_trapframe q)" by (rule child_frameI [OF m_def])
        moreover have "pmem s' (p_trapframe ?pp + i) = pmem ?s (p_trapframe ?pp + i)" if "i < TF_SIZE" for i
        proof -
          have "same_outside (set fl) (k_mem k1) s'"
            by (rule same_outside_mono [OF uc(4)])
              (use own live_account [OF lq] ptq in \<open>auto simp: account_def\<close>)
          then have "same_outside (set fl) ?s s'" using same_outside_trans [OF o1] by fastforce
          then have "same_page (pmem ?s) (pmem s') (p_trapframe ?pp)" using tfp by (simp add: same_outside_def)
          moreover have "page_aligned (p_trapframe ?pp)"
            using live_space [OF lv] by (simp add: proc_space_def usable_def)
          moreover have "i < PGSIZE" using that by (simp add: word_less_nat_alt)
          ultimately show ?thesis by (simp add: same_page_def PGROUNDDOWN_add)
        qed
        ultimately have cf: "child_frame (pmem ?s) (p_trapframe ?pp) m (p_trapframe q)"
          by (simp add: child_frame_def)
        have qf: "p_pid q = nextpid k" "p_chan q = Null" "p_killed q = 0" "p_ofile q = p_ofile (procs k ! np)"
          "p_context q = \<lparr>c_ra = k_forkret k, c_sp = p_kstack (procs k ! np) + PGSIZE, c_s = replicate 12 0\<rparr>"
          using np(2) by (simp_all add: q born_def idle_def)
        have kk: "?k = k\<lparr>k_mem := ?s2, nextpid := nextpid k + 1, procs := (procs k)[np := ?c], k_fs := f'\<rparr>"
          using np(1) at(1) by (subst k1, simp add: upd_def)
        have fk: "fork_ok fs p k np fl' (p_pid q) ?k"
          unfolding fork_ok_def
          by (rule exI [of _ ?c], rule exI [of _ files], rule exI [of _ cwd], rule exI [of _ f])
            (use lc mem cf df ic qf kk ptq in \<open>simp add: fork_child_def\<close>)
        have "fork_post fs p fl k (p_pid q) fl' ?k"
          unfolding fork_post_def fu option.case using inv2 all1 o2 neq fk k' by simp
        then show ?thesis using run by blast
      qed
    qed
  qed
qed

end
