(* ===== verification/Proc_Copy.thy ===== *)
theory Proc_Copy
  imports Proc_Ops
begin

text \<open>
  Copies between the kernel and a process keep the invariant of the process table. What
  \<open>copyout\<close> can write is limited by the permissions of the pages, so the pid in the
  read-only \<open>USYSCALL\<close> page survives every copy.
\<close>

lemma PGROUNDDOWN_greatest: "page_aligned b \<Longrightarrow> b \<le> a \<Longrightarrow> b \<le> PGROUNDDOWN a"
proof -
  assume b: "page_aligned b" "b \<le> a"
  obtain k where k: "unat b = 4096 * k" using b(1) by (auto simp: page_aligned_unat elim: dvdE)
  have "k \<le> unat a div 4096" using b(2) k by (simp add: word_le_nat_alt less_eq_div_iff_mult_less_eq mult.commute)
  then have "4096 * k \<le> 4096 * (unat a div 4096)" by simp
  then show ?thesis using k by (simp add: word_le_nat_alt unat_PGROUNDDOWN minus_mod_eq_mult_div)
qed

lemma live_size: "live s fl p \<Longrightarrow> p_sz p \<le> USYSCALL"
  by (simp add: live_def proc_space_def)

lemma live_uspace: "live s fl p \<Longrightarrow> uspace s fl (p_pagetable p)"
  by (simp add: live_def proc_space_def)

lemma live_limits:
  assumes "live s fl p"
  shows "p_sz p \<le> TRAPFRAME" "PGROUNDUP (p_sz p) \<le> USYSCALL"
  using live_size [OF assms] USYSCALL_limits(1) by (auto simp: layout_vals word_le_nat_alt)

definition kept :: "phys \<Rightarrow> u64 list \<Rightarrow> proc \<Rightarrow> phys \<Rightarrow> u64 list \<Rightarrow> bool" where
  "kept s fl p s' fl' \<longleftrightarrow> live s' fl' p \<and> set fl' \<union> pages_of s' p = set fl \<union> pages_of s p \<and>
     same_outside (set fl \<union> pages_of s p) s s' \<and> set fl' \<subseteq> set fl"

lemma live_keeps:
  assumes lv: "live s fl p" and k: "keeps s fl (p_pagetable p) (p_sz p) s' fl'"
    and us: "\<And>x. PGROUNDDOWN x = USYSCALL \<Longrightarrow> ubyte s' (p_pagetable p) x = ubyte s (p_pagetable p) x"
  shows "kept s fl p s' fl'"
proof -
  let ?pt = "p_pagetable p"
  have u: "uspace s' fl' ?pt" "account s' fl' ?pt = account s fl ?pt" "same_outside (account s fl ?pt) s s'"
    "set fl' \<subseteq> set fl" using k by (auto simp: keeps_def)
  have same: "pte_of s' ?pt x = pte_of s ?pt x" if "x < VATOP" "p_sz p \<le> PGROUNDDOWN x" for x
    using k that by (simp add: keeps_def)
  have sz: "p_sz p \<le> PGROUNDUP (p_sz p)"
    using PGROUNDUP_least(1) USYSCALL_limits(2) live_size [OF lv] by blast
  have high: "pte_of s' ?pt va = pte_of s ?pt va \<and> (mapped s ?pt va \<longrightarrow> ubyte s' ?pt va = ubyte s ?pt va)"
    if va: "va < VATOP" "USYSCALL \<le> va" for va
  proof
    have "USYSCALL \<le> PGROUNDDOWN va" by (rule PGROUNDDOWN_greatest [OF fixed_pages(3) va(2)])
    then show "pte_of s' ?pt va = pte_of s ?pt va"
      using same [OF va(1)] live_size [OF lv] by simp
    show "mapped s ?pt va \<longrightarrow> ubyte s' ?pt va = ubyte s ?pt va"
    proof
      assume m: "mapped s ?pt va"
      then have "va < TRAPFRAME" "valid (pte_of s ?pt va)" by (auto simp: mapped_def)
      moreover have "\<not> va < PGROUNDUP (p_sz p)" using live_limits(2) [OF lv] va(2) by simp
      ultimately have "PGROUNDDOWN va = USYSCALL"
        using live_space [OF lv] va(1) fixed_high [of va] unfolding proc_space_def by blast
      then show "ubyte s' ?pt va = ubyte s ?pt va" by (rule us)
    qed
  qed
  have low: "va < PGROUNDUP (p_sz p)" if va: "va < USYSCALL" "valid (pte_of s' ?pt va)" for va
  proof (rule ccontr)
    assume n: "\<not> va < PGROUNDUP (p_sz p)"
    then have "PGROUNDUP (p_sz p) \<le> PGROUNDDOWN va" by (intro PGROUNDDOWN_greatest) simp_all
    then have "p_sz p \<le> PGROUNDDOWN va" using sz by simp
    then have "valid (pte_of s ?pt va)" using same [of va] va fixed_VATOP(3) by simp
    then show False using live_low [OF lv va(1)] n by simp
  qed
  note r = live_resize [OF lv u(1,2) same_outside_usable [OF u(3)] high low live_size [OF lv]]
  have "same_outside (set fl \<union> pages_of s p) s s'"
    by (rule same_outside_mono [OF u(3)]) (use live_account [OF lv] in auto)
  then show ?thesis using r u(4) by (simp add: kept_def)
qed

lemma USYSCALL_page:
  assumes lv: "live s fl p" and x: "PGROUNDDOWN x = USYSCALL"
  shows "x < TRAPFRAME" "mapped s (p_pagetable p) x" "user_pte (pte_of s (p_pagetable p) x)"
    "\<not> bit (pte_of s (p_pagetable p) x) 2"
proof -
  have m: "mapped s (p_pagetable p) USYSCALL" and b: "bit (pte_of s (p_pagetable p) USYSCALL) 4"
    "\<not> bit (pte_of s (p_pagetable p) USYSCALL) 2"
    using live_space [OF lv] by (auto simp: proc_space_def)
  have e: "pte_of s (p_pagetable p) x = pte_of s (p_pagetable p) USYSCALL"
    using pte_of_PGROUNDDOWN [of s "p_pagetable p" x] x by simp
  show mx: "mapped s (p_pagetable p) x" by (rule mapped_page [OF m fixed_pages(3) x])
  then show "x < TRAPFRAME" by (simp add: mapped_def)
  show "user_pte (pte_of s (p_pagetable p) x)" "\<not> bit (pte_of s (p_pagetable p) x) 2"
    using e b mx by (auto simp: user_pte_def mapped_def)
qed

lemma keeps_USYSCALL:
  assumes lv: "live s fl p" and k: "keeps s fl (p_pagetable p) (p_sz p) s' fl'"
    and x: "PGROUNDDOWN x = USYSCALL"
  shows "pte_of s' (p_pagetable p) x = pte_of s (p_pagetable p) x"
    "lbyte s' (p_pagetable p) (p_sz p) x = Some (ubyte s' (p_pagetable p) x)"
    "lbyte s (p_pagetable p) (p_sz p) x = Some (ubyte s (p_pagetable p) x)"
proof -
  note u = USYSCALL_page [OF lv x]
  show e: "pte_of s' (p_pagetable p) x = pte_of s (p_pagetable p) x"
    using k u(1,3) TRAPFRAME_VATOP by (simp add: keeps_def user_pte_def)
  show "lbyte s' (p_pagetable p) (p_sz p) x = Some (ubyte s' (p_pagetable p) x)"
    "lbyte s (p_pagetable p) (p_sz p) x = Some (ubyte s (p_pagetable p) x)"
    using u(1,3) e by (simp_all add: lbyte_def)
qed

lemma live_read:
  assumes lv: "live s fl p" and k: "keeps s fl (p_pagetable p) (p_sz p) s' fl'"
    and l: "lbyte s' (p_pagetable p) (p_sz p) = lbyte s (p_pagetable p) (p_sz p)"
  shows "kept s fl p s' fl'"
proof (rule live_keeps [OF lv k])
  fix x assume "PGROUNDDOWN x = USYSCALL"
  from keeps_USYSCALL [OF lv k this] l show "ubyte s' (p_pagetable p) x = ubyte s (p_pagetable p) x"
    by simp
qed

lemma live_write_prefix:
  assumes lv: "live s fl p" and w: "write_post s fl (p_pagetable p) (p_sz p) va src r s'"
  shows "\<exists>fl' n. kept s fl p s' fl' \<and>
    lbyte s' (p_pagetable p) (p_sz p) = put_bytes (lbyte s (p_pagetable p) (p_sz p)) va (take n src) \<and>
    (r = 0 \<and> n = length src \<or> r = -1 \<and> n < length src \<and>
      blocked s (p_pagetable p) (p_sz p) (PGROUNDDOWN (va + of_nat n)) fl')"
proof -
  let ?pt = "p_pagetable p" and ?sz = "p_sz p"
  from w obtain fl' n where k: "keeps s fl ?pt ?sz s' fl'" and n: "n \<le> length src"
    and l: "lbyte s' ?pt ?sz = put_bytes (lbyte s ?pt ?sz) va (take n src)"
    and wr: "\<forall>i < n. user_wpte (pte_of s' ?pt (va + of_nat i)) \<and> va + of_nat i < TRAPFRAME"
    and res: "r = 0 \<and> n = length src \<or> r = -1 \<and> n < length src \<and>
      blocked s ?pt ?sz (PGROUNDDOWN (va + of_nat n)) fl'"
    unfolding write_post_def by blast
  have "kept s fl p s' fl'"
  proof (rule live_keeps [OF lv k])
    fix x assume x: "PGROUNDDOWN x = USYSCALL"
    note u = keeps_USYSCALL [OF lv k x]
    have "\<not> unat (x - va) < n"
    proof
      assume "unat (x - va) < n"
      then have "user_wpte (pte_of s' ?pt (va + of_nat (unat (x - va))))" using wr by blast
      then have "user_wpte (pte_of s ?pt x)" using u(1) by simp
      then show False using USYSCALL_page(4) [OF lv x] by (simp add: user_wpte_def)
    qed
    then have "lbyte s' ?pt ?sz x = lbyte s ?pt ?sz x" using l n by (simp add: put_bytes_def)
    then show "ubyte s' ?pt x = ubyte s ?pt x" using u by simp
  qed
  then show ?thesis using l res by blast
qed

lemma live_write:
  "live s fl p \<Longrightarrow> write_post s fl (p_pagetable p) (p_sz p) va src r s' \<Longrightarrow> \<exists>fl'. kept s fl p s' fl'"
  using live_write_prefix by blast

text \<open>A copy on behalf of process \<open>p\<close> keeps the invariant of the whole table.\<close>

lemma mem_inv_kept:
  assumes inv: "mem_inv fl k" and p: "p < length (procs k)" and kp: "kept (k_mem k) fl (procs k ! p) s' fl'"
  shows "mem_inv fl' (set_mem s' k)" "all_pages fl' (set_mem s' k) = all_pages fl k"
proof -
  have lv: "live s' fl' (procs k ! p)" and
    acc: "set fl' \<union> pages_of s' (procs k ! p) = set fl \<union> pages_of (k_mem k) (procs k ! p)" and
    out: "same_outside (set fl \<union> pages_of (k_mem k) (procs k ! p)) (k_mem k) s'"
    using kp by (auto simp: kept_def)
  have fp: "free_pages s' fl'" using live_uspace [OF lv] by (simp add: uspace_def as_inv_def)
  have ok: "proc_ok s' fl' (procs k ! p)" using lv by (simp add: proc_ok_def)
  show "mem_inv fl' (set_mem s' k)" "all_pages fl' (set_mem s' k) = all_pages fl k"
    using mem_inv_upd [OF inv p, of "set_mem s' k" s' "procs k ! p", OF _ _ out fp ok acc] by simp_all
qed

lemma live_slot:
  "mem_inv fl k \<Longrightarrow> p < length (procs k) \<Longrightarrow> p_state (procs k ! p) \<noteq> UNUSED \<Longrightarrow>
   live (k_mem k) fl (procs k ! p)"
  using proc_ok_used mem_inv_slot by blast

end
