(* ===== verification/Proc_Wait.thy ===== *)
theory Proc_Wait
  imports Proc_Copy
begin

text \<open>
  The life cycle of a process after its birth: sleeping and waking, killing, exiting, and
  waiting for a child. Two invariants are kept: the memory invariant of \<open>Proc_Inv\<close>, and the
  process tree, in which every process but \<open>initproc\<close> has a parent that is neither free nor
  a zombie, so that every zombie is reaped by somebody.
\<close>

section \<open>Sleeping, waking and killing keep the memory\<close>

lemma same_space_wake: "same_space p (wake c p)"
  by (auto simp: wake_def same_space_def idle_def Let_def)

lemma wakeup_sel [simp]:
  "procs (wakeup c k) = map (wake c) (procs k)" "k_mem (wakeup c k) = k_mem k"
  "initproc (wakeup c k) = initproc k" "k_cpu (wakeup c k) = k_cpu k" "k_fs (wakeup c k) = k_fs k"
  "nextpid (wakeup c k) = nextpid k"
  by (simp_all add: wakeup_def)

lemma wakeup_mem: "mem_inv fl k \<Longrightarrow> mem_inv fl (wakeup c k) \<and> all_pages fl (wakeup c k) = all_pages fl k"
  using mem_inv_same [of fl k "wakeup c k"] same_space_wake
  by (simp add: list_all2_conv_all_nth)

lemma kill_same_space:
  "pid \<noteq> 0 \<Longrightarrow> list_all2 same_space ps (snd (kill_loop pid ps))"
  by (induction ps) (auto simp: same_space_def idle_def Let_def list_all2_same split: prod.splits)

lemma kkill_mem:
  "mem_inv fl k \<Longrightarrow> mem_inv fl (snd (kkill pid k)) \<and> all_pages fl (snd (kkill pid k)) = all_pages fl k"
  using mem_inv_same [of fl k "snd (kkill pid k)"] kill_same_space [of pid "procs k"]
  by (auto simp: kkill_def split: prod.splits)

lemma kkill_sel [simp]:
  "initproc (snd (kkill pid k)) = initproc k" "k_mem (snd (kkill pid k)) = k_mem k"
  by (simp_all add: kkill_def split: prod.splits)

lemma switch_mem_inv: "switch p k = Ok k' \<Longrightarrow> k' = k"
  by (auto simp: switch_def res_simps)

text \<open>\<open>switch\<close> succeeds when no other lock is held and the process is not marked running.\<close>

lemma switch_ok: "cpu_noff (k_cpu k) = 0 \<Longrightarrow> p_state (procs k ! p) \<noteq> RUNNING \<Longrightarrow> switch p k = Ok k"
  by (simp add: switch_def sched_def)

section \<open>The process tree\<close>

definition alive :: "proc \<Rightarrow> bool" where
  "alive p \<longleftrightarrow> p_state p \<noteq> UNUSED \<and> p_state p \<noteq> ZOMBIE"

text \<open>
  \<open>kfork\<close> releases the lock of the child before it enters it in the tree: \<open>N\<close> is the set of the
  slots that some process has created so far without giving them a parent.
\<close>

definition newborn :: "proc \<Rightarrow> bool" where
  "newborn p \<longleftrightarrow> p_state p = USED \<and> p_parent p = None"

definition tree_inv :: "nat set \<Rightarrow> 'fs kst \<Rightarrow> bool" where
  "tree_inv N k \<longleftrightarrow> (\<exists>ip. initproc k = Some ip \<and> ip < length (procs k) \<and> alive (procs k ! ip) \<and>
     p_parent (procs k ! ip) = None \<and>
     (\<forall>i < length (procs k). p_state (procs k ! i) = UNUSED \<longrightarrow> p_parent (procs k ! i) = None) \<and>
     (\<forall>i \<in> N. i < length (procs k) \<and> i \<noteq> ip \<and> newborn (procs k ! i)) \<and>
     (\<forall>i < length (procs k). p_state (procs k ! i) \<noteq> UNUSED \<longrightarrow> i \<noteq> ip \<longrightarrow> i \<notin> N \<longrightarrow>
        (\<exists>j < length (procs k). p_parent (procs k ! i) = Some j \<and> alive (procs k ! j))))"

definition kinv :: "nat set \<Rightarrow> u64 list \<Rightarrow> 'fs kst \<Rightarrow> bool" where
  "kinv N fl k \<longleftrightarrow> mem_inv fl k \<and> tree_inv N k"

lemma kinv_old: "kinv N fl k \<Longrightarrow> p_state (procs k ! p) \<noteq> USED \<Longrightarrow> p \<notin> N"
  by (auto simp: kinv_def tree_inv_def newborn_def)

definition same_tree :: "proc \<Rightarrow> proc \<Rightarrow> bool" where
  "same_tree p q \<longleftrightarrow> p_parent q = p_parent p \<and> (p_state q = UNUSED \<longleftrightarrow> p_state p = UNUSED) \<and>
     (p_state q = ZOMBIE \<longleftrightarrow> p_state p = ZOMBIE)"

lemma same_tree_refl [simp]: "same_tree p p"
  by (simp add: same_tree_def)

lemma tree_inv_same:
  assumes "tree_inv N k" "initproc k' = initproc k" "list_all2 same_tree (procs k) (procs k')"
    and N: "\<And>i. i \<in> N \<Longrightarrow> i < length (procs k) \<Longrightarrow> p_state (procs k ! i) = USED \<Longrightarrow> p_state (procs k' ! i) = USED"
  shows "tree_inv N k'"
proof -
  have len: "length (procs k') = length (procs k)" using assms(3) by (simp add: list_all2_lengthD)
  have at: "p_parent (procs k' ! i) = p_parent (procs k ! i)"
    "p_state (procs k' ! i) = UNUSED \<longleftrightarrow> p_state (procs k ! i) = UNUSED"
    "alive (procs k' ! i) \<longleftrightarrow> alive (procs k ! i)" 
    if "i < length (procs k)" for i
    using list_all2_nthD [OF assms(3) that] by (auto simp: same_tree_def alive_def)
  have ex: "(\<exists>j < length (procs k). P j \<and> alive (procs k' ! j)) \<longleftrightarrow>
      (\<exists>j < length (procs k). P j \<and> alive (procs k ! j))" for P
    using at(3) by blast
  have "newborn (procs k ! i) \<Longrightarrow> newborn (procs k' ! i)" if "i \<in> N" "i < length (procs k)" for i
    using N [OF that] at(1) [OF that(2)] by (simp add: newborn_def)
  then show ?thesis using assms(1) unfolding tree_inv_def len assms(2) by (simp add: ex at cong: conj_cong imp_cong) blast
qed

lemma wake_same_tree: "same_tree p (wake c p)"
  by (auto simp: wake_def same_tree_def Let_def)

lemma kill_same_tree: "list_all2 same_tree ps (snd (kill_loop pid ps))"
  by (induction ps) (auto simp: same_tree_def Let_def list_all2_same split: prod.splits)

lemma kill_used: "i < length ps \<Longrightarrow> p_state (ps ! i) = USED \<Longrightarrow> p_state (snd (kill_loop pid ps) ! i) = USED"
  by (induction ps arbitrary: i) (auto simp: Let_def nth_Cons split: prod.splits nat.splits)

lemma wake_used: "p_state q = USED \<Longrightarrow> p_state (wake c q) = USED"
  by (simp add: wake_def Let_def)

lemma kkill_kinv: "kinv N fl k \<Longrightarrow> kinv N fl (snd (kkill pid k))"
  using kkill_mem [of fl k pid] tree_inv_same [of N k "snd (kkill pid k)"] kill_same_tree [of "procs k" pid]
    kill_used [of _ "procs k" pid]
  by (auto simp: kinv_def kkill_def split: prod.splits)

lemma wakeup_kinv: "kinv N fl k \<Longrightarrow> kinv N fl (wakeup c k)"
  using wakeup_mem [of fl k c] tree_inv_same [of N k "wakeup c k"] wake_same_tree wake_used
  by (simp add: kinv_def list_all2_conv_all_nth)

lemma upd_kinv:
  assumes inv: "kinv N fl k" and s: "same_space (procs k ! p) (f (procs k ! p))"
    and t: "same_tree (procs k ! p) (f (procs k ! p))"
    and N: "p \<in> N \<Longrightarrow> p_state (f (procs k ! p)) = p_state (procs k ! p)"
  shows "kinv N fl (upd p f k)"
proof -
  have "list_all2 same_tree (procs k) (procs (upd p f k))"
    using t by (cases "p < length (procs k)") (auto simp: list_all2_conv_all_nth nth_list_update)
  moreover have "p_state (procs (upd p f k) ! i) = USED"
    if "i \<in> N" "i < length (procs k)" "p_state (procs k ! i) = USED" for i
    using that N by (cases "i = p") simp_all
  ultimately show ?thesis
    using mem_inv_upd_same [of fl k p f] s tree_inv_same [of N k "upd p f k"] inv by (simp add: kinv_def)
qed

section \<open>exit\<close>

lemma wake_chan [simp]: "p_chan (wake c q) = (if p_chan q = c then Null else p_chan q)"
  by (simp add: wake_def Let_def)

lemma wake_wake [simp]: "wake c (wake c q) = wake c q"
  by (auto simp: wake_def Let_def)

lemma wake_parent [simp]: "p_parent (wake c q) = p_parent q" "wake c (q\<lparr>p_parent := x\<rparr>) = (wake c q)\<lparr>p_parent := x\<rparr>"
  by (simp_all add: wake_def Let_def)

lemma reparent_loop_sel [simp]:
  "initproc (reparent_loop p is k) = initproc k" "k_mem (reparent_loop p is k) = k_mem k"
  "k_cpu (reparent_loop p is k) = k_cpu k" "k_fs (reparent_loop p is k) = k_fs k"
  "length (procs (reparent_loop p is k)) = length (procs k)"
  by (induction "is" arbitrary: k) simp_all

definition adopt :: "nat \<Rightarrow> 'fs kst \<Rightarrow> proc \<Rightarrow> proc" where
  "adopt p k q = (if p_parent q = Some p then q\<lparr>p_parent := initproc k\<rparr> else q)"

lemma reparent_loop_nth:
  "distinct is \<Longrightarrow> set is \<subseteq> {..<length (procs k)} \<Longrightarrow> j < length (procs k) \<Longrightarrow>
   procs (reparent_loop p is k) ! j =
     (if \<exists>i \<in> set is. p_parent (procs k ! i) = Some p then wake (proc_ptr (initproc k)) else id)
       (if j \<in> set is then adopt p k (procs k ! j) else procs k ! j)"
proof (induction "is" arbitrary: k)
  case Nil
  then show ?case by simp
next
  case (Cons i "is")
  define k1 where "k1 = (if p_parent (procs k ! i) = Some p
    then wakeup (proc_ptr (initproc k)) (upd i (\<lambda>q. q\<lparr>p_parent := initproc k\<rparr>) k) else k)"
  have len: "length (procs k1) = length (procs k)" and ip: "initproc k1 = initproc k"
    by (simp_all add: k1_def)
  have at: "procs k1 ! l = (if p_parent (procs k ! i) = Some p then wake (proc_ptr (initproc k)) else id)
      (if l = i then adopt p k (procs k ! l) else procs k ! l)" if "l < length (procs k)" for l
    using that Cons.prems(2) by (simp add: k1_def adopt_def)
  have par: "p_parent (procs k1 ! l) = p_parent (procs k ! l)" if "l \<in> set is" for l
    using that Cons.prems at [of l] by (auto split: if_splits)
  have IH: "procs (reparent_loop p is k1) ! j =
     (if \<exists>i \<in> set is. p_parent (procs k ! i) = Some p then wake (proc_ptr (initproc k)) else id)
       (if j \<in> set is then adopt p k (procs k1 ! j) else procs k1 ! j)"
    using Cons.IH [of k1] Cons.prems len ip par by (simp add: adopt_def)
  have ad: "adopt p k (wake c q) = wake c (adopt p k q)" for c q by (simp add: adopt_def)
  show ?case
    using IH at [OF Cons.prems(3)] Cons.prems(1) by (auto simp: k1_def [symmetric] ad)
qed

lemma reparent_nth:
  "j < length (procs k) \<Longrightarrow> procs (reparent p k) ! j =
     (if \<exists>i < length (procs k). p_parent (procs k ! i) = Some p then wake (proc_ptr (initproc k)) else id)
       (adopt p k (procs k ! j))"
proof -
  assume "j < length (procs k)"
  moreover have "set [0..<length (procs k)] \<subseteq> {..<length (procs k)}" by auto
  ultimately show ?thesis
    using reparent_loop_nth [of "[0..<length (procs k)]" k j p] by (simp add: reparent_def Bex_def)
qed

lemma reparent_sel [simp]:
  "initproc (reparent p k) = initproc k" "k_mem (reparent p k) = k_mem k"
  "k_cpu (reparent p k) = k_cpu k" "k_fs (reparent p k) = k_fs k"
  "length (procs (reparent p k)) = length (procs k)"
  by (simp_all add: reparent_def)

lemma adopt_same_space [simp]: "same_space q (adopt p k q)"
  by (auto simp: adopt_def same_space_def idle_def)

lemma adopt_sel [simp]:
  "p_state (adopt p k q) = p_state q" "p_chan (adopt p k q) = p_chan q"
  "p_parent (adopt p k q) = (if p_parent q = Some p then initproc k else p_parent q)"
  "p_pid (adopt p k q) = p_pid q"
  by (simp_all add: adopt_def)

lemma reparent_mem: "mem_inv fl k \<Longrightarrow> mem_inv fl (reparent p k) \<and> all_pages fl (reparent p k) = all_pages fl k"
proof -
  assume inv: "mem_inv fl k"
  have "list_all2 same_space (procs k) (procs (reparent p k))"
    unfolding list_all2_conv_all_nth
    by (auto simp: reparent_nth intro: same_space_trans [OF adopt_same_space same_space_wake])
  then show ?thesis using mem_inv_same [OF inv, of "reparent p k"] by simp
qed

text \<open>The state that \<open>kexit\<close> leaves to the scheduler.\<close>

definition exited :: "'fs fsops \<Rightarrow> nat \<Rightarrow> i32 \<Rightarrow> 'fs kst \<Rightarrow> 'fs kst" where
  "exited fs p status k =
     (case close_files fs (p_ofile (procs k ! p)) (k_fs k) of (ofile, f) \<Rightarrow>
      let k = upd p (\<lambda>q. q\<lparr>p_ofile := ofile, p_cwd := 0\<rparr>)
            (k\<lparr>k_fs := end_op fs (iput fs (p_cwd (procs k ! p)) (begin_op fs f))\<rparr>);
          k = reparent p k
      in upd p (\<lambda>q. q\<lparr>p_xstate := status, p_state := ZOMBIE\<rparr>)
           (wakeup (proc_ptr (p_parent (procs k ! p))) k))"

lemma kexit_exited:
  "kexit fs p status k = (if initproc k = Some p then Panic ''init exiting'' else switch p (exited fs p status k))"
  by (simp add: kexit_def exited_def Let_def split: prod.splits)

lemma exited_sel [simp]:
  "initproc (exited fs p st k) = initproc k" "k_mem (exited fs p st k) = k_mem k"
  "k_cpu (exited fs p st k) = k_cpu k" "length (procs (exited fs p st k)) = length (procs k)"
  by (simp_all add: exited_def Let_def split: prod.splits)

text \<open>What becomes of the other processes, and of the one that exits.\<close>

definition woken :: "nat \<Rightarrow> 'fs kst \<Rightarrow> proc \<Rightarrow> proc" where
  "woken p k q = wake (proc_ptr (p_parent (adopt p k (procs k ! p))))
     ((if \<exists>i < length (procs k). p_parent (procs k ! i) = Some p then wake (proc_ptr (initproc k)) else id)
       (adopt p k q))"

lemma exited_other:
  assumes "j < length (procs k)" "p < length (procs k)" "j \<noteq> p"
  shows "procs (exited fs p st k) ! j = woken p k (procs k ! j)"
  using assms
  by (auto simp: exited_def woken_def Let_def reparent_nth adopt_def nth_list_update split: prod.splits)

lemma exited_self:
  assumes "p < length (procs k)"
  shows "p_state (procs (exited fs p st k) ! p) = ZOMBIE" "p_xstate (procs (exited fs p st k) ! p) = st"
    "p_cwd (procs (exited fs p st k) ! p) = 0"
    "p_ofile (procs (exited fs p st k) ! p) = fst (close_files fs (p_ofile (procs k ! p)) (k_fs k))"
    "p_parent (procs (exited fs p st k) ! p) = p_parent (adopt p k (procs k ! p))"
    "p_pid (procs (exited fs p st k) ! p) = p_pid (procs k ! p)"
  using assms
  by (auto simp: exited_def Let_def reparent_nth adopt_def wake_def split: prod.splits)

lemma close_files_zero: "set (fst (close_files fs fls s)) \<subseteq> {0}"
proof (induction fls arbitrary: s)
  case (Cons a fls)
  show ?case using Cons.IH [of "fileclose fs a s"] Cons.IH [of s] by (auto split: prod.splits)
qed simp

lemma wake_sel [simp]: "p_pid (wake c q) = p_pid q" "p_xstate (wake c q) = p_xstate q"
  "p_state (wake c q) = UNUSED \<longleftrightarrow> p_state q = UNUSED" "alive (wake c q) \<longleftrightarrow> alive q"
  by (auto simp: wake_def Let_def alive_def)

lemma woken_sel:
  "p_parent (woken p k q) = p_parent (adopt p k q)" "alive (woken p k q) \<longleftrightarrow> alive q"
  "p_state (woken p k q) = UNUSED \<longleftrightarrow> p_state q = UNUSED"
  by (simp_all add: woken_def alive_def [of "adopt p k q"] flip: alive_def)

lemma woken_used: "p_state q = USED \<Longrightarrow> p_state (woken p k q) = USED"
  unfolding woken_def by (intro wake_used) (simp add: wake_used)

lemma woken_same_space: "same_space q (woken p k q)"
  unfolding woken_def
  by (rule same_space_trans [OF adopt_same_space [of q p k]], rule same_space_trans [OF _ same_space_wake])
    (simp add: same_space_wake)

lemma mem_inv_cong: "mem_inv fl k \<Longrightarrow> k_mem k' = k_mem k \<Longrightarrow> procs k' = procs k \<Longrightarrow>
   mem_inv fl k' \<and> all_pages fl k' = all_pages fl k"
  by (simp add: mem_inv_def all_pages_def)

lemma exited_same_space:
  assumes p: "p < length (procs k)" and u: "p_state (procs k ! p) \<noteq> UNUSED"
  shows "list_all2 same_space (procs k) (procs (exited fs p st k))"
proof -
  have "same_space (procs k ! j) (procs (exited fs p st k) ! j)" if j: "j < length (procs k)" for j
  proof (cases "j = p")
    case False
    then show ?thesis
      using exited_other [OF j p False] by (simp add: woken_same_space)
  next
    case True
    then show ?thesis using p u
      by (auto simp: exited_def Let_def reparent_nth adopt_def wake_def same_space_def split: prod.splits)
  qed
  then show ?thesis by (simp add: list_all2_conv_all_nth)
qed

lemma exited_mem:
  assumes inv: "mem_inv fl k" and p: "p < length (procs k)" and u: "p_state (procs k ! p) \<noteq> UNUSED"
  shows "mem_inv fl (exited fs p st k)" "all_pages fl (exited fs p st k) = all_pages fl k"
  using mem_inv_same [OF inv _ exited_same_space [OF p u]] by simp_all

lemma exited_tree:
  assumes inv: "tree_inv N k" and p: "p < length (procs k)" and al: "alive (procs k ! p)"
    and np: "initproc k \<noteq> Some p" and pN: "p \<notin> N"
  shows "tree_inv N (exited fs p st k)"
proof -
  from inv obtain ip where ip: "initproc k = Some ip" "ip < length (procs k)" "alive (procs k ! ip)"
      "p_parent (procs k ! ip) = None"
    and un: "\<forall>i < length (procs k). p_state (procs k ! i) = UNUSED \<longrightarrow> p_parent (procs k ! i) = None"
    and nb: "\<forall>i \<in> N. i < length (procs k) \<and> i \<noteq> ip \<and> newborn (procs k ! i)"
    and pa: "\<forall>i < length (procs k). p_state (procs k ! i) \<noteq> UNUSED \<longrightarrow> i \<noteq> ip \<longrightarrow> i \<notin> N \<longrightarrow>
        (\<exists>j < length (procs k). p_parent (procs k ! i) = Some j \<and> alive (procs k ! j))"
    unfolding tree_inv_def by blast
  let ?k = "exited fs p st k"
  have neq: "ip \<noteq> p" using np ip(1) by simp
  have parent: "p_parent (procs ?k ! i) = p_parent (adopt p k (procs k ! i))" if "i < length (procs k)" for i
    using that exited_other [OF that p] exited_self(5) [OF p] by (cases "i = p") (simp_all add: woken_sel)
  have live: "alive (procs ?k ! i) \<longleftrightarrow> i \<noteq> p \<and> alive (procs k ! i)" if "i < length (procs k)" for i
  proof (cases "i = p")
    case True
    then show ?thesis using exited_self(1) [OF p] by (simp add: alive_def)
  next
    case False
    then show ?thesis using exited_other [OF that p] by (simp add: woken_sel)
  qed
  have unu: "p_state (procs ?k ! i) = UNUSED \<longleftrightarrow> p_state (procs k ! i) = UNUSED" if "i < length (procs k)" for i
    using that exited_other [OF that p] exited_self(1) [OF p] al
    by (cases "i = p") (simp_all add: woken_sel alive_def)
  have "\<exists>j < length (procs k). p_parent (procs ?k ! i) = Some j \<and> alive (procs ?k ! j)"
    if i: "i < length (procs k)" "p_state (procs k ! i) \<noteq> UNUSED" "i \<noteq> ip" "i \<notin> N" for i
  proof -
    from pa i obtain j where j: "j < length (procs k)" "p_parent (procs k ! i) = Some j" "alive (procs k ! j)"
      by blast
    show ?thesis
    proof (cases "j = p")
      case True
      then show ?thesis using parent [OF i(1)] j(2) ip live [OF ip(2)] neq by simp
    next
      case False
      then show ?thesis using parent [OF i(1)] j live [OF j(1)] by simp
    qed
  qed
  moreover have "newborn (procs ?k ! i)" if "i \<in> N" for i
  proof -
    have i: "i < length (procs k)" "newborn (procs k ! i)" "i \<noteq> p" using nb pN that by auto
    then show ?thesis
      using exited_other [OF i(1) p i(3)] parent [OF i(1)] by (simp add: newborn_def woken_used)
  qed
  ultimately show ?thesis
    unfolding tree_inv_def exited_sel
    using ip un parent live unu neq nb by (intro exI [of _ ip]) auto
qed

section \<open>wait\<close>

text \<open>One slot of the tree changes: a zombie is freed, an unused slot is taken or left unused.\<close>

lemma tree_inv_slot:
  assumes inv: "tree_inv N k" and ip': "initproc k' = initproc k" and ps: "procs k' = (procs k)[i := q]"
    and dead: "\<not> alive (procs k ! i)"
    and q: "p_state q = UNUSED \<and> p_parent q = None \<or>
      p_state q \<noteq> UNUSED \<and> (\<exists>j < length (procs k). j \<noteq> i \<and> p_parent q = Some j \<and> alive (procs k ! j))"
  shows "tree_inv N k'"
proof -
  from inv obtain ip where ip: "initproc k = Some ip" "ip < length (procs k)" "alive (procs k ! ip)"
      "p_parent (procs k ! ip) = None"
    and un: "\<forall>i < length (procs k). p_state (procs k ! i) = UNUSED \<longrightarrow> p_parent (procs k ! i) = None"
    and nb: "\<forall>i \<in> N. i < length (procs k) \<and> i \<noteq> ip \<and> newborn (procs k ! i)"
    and pa: "\<forall>i < length (procs k). p_state (procs k ! i) \<noteq> UNUSED \<longrightarrow> i \<noteq> ip \<longrightarrow> i \<notin> N \<longrightarrow>
        (\<exists>j < length (procs k). p_parent (procs k ! i) = Some j \<and> alive (procs k ! j))"
    unfolding tree_inv_def by blast
  have neq: "ip \<noteq> i" using ip(3) dead by auto
  have "i \<notin> N" using nb dead by (auto simp: newborn_def alive_def)
  have at: "procs k' ! j = (if j = i then q else procs k ! j)" if "j < length (procs k)" for j
    using that ps by (simp add: nth_list_update)
  have keep: "\<exists>j < length (procs k). P j \<and> alive (procs k' ! j)"
    if "\<exists>j < length (procs k). P j \<and> alive (procs k ! j)" for P
    using that dead at by metis
  have "\<exists>j < length (procs k). p_parent (procs k' ! l) = Some j \<and> alive (procs k' ! j)"
    if l: "l < length (procs k)" "p_state (procs k' ! l) \<noteq> UNUSED" "l \<noteq> ip" "l \<notin> N" for l
  proof (rule keep, cases "l = i")
    case True
    then show "\<exists>j < length (procs k). p_parent (procs k' ! l) = Some j \<and> alive (procs k ! j)"
      using q l at [OF l(1)] by auto
  next
    case False
    then show "\<exists>j < length (procs k). p_parent (procs k' ! l) = Some j \<and> alive (procs k ! j)"
      using pa l at [OF l(1)] by simp
  qed
  moreover have "p_parent (procs k' ! l) = None" if "l < length (procs k)" "p_state (procs k' ! l) = UNUSED" for l
    using that un q at [OF that(1)] by (auto split: if_splits)
  moreover have "l < length (procs k) \<and> l \<noteq> ip \<and> newborn (procs k' ! l)" if "l \<in> N" for l
    using nb that \<open>i \<notin> N\<close> at [of l] by auto
  moreover have "length (procs k') = length (procs k)" using ps by simp
  ultimately show ?thesis
    unfolding tree_inv_def using ip ip' at [OF ip(2)] neq by (intro exI [of _ ip]) auto
qed

definition zombie_child :: "nat \<Rightarrow> 'fs kst \<Rightarrow> nat \<Rightarrow> bool" where
  "zombie_child p k i \<longleftrightarrow> p_parent (procs k ! i) = Some p \<and> p_state (procs k ! i) = ZOMBIE"

definition reap :: "nat \<Rightarrow> u64 \<Rightarrow> nat \<Rightarrow> 'fs kst \<Rightarrow> (i32 \<times> 'fs kst) run" where
  "reap p addr i k =
     rbnd (if addr \<noteq> 0
           then lift (copyout (p_pagetable (procs k ! p)) (p_sz (procs k ! p)) addr
                        (int_bytes (p_xstate (procs k ! i))) (k_mem k))
           else ret (0, k_mem k)) (\<lambda>(r, s).
       if r < 0 then ret (-1, set_mem s k)
       else rbnd (freeproc i (upd i (\<lambda>q. q\<lparr>p_parent := None\<rparr>) (set_mem s k)))
              (\<lambda>k'. ret (p_pid (procs k ! i), k')))"

lemma rbnd_assoc: "rbnd (rbnd m f) g = rbnd m (\<lambda>x. rbnd (f x) g)"
  by (auto simp: rbnd_def split: option.splits res.splits)

lemma wait_scan_find:
  "wait_scan p addr is h k =
     (case find (zombie_child p k) is of
        None \<Rightarrow> ret (Inr (h \<or> (\<exists>i \<in> set is. p_parent (procs k ! i) = Some p)), k)
      | Some i \<Rightarrow> rbnd (reap p addr i k) (\<lambda>(v, k). ret (Inl v, k)))"
proof (induction "is" arbitrary: h)
  case (Cons i "is")
  show ?case
  proof (cases "zombie_child p k i")
    case True
    then show ?thesis
      by (auto simp: zombie_child_def reap_def rbnd_assoc Let_def intro!: arg_cong2 [where f = rbnd])
  next
    case False
    then show ?thesis using Cons.IH by (auto simp: zombie_child_def Let_def split: option.splits)
  qed
qed simp

lemma length_int_bytes: "length (int_bytes x) = 4"
  by (simp add: int_bytes_def)

definition wrote :: "nat \<Rightarrow> u64 \<Rightarrow> u8 list \<Rightarrow> u64 list \<Rightarrow> 'fs kst \<Rightarrow> int \<Rightarrow> phys \<Rightarrow> bool" where
  "wrote p addr bs fl k r s \<longleftrightarrow> (if addr = 0 then r = 0 \<and> s = k_mem k
     else write_post (k_mem k) fl (p_pagetable (procs k ! p)) (p_sz (procs k ! p)) addr bs r s)"

definition reap_post :: "nat set \<Rightarrow> nat \<Rightarrow> u64 \<Rightarrow> nat \<Rightarrow> u64 list \<Rightarrow> 'fs kst \<Rightarrow> i32 \<Rightarrow> u64 list \<Rightarrow> 'fs kst \<Rightarrow> bool" where
  "reap_post N p addr i fl k v fl' k' \<longleftrightarrow> kinv N fl' k' \<and> all_pages fl' k' = all_pages fl k \<and>
     initproc k' = initproc k \<and>
     (\<exists>s r. wrote p addr (int_bytes (p_xstate (procs k ! i))) fl k r s \<and>
        lbyte (k_mem k') (p_pagetable (procs k ! p)) (p_sz (procs k ! p)) =
          lbyte s (p_pagetable (procs k ! p)) (p_sz (procs k ! p)) \<and>
        (r = 0 \<and> v = p_pid (procs k ! i) \<and> pages_of (k_mem k) (procs k ! i) \<subseteq> set fl' \<and>
           procs k' = (procs k)[i := (cleared (procs k ! i))\<lparr>p_parent := None\<rparr>] \<or>
         r = -1 \<and> v = -1 \<and> procs k' = procs k \<and> k_mem k' = s \<and>
           (\<exists>n < 4. blocked (k_mem k) (p_pagetable (procs k ! p)) (p_sz (procs k ! p))
              (PGROUNDDOWN (addr + of_nat n)) fl')))"

lemma lbyte_frame:
  assumes us: "uspace s fl pt" and e: "pte_of s' pt = pte_of s pt"
    and b: "\<And>va. mapped s pt va \<Longrightarrow> ubyte s' pt va = ubyte s pt va"
  shows "lbyte s' pt sz = lbyte s pt sz"
  using b by (auto simp: lbyte_def e fun_eq_iff mapped_def user_pte_def)

lemma wrote_kept:
  assumes lv: "live (k_mem k) fl (procs k ! p)" and len: "length bs < 2 ^ 64"
  shows "\<exists>r s fl'. (if addr \<noteq> 0
           then lift (copyout (p_pagetable (procs k ! p)) (p_sz (procs k ! p)) addr bs (k_mem k))
           else ret (0, k_mem k)) = ret (r, s) \<and> wrote p addr bs fl k r s \<and>
         kept (k_mem k) fl (procs k ! p) s fl' \<and> (r = 0 \<or> r = -1 \<and> (\<exists>n < length bs.
           blocked (k_mem k) (p_pagetable (procs k ! p)) (p_sz (procs k ! p)) (PGROUNDDOWN (addr + of_nat n)) fl'))"
proof (cases "addr = 0")
  case True
  then show ?thesis using lv by (auto simp: wrote_def kept_def intro!: exI [of _ fl])
next
  case False
  from copyout_spec [OF live_uspace [OF lv] live_limits(1) [OF lv] len, of addr] obtain r s where
    c: "copyout (p_pagetable (procs k ! p)) (p_sz (procs k ! p)) addr bs (k_mem k) = Ok (r, s)"
    and w: "write_post (k_mem k) fl (p_pagetable (procs k ! p)) (p_sz (procs k ! p)) addr bs r s" by blast
  from live_write_prefix [OF lv w] show ?thesis using c w False by (auto simp: wrote_def)
qed

lemma reap_spec:
  assumes inv: "kinv N fl k" and p: "p < length (procs k)" "alive (procs k ! p)"
    and i: "i < length (procs k)" "zombie_child p k i"
  shows "\<exists>v fl' k'. reap p addr i k = ret (v, k') \<and> reap_post N p addr i fl k v fl' k'"
proof -
  have mi: "mem_inv fl k" and ti: "tree_inv N k" using inv by (auto simp: kinv_def)
  let ?pt = "p_pagetable (procs k ! p)" and ?sz = "p_sz (procs k ! p)"
  have neq: "i \<noteq> p" and z: "p_state (procs k ! i) = ZOMBIE" using p(2) i(2) by (auto simp: zombie_child_def alive_def)
  have lp: "live (k_mem k) fl (procs k ! p)" using p by (intro live_slot [OF mi]) (auto simp: alive_def)
  from wrote_kept [OF lp, of "int_bytes (p_xstate (procs k ! i))" addr] obtain r s fl1 where
    run: "(if addr \<noteq> 0 then lift (copyout ?pt ?sz addr (int_bytes (p_xstate (procs k ! i))) (k_mem k))
      else ret (0, k_mem k)) = ret (r, s)" and w: "wrote p addr (int_bytes (p_xstate (procs k ! i))) fl k r s"
    and kp: "kept (k_mem k) fl (procs k ! p) s fl1"
    and r: "r = 0 \<or> r = -1 \<and> (\<exists>n < 4. blocked (k_mem k) ?pt ?sz (PGROUNDDOWN (addr + of_nat n)) fl1)"
    by (auto simp: length_int_bytes)
  note inv1 = mem_inv_kept [OF mi p(1) kp]
  show ?thesis
  proof (cases "r = -1")
    case True
    then have "reap p addr i k = ret (-1, set_mem s k)" using run by (simp add: reap_def)
    moreover have "tree_inv N (set_mem s k)" using ti by (simp add: tree_inv_def)
    then have "reap_post N p addr i fl k (-1) fl1 (set_mem s k)"
      using inv1 w True r by (auto simp: reap_post_def kinv_def intro!: exI [of _ s])
    ultimately show ?thesis by blast
  next
    case False
    then have r0: "r = 0" using r by simp
    let ?k1 = "upd i (\<lambda>q. q\<lparr>p_parent := None\<rparr>) (set_mem s k)"
    have "same_space (procs (set_mem s k) ! i) ((procs (set_mem s k) ! i)\<lparr>p_parent := None\<rparr>)"
      by (auto simp: same_space_def idle_def)
    from mem_inv_upd_same [OF inv1(1), of i "\<lambda>q. q\<lparr>p_parent := None\<rparr>", OF this] inv1(2) have inv2: "mem_inv fl1 ?k1"
      and all2: "all_pages fl1 ?k1 = all_pages fl k" by simp_all
    have li: "live (k_mem ?k1) fl1 (procs ?k1 ! i)" using i z by (intro live_slot [OF inv2]) simp_all
    have len: "i < length (procs ?k1)" using i by simp
    from freeproc_live [OF inv2 len li] obtain s' fl' where
      f: "freeproc i ?k1 = ret (upd i cleared (set_mem s' ?k1))" "mem_inv fl' (upd i cleared (set_mem s' ?k1))"
        "all_pages fl' (upd i cleared (set_mem s' ?k1)) = all_pages fl k"
        "set fl' = set fl1 \<union> pages_of s (procs ?k1 ! i)" "same_outside (set fl1 \<union> pages_of s (procs ?k1 ! i)) s s'"
      using all2 by auto
    let ?k2 = "upd i cleared (set_mem s' ?k1)"
    have pi: "pages_of s (procs ?k1 ! i) = pages_of (k_mem k) (procs k ! i)"
      "pages_of (k_mem k) (procs k ! i) \<inter> (set fl \<union> pages_of (k_mem k) (procs k ! p)) = {}"
    proof -
      have lz: "live (k_mem k) fl (procs k ! i)" using i z by (intro live_slot [OF mi]) simp_all
      show d: "pages_of (k_mem k) (procs k ! i) \<inter> (set fl \<union> pages_of (k_mem k) (procs k ! p)) = {}"
        using mem_inv_live_disjoint [OF mi i(1) p(1) neq] live_disjoint [OF lz] by auto
      have "set fl1 \<subseteq> set fl" and o: "same_outside (set fl \<union> pages_of (k_mem k) (procs k ! p)) (k_mem k) s"
        using kp by (auto simp: kept_def)
      then have "pages_of (k_mem k) (procs k ! i) \<inter> set fl1 = {}" using d by auto
      from live_frame(2) [OF lz o d _ this] mem_inv_free [OF inv1(1)]
      have "pages_of s (procs k ! i) = pages_of (k_mem k) (procs k ! i)" by simp
      moreover have "pages_of s (procs ?k1 ! i) = pages_of s (procs k ! i)" using i by (simp add: pages_of_def)
      ultimately show "pages_of s (procs ?k1 ! i) = pages_of (k_mem k) (procs k ! i)" by simp
    qed
    have cl: "cleared ((procs k ! i)\<lparr>p_parent := None\<rparr>) = (cleared (procs k ! i))\<lparr>p_parent := None\<rparr>"
      by (simp add: cleared_def)
    have ps: "procs ?k2 = (procs k)[i := (cleared (procs k ! i))\<lparr>p_parent := None\<rparr>]"
      using i by (simp add: cl)
    have "tree_inv N ?k2"
      by (rule tree_inv_slot [OF ti _ ps]) (use z in \<open>auto simp: alive_def\<close>)
    moreover have "lbyte s' ?pt ?sz = lbyte s ?pt ?sz"
    proof -
      have lp1: "live s fl1 (procs k ! p)" using kp by (simp add: kept_def)
      have sub: "set fl1 \<union> pages_of s (procs k ! p) = set fl \<union> pages_of (k_mem k) (procs k ! p)"
        using kp by (simp add: kept_def)
      have d: "(tables s ?pt \<union> upages s ?pt) \<inter> (set fl1 \<union> pages_of s (procs ?k1 ! i)) = {}"
        using live_disjoint [OF lp1] lp1 pi sub unfolding pages_of_def [of s "procs k ! p"] live_def by auto
      have fp: "free_pages s' fl'" using mem_inv_free [OF f(2)] by simp
      note fr = uspace_frame [OF live_uspace [OF lp1] f(5) d fp, unfolded f(4), OF d]
      show ?thesis by (rule lbyte_frame [OF live_uspace [OF lp1] fr(2,5)])
    qed
    moreover have "reap p addr i k = ret (p_pid (procs k ! i), ?k2)"
      using run r0 f(1) by (simp add: reap_def)
    moreover have "pages_of (k_mem k) (procs k ! i) \<subseteq> set fl'" using f(4) pi(1) by auto
    ultimately have "reap_post N p addr i fl k (p_pid (procs k ! i)) fl' ?k2"
      using f(2,3) w r0 ps unfolding reap_post_def kinv_def by (auto intro!: exI [of _ s])
    then show ?thesis using \<open>reap p addr i k = _\<close> by blast
  qed
qed

lemma find_zombie: "find (zombie_child p k) [0..<length (procs k)] = None \<longleftrightarrow>
   (\<forall>i < length (procs k). \<not> zombie_child p k i)"
  by (auto simp: find_None_iff)

text \<open>The state in which \<open>kwait\<close> leaves a caller that has to wait.\<close>

definition waiting :: "nat \<Rightarrow> 'fs kst \<Rightarrow> 'fs kst" where
  "waiting p k = upd p (\<lambda>q. q\<lparr>p_chan := Proc_chan p, p_state := SLEEPING\<rparr>) k"

definition wait_post :: "nat set \<Rightarrow> nat \<Rightarrow> u64 \<Rightarrow> u64 list \<Rightarrow> 'fs kst \<Rightarrow> wait_result \<Rightarrow> u64 list \<Rightarrow> 'fs kst \<Rightarrow> bool" where
  "wait_post N p addr fl k res fl' k' \<longleftrightarrow> kinv N fl' k' \<and> all_pages fl' k' = all_pages fl k \<and>
     (case find (zombie_child p k) [0..<length (procs k)] of
        Some i \<Rightarrow> \<exists>v. res = Wait_return v \<and> reap_post N p addr i fl k v fl' k'
      | None \<Rightarrow>
          if (\<exists>i < length (procs k). p_parent (procs k ! i) = Some p) \<and> p_killed (procs k ! p) = 0
          then res = Wait_sleep \<and> k' = waiting p k \<and> fl' = fl
          else res = Wait_return (-1) \<and> k' = k \<and> fl' = fl)"

lemma kwait_spec:
  assumes inv: "kinv N fl k" and p: "p < length (procs k)" "alive (procs k ! p)" and pN: "p \<notin> N"
    and cpu: "cpu_noff (k_cpu k) = 0"
  shows "\<exists>res fl' k'. kwait p addr k = ret (res, k') \<and> wait_post N p addr fl k res fl' k'"
proof (cases "find (zombie_child p k) [0..<length (procs k)]")
  case (Some i)
  then have i: "i < length (procs k)" "zombie_child p k i" by (auto simp: find_Some_iff)
  from reap_spec [OF inv p i, of addr] obtain v fl' k' where
    r: "reap p addr i k = ret (v, k')" "reap_post N p addr i fl k v fl' k'" by blast
  then have "kwait p addr k = ret (Wait_return v, k')"
    by (simp add: kwait_def wait_scan_find Some)
  then show ?thesis using r by (auto simp: wait_post_def Some reap_post_def)
next
  case None
  have kids: "(\<exists>i \<in> set [0..<length (procs k)]. p_parent (procs k ! i) = Some p) \<longleftrightarrow>
      (\<exists>i < length (procs k). p_parent (procs k ! i) = Some p)" by (simp add: Bex_def)
  let ?go = "(\<exists>i < length (procs k). p_parent (procs k ! i) = Some p) \<and> p_killed (procs k ! p) = 0"
  show ?thesis
  proof (cases ?go)
    case False
    then have "kwait p addr k = ret (Wait_return (-1), k)"
      using kids by (auto simp: kwait_def wait_scan_find None killed_def)
    then show ?thesis using inv False by (auto simp: wait_post_def None)
  next
    case True
    have sl: "sleep p (upd p (\<lambda>q. q\<lparr>p_chan := Proc_chan p\<rparr>) k) = Ok (waiting p k)"
      using p cpu by (simp add: sleep_def switch_ok) (simp add: waiting_def upd_def)
    have run: "kwait p addr k = ret (Wait_sleep, waiting p k)"
      using True kids p sl by (auto simp: kwait_def wait_scan_find None killed_def sleep_prepare_def)
    have "kinv N fl (waiting p k)"
      unfolding waiting_def using p pN
      by (intro upd_kinv [OF inv]) (auto simp: same_space_def same_tree_def alive_def)
    moreover have "all_pages fl (waiting p k) = all_pages fl k"
      unfolding waiting_def using p inv
      by (intro conjunct2 [OF mem_inv_upd_same]) (auto simp: same_space_def alive_def kinv_def)
    ultimately show ?thesis using run True by (auto simp: wait_post_def None)
  qed
qed

section \<open>Every operation keeps both invariants\<close>

lemma kst_slot:
  "k' = k\<lparr>k_mem := a, nextpid := b, procs := c, k_fs := d\<rparr> \<Longrightarrow> initproc k' = initproc k \<and> procs k' = c"
  "k' = k\<lparr>k_mem := a, nextpid := b, procs := c\<rparr> \<Longrightarrow> initproc k' = initproc k \<and> procs k' = c"
  by simp_all

lemma kfork_kinv:
  assumes inv: "kinv N fl k" and p: "p < length (procs k)" "alive (procs k ! p)"
  shows "\<exists>r fl' k'. kfork fs p k = ret (r, k') \<and> fork_post fs p fl k r fl' k' \<and> kinv N fl' k'"
proof -
  have mi: "mem_inv fl k" and ti: "tree_inv N k" using inv by (auto simp: kinv_def)
  have lp: "live (k_mem k) fl (procs k ! p)" using p by (intro live_slot [OF mi]) (auto simp: alive_def)
  from kfork_spec [OF mi p(1) lp] obtain r fl' k' where
    f: "kfork fs p k = ret (r, k')" "fork_post fs p fl k r fl' k'" by blast
  have "tree_inv N k'"
  proof (cases "find_unused k")
    case None
    then show ?thesis using f(2) ti by (simp add: fork_post_def)
  next
    case (Some np)
    from find_unused_Some [OF Some] have un: "\<not> alive (procs k ! np)" and u: "p_state (procs k ! np) = UNUSED"
      and np: "np < length (procs k)" by (auto simp: alive_def)
    have par: "p_parent (procs k ! np) = None" using ti np u by (auto simp: tree_inv_def)
    have neq: "p \<noteq> np" using p un by auto
    from f(2) consider (ok) "fork_ok fs p k np fl' r k'" | (fail) q where "idle q" "p_parent q = None"
        "k' = k\<lparr>k_mem := k_mem k', nextpid := nextpid k + 1, procs := (procs k)[np := q]\<rparr>"
      unfolding fork_post_def Some option.case using par by auto
    then show ?thesis
    proof cases
      case ok
      then obtain c where k': "k' = k\<lparr>k_mem := k_mem k', nextpid := nextpid k + 1, procs := (procs k)[np := c], k_fs := k_fs k'\<rparr>"
          and c: "p_parent c = Some p" "p_state c = RUNNABLE"
        by (auto simp: fork_ok_def fork_child_def)
      from kst_slot(1) [OF k'] show ?thesis by (intro tree_inv_slot [OF ti _ _ un]) (use c p neq in auto)
    next
      case fail
      from kst_slot(2) [OF fail(3)] show ?thesis by (intro tree_inv_slot [OF ti _ _ un]) (use fail in \<open>auto simp: idle_def\<close>)
    qed
  qed
  then show ?thesis using f by (auto simp: kinv_def fork_post_def)
qed

lemma growproc_kinv:
  assumes inv: "kinv N fl k" and p: "p < length (procs k)" "p_state (procs k ! p) \<noteq> UNUSED"
  shows "\<exists>r fl' k'. growproc p n k = Ok (r, k') \<and> kinv N fl' k' \<and> all_pages fl' k' = all_pages fl k"
proof -
  have mi: "mem_inv fl k" and ti: "tree_inv N k" using inv by (auto simp: kinv_def)
  from growproc_spec [OF mi p(1) live_slot [OF mi p], of n] obtain r fl' k' sz where
    g: "growproc p n k = Ok (r, k')" "size_post fl p k sz fl' k'" by blast
  have k': "k' = upd p (\<lambda>q. q\<lparr>p_sz := sz\<rparr>) (set_mem (k_mem k') k)" using g(2) by (simp add: size_post_def)
  have "list_all2 same_tree (procs k) (procs k')"
    by (subst k') (cases "p < length (procs k)", auto simp: list_all2_conv_all_nth nth_list_update same_tree_def)
  moreover have "initproc k' = initproc k" by (subst k') simp
  moreover have "p_state (procs k' ! i) = p_state (procs k ! i)" if "i < length (procs k)" for i
    using that by (subst k') (cases "i = p", simp_all)
  ultimately have "tree_inv N k'" by (intro tree_inv_same [OF ti]) simp_all
  then show ?thesis using g by (auto simp: kinv_def size_post_def)
qed

lemma exited_kinv:
  assumes inv: "kinv N fl k" and p: "p < length (procs k)" "alive (procs k ! p)" "initproc k \<noteq> Some p" "p \<notin> N"
  shows "kinv N fl (exited fs p st k)"
  using exited_mem(1) [of fl k p fs st] exited_tree [of N k p fs st] assms by (simp add: kinv_def alive_def)

end
