(* ===== verification/Syscall.thy ===== *)
theory Syscall
  imports Proc_Wait
begin

text \<open>
  System calls: \<open>Proyecto3/kernel/syscall.c\<close> and \<open>sysproc.c\<close>. A handler gets the calling
  process and the kernel state. The calls of \<open>sysfile.c\<close>, which is not in the repository, the
  address of \<open>ticks\<close> and the value of \<open>SBRK_EAGER\<close> are parameters in the record \<open>sysenv\<close>.
\<close>

section \<open>Fetching arguments\<close>

text \<open>
  Output parameters of the C functions are part of the result. \<open>sizeof(uint64)\<close> is 8;
  \<open>strlen\<close> of \<open>string.c\<close> is documented to count the bytes before the first NUL.
\<close>

definition fetchaddr :: "nat \<Rightarrow> u64 \<Rightarrow> 'fs kst \<Rightarrow> (int \<times> u8 list \<times> 'fs kst) res" where
  "fetchaddr p addr k =
     (let pr = procs k ! p in
      if addr \<ge> p_sz pr \<or> addr + 8 > p_sz pr then Ok (-1, [], k)
      else bnd (copyin (p_pagetable pr) (p_sz pr) addr 8 (k_mem k)) (\<lambda>(r, bs, s).
             if r \<noteq> 0 then Ok (-1, bs, set_mem s k) else Ok (0, bs, set_mem s k)))"

definition strlen_bytes :: "u8 list \<Rightarrow> nat" where
  "strlen_bytes bs = length (takeWhile (\<lambda>b. b \<noteq> 0) bs)"

definition fetchstr :: "nat \<Rightarrow> u64 \<Rightarrow> i32 \<Rightarrow> 'fs kst \<Rightarrow> (int \<times> u8 list \<times> 'fs kst) res" where
  "fetchstr p addr mx k =
     (let pr = procs k ! p in
      bnd (copyinstr (p_pagetable pr) (p_sz pr) addr (scast mx) (k_mem k)) (\<lambda>(r, bs, s).
        if r < 0 then Ok (-1, bs, set_mem s k)
        else Ok (int (strlen_bytes bs), bs, set_mem s k)))"

text \<open>Registers of the trapframe, by their offsets in the structure.\<close>

definition tf_reg :: "nat \<Rightarrow> u64 \<Rightarrow> 'fs kst \<Rightarrow> u64" where
  "tf_reg p off k = load64 (pmem (k_mem k)) (p_trapframe (procs k ! p) + off)"

definition set_a0 :: "nat \<Rightarrow> u64 \<Rightarrow> 'fs kst \<Rightarrow> 'fs kst" where
  "set_a0 p v k =
     set_mem ((k_mem k)\<lparr>pmem := store64 (pmem (k_mem k)) (p_trapframe (procs k ! p) + TF_A0) v\<rparr>) k"

abbreviation TF_A7 :: u64 where "TF_A7 \<equiv> 168"

definition argraw :: "nat \<Rightarrow> nat \<Rightarrow> 'fs kst \<Rightarrow> u64 res" where
  "argraw n p k =
     (if n = 0 then Ok (tf_reg p 112 k)
      else if n = 1 then Ok (tf_reg p 120 k)
      else if n = 2 then Ok (tf_reg p 128 k)
      else if n = 3 then Ok (tf_reg p 136 k)
      else if n = 4 then Ok (tf_reg p 144 k)
      else if n = 5 then Ok (tf_reg p 152 k)
      else Panic ''argraw'')"

definition argint :: "nat \<Rightarrow> nat \<Rightarrow> 'fs kst \<Rightarrow> i32 res" where
  "argint n p k = bnd (argraw n p k) (\<lambda>v. Ok (ucast v))"

definition argaddr :: "nat \<Rightarrow> nat \<Rightarrow> 'fs kst \<Rightarrow> u64 res" where
  "argaddr n p k = argraw n p k"

definition argstr :: "nat \<Rightarrow> i32 \<Rightarrow> nat \<Rightarrow> 'fs kst \<Rightarrow> (int \<times> u8 list \<times> 'fs kst) res" where
  "argstr n mx p k = bnd (argaddr n p k) (\<lambda>addr. fetchstr p addr mx k)"

section \<open>The calls of sysproc.c\<close>

text \<open>
  How a handler ends: with a value for \<open>a0\<close>, asleep (to be entered again after a wakeup), or
  in the scheduler for good.
\<close>

datatype outcome = Sys_return u64 | Sys_sleep | Sys_exited

type_synonym 'fs handler = "nat \<Rightarrow> 'fs kst \<Rightarrow> (outcome \<times> 'fs kst) run"

record 'fs sysenv =
  e_fs :: "'fs fsops"
  e_file_call :: "nat \<Rightarrow> 'fs handler"
  e_ticks_addr :: u64
  e_sbrk_eager :: i32

definition sys_exit :: "'fs sysenv \<Rightarrow> 'fs handler" where
  "sys_exit e p k = lift (bnd (argint 0 p k) (\<lambda>n. bnd (kexit (e_fs e) p n k) (\<lambda>k. Ok (Sys_exited, k))))"

definition sys_getpid :: "'fs handler" where
  "sys_getpid p k = ret (Sys_return (scast (p_pid (procs k ! p))), k)"

definition sys_fork :: "'fs sysenv \<Rightarrow> 'fs handler" where
  "sys_fork e p k = rbnd (kfork (e_fs e) p k) (\<lambda>(r, k). ret (Sys_return (scast r), k))"

definition sys_wait :: "'fs handler" where
  "sys_wait p k = rbnd (lift (argaddr 0 p k)) (\<lambda>addr. rbnd (kwait p addr k) (\<lambda>(r, k).
     case r of Wait_return v \<Rightarrow> ret (Sys_return (scast v), k) | Wait_sleep \<Rightarrow> ret (Sys_sleep, k)))"

definition sys_sbrk :: "'fs sysenv \<Rightarrow> 'fs handler" where
  "sys_sbrk e p k = lift
     (bnd (argint 0 p k) (\<lambda>n. bnd (argint 1 p k) (\<lambda>t.
      let addr = p_sz (procs k ! p) in
      if t = e_sbrk_eager e \<or> sint n < 0
      then bnd (growproc p n k) (\<lambda>(r, k). if r < 0 then Ok (Sys_return (-1), k) else Ok (Sys_return addr, k))
      else if addr + scast n < addr then Ok (Sys_return (-1), k)
      else if addr + scast n > USYSCALL then Ok (Sys_return (-1), k)
      else Ok (Sys_return addr, upd p (\<lambda>q. q\<lparr>p_sz := p_sz q + scast n\<rparr>) k))))"

text \<open>
  One round of the loop of \<open>sys_pause\<close>, entered with the value \<open>ticks0\<close> that the handler
  noted at its start; the comparison is unsigned, as in C.
\<close>

definition pause_round :: "'fs sysenv \<Rightarrow> i32 \<Rightarrow> u32 \<Rightarrow> nat \<Rightarrow> 'fs kst \<Rightarrow> (outcome \<times> 'fs kst) res" where
  "pause_round e n ticks0 p k =
     (if k_ticks k - ticks0 < n
      then if killed p k \<noteq> 0 then Ok (Sys_return (-1), k)
           else bnd (sleep_prepare p (Obj_chan (e_ticks_addr e)) k) (\<lambda>k.
                bnd (sleep p k) (\<lambda>k. Ok (Sys_sleep, k)))
      else Ok (Sys_return 0, k))"

definition sys_pause :: "'fs sysenv \<Rightarrow> 'fs handler" where
  "sys_pause e p k = lift (bnd (argint 0 p k) (\<lambda>n.
     let n = (if sint n < 0 then 0 else n) in pause_round e n (k_ticks k) p k))"

definition sys_kill :: "'fs handler" where
  "sys_kill p k = lift (bnd (argint 0 p k) (\<lambda>pid.
     case kkill pid k of (r, k) \<Rightarrow> Ok (Sys_return (of_int r), k)))"

definition sys_uptime :: "'fs handler" where
  "sys_uptime p k = ret (Sys_return (ucast (k_ticks k)), k)"

definition print_console :: "console \<Rightarrow> 'fs kst \<Rightarrow> 'fs kst" where
  "print_console c k = k\<lparr>k_console := k_console k @ [c]\<rparr>"

definition sys_vmprint :: "'fs handler" where
  "sys_vmprint p k = ret (Sys_return 0,
     print_console (Vm_table (vmprint (p_pagetable (procs k ! p)) (k_mem k))) k)"

text \<open>
  The two loops of \<open>sys_pgaccess\<close>: \<open>is\<close> are the values of \<open>i\<close> that remain. The first builds
  the mask; the second clears the accessed bits that the mask reports.
\<close>

fun access_mask :: "u64 \<Rightarrow> u64 \<Rightarrow> nat list \<Rightarrow> u64 \<Rightarrow> phys \<Rightarrow> (u64 \<times> phys) res" where
  "access_mask pagetable base [] msk s = Ok (msk, s)"
| "access_mask pagetable base (i # is) msk s =
     bnd (walk pagetable (base + of_nat i * PGSIZE) False s) (\<lambda>(pte, s).
       access_mask pagetable base is
         (if pte \<noteq> 0 \<and> load64 (pmem s) pte AND PTE_V \<noteq> 0 \<and> load64 (pmem s) pte AND PTE_A \<noteq> 0
          then msk OR push_bit i 1 else msk) s)"

fun clear_accessed :: "u64 \<Rightarrow> u64 \<Rightarrow> nat list \<Rightarrow> u64 \<Rightarrow> phys \<Rightarrow> phys res" where
  "clear_accessed pagetable base [] msk s = Ok s"
| "clear_accessed pagetable base (i # is) msk s =
     (if msk AND push_bit i 1 \<noteq> 0
      then bnd (walk pagetable (base + of_nat i * PGSIZE) False s) (\<lambda>(pte, s).
             clear_accessed pagetable base is msk
               (s\<lparr>pmem := store64 (pmem s) pte (load64 (pmem s) pte AND NOT PTE_A)\<rparr>))
      else clear_accessed pagetable base is msk s)"

definition long_bytes :: "u64 \<Rightarrow> u8 list" where
  "long_bytes x = map (\<lambda>i. ucast (drop_bit (8 * i) x)) [0..<8]"

definition pgaccess :: "u64 \<Rightarrow> u64 \<Rightarrow> u64 \<Rightarrow> i32 \<Rightarrow> u64 \<Rightarrow> phys \<Rightarrow> (u64 \<times> phys) res" where
  "pgaccess pagetable psz base npages maskaddr s =
     (if base mod PGSIZE \<noteq> 0 then Ok (-1, s)
      else if sint npages < 1 \<or> sint npages > 64 then Ok (-1, s)
      else if base + scast npages * PGSIZE < base \<or> base + scast npages * PGSIZE > psz then Ok (-1, s)
      else bnd (access_mask pagetable base [0..<nat (sint npages)] 0 s) (\<lambda>(msk, s).
           bnd (copyout pagetable psz maskaddr (long_bytes msk) s) (\<lambda>(r, s).
             if r < 0 then Ok (-1, s)
             else bnd (clear_accessed pagetable base [0..<nat (sint npages)] msk s) (\<lambda>s. Ok (0, s)))))"

definition sys_pgaccess :: "'fs handler" where
  "sys_pgaccess p k = lift
     (bnd (argaddr 0 p k) (\<lambda>base. bnd (argint 1 p k) (\<lambda>npages. bnd (argaddr 2 p k) (\<lambda>maskaddr.
      bnd (pgaccess (p_pagetable (procs k ! p)) (p_sz (procs k ! p)) base npages maskaddr (k_mem k))
        (\<lambda>(r, s). Ok (Sys_return r, set_mem s k))))))"

section \<open>Dispatch\<close>

text \<open>The numbers of the calls, of \<open>syscall.h\<close>.\<close>

abbreviation SYS_fork :: nat where "SYS_fork \<equiv> 1"
abbreviation SYS_exit :: nat where "SYS_exit \<equiv> 2"
abbreviation SYS_wait :: nat where "SYS_wait \<equiv> 3"
abbreviation SYS_kill :: nat where "SYS_kill \<equiv> 6"
abbreviation SYS_getpid :: nat where "SYS_getpid \<equiv> 11"
abbreviation SYS_sbrk :: nat where "SYS_sbrk \<equiv> 12"
abbreviation SYS_pause :: nat where "SYS_pause \<equiv> 13"
abbreviation SYS_uptime :: nat where "SYS_uptime \<equiv> 14"
abbreviation SYS_vmprint :: nat where "SYS_vmprint \<equiv> 23"
abbreviation SYS_pgaccess :: nat where "SYS_pgaccess \<equiv> 24"

text \<open>The table \<open>syscalls[]\<close>; its length is one more than the largest number.\<close>

definition syscalls :: "'fs sysenv \<Rightarrow> nat \<Rightarrow> 'fs handler option" where
  "syscalls e num =
     (if num = SYS_fork then Some (sys_fork e)
      else if num = SYS_exit then Some (sys_exit e)
      else if num = SYS_wait then Some sys_wait
      else if num = SYS_kill then Some sys_kill
      else if num = SYS_getpid then Some sys_getpid
      else if num = SYS_sbrk then Some (sys_sbrk e)
      else if num = SYS_pause then Some (sys_pause e)
      else if num = SYS_uptime then Some sys_uptime
      else if num = SYS_vmprint then Some sys_vmprint
      else if num = SYS_pgaccess then Some sys_pgaccess
      else if 1 \<le> num \<and> num \<le> 22 then Some (e_file_call e num)
      else None)"

abbreviation NSYSCALLS :: int where "NSYSCALLS \<equiv> 25"

definition syscall :: "'fs sysenv \<Rightarrow> nat \<Rightarrow> 'fs kst \<Rightarrow> (outcome \<times> 'fs kst) run" where
  "syscall e p k =
     (let num = (ucast (tf_reg p TF_A7 k) :: i32) in
      case (if sint num > 0 \<and> sint num < NSYSCALLS then syscalls e (nat (sint num)) else None) of
        Some f \<Rightarrow> rbnd (f p k) (\<lambda>(r, k).
          case r of Sys_return v \<Rightarrow> ret (r, set_a0 p v k) | _ \<Rightarrow> ret (r, k))
      | None \<Rightarrow>
          let k = print_console (Unknown_call (p_pid (procs k ! p)) (p_name (procs k ! p)) num) k
          in ret (Sys_return (-1), set_a0 p (-1) k))"

end
