(* ===== verification/Pgaccess.thy ===== *)
theory Pgaccess
  imports Syscall
begin

text \<open>
  \<open>sys_pgaccess\<close>: the mask it builds is the accessed bits of the page table, and clearing them
  changes nothing else, so that the invariant of the process is kept.
\<close>

section \<open>Entries that differ in the accessed bit\<close>

lemma bit_clear_A: "bit (e AND NOT PTE_A) n \<longleftrightarrow> bit e n \<and> n \<noteq> 6"
  using bit_imp_le_length [of e n] by (auto simp: bit_and_iff bit_not_iff bit_pte_bits)

definition same_but_A :: "u64 \<Rightarrow> u64 \<Rightarrow> bool" where
  "same_but_A e e' \<longleftrightarrow> (\<forall>n. n \<noteq> 6 \<longrightarrow> bit e' n = bit e n)"

lemma same_but_A_refl [simp]: "same_but_A e e"
  by (simp add: same_but_A_def)

lemma same_but_A_clear [simp]: "same_but_A e (e AND NOT PTE_A)"
  by (simp add: same_but_A_def bit_clear_A)

lemma same_but_A_sel:
  assumes "same_but_A e e'"
  shows "valid e' = valid e" "PTE2PA e' = PTE2PA e" "bit e' 1 = bit e 1" "bit e' 2 = bit e 2" "bit e' 4 = bit e 4"
    "user_pte e' = user_pte e"
proof -
  show v: "valid e' = valid e" "bit e' 1 = bit e 1" "bit e' 2 = bit e 2" "bit e' 4 = bit e 4"
    using assms by (simp_all add: valid_bit same_but_A_def)
  show "PTE2PA e' = PTE2PA e"
    using assms by (intro bit_word_eqI) (auto simp: PTE2PA_def same_but_A_def bit_simps)
  show "user_pte e' = user_pte e" using v by (simp add: user_pte_def)
qed

lemma valid_clear_A [simp]: "valid (e AND NOT PTE_A) = valid e"
  by (rule same_but_A_sel(1) [OF same_but_A_clear])

definition map_but_A :: "phys \<Rightarrow> phys \<Rightarrow> u64 \<Rightarrow> bool" where
  "map_but_A s s' pt \<longleftrightarrow> (\<forall>va < VATOP. same_but_A (pte_of s pt va) (pte_of s' pt va))"

lemma map_but_A_mapped:
  assumes "map_but_A s s' pt"
  shows "mapped s' pt va \<longleftrightarrow> mapped s pt va" "mapped s pt va \<Longrightarrow> page_of s' pt va = page_of s pt va"
    "upages s' pt = upages s pt"
proof -
  have e: "va < TRAPFRAME \<Longrightarrow> same_but_A (pte_of s pt va) (pte_of s' pt va)" for va
    using assms TRAPFRAME_VATOP [of va] by (simp add: map_but_A_def)
  show m: "mapped s' pt va \<longleftrightarrow> mapped s pt va" for va
    using same_but_A_sel(1) [OF e] by (auto simp: mapped_def)
  show p: "page_of s' pt va = page_of s pt va" if "mapped s pt va" for va
    using same_but_A_sel(2) [OF e] that by (simp add: mapped_def page_of_def)
  show "upages s' pt = upages s pt" by (auto simp: upages_def m p image_iff)
qed

lemma uspace_but_A:
  assumes us: "uspace s fl pt" and inv: "as_inv s' fl 2 pt" and t: "touched s pt [] s'" and m: "map_but_A s s' pt"
  shows "uspace s' fl pt" "account s' fl pt = account s fl pt" "usable s' = usable s"
    "mapped s pt va \<Longrightarrow> ubyte s' pt va = ubyte s pt va"
proof -
  note mm = map_but_A_mapped [OF m]
  have tab: "tables s' pt = tables s pt" using t by (simp add: touched_def)
  have out: "same_outside (tables s pt) s s'" using touched_outside [OF t] by simp
  show u: "usable s' = usable s" by (rule same_outside_usable [OF out])
  have high: "va < MAXVA \<and> \<not> bit (pte_of s' pt va) 4"
    if "va < VATOP" "TRAPFRAME \<le> va" "valid (pte_of s' pt va)" for va
  proof -
    have "same_but_A (pte_of s pt va) (pte_of s' pt va)" using m that(1) by (simp add: map_but_A_def)
    from same_but_A_sel(1,5) [OF this] that us show ?thesis by (simp add: uspace_def)
  qed
  show "uspace s' fl pt"
    unfolding uspace_def
  proof (intro conjI inv ballI allI impI)
    fix p assume "p \<in> upages s' pt"
    then show "usable s' p" "p \<notin> tables s' pt \<union> set fl" using us by (auto simp: mm u tab uspace_def)
  next
    fix va va' assume "mapped s' pt va" "mapped s' pt va'" "page_of s' pt va = page_of s' pt va'"
    then show "PGROUNDDOWN va = PGROUNDDOWN va'" using uspace_inj [OF us, of va va'] by (simp add: mm)
  qed (use high in auto)
  show "account s' fl pt = account s fl pt" by (simp add: account_def tab mm)
  assume va: "mapped s pt va"
  have "page_of s pt va \<notin> tables s pt" using us mapped_upages [OF va] by (auto simp: uspace_def)
  then have "same_page (pmem s) (pmem s') (page_of s pt va)" using out by (simp add: same_outside_def)
  moreover have "page_aligned (page_of s pt va)" by (simp add: page_of_def)
  ultimately show "ubyte s' pt va = ubyte s pt va"
    using mm(2) [OF va] page_offset [of "page_of s pt va" va] by (simp add: ubyte_def same_page_def)
qed

section \<open>The two loops\<close>

lemma access_mask_spec:
  assumes inv: "as_inv s fl 2 pt"
  shows "\<forall>i \<in> set is. i < 64 \<and> base + of_nat i * PGSIZE < MAXVA \<Longrightarrow>
    \<exists>msk'. access_mask pt base is msk s = Ok (msk', s) \<and>
      (\<forall>n. bit msk' n \<longleftrightarrow> bit msk n \<or> n \<in> set is \<and> valid (pte_of s pt (base + of_nat n * PGSIZE)) \<and>
         bit (pte_of s pt (base + of_nat n * PGSIZE)) 6)"
proof (induction "is" arbitrary: msk)
  case (Cons i "is")
  let ?va = "base + of_nat i * PGSIZE"
  let ?lf = "leaf (pmem s) 2 pt ?va" and ?e = "pte_of s pt ?va"
  define c where "c \<longleftrightarrow> ?lf \<noteq> 0 \<and> load64 (pmem s) ?lf AND PTE_V \<noteq> 0 \<and> load64 (pmem s) ?lf AND PTE_A \<noteq> 0"
  have c: "c \<longleftrightarrow> valid ?e \<and> bit ?e 6"
    using load_leaf [OF inv, of ?va] no_leaf [OF inv, of ?va]
    by (cases "?lf = 0") (auto simp: c_def test_pte_bits valid_bit)
  define msk1 where "msk1 = (if c then msk OR push_bit i 1 else msk)"
  have b: "bit msk1 n \<longleftrightarrow> bit msk n \<or> n = i \<and> c" for n
    using Cons.prems bit_imp_le_length [of msk n] by (auto simp: msk1_def bit_simps)
  from Cons.IH [of msk1] Cons.prems obtain msk' where
    r: "access_mask pt base is msk1 s = Ok (msk', s)"
      "\<forall>n. bit msk' n \<longleftrightarrow> bit msk1 n \<or> n \<in> set is \<and> valid (pte_of s pt (base + of_nat n * PGSIZE)) \<and>
         bit (pte_of s pt (base + of_nat n * PGSIZE)) 6" by auto
  have "access_mask pt base (i # is) msk s = Ok (msk', s)"
    using Cons.prems r(1) by (simp add: walk_lookup c_def [symmetric] msk1_def)
  then show ?case using r(2) b c by auto
qed simp

lemma clear_accessed_spec:
  assumes "as_inv s fl 2 pt" "page_aligned base"
    and "\<forall>i \<in> set is. i < 64 \<and> base + of_nat i * PGSIZE < MAXVA \<and>
      (bit msk i \<longrightarrow> valid (pte_of s pt (base + of_nat i * PGSIZE)))"
  shows "\<exists>s'. clear_accessed pt base is msk s = Ok s' \<and> as_inv s' fl 2 pt \<and> touched s pt [] s' \<and>
    (\<forall>va < VATOP. pte_of s' pt va =
      (if \<exists>i \<in> set is. bit msk i \<and> PGROUNDDOWN va = base + of_nat i * PGSIZE
       then pte_of s pt va AND NOT PTE_A else pte_of s pt va))"
  using assms
proof (induction "is" arbitrary: s)
  case (Cons i "is")
  let ?va = "base + of_nat i * PGSIZE"
  have t: "msk AND push_bit i 1 = 0 \<longleftrightarrow> \<not> bit msk i" using Cons.prems(3)
    by (auto simp: bit_simps intro!: bit_word_eqI dest: arg_cong [where f = "\<lambda>x. bit x i"])
  have al: "PGROUNDDOWN ?va = ?va"
  proof -
    have "page_aligned ?va" using Cons.prems(2)
      by (induction i) (auto simp: algebra_simps dest: page_aligned_add)
    then show ?thesis by (simp flip: PGROUNDDOWN_id)
  qed
  show ?case
  proof (cases "bit msk i")
    case False
    from Cons.IH [OF Cons.prems(1,2)] Cons.prems(3) obtain s' where
      r: "clear_accessed pt base is msk s = Ok s'" "as_inv s' fl 2 pt" "touched s pt [] s'"
        "\<forall>va < VATOP. pte_of s' pt va = (if \<exists>i \<in> set is. bit msk i \<and> PGROUNDDOWN va = base + of_nat i * PGSIZE
           then pte_of s pt va AND NOT PTE_A else pte_of s pt va)" by auto
    then show ?thesis using False t by (intro exI [of _ s']) simp
  next
    case True
    then have va: "?va < MAXVA" "valid (pte_of s pt ?va)" using Cons.prems(3) by auto
    have lf: "leaf (pmem s) 2 pt ?va \<noteq> 0" using no_leaf [OF Cons.prems(1)] va(2) by force
    define s1 where "s1 = s\<lparr>pmem := store64 (pmem s) (leaf (pmem s) 2 pt ?va) (pte_of s pt ?va AND NOT PTE_A)\<rparr>"
    note st = store_pte [OF Cons.prems(1) va(1) lf s1_def]
    have e1: "pte_of s1 pt x = (if PGROUNDDOWN x = ?va then pte_of s pt x AND NOT PTE_A else pte_of s pt x)"
      if "x < VATOP" for x
      using st(4) [OF that] al pte_of_PGROUNDDOWN [of s pt x] pte_of_PGROUNDDOWN [of s pt ?va] by auto
    have "valid (pte_of s1 pt (base + of_nat j * PGSIZE))" if "j \<in> set is" "bit msk j" for j
      using e1 [of "base + of_nat j * PGSIZE"] Cons.prems(3) that MAXVA_VATOP by auto
    with Cons.IH [OF st(1) Cons.prems(2)] Cons.prems(3) obtain s' where
      r: "clear_accessed pt base is msk s1 = Ok s'" "as_inv s' fl 2 pt" "touched s1 pt [] s'"
        "\<forall>va < VATOP. pte_of s' pt va = (if \<exists>i \<in> set is. bit msk i \<and> PGROUNDDOWN va = base + of_nat i * PGSIZE
           then pte_of s1 pt va AND NOT PTE_A else pte_of s1 pt va)" by auto
    have "clear_accessed pt base (i # is) msk s = Ok s'"
      using r(1) t True va(1) load_leaf [OF Cons.prems(1) lf] by (simp add: walk_lookup s1_def)
    moreover have "touched s pt [] s'" using touched_trans [OF st(2) r(3)] by simp
    moreover have "\<forall>va < VATOP. pte_of s' pt va =
      (if \<exists>i \<in> set (i # is). bit msk i \<and> PGROUNDDOWN va = base + of_nat i * PGSIZE
       then pte_of s pt va AND NOT PTE_A else pte_of s pt va)"
      using r(4) e1 True by (auto simp: and.assoc)
    ultimately show ?thesis using r(2) by blast
  qed
qed simp

section \<open>The call\<close>

text \<open>The ranges that a call accepts; the addition in the code may wrap around, this one may not.\<close>

definition pg_range :: "u64 \<Rightarrow> i32 \<Rightarrow> u64 \<Rightarrow> bool" where
  "pg_range base npages psz \<longleftrightarrow> page_aligned base \<and> 1 \<le> sint npages \<and> sint npages \<le> 64 \<and>
     unat base + nat (sint npages) * 4096 \<le> unat psz"

definition accessed :: "phys \<Rightarrow> u64 \<Rightarrow> u64 \<Rightarrow> bool" where
  "accessed s pt va \<longleftrightarrow> valid (pte_of s pt va) \<and> bit (pte_of s pt va) 6"

lemma pg_range_iff:
  assumes "psz \<le> USYSCALL"
  shows "pg_range base npages psz \<longleftrightarrow> base mod PGSIZE = 0 \<and> \<not> (sint npages < 1 \<or> sint npages > 64) \<and>
    \<not> (base + scast npages * PGSIZE < base \<or> base + scast npages * PGSIZE > psz)"
proof (cases "1 \<le> sint npages \<and> sint npages \<le> 64")
  case True
  define n where "n = nat (sint npages)"
  have n: "n \<le> 64" "unat (scast npages :: u64) = n" using True unat_scast(1) [of npages] by (simp_all add: n_def nat_le_iff)
  then have m: "unat (scast npages * PGSIZE :: u64) = n * 4096" by (simp add: unat_word_ariths)
  have small: "unat psz \<le> 0x3fffffd000" using assms by (simp add: word_le_nat_alt USYSCALL_val)
  have lt: "unat base < 2 ^ 64" using unsigned_less [of base] by simp
  show ?thesis
  proof (cases "unat base + n * 4096 < 2 ^ 64")
    case ok: True
    then have u: "unat (base + scast npages * PGSIZE) = unat base + n * 4096"
      using m by (simp add: unat_word_ariths(1))
    then show ?thesis using True unfolding pg_range_def n_def [symmetric] page_aligned_mod
      by (auto simp: word_less_nat_alt u)
  next
    case False
    then have u: "unat (base + scast npages * PGSIZE) = unat base + n * 4096 - 2 ^ 64"
      using m lt n(1) by (simp add: unat_word_ariths(1) mod_nat_sub)
    have "base + scast npages * PGSIZE < base" using n(1) lt False unfolding word_less_nat_alt u by simp
    then show ?thesis using False small unfolding pg_range_def n_def [symmetric] by simp
  qed
qed (auto simp: pg_range_def)

lemma pg_range_below:
  assumes r: "pg_range base npages psz" and i: "i < nat (sint npages)"
  shows "base + of_nat i * PGSIZE < psz" "i < 64"
proof -
  have n: "nat (sint npages) \<le> 64" "unat base + nat (sint npages) * 4096 \<le> unat psz"
    using r by (auto simp: pg_range_def)
  then show "i < 64" using i by linarith
  have "i * 4096 < nat (sint npages) * 4096" using i by simp
  then have le: "unat base + i * 4096 < unat psz" using n(2) by linarith
  have "unat psz < 2 ^ 64" using unsigned_less [of psz] by simp
  then have "unat (base + of_nat i * PGSIZE) = unat base + i * 4096"
    using le i n(1) by (simp add: unat_word_ariths unat_of_nat)
  then show "base + of_nat i * PGSIZE < psz" using le by (simp add: word_less_nat_alt)
qed

definition pg_mask :: "phys \<Rightarrow> u64 \<Rightarrow> u64 \<Rightarrow> i32 \<Rightarrow> u64 \<Rightarrow> bool" where
  "pg_mask s pt base npages msk \<longleftrightarrow>
     (\<forall>n. bit msk n \<longleftrightarrow> n < nat (sint npages) \<and> accessed s pt (base + of_nat n * PGSIZE))"

definition cleared_A :: "phys \<Rightarrow> phys \<Rightarrow> phys \<Rightarrow> u64 \<Rightarrow> u64 \<Rightarrow> i32 \<Rightarrow> bool" where
  "cleared_A s s1 s' pt base npages \<longleftrightarrow> (\<forall>va < VATOP. pte_of s' pt va =
     (if (\<exists>i < nat (sint npages). PGROUNDDOWN va = base + of_nat i * PGSIZE) \<and> accessed s pt va
      then pte_of s1 pt va AND NOT PTE_A else pte_of s1 pt va))"

lemma length_long_bytes [simp]: "length (long_bytes x) = 8"
  by (simp add: long_bytes_def)

lemma accessed_page: "accessed s pt (PGROUNDDOWN va) = accessed s pt va"
  by (simp add: accessed_def pte_of_PGROUNDDOWN)

lemma pgaccess_spec:
  assumes us: "uspace s fl pt" and sz: "psz \<le> USYSCALL"
  shows "if pg_range base npages psz
    then \<exists>r s' s1 msk. pgaccess pt psz base npages maskaddr s = Ok (r, s') \<and> pg_mask s pt base npages msk \<and>
      (r = -1 \<and> s' = s1 \<and> write_post s fl pt psz maskaddr (long_bytes msk) (-1) s1 \<or>
       r = 0 \<and> write_post s fl pt psz maskaddr (long_bytes msk) 0 s1 \<and>
       cleared_A s s1 s' pt base npages \<and> touched s1 pt [] s' \<and>
       (\<forall>fl'. as_inv s1 fl' 2 pt \<longrightarrow> as_inv s' fl' 2 pt))
    else pgaccess pt psz base npages maskaddr s = Ok (-1, s)"
proof (cases "pg_range base npages psz")
  case False
  then show ?thesis using pg_range_iff [OF sz, of base npages] by (auto simp: pgaccess_def)
next
  case True
  let ?is = "[0..<nat (sint npages)]"
  have al: "page_aligned base" using True by (simp add: pg_range_def)
  have lim: "i < 64 \<and> base + of_nat i * PGSIZE < TRAPFRAME" if "i \<in> set ?is" for i
    using pg_range_below [OF True, of i] that sz by (auto simp: word_less_nat_alt word_le_nat_alt layout_vals)
  have tr: "psz \<le> TRAPFRAME" using sz by (simp add: word_le_nat_alt layout_vals)
  have "\<forall>i \<in> set ?is. i < 64 \<and> base + of_nat i * PGSIZE < MAXVA" using lim TRAPFRAME_MAXVA by blast
  from access_mask_spec [OF uspace_as_inv [OF us] this, of 0] obtain msk where
    m: "access_mask pt base ?is 0 s = Ok (msk, s)"
    and "\<forall>n. bit msk n \<longleftrightarrow> n \<in> set ?is \<and> valid (pte_of s pt (base + of_nat n * PGSIZE)) \<and>
         bit (pte_of s pt (base + of_nat n * PGSIZE)) 6" by auto
  then have b: "bit msk n \<longleftrightarrow> n < nat (sint npages) \<and> accessed s pt (base + of_nat n * PGSIZE)" for n
    by (simp add: accessed_def)
  from copyout_spec [OF us tr, of "long_bytes msk" maskaddr] obtain c s1 where
    w: "copyout pt psz maskaddr (long_bytes msk) s = Ok (c, s1)" "write_post s fl pt psz maskaddr (long_bytes msk) c s1"
    by auto
  have "c = 0 \<or> c = -1" using w(2) by (auto simp: write_post_def)
  have run: "pgaccess pt psz base npages maskaddr s =
      (if c < 0 then Ok (-1, s1) else bnd (clear_accessed pt base ?is msk s1) (\<lambda>s. Ok (0, s)))"
    using True pg_range_iff [OF sz, of base npages] m w(1) by (simp add: pgaccess_def)
  show ?thesis
  proof (cases "c = 0")
    case False
    then show ?thesis using \<open>c = 0 \<or> c = -1\<close> run w(2) b True
      by (simp, intro exI [of _ msk]) (simp add: pg_mask_def)
  next
    case c0: True
    from w(2) obtain fl1 where k: "keeps s fl pt psz s1 fl1" unfolding write_post_def by blast
    have inv1: "as_inv s1 fl1 2 pt" using k by (simp add: keeps_def uspace_as_inv)
    have v: "valid (pte_of s1 pt (base + of_nat i * PGSIZE))" if "i \<in> set ?is" "bit msk i" for i
      using b [of i] that k lim [OF that(1)] TRAPFRAME_VATOP by (auto simp: keeps_def accessed_def)
    have "\<forall>i \<in> set ?is. i < 64 \<and> base + of_nat i * PGSIZE < MAXVA \<and>
        (bit msk i \<longrightarrow> valid (pte_of s1 pt (base + of_nat i * PGSIZE)))"
      using lim v TRAPFRAME_MAXVA by blast
    note cl = clear_accessed_spec [OF _ al this]
    from cl [OF inv1] obtain s' where
      c: "clear_accessed pt base ?is msk s1 = Ok s'" "touched s1 pt [] s'"
        "\<forall>va < VATOP. pte_of s' pt va = (if \<exists>i \<in> set ?is. bit msk i \<and> PGROUNDDOWN va = base + of_nat i * PGSIZE
           then pte_of s1 pt va AND NOT PTE_A else pte_of s1 pt va)" by blast
    have inv: "\<forall>fl'. as_inv s1 fl' 2 pt \<longrightarrow> as_inv s' fl' 2 pt" using cl c(1) by fastforce
    have "(\<exists>i \<in> set ?is. bit msk i \<and> PGROUNDDOWN va = base + of_nat i * PGSIZE) \<longleftrightarrow>
        (\<exists>i < nat (sint npages). PGROUNDDOWN va = base + of_nat i * PGSIZE) \<and> accessed s pt va" for va
      using b accessed_page [of s pt va] by (metis atLeastLessThan_iff set_upt zero_le)
    then have "cleared_A s s1 s' pt base npages" using c(3) by (simp add: cleared_A_def)
    then show ?thesis using run c inv c0 w(2) b True
      by (simp, intro exI [of _ s1] exI [of _ msk]) (simp add: pg_mask_def)
  qed
qed

lemma same_but_A_when: "same_but_A e (if c then e AND NOT PTE_A else e)"
  by simp

lemma live_clear_A:
  assumes lv: "live s fl p" and range: "pg_range base npages (p_sz p)"
    and cl: "cleared_A s0 s s' (p_pagetable p) base npages" and t: "touched s (p_pagetable p) [] s'"
    and inv: "as_inv s' fl 2 (p_pagetable p)"
  shows "kept s fl p s' fl" "lbyte s' (p_pagetable p) sz = lbyte s (p_pagetable p) sz"
proof -
  let ?pt = "p_pagetable p"
  have eq: "pte_of s' ?pt va = (if (\<exists>i < nat (sint npages). PGROUNDDOWN va = base + of_nat i * PGSIZE) \<and>
      accessed s0 ?pt va then pte_of s ?pt va AND NOT PTE_A else pte_of s ?pt va)" if "va < VATOP" for va
    using cl that by (simp add: cleared_A_def)
  then have m: "map_but_A s s' ?pt" unfolding map_but_A_def by (simp add: same_but_A_when)
  note u = uspace_but_A [OF live_uspace [OF lv] inv t m]
  have high: "pte_of s' ?pt va = pte_of s ?pt va \<and> (mapped s ?pt va \<longrightarrow> ubyte s' ?pt va = ubyte s ?pt va)"
    if va: "va < VATOP" "USYSCALL \<le> va" for va
  proof -
    have ge: "USYSCALL \<le> PGROUNDDOWN va" by (rule PGROUNDDOWN_greatest [OF fixed_pages(3) va(2)])
    have "PGROUNDDOWN va \<noteq> base + of_nat i * PGSIZE" if "i < nat (sint npages)" for i
      using pg_range_below(1) [OF range that] live_size [OF lv] ge by auto
    then show ?thesis using eq [OF va(1)] u(4) by auto
  qed
  have low: "va < PGROUNDUP (p_sz p)" if va: "va < USYSCALL" "valid (pte_of s' ?pt va)" for va
    using live_low [OF lv va(1)] va(2) eq [of va] va(1) fixed_VATOP(3) by (auto split: if_splits)
  note r = live_resize [OF lv u(1,2,3) high low live_size [OF lv]]
  have "same_outside (set fl \<union> pages_of s p) s s'"
    by (rule same_outside_mono [OF touched_outside [OF t]]) (use lv in \<open>auto simp: pages_of_def live_def\<close>)
  then show "kept s fl p s' fl" using r by (simp add: kept_def)
  have "user_pte (pte_of s' ?pt va) = user_pte (pte_of s ?pt va) \<and>
      valid (pte_of s' ?pt va) = valid (pte_of s ?pt va)" if "va < TRAPFRAME" for va
    using m that TRAPFRAME_VATOP same_but_A_sel(1,6) unfolding map_but_A_def by blast
  then show "lbyte s' ?pt sz = lbyte s ?pt sz"
    using u(4) by (auto simp: lbyte_def fun_eq_iff mapped_def user_pte_def)
qed

lemma kept_trans: "kept s fl p s1 fl1 \<Longrightarrow> kept s1 fl1 p s2 fl2 \<Longrightarrow> kept s fl p s2 fl2"
proof -
  assume a: "kept s fl p s1 fl1" and b: "kept s1 fl1 p s2 fl2"
  have "same_outside (set fl \<union> pages_of s p) s s2"
    by (rule same_outside_mono [OF same_outside_trans [of "set fl \<union> pages_of s p" s s1 "set fl1 \<union> pages_of s1 p" s2]])
      (use a b in \<open>auto simp: kept_def\<close>)
  then show ?thesis using a b by (auto simp: kept_def)
qed

text \<open>What a call does to the process, its memory and its page table.\<close>

definition pg_post ::
  "u64 \<Rightarrow> i32 \<Rightarrow> u64 \<Rightarrow> phys \<Rightarrow> u64 list \<Rightarrow> proc \<Rightarrow> u64 \<Rightarrow> phys \<Rightarrow> u64 list \<Rightarrow> bool" where
  "pg_post base npages maskaddr s fl p r s' fl' \<longleftrightarrow> kept s fl p s' fl' \<and>
     (if pg_range base npages (p_sz p)
      then \<exists>msk. pg_mask s (p_pagetable p) base npages msk \<and>
        (r = -1 \<and> (\<forall>va < VATOP. valid (pte_of s (p_pagetable p) va) \<longrightarrow>
           pte_of s' (p_pagetable p) va = pte_of s (p_pagetable p) va) \<and>
         (\<exists>n < 8. lbyte s' (p_pagetable p) (p_sz p) =
             put_bytes (lbyte s (p_pagetable p) (p_sz p)) maskaddr (take n (long_bytes msk)) \<and>
           blocked s (p_pagetable p) (p_sz p) (PGROUNDDOWN (maskaddr + of_nat n)) fl') \<or>
         r = 0 \<and> lbyte s' (p_pagetable p) (p_sz p) =
           put_bytes (lbyte s (p_pagetable p) (p_sz p)) maskaddr (long_bytes msk) \<and>
         (\<forall>va < VATOP. valid (pte_of s (p_pagetable p) va) \<longrightarrow> pte_of s' (p_pagetable p) va =
           (if \<exists>i < nat (sint npages). PGROUNDDOWN va = base + of_nat i * PGSIZE
            then pte_of s (p_pagetable p) va AND NOT PTE_A else pte_of s (p_pagetable p) va)))
      else r = -1 \<and> s' = s)"

lemma clear_A_same: "\<not> bit e 6 \<Longrightarrow> e AND NOT PTE_A = e"
  by (rule bit_word_eqI) (auto simp: bit_clear_A)

lemma pgaccess_live:
  assumes lv: "live s fl p"
  shows "\<exists>r s' fl'. pgaccess (p_pagetable p) (p_sz p) base npages maskaddr s = Ok (r, s') \<and>
    pg_post base npages maskaddr s fl p r s' fl'"
proof (cases "pg_range base npages (p_sz p)")
  case False
  have "kept s fl p s fl" using lv by (simp add: kept_def)
  then show ?thesis using pgaccess_spec [OF live_uspace [OF lv] live_size [OF lv], of base npages maskaddr] False
    by (auto simp: pg_post_def)
next
  case True
  let ?pt = "p_pagetable p"
  have keepv: "pte_of s1 ?pt va = pte_of s ?pt va"
    if "write_post s fl ?pt (p_sz p) maskaddr bs c s1" "va < VATOP" "valid (pte_of s ?pt va)" for c s1 va bs
    using that by (auto simp: write_post_def keeps_def)
  from pgaccess_spec [OF live_uspace [OF lv] live_size [OF lv], of base npages maskaddr] True obtain r s' s1 msk where
    run: "pgaccess ?pt (p_sz p) base npages maskaddr s = Ok (r, s')" and m: "pg_mask s ?pt base npages msk"
    and res: "r = -1 \<and> s' = s1 \<and> write_post s fl ?pt (p_sz p) maskaddr (long_bytes msk) (-1) s1 \<or>
       r = 0 \<and> write_post s fl ?pt (p_sz p) maskaddr (long_bytes msk) 0 s1 \<and>
       cleared_A s s1 s' ?pt base npages \<and> touched s1 ?pt [] s' \<and>
       (\<forall>fl'. as_inv s1 fl' 2 ?pt \<longrightarrow> as_inv s' fl' 2 ?pt)" by auto
  from res show ?thesis
  proof
    assume f: "r = -1 \<and> s' = s1 \<and> write_post s fl ?pt (p_sz p) maskaddr (long_bytes msk) (-1) s1"
    then obtain fl' n where "kept s fl p s' fl'" "n < 8"
      "lbyte s' ?pt (p_sz p) = put_bytes (lbyte s ?pt (p_sz p)) maskaddr (take n (long_bytes msk))"
      "blocked s ?pt (p_sz p) (PGROUNDDOWN (maskaddr + of_nat n)) fl'"
      using live_write_prefix [OF lv, of maskaddr "long_bytes msk" "-1" s1] by auto
    then show ?thesis using run m f True keepv
      by (intro exI [of _ r] exI [of _ s'] exI [of _ fl']) (auto simp: pg_post_def)
  next
    assume f: "r = 0 \<and> write_post s fl ?pt (p_sz p) maskaddr (long_bytes msk) 0 s1 \<and>
       cleared_A s s1 s' ?pt base npages \<and> touched s1 ?pt [] s' \<and>
       (\<forall>fl'. as_inv s1 fl' 2 ?pt \<longrightarrow> as_inv s' fl' 2 ?pt)"
    then have w: "write_post s fl ?pt (p_sz p) maskaddr (long_bytes msk) 0 s1"
      and cl: "cleared_A s s1 s' ?pt base npages" by simp_all
    from live_write [OF lv w] obtain fl1 where k1: "kept s fl p s1 fl1" by blast
    then have l1: "live s1 fl1 p" by (simp add: kept_def)
    have inv1: "as_inv s' fl1 2 ?pt" using f uspace_as_inv [OF live_uspace [OF l1]] by blast
    note k2 = live_clear_A [OF l1 True cl _ inv1]
    have kk: "kept s fl p s' fl1" using kept_trans [OF k1 k2(1)] f by blast
    have "lbyte s' ?pt (p_sz p) = lbyte s1 ?pt (p_sz p)" using k2(2) f by blast
    then have l: "lbyte s' ?pt (p_sz p) = put_bytes (lbyte s ?pt (p_sz p)) maskaddr (long_bytes msk)"
      using w by (auto simp: write_post_def)
    have "pte_of s' ?pt va = (if \<exists>i < nat (sint npages). PGROUNDDOWN va = base + of_nat i * PGSIZE
            then pte_of s ?pt va AND NOT PTE_A else pte_of s ?pt va)"
      if "va < VATOP" "valid (pte_of s ?pt va)" for va
      using cl keepv [OF w that] that clear_A_same [of "pte_of s ?pt va"]
      unfolding cleared_A_def accessed_def by (cases "bit (pte_of s ?pt va) 6") auto
    then show ?thesis using run m f True kk l
      by (intro exI [of _ r] exI [of _ s'] exI [of _ fl1]) (auto simp: pg_post_def)
  qed
qed

end
