(* ===== verification/Sys_Safe.thy ===== *)
theory Sys_Safe
  imports Pgaccess
begin

text \<open>
  Safety of the system calls: a locale states what the dispatcher relies on in a handler, and
  every handler of \<open>sysproc.c\<close> is an instance. With it, a system call with any number except
  those of \<open>sysfile.c\<close> and with any arguments returns without a panic, keeps the invariants of all processes and loses no page.
\<close>

section \<open>Storing the result\<close>

lemma store_tf_page:
  assumes "page_aligned tf" "off < PGSIZE - 8" "q \<noteq> tf"
  shows "same_page m (store64 m (tf + off) v) q"
proof -
  have "PGROUNDDOWN x = tf" if x: "x - (tf + off) < 8" for x
  proof -
    have "unat (x - tf) = unat off + unat (x - (tf + off))"
    proof -
      have "x - tf = off + (x - (tf + off))" by simp
      moreover have "unat off + unat (x - (tf + off)) < 2 ^ 64"
        using x assms(2) by (simp add: word_less_nat_alt)
      ultimately show ?thesis by (simp only: unat_word_ariths(1)) simp
    qed
    then have "x - tf < PGSIZE" using x assms(2) by (simp add: word_less_nat_alt)
    then show ?thesis using assms(1) by (simp add: page_region)
  qed
  then show ?thesis using assms(3) by (auto simp: same_page_def store64_def)
qed

lemma kept_tf:
  assumes lv: "live s fl p" and off: "off < PGSIZE - 8"
  shows "kept s fl p (s\<lparr>pmem := store64 (pmem s) (p_trapframe p + off) v\<rparr>) fl" (is "kept s fl p ?s fl")
proof -
  let ?pt = "p_pagetable p" and ?tf = "p_trapframe p"
  have ps: "proc_space s fl ?pt (p_sz p) ?tf (p_usyscall p)" by (rule live_space [OF lv])
  have al: "page_aligned ?tf" and own: "?tf \<notin> account s fl ?pt" using ps by (auto simp: proc_space_def usable_def)
  have out: "same_outside {?tf} s ?s" by (auto simp: same_outside_def store_tf_page [OF al off])
  have d: "(tables s ?pt \<union> upages s ?pt) \<inter> {?tf} = {}" using own by (auto simp: account_def)
  have fp: "free_pages s fl" using live_uspace [OF lv] by (simp add: uspace_def as_inv_def)
  have "same_page (pmem s) (pmem ?s) q" if "q \<in> set fl" for q
  proof -
    have "q \<noteq> ?tf" using own that by (auto simp: account_def)
    then show ?thesis using out by (simp add: same_outside_def)
  qed
  then have fp': "free_pages ?s fl" by (intro free_pages_frame [OF fp]) simp_all
  have df: "(tables s ?pt \<union> upages s ?pt) \<inter> set fl = {}"
    using live_disjoint [OF lv] lv by (auto simp: pages_of_def live_def)
  note fr = uspace_frame [OF live_uspace [OF lv] out d fp' df]
  have acc: "account ?s fl ?pt = account s fl ?pt" by (simp only: account_def fr)
  note r = live_resize [OF lv fr(1) acc same_outside_usable [OF out] _ _ live_size [OF lv]]
  have "same_outside (set fl \<union> pages_of s p) s ?s"
    by (rule same_outside_mono [OF out]) (use lv in \<open>auto simp: pages_of_def live_def\<close>)
  then show ?thesis using r fr live_low [OF lv] by (simp add: kept_def)
qed

lemma kinv_kept:
  assumes "kinv N fl k" "p < length (procs k)" "kept (k_mem k) fl (procs k ! p) s' fl'"
  shows "kinv N fl' (set_mem s' k)" "all_pages fl' (set_mem s' k) = all_pages fl k"
  using mem_inv_kept [of fl k p s' fl'] assms by (simp_all add: kinv_def tree_inv_def)

lemma set_a0_kinv:
  assumes "kinv N fl k" "p < length (procs k)" "p_state (procs k ! p) \<noteq> UNUSED"
  shows "kinv N fl (set_a0 p v k)" "all_pages fl (set_a0 p v k) = all_pages fl k"
proof -
  have lv: "live (k_mem k) fl (procs k ! p)" using assms by (intro live_slot) (simp_all add: kinv_def)
  have "TF_A0 < PGSIZE - 8" by simp
  from kinv_kept [OF assms(1,2) kept_tf [OF lv this]]
  show "kinv N fl (set_a0 p v k)" "all_pages fl (set_a0 p v k) = all_pages fl k"
    by (simp_all add: set_a0_def)
qed

section \<open>What the dispatcher asks of a handler\<close>

definition calling :: "nat \<Rightarrow> 'fs kst \<Rightarrow> bool" where
  "calling p k \<longleftrightarrow> p < length (procs k) \<and> p_state (procs k ! p) = RUNNING \<and> cpu_noff (k_cpu k) = 0"

definition call_ok :: "nat set \<Rightarrow> u64 list \<Rightarrow> 'fs kst \<Rightarrow> nat \<Rightarrow> (outcome \<times> 'fs kst) run \<Rightarrow> bool" where
  "call_ok N fl k p m \<longleftrightarrow> (\<exists>out fl' k'. m = ret (out, k') \<and> kinv N fl' k' \<and> all_pages fl' k' = all_pages fl k \<and>
     length (procs k') = length (procs k) \<and> (\<forall>v. out = Sys_return v \<longrightarrow> p_state (procs k' ! p) \<noteq> UNUSED))"

definition finish :: "nat \<Rightarrow> outcome \<times> 'fs kst \<Rightarrow> (outcome \<times> 'fs kst) run" where
  "finish p rk = (case rk of (r, k) \<Rightarrow> case r of Sys_return v \<Rightarrow> ret (r, set_a0 p v k) | _ \<Rightarrow> ret (r, k))"

locale kernel_call =
  fixes f :: "nat \<Rightarrow> 'fs kst \<Rightarrow> (outcome \<times> 'fs kst) run" and guard :: "nat \<Rightarrow> 'fs kst \<Rightarrow> bool"
  assumes safe: "kinv N fl k \<Longrightarrow> calling p k \<Longrightarrow> guard p k \<Longrightarrow> call_ok N fl k p (f p k)"
begin

lemma finished:
  assumes "kinv N fl k" "calling p k" "guard p k"
  shows "call_ok N fl k p (rbnd (f p k) (finish p))"
proof -
  from safe [OF assms] obtain out fl' k' where
    r: "f p k = ret (out, k')" "kinv N fl' k'" "all_pages fl' k' = all_pages fl k"
      "length (procs k') = length (procs k)" "\<forall>v. out = Sys_return v \<longrightarrow> p_state (procs k' ! p) \<noteq> UNUSED"
    unfolding call_ok_def by blast
  have p: "p < length (procs k')" using r(4) assms(2) by (simp add: calling_def)
  show ?thesis
  proof (cases out)
    case (Sys_return v)
    then have u: "p_state (procs k' ! p) \<noteq> UNUSED" using r(5) by simp
    from set_a0_kinv [OF r(2) p u, of v] r Sys_return u show ?thesis
      unfolding call_ok_def by (intro exI [of _ out] exI [of _ fl'] exI [of _ "set_a0 p v k'"])
        (simp add: finish_def set_a0_def)
  qed (use r in \<open>auto simp: call_ok_def finish_def\<close>)
qed

end

lemma call_okI:
  "m = ret (out, k') \<Longrightarrow> kinv N fl' k' \<Longrightarrow> all_pages fl' k' = all_pages fl k \<Longrightarrow>
   length (procs k') = length (procs k) \<Longrightarrow> p_state (procs k' ! p) \<noteq> UNUSED \<Longrightarrow> call_ok N fl k p m"
  unfolding call_ok_def by blast

text \<open>Printing, the clock and the file system state are no part of the invariants.\<close>

lemma kinv_print [simp]: "kinv N fl (print_console c k) = kinv N fl k" "all_pages fl (print_console c k) = all_pages fl k"
  by (simp_all add: print_console_def kinv_def mem_inv_def tree_inv_def all_pages_def)

lemma print_procs [simp]: "procs (print_console c k) = procs k" "k_mem (print_console c k) = k_mem k"
  by (simp_all add: print_console_def)

section \<open>The handlers of sysproc.c\<close>

lemma calling_live:
  "kinv N fl k \<Longrightarrow> calling p k \<Longrightarrow> live (k_mem k) fl (procs k ! p)"
  by (intro live_slot) (simp_all add: kinv_def calling_def)

lemma calling_old: "kinv N fl k \<Longrightarrow> calling p k \<Longrightarrow> p \<notin> N"
  using kinv_old [of N fl k p] by (simp add: calling_def)

lemma calling_alive: "calling p k \<Longrightarrow> p < length (procs k) \<and> alive (procs k ! p) \<and> cpu_noff (k_cpu k) = 0"
  by (simp add: calling_def alive_def)

lemma args [simp]:
  "argint 0 p k = Ok (ucast (tf_reg p 112 k))" "argint (Suc 0) p k = Ok (ucast (tf_reg p 120 k))"
  "argaddr 0 p k = Ok (tf_reg p 112 k)" "argaddr 2 p k = Ok (tf_reg p 128 k)"
  by (simp_all add: argraw_def argint_def argaddr_def)

lemma pure_call:
  assumes "\<And>p k. f p (k :: 'fs kst) = ret (Sys_return (v p k), k)"
  shows "kernel_call f (\<lambda>_ _. True)"
proof
  fix N fl and k :: "'fs kst" and p assume "kinv N fl k" "calling p k" "True"
  then show "call_ok N fl k p (f p k)" by (intro call_okI [OF assms]) (simp_all add: calling_def)
qed

interpretation getpid_call: kernel_call sys_getpid "\<lambda>_ _. True"
  by (rule pure_call) (simp add: sys_getpid_def)

interpretation uptime_call: kernel_call sys_uptime "\<lambda>_ _. True"
  by (rule pure_call) (simp add: sys_uptime_def)

interpretation vmprint_call: kernel_call sys_vmprint "\<lambda>_ _. True"
proof
  fix N fl and k :: "'a kst" and p assume "kinv N fl k" "calling p k" "True"
  then show "call_ok N fl k p (sys_vmprint p k)"
    by (intro call_okI [of _ "Sys_return 0" "print_console (Vm_table (vmprint (p_pagetable (procs k ! p)) (k_mem k))) k" N fl])
      (simp_all add: sys_vmprint_def calling_def)
qed

interpretation kill_call: kernel_call sys_kill "\<lambda>_ _. True"
proof
  fix N fl and k :: "'a kst" and p assume k: "kinv N fl k" "calling p k" "True"
  obtain r k' where r: "kkill (ucast (tf_reg p 112 k)) k = (r, k')" by force
  have s: "list_all2 same_space (procs k) (procs k')"
    using kill_same_space [of "ucast (tf_reg p 112 k)" "procs k"] r
    by (auto simp: kkill_def list_all2_same split: prod.splits if_splits)
  then have "same_space (procs k ! p) (procs k' ! p)" using k(2) by (auto simp: calling_def dest: list_all2_nthD)
  then have "p_state (procs k' ! p) \<noteq> UNUSED" using k(2) by (simp add: same_space_def calling_def)
  moreover have "sys_kill p k = ret (Sys_return (of_int r), k')" using r by (simp add: sys_kill_def)
  moreover have "kinv N fl k'" "all_pages fl k' = all_pages fl k"
    using kkill_kinv [OF k(1), of "ucast (tf_reg p 112 k)"] kkill_mem [of fl k "ucast (tf_reg p 112 k)"] k(1) r
    by (simp_all add: kinv_def)
  ultimately show "call_ok N fl k p (sys_kill p k)"
    using list_all2_lengthD [OF s] by (intro call_okI) simp_all
qed

interpretation fork_call: kernel_call "sys_fork e" "\<lambda>_ _. True" for e :: "'fs sysenv"
proof
  fix N fl and k :: "'fs kst" and p assume k: "kinv N fl k" "calling p k" "True"
  from kfork_kinv [OF k(1), of p "e_fs e"] calling_alive [OF k(2)] obtain r fl' k' where
    f: "kfork (e_fs e) p k = ret (r, k')" and post: "fork_post (e_fs e) p fl k r fl' k'" and inv: "kinv N fl' k'" by blast
  have "procs k' ! p = procs k ! p \<and> length (procs k') = length (procs k)"
  proof (cases "find_unused k")
    case None
    then show ?thesis using post by (simp add: fork_post_def)
  next
    case (Some np)
    then show ?thesis using post unfolding fork_post_def Some option.case fork_ok_def
      by (auto dest!: kst_slot)
  qed
  then show "call_ok N fl k p (sys_fork e p k)"
    using f inv post k(2) by (intro call_okI [of _ "Sys_return (scast r)" k' N fl'])
      (simp_all add: sys_fork_def fork_post_def calling_def)
qed

interpretation exit_call: kernel_call "sys_exit e" "\<lambda>p k. initproc k \<noteq> Some p" for e :: "'fs sysenv"
proof
  fix N fl and k :: "'fs kst" and p assume k: "kinv N fl k" "calling p k" "initproc k \<noteq> Some p"
  define n :: i32 where "n = ucast (tf_reg p 112 k)"
  let ?k = "exited (e_fs e) p n k"
  have p: "p < length (procs k)" "alive (procs k ! p)" "cpu_noff (k_cpu k) = 0" using calling_alive [OF k(2)] by auto
  have "kexit (e_fs e) p n k = Ok ?k"
    using k(3) switch_ok [of ?k p] p(3) exited_self(1) [OF p(1)] by (simp add: kexit_exited)
  then have "sys_exit e p k = ret (Sys_exited, ?k)" by (simp add: sys_exit_def n_def)
  moreover have "all_pages fl ?k = all_pages fl k"
    by (rule exited_mem(2)) (use k p in \<open>auto simp: kinv_def calling_def\<close>)
  ultimately show "call_ok N fl k p (sys_exit e p k)"
    using exited_kinv [OF k(1) p(1,2) k(3) calling_old [OF k(1,2)]] unfolding call_ok_def
    by (intro exI [of _ Sys_exited] exI [of _ fl] exI [of _ ?k]) simp
qed

interpretation wait_call: kernel_call sys_wait "\<lambda>_ _. True"
proof
  fix N fl and k :: "'a kst" and p assume k: "kinv N fl k" "calling p k" "True"
  have p: "p < length (procs k)" "alive (procs k ! p)" "cpu_noff (k_cpu k) = 0" using calling_alive [OF k(2)] by auto
  from kwait_spec [OF k(1) p(1,2) calling_old [OF k(1,2)] p(3), of "tf_reg p 112 k"] obtain res fl' k' where
    w: "kwait p (tf_reg p 112 k) k = ret (res, k')" and post: "wait_post N p (tf_reg p 112 k) fl k res fl' k'" by blast
  have inv: "kinv N fl' k'" "all_pages fl' k' = all_pages fl k" using post by (simp_all add: wait_post_def)
  have "length (procs k') = length (procs k) \<and> p_state (procs k' ! p) \<noteq> UNUSED"
  proof (cases "find (zombie_child p k) [0..<length (procs k)]")
    case None
    then show ?thesis using post k(2)
      by (auto simp: wait_post_def waiting_def calling_def split: if_splits)
  next
    case (Some i)
    then have "i \<noteq> p" using k(2) by (auto simp: find_Some_iff zombie_child_def calling_def)
    then show ?thesis using post k(2) unfolding wait_post_def Some option.case reap_post_def
      by (auto simp: calling_def)
  qed
  then show "call_ok N fl k p (sys_wait p k)"
    using w inv by (cases res) (auto intro!: call_okI simp: sys_wait_def)
qed

lemma live_bigger:
  assumes lv: "live s fl p" and sz: "p_sz p \<le> sz" "sz \<le> USYSCALL"
  shows "live s fl (p\<lparr>p_sz := sz\<rparr>)" "pages_of s (p\<lparr>p_sz := sz\<rparr>) = pages_of s p"
proof -
  have "p_sz p \<le> PGROUNDUP sz"
    using PGROUNDUP_least(1) [OF USYSCALL_limits(2) [OF sz(2)]] sz(1) by simp
  then have le: "PGROUNDUP (p_sz p) \<le> PGROUNDUP sz"
    by (rule PGROUNDUP_least(2) [OF USYSCALL_limits(2) [OF live_size [OF lv]] PGROUNDUP_aligned])
  show "live s fl (p\<lparr>p_sz := sz\<rparr>)"
    by (rule live_resize(1) [OF lv live_uspace [OF lv] refl refl])
      (use live_low [OF lv] le sz(2) in \<open>auto intro: less_le_trans\<close>)
  show "pages_of s (p\<lparr>p_sz := sz\<rparr>) = pages_of s p" by (simp add: pages_of_def)
qed

lemma bigger_kinv:
  assumes inv: "kinv N fl k" and p: "p < length (procs k)" "p_state (procs k ! p) \<noteq> UNUSED"
    and sz: "p_sz (procs k ! p) \<le> sz" "sz \<le> USYSCALL" and k': "k' = upd p (\<lambda>q. q\<lparr>p_sz := sz\<rparr>) k"
  shows "kinv N fl k'" "all_pages fl k' = all_pages fl k"
proof -
  have mi: "mem_inv fl k" using inv by (simp add: kinv_def)
  note b = live_bigger [OF live_slot [OF mi p] sz]
  have ok: "proc_ok (k_mem k) fl ((procs k ! p)\<lparr>p_sz := sz\<rparr>)" using b(1) by (simp add: proc_ok_def)
  have ps: "procs k' = (procs k)[p := (procs k ! p)\<lparr>p_sz := sz\<rparr>]" "k_mem k' = k_mem k" by (simp_all add: k')
  note m = mem_inv_upd [OF mi p(1) ps(2,1) same_outside_refl mem_inv_free [OF mi] ok]
  have t: "list_all2 same_tree (procs k) (procs k')"
    using p(1) by (auto simp: ps list_all2_conv_all_nth nth_list_update same_tree_def)
  have "tree_inv N k'"
    by (rule tree_inv_same [OF _ _ t]) (use inv p(1) in \<open>auto simp: kinv_def k' nth_list_update\<close>)
  then show "kinv N fl k'" "all_pages fl k' = all_pages fl k" using m b(2) by (simp_all add: kinv_def)
qed

text \<open>
  What \<open>sys_sbrk\<close> does to the size: it grows or shrinks by \<open>n\<close> with the old size as result, or
  fails and leaves it; the lazy branch and every failure leave the page table alone.
\<close>

definition sbrk_post :: "i32 \<Rightarrow> i32 \<Rightarrow> i32 \<Rightarrow> nat \<Rightarrow> 'fs kst \<Rightarrow> u64 \<Rightarrow> 'fs kst \<Rightarrow> bool" where
  "sbrk_post eager n t p k v k' \<longleftrightarrow> (\<exists>sz. procs k' = (procs k)[p := (procs k ! p)\<lparr>p_sz := sz\<rparr>] \<and> sz \<le> USYSCALL \<and>
     (let old = p_sz (procs k ! p) in
      v = old \<and> (if sint n < 0 \<and> old \<le> old + scast n then sz = old else sz = old + scast n) \<or>
      v = -1 \<and> sz = old) \<and>
     (t \<noteq> eager \<and> 0 \<le> sint n \<longrightarrow> k_mem k' = k_mem k \<and>
        (v = -1 \<longleftrightarrow> unat (p_sz (procs k ! p)) + nat (sint n) > unat USYSCALL)))"

lemma scast_zero: "sint (n :: i32) = 0 \<Longrightarrow> (scast n :: u64) = 0"
proof -
  assume "sint n = 0"
  then have "sint n = sint 0" by simp
  then have "n = 0" by (rule signed_word_eqI)
  then show ?thesis by simp
qed

lemma lazy_limit:
  assumes "0 \<le> sint (n :: i32)" "(sz :: u64) \<le> USYSCALL"
  shows "\<not> sz + scast n < sz" "unat (sz + scast n) = unat sz + nat (sint n)"
    "sz + scast n > USYSCALL \<longleftrightarrow> unat sz + nat (sint n) > unat USYSCALL"
proof -
  have "unat sz + nat (sint n) < 2 ^ 64"
    using assms unat_scast(2) [OF assms(1)] by (simp add: word_le_nat_alt layout_vals)
  then show u: "unat (sz + scast n) = unat sz + nat (sint n)"
    using unat_scast(1) [OF assms(1)] by (simp add: unat_word_ariths(1))
  show "\<not> sz + scast n < sz" unfolding word_less_nat_alt u by simp
  show "sz + scast n > USYSCALL \<longleftrightarrow> unat sz + nat (sint n) > unat USYSCALL" unfolding word_less_nat_alt u ..
qed

lemma sys_sbrk_spec:
  assumes k: "kinv N fl k" and p: "p < length (procs k)" "p_state (procs k ! p) \<noteq> UNUSED"
    and n: "n = ucast (tf_reg p 112 k)" and t: "t = ucast (tf_reg p 120 k)"
  shows "\<exists>v fl' k'. sys_sbrk e p k = ret (Sys_return v, k') \<and> kinv N fl' k' \<and> all_pages fl' k' = all_pages fl k \<and>
    sbrk_post (e_sbrk_eager e) n t p k v k'"
proof -
  have mi: "mem_inv fl k" using k by (simp add: kinv_def)
  have lv: "live (k_mem k) fl (procs k ! p)" by (rule live_slot [OF mi p])
  let ?old = "p_sz (procs k ! p)"
  have old: "?old \<le> USYSCALL" by (rule live_size [OF lv])
  have run: "sys_sbrk e p k = lift (if t = e_sbrk_eager e \<or> sint n < 0
      then bnd (growproc p n k) (\<lambda>(r, k). if r < 0 then Ok (Sys_return (-1), k) else Ok (Sys_return ?old, k))
      else if ?old + scast n < ?old then Ok (Sys_return (-1), k)
      else if ?old + scast n > USYSCALL then Ok (Sys_return (-1), k)
      else Ok (Sys_return ?old, upd p (\<lambda>q. q\<lparr>p_sz := p_sz q + scast n\<rparr>) k))"
    unfolding n t by (simp add: sys_sbrk_def Let_def)
  have same: "procs k = (procs k)[p := (procs k ! p)\<lparr>p_sz := ?old\<rparr>]" by simp
  show ?thesis
  proof (cases "t = e_sbrk_eager e \<or> sint n < 0")
    case True
    from growproc_spec [OF mi p(1) lv, of n] obtain r fl' k' sz where
      g: "growproc p n k = Ok (r, k')" "size_post fl p k sz fl' k'"
      and c: "r = 0 \<and> sz = ?old + scast n \<and> \<not> (sint n < 0 \<and> ?old \<le> ?old + scast n) \<or>
        r = 0 \<and> sint n < 0 \<and> ?old \<le> ?old + scast n \<and> sz = ?old \<or> r = -1 \<and> sz = ?old \<or>
        r = 0 \<and> sint n = 0 \<and> sz = ?old"
      by (auto simp: Let_def not_le)
    then have k': "k' = upd p (\<lambda>q. q\<lparr>p_sz := sz\<rparr>) (set_mem (k_mem k') k)" by (simp add: size_post_def)
    have ps: "procs k' = (procs k)[p := (procs k ! p)\<lparr>p_sz := sz\<rparr>]" using arg_cong [OF k', of procs] by simp
    have c': "r = 0 \<and> (if sint n < 0 \<and> ?old \<le> ?old + scast n then sz = ?old else sz = ?old + scast n) \<or>
        r = -1 \<and> sz = ?old" using c scast_zero [of n] by auto
    have "tree_inv N k'" using growproc_kinv [OF k p, of n] g(1) by (auto simp: kinv_def)
    then have inv: "kinv N fl' k'" "all_pages fl' k' = all_pages fl k" using g(2) by (simp_all add: kinv_def size_post_def)
    have "p_state (procs k' ! p) \<noteq> UNUSED" using p by (simp add: ps)
    then have "live (k_mem k') fl' (procs k' ! p)"
      using inv(1) p(1) by (intro live_slot) (simp_all add: kinv_def ps)
    then have sz: "sz \<le> USYSCALL" using live_size p(1) by (fastforce simp: ps)
    define v where "v = (if r < 0 then -1 else ?old)"
    have "sys_sbrk e p k = ret (Sys_return v, k')" using run True g(1) by (simp add: v_def)
    moreover have "sbrk_post (e_sbrk_eager e) n t p k v k'"
      using c' True sz ps unfolding sbrk_post_def v_def by (intro exI [of _ sz]) (auto simp: Let_def)
    ultimately show ?thesis using inv by blast
  next
    case False
    then have pos: "0 \<le> sint n" "\<not> (t = e_sbrk_eager e \<or> sint n < 0)" by simp_all
    note lim = lazy_limit [OF pos(1) old]
    show ?thesis
    proof (cases "?old + scast n > USYSCALL")
      case True
      then have "sys_sbrk e p k = ret (Sys_return (-1), k)" using run pos(2) lim(1) by simp
      moreover have "sbrk_post (e_sbrk_eager e) n t p k (-1) k"
        using True lim(3) old same unfolding sbrk_post_def by (intro exI [of _ ?old]) (simp add: Let_def)
      ultimately show ?thesis using k by blast
    next
      case small: False
      let ?k = "upd p (\<lambda>q. q\<lparr>p_sz := ?old + scast n\<rparr>) k"
      have eq: "upd p (\<lambda>q. q\<lparr>p_sz := p_sz q + scast n\<rparr>) k = ?k" by (simp add: upd_def)
      have "?old \<le> ?old + scast n" "?old + scast n \<le> USYSCALL" using lim(1) small by (simp_all add: not_less)
      note b = bigger_kinv [OF k p this refl]
      have "\<not> (-1 :: u64) \<le> USYSCALL" by code_simp
      then have "?old \<noteq> -1" using old by auto
      then have "sbrk_post (e_sbrk_eager e) n t p k ?old ?k"
        using small lim(3) pos unfolding sbrk_post_def by (intro exI [of _ "?old + scast n"]) (simp add: Let_def)
      moreover have "sys_sbrk e p k = ret (Sys_return ?old, ?k)" using run pos(2) lim(1) small eq by simp
      ultimately show ?thesis using b by blast
    qed
  qed
qed

interpretation sbrk_call: kernel_call "sys_sbrk e" "\<lambda>_ _. True" for e :: "'fs sysenv"
proof
  fix N fl and k :: "'fs kst" and p assume k: "kinv N fl k" "calling p k" "True"
  then have p: "p < length (procs k)" "p_state (procs k ! p) \<noteq> UNUSED" by (simp_all add: calling_def)
  from sys_sbrk_spec [OF k(1) p refl refl, of e] obtain v fl' k' where
    s: "sys_sbrk e p k = ret (Sys_return v, k')" "kinv N fl' k'" "all_pages fl' k' = all_pages fl k"
    and "sbrk_post (e_sbrk_eager e) (ucast (tf_reg p 112 k)) (ucast (tf_reg p 120 k)) p k v k'" by blast
  from this(4) have "length (procs k') = length (procs k)" "p_state (procs k' ! p) \<noteq> UNUSED"
    using p by (auto simp: sbrk_post_def)
  then show "call_ok N fl k p (sys_sbrk e p k)" by (rule call_okI [OF s])
qed

lemma sleep_kinv:
  assumes k: "kinv N fl k" "calling p k" and c: "c \<noteq> Null"
  shows "\<exists>k'. bnd (sleep_prepare p c k) (sleep p) = Ok k' \<and> kinv N fl k' \<and> all_pages fl k' = all_pages fl k \<and>
    length (procs k') = length (procs k)"
proof -
  define k' where "k' = upd p (\<lambda>q. q\<lparr>p_chan := c, p_state := SLEEPING\<rparr>) k"
  have p: "p < length (procs k)" "p_state (procs k ! p) = RUNNING" "cpu_noff (k_cpu k) = 0"
    using k(2) by (simp_all add: calling_def)
  have eq: "upd p (\<lambda>q. q\<lparr>p_state := SLEEPING\<rparr>) (upd p (\<lambda>q. q\<lparr>p_chan := c\<rparr>) k) = k'"
    using p by (simp add: k'_def upd_def)
  have "switch p k' = Ok k'" using p by (intro switch_ok) (simp_all add: k'_def)
  then have run: "bnd (sleep_prepare p c k) (sleep p) = Ok k'"
    using c p eq by (simp add: sleep_prepare_def sleep_def)
  have s: "same_space (procs k ! p) ((procs k ! p)\<lparr>p_chan := c, p_state := SLEEPING\<rparr>)"
    "same_tree (procs k ! p) ((procs k ! p)\<lparr>p_chan := c, p_state := SLEEPING\<rparr>)"
    using p c by (auto simp: same_space_def same_tree_def)
  have "kinv N fl k'" unfolding k'_def by (rule upd_kinv [OF k(1)]) (use s calling_old [OF k] in simp_all)
  moreover have "all_pages fl k' = all_pages fl k" unfolding k'_def
    using mem_inv_upd_same [of fl k p "\<lambda>q. q\<lparr>p_chan := c, p_state := SLEEPING\<rparr>"] s(1) k(1) by (simp add: kinv_def)
  ultimately show ?thesis using run by (simp add: k'_def)
qed

lemma pause_round_ok:
  assumes k: "kinv N fl k" "calling p k"
  shows "call_ok N fl k p (lift (pause_round e n t0 p k))"
proof (cases "k_ticks k - t0 < n \<and> killed p k = 0")
  case True
  from sleep_kinv [OF k, of "Obj_chan (e_ticks_addr e)"] obtain k' where
    s: "bnd (sleep_prepare p (Obj_chan (e_ticks_addr e)) k) (sleep p) = Ok k'" "kinv N fl k'"
      "all_pages fl k' = all_pages fl k" "length (procs k') = length (procs k)" by auto
  then have "pause_round e n t0 p k = Ok (Sys_sleep, k')"
    using True by (auto simp: pause_round_def res_simps)
  then show ?thesis using s unfolding call_ok_def by auto
next
  case False
  then show ?thesis using k by (auto simp: pause_round_def call_ok_def calling_def)
qed

interpretation pause_call: kernel_call "sys_pause e" "\<lambda>_ _. True" for e :: "'fs sysenv"
proof
  fix N fl and k :: "'fs kst" and p assume "kinv N fl k" "calling p k" "True"
  then show "call_ok N fl k p (sys_pause e p k)" by (simp add: sys_pause_def Let_def pause_round_ok)
qed

interpretation pgaccess_call: kernel_call sys_pgaccess "\<lambda>_ _. True"
proof
  fix N fl and k :: "'a kst" and p assume k: "kinv N fl k" "calling p k" "True"
  then have p: "p < length (procs k)" by (simp add: calling_def)
  from pgaccess_live [OF calling_live [OF k(1,2)]] obtain r s' fl' where
    run: "pgaccess (p_pagetable (procs k ! p)) (p_sz (procs k ! p)) (tf_reg p 112 k) (ucast (tf_reg p 120 k))
      (tf_reg p 128 k) (k_mem k) = Ok (r, s')" and "kept (k_mem k) fl (procs k ! p) s' fl'"
    unfolding pg_post_def by blast
  from kinv_kept [OF k(1) p this(2)] run k(2) show "call_ok N fl k p (sys_pgaccess p k)"
    by (intro call_okI [of _ "Sys_return r" "set_mem s' k" N fl']) (simp_all add: sys_pgaccess_def calling_def)
qed

section \<open>Every system call\<close>

lemma syscall_finish:
  "syscall e p (k :: 'fs kst) = (let num = (ucast (tf_reg p TF_A7 k) :: i32) in
     case (if sint num > 0 \<and> sint num < NSYSCALLS then syscalls e (nat (sint num)) else None) of
       Some f \<Rightarrow> rbnd (f p k) (finish p)
     | None \<Rightarrow> let k = print_console (Unknown_call (p_pid (procs k ! p)) (p_name (procs k ! p)) num) k
               in ret (Sys_return (-1), set_a0 p (-1) k))"
proof -
  have "finish p = (\<lambda>(r, k :: 'fs kst). case r of Sys_return v \<Rightarrow> ret (r, set_a0 p v k) | _ \<Rightarrow> ret (r, k))"
    by (simp add: finish_def fun_eq_iff)
  then show ?thesis unfolding syscall_def by (simp only:)
qed

text \<open>The numbers of the calls of \<open>sysfile.c\<close>.\<close>

definition sysfile_calls :: "nat list" where
  "sysfile_calls = [4, 5, 7, 8, 9, 10, 15, 16, 17, 18, 19, 20, 21, 22]"

lemma table_call:
  assumes "syscalls e n = Some f" "n \<notin> set sysfile_calls" "n = 2 \<longrightarrow> initproc k \<noteq> Some p"
    and k: "kinv N fl k" "calling p k"
  shows "call_ok N fl k p (rbnd (f p k) (finish p))"
proof -
  note calls = fork_call.finished exit_call.finished wait_call.finished kill_call.finished
    getpid_call.finished sbrk_call.finished pause_call.finished uptime_call.finished
    vmprint_call.finished pgaccess_call.finished
  have "n \<in> {4, 5, 7, 8, 9, 10, 15, 16, 17, 18, 19, 20, 21, 22}"
    if "n \<notin> {1, 2, 3, 6, 11, 12, 13, 14, 23, 24}" "1 \<le> n" "n \<le> 22" using that by simp presburger
  then show ?thesis using assms(1-3) k unfolding syscalls_def sysfile_calls_def
    by (auto split: if_splits intro: calls)
qed

lemma syscall_call_ok:
  assumes k: "kinv N fl k" "calling p k" and num: "num = (ucast (tf_reg p TF_A7 k) :: i32)"
    and nf: "nat (sint num) \<notin> set sysfile_calls" and ex: "num = 2 \<longrightarrow> initproc k \<noteq> Some p"
  shows "call_ok N fl k p (syscall e p k)"
proof -
  define h where "h = (if sint num > 0 \<and> sint num < NSYSCALLS then syscalls e (nat (sint num)) else None)"
  show ?thesis
  proof (cases h)
    case None
    let ?c = "Unknown_call (p_pid (procs k ! p)) (p_name (procs k ! p)) num"
    have "syscall e p k = ret (Sys_return (-1), set_a0 p (-1) (print_console ?c k))"
      unfolding syscall_finish using None by (simp add: Let_def h_def num [symmetric])
    moreover have "kinv N fl (print_console ?c k)" "p < length (procs (print_console ?c k))"
      "p_state (procs (print_console ?c k) ! p) \<noteq> UNUSED" using k by (simp_all add: calling_def)
    note a = set_a0_kinv [OF this, of "-1"]
    ultimately show ?thesis
      using k(2) a by (intro call_okI [of _ "Sys_return (-1)" "set_a0 p (-1) (print_console ?c k)" N fl])
        (simp_all add: set_a0_def calling_def)
  next
    case (Some f)
    then have f: "syscalls e (nat (sint num)) = Some f" and pos: "sint num > 0" by (auto simp: h_def split: if_splits)
    have "nat (sint num) = 2 \<longrightarrow> initproc k \<noteq> Some p"
    proof
      assume "nat (sint num) = 2"
      then have "sint num = sint (2 :: i32)" using pos by simp
      then have "num = 2" by (rule signed_word_eqI)
      then show "initproc k \<noteq> Some p" using ex by simp
    qed
    from table_call [OF f nf this k] Some show ?thesis
      unfolding syscall_finish by (simp add: Let_def h_def num [symmetric])
  qed
qed

lemma syscall_exit_init:
  assumes "initproc k = Some p" "ucast (tf_reg p TF_A7 k) = (2 :: i32)"
  shows "syscall e p k = Some (Panic ''init exiting'')"
  using assms by (simp add: syscall_finish syscalls_def sys_exit_def kexit_def)

end
