(* ===== verification/Mem_Steps.thy ===== *)
theory Mem_Steps
  imports Sys_Safe
begin

text \<open>
  What happens to the memory of a process while it runs, without any change in the process
  table: the copies and page faults of the kernel, the trapframe that a trap saves, and what the
  program and the hardware do in user mode. Every such step keeps the invariant of the process.
\<close>

section \<open>User mode\<close>

text \<open>
  A store instruction of the program, through its page table, and the accessed bit that the
  hardware sets in the entry of a page it translates.
\<close>

definition store_user :: "u64 \<Rightarrow> u64 \<Rightarrow> u8 \<Rightarrow> phys \<Rightarrow> phys" where
  "store_user pt va b s = s\<lparr>pmem := (pmem s)(page_of s pt va + (va - PGROUNDDOWN va) := b)\<rparr>"

definition set_accessed :: "u64 \<Rightarrow> u64 \<Rightarrow> phys \<Rightarrow> phys" where
  "set_accessed pt va s =
     s\<lparr>pmem := store64 (pmem s) (leaf (pmem s) 2 pt va) (pte_of s pt va OR PTE_A)\<rparr>"

lemma same_but_A_set [simp]: "same_but_A e (e OR PTE_A)"
  by (simp add: same_but_A_def bit_or_iff bit_pte_bits)

lemma live_but_A:
  assumes lv: "live s fl p" and m: "map_but_A s s' (p_pagetable p)"
    and t: "touched s (p_pagetable p) [] s'" and inv: "as_inv s' fl 2 (p_pagetable p)"
  shows "kept s fl p s' fl"
proof -
  let ?pt = "p_pagetable p"
  have ps: "proc_space s fl ?pt (p_sz p) (p_trapframe p) (p_usyscall p)" by (rule live_space [OF lv])
  note u = uspace_but_A [OF live_uspace [OF lv] inv t m] and mm = map_but_A_mapped [OF m]
  have e: "same_but_A (pte_of s ?pt va) (pte_of s' ?pt va)" if "va < VATOP" for va
    using m that by (simp add: map_but_A_def)
  note eU = same_but_A_sel [OF e [OF fixed_VATOP(3)]]
  have "valid (pte_of s' ?pt va) = valid (pte_of s ?pt va)" if "va < VATOP" for va
    by (rule same_but_A_sel(1) [OF e [OF that]])
  then have sp: "proc_space s' fl ?pt (p_sz p) (p_trapframe p) (p_usyscall p)"
    using ps u(1,2,3) eU by (simp add: proc_space_def mm)
  have "pid_page s' ?pt (p_pid p)"
    using lv u(4) proc_space_pid_mapped [OF ps] by (simp add: live_def pid_page_def)
  then have lv': "live s' fl p" using lv sp by (simp add: live_def)
  have "set fl \<union> pages_of s' p = set fl \<union> pages_of s p"
    using live_account [OF lv] live_account [OF lv'] u(2) by simp
  moreover have "same_outside (set fl \<union> pages_of s p) s s'"
    by (rule same_outside_mono [OF touched_outside [OF t]]) (use lv in \<open>auto simp: pages_of_def live_def\<close>)
  ultimately show ?thesis using lv' by (simp add: kept_def)
qed

lemma set_accessed_pte:
  assumes lv: "live s fl p" and va: "va < MAXVA" "valid (pte_of s (p_pagetable p) va)" "x < VATOP"
  shows "pte_of (set_accessed (p_pagetable p) va s) (p_pagetable p) x =
    (if PGROUNDDOWN x = PGROUNDDOWN va then pte_of s (p_pagetable p) x OR PTE_A else pte_of s (p_pagetable p) x)"
    "kept s fl p (set_accessed (p_pagetable p) va s) fl"
proof -
  let ?pt = "p_pagetable p" and ?s = "set_accessed (p_pagetable p) va s"
  have inv: "as_inv s fl 2 ?pt" by (rule uspace_as_inv [OF live_uspace [OF lv]])
  have lf: "leaf (pmem s) 2 ?pt va \<noteq> 0" using no_leaf [OF inv, of va] va(2) by force
  note st = store_pte [OF inv va(1) lf set_accessed_def]
  have eq: "pte_of ?s ?pt x = (if PGROUNDDOWN x = PGROUNDDOWN va then pte_of s ?pt x OR PTE_A else pte_of s ?pt x)"
    if "x < VATOP" for x
    using st(4) [OF that] pte_of_PGROUNDDOWN [of s ?pt x] pte_of_PGROUNDDOWN [of s ?pt va] by metis
  then show "pte_of ?s ?pt x = (if PGROUNDDOWN x = PGROUNDDOWN va then pte_of s ?pt x OR PTE_A else pte_of s ?pt x)"
    using va(3) .
  show "kept s fl p ?s fl"
    by (rule live_but_A [OF lv _ st(2,1)]) (simp add: map_but_A_def eq)
qed

lemma store_user_kept:
  assumes lv: "live s fl p" and va: "va < TRAPFRAME" "user_wpte (pte_of s (p_pagetable p) va)"
  shows "kept s fl p (store_user (p_pagetable p) va b s) fl"
proof -
  let ?pt = "p_pagetable p" and ?s = "store_user (p_pagetable p) va b s"
  have a0: "page_aligned (PGROUNDDOWN va)" "PGROUNDDOWN va < TRAPFRAME"
    using va(1) PGROUNDDOWN_le [of va] by simp_all
  have w: "user_wpte (pte_of s ?pt (PGROUNDDOWN va))" using va(2) by (simp add: pte_of_PGROUNDDOWN)
  then have u: "user_pte (pte_of s ?pt (PGROUNDDOWN va))" by (simp add: user_wpte_def)
  have len: "length [b] \<le> 4096 - unat (va - PGROUNDDOWN va)"
    using PGROUNDDOWN_offset [of va] by (simp add: word_less_nat_alt)
  have eq: "?s = s\<lparr>pmem := write_bytes (pmem s) (page_of s ?pt (PGROUNDDOWN va) + (va - PGROUNDDOWN va)) [b]\<rparr>"
  proof -
    have "(pmem s)(x := b) = write_bytes (pmem s) x [b]" for x
      by (auto simp: write_bytes_def fun_eq_iff unat_eq_zero)
    then show ?thesis by (simp only: store_user_def page_of_PGROUNDDOWN)
  qed
  note wu = write_user(1,2) [OF live_uspace [OF lv] a0 u refl len eq, where psz = "p_sz p"]
  have "pte_of ?s ?pt = pte_of s ?pt" by (rule write_user(3) [OF live_uspace [OF lv] a0 u refl len eq])
  then have "write_post s fl ?pt (p_sz p) va [b] 0 ?s"
    unfolding write_post_def using wu va by (intro exI [of _ fl] exI [of _ 1]) simp
  from live_write_prefix [OF lv this] obtain fl' where k: "kept s fl p ?s fl'" by blast
  then have "free_pages ?s fl'" using live_uspace [of ?s fl' p] by (simp add: kept_def uspace_def as_inv_def)
  moreover have "free_pages ?s fl" using wu(1) by (simp add: keeps_def uspace_def as_inv_def)
  ultimately have "fl' = fl" using ka.pool_unique by blast
  then show ?thesis using k by simp
qed

section \<open>The steps\<close>

text \<open>
  The first five are calls of the kernel on behalf of the process, \<open>frame\<close> is a register saved in its
  trapframe on the way into the kernel or changed by it, and the last two are user mode.
\<close>

inductive mem_step :: "proc \<Rightarrow> phys \<Rightarrow> phys \<Rightarrow> bool" for q s where
  fault: "mem_step q s s'" if "vmfault (p_pagetable q) (p_sz q) va rd s = Ok (r, s')"
| copyout: "mem_step q s s'" if "copyout (p_pagetable q) (p_sz q) va bs s = Ok (r, s')" "length bs < 2 ^ 64"
| copyin: "mem_step q s s'" if "copyin (p_pagetable q) (p_sz q) va n s = Ok (r, bs, s')"
| copyinstr: "mem_step q s s'" if "copyinstr (p_pagetable q) (p_sz q) va n s = Ok (r, bs, s')"
| pgaccess: "mem_step q s s'" if "pgaccess (p_pagetable q) (p_sz q) base np maskaddr s = Ok (r, s')"
| frame: "mem_step q s (s\<lparr>pmem := store64 (pmem s) (p_trapframe q + off) v\<rparr>)" if "off < TF_SIZE"
| store: "mem_step q s (store_user (p_pagetable q) va b s)"
    if "va < MAXVA" "user_wpte (pte_of s (p_pagetable q) va)"
| accessed: "mem_step q s (set_accessed (p_pagetable q) va s)"
    if "va < MAXVA" "valid (pte_of s (p_pagetable q) va)"

lemma user_low:
  assumes lv: "live s fl p" and va: "va < MAXVA" "user_wpte (pte_of s (p_pagetable p) va)"
  shows "va < TRAPFRAME"
proof (rule ccontr)
  assume "\<not> va < TRAPFRAME"
  then have "\<not> bit (pte_of s (p_pagetable p) va) 4"
    using live_uspace [OF lv] va MAXVA_VATOP [of va] by (auto simp: uspace_def user_wpte_def user_pte_def)
  then show False using va(2) by (simp add: user_wpte_def user_pte_def)
qed

lemma mem_step_kept:
  assumes "mem_step q s s'" and lv: "live s fl q"
  shows "\<exists>fl'. kept s fl q s' fl'"
  using assms(1)
proof cases
  case (fault va rd r)
  then show ?thesis
    using vmfault_spec [OF live_uspace [OF lv] live_limits(1) [OF lv], of va rd] live_read [OF lv] by auto
next
  case (copyout va bs r)
  then show ?thesis
    using copyout_spec [OF live_uspace [OF lv] live_limits(1) [OF lv], of bs va] live_write [OF lv] by auto
next
  case (copyin va n r bs)
  then show ?thesis
    using copyin_spec [OF live_uspace [OF lv] live_limits(1) [OF lv], of va n] live_read [OF lv]
    by (auto simp: read_post_def)
next
  case (copyinstr va n r bs)
  then show ?thesis
    using copyinstr_spec [OF live_uspace [OF lv] live_limits(1) [OF lv], of va n] live_read [OF lv]
    by (auto simp: read_ok_def)
next
  case (pgaccess base np maskaddr r)
  then show ?thesis using pgaccess_live [OF lv, of base np maskaddr] by (auto simp: pg_post_def)
next
  case (frame off v)
  have "off < PGSIZE - 8" using frame(2) by (simp add: word_less_nat_alt)
  then show ?thesis using kept_tf [OF lv] frame(1) by blast
next
  case (store va b)
  then show ?thesis using store_user_kept [OF lv user_low [OF lv]] by blast
next
  case (accessed va)
  then show ?thesis using set_accessed_pte(2) [OF lv accessed(2,3), of 0] by (auto simp: word_less_nat_alt)
qed

end
