(* ===== verification/Proc_Boot.thy ===== *)
theory Proc_Boot
  imports Proc_Wait
begin

text \<open>
  The first process: \<open>userinit\<close> on a booted machine establishes the invariants.
\<close>

section \<open>The first process\<close>

definition booted :: "u64 list \<Rightarrow> 'fs kst \<Rightarrow> bool" where
  "booted fl k \<longleftrightarrow> free_pages (k_mem k) fl \<and> procs k \<noteq> [] \<and>
     (\<forall>p \<in> set (procs k). idle p \<and> p_parent p = None)"

lemma booted_mem: "booted fl k \<Longrightarrow> mem_inv fl k"
  by (auto simp: booted_def mem_inv_def proc_ok_def idle_unused dest: nth_mem)

lemma booted_all: "booted fl k \<Longrightarrow> all_pages fl k = set fl"
  by (auto simp: booted_def all_pages_def idle_unused)

lemma booted_unused: "booted fl k \<Longrightarrow> find_unused k = Some 0"
  by (cases "procs k") (auto simp: booted_def find_unused_def upt_conv_Cons idle_unused simp del: upt_Suc)

lemma userinit_kinv:
  assumes b: "booted fl k" and few: "8 < length fl"
  shows "\<exists>fl' k'. userinit fs k = ret k' \<and> kinv {} fl' k' \<and> all_pages fl' k' = set fl \<and>
    initproc k' = Some 0 \<and> p_state (procs k' ! 0) = RUNNABLE \<and> length (procs k') = length (procs k) \<and>
    (\<forall>i < length (procs k). 0 < i \<longrightarrow> procs k' ! i = procs k ! i) \<and> p_chan (procs k' ! 0) = Null \<and>
    length fl \<le> length fl' + 9 \<and> k_cpu k' = k_cpu k \<and> nextpid k' = nextpid k + 1 \<and>
    p_sz (procs k' ! 0) = 0 \<and> p_pid (procs k' ! 0) = nextpid k \<and> p_killed (procs k' ! 0) = 0"
proof -
  from allocproc_spec [OF booted_mem [OF b]] booted_unused [OF b] obtain r fl1 k1 where
    al: "allocproc k = ret (r, k1)" and post: "alloc_post fl 0 k r fl1 k1" by auto
  have len: "0 < length (procs k)" using b by (simp add: booted_def)
  show ?thesis
  proof (cases r)
    case None
    then show ?thesis using post few by (simp add: alloc_post_def)
  next
    case (Some i)
    then obtain q pt tf us where i: "i = 0" and inv1: "mem_inv fl1 k1" and all1: "all_pages fl1 k1 = all_pages fl k"
      and k1: "k1 = k\<lparr>k_mem := k_mem k1, nextpid := nextpid k + 1, procs := (procs k)[0 := q]\<rparr>"
      and lq: "live (k_mem k1) fl1 q" and used: "length fl \<le> length fl1 + 9" and q: "q = born (nextpid k) tf us pt (k_forkret k) (procs k ! 0)"
      using post unfolding alloc_post_def by auto
    have ps: "procs k1 = (procs k)[0 := q]" using kst_slot(2) [OF k1] by simp
    have qs: "p_state q = USED" "p_parent q = None" "p_chan q = Null" "p_sz q = 0" "p_pid q = nextpid k" "p_killed q = 0"
      using b len by (auto simp: q born_def booted_def idle_def)
    obtain ip f where nm: "namei fs ''/'' (k_fs k1) = (ip, f)" by force
    define k' where "k' = upd 0 (\<lambda>p. p\<lparr>p_cwd := ip, p_state := RUNNABLE\<rparr>) (k1\<lparr>initproc := Some 0, k_fs := f\<rparr>)"
    have run: "userinit fs k = ret k'"
      using al Some i nm by (simp add: userinit_def k'_def)
    have sel: "procs k' = (procs k)[0 := q\<lparr>p_cwd := ip, p_state := RUNNABLE\<rparr>]" "initproc k' = Some 0"
      "k_mem k' = k_mem k1" "k_cpu k' = k_cpu k" "nextpid k' = nextpid k + 1"
      using len arg_cong [OF k1, of k_cpu] arg_cong [OF k1, of nextpid] by (simp_all add: k'_def ps)
    have ss: "same_space q (q\<lparr>p_cwd := ip, p_state := RUNNABLE\<rparr>)" using qs by (simp add: same_space_def)
    have at: "(procs k)[0 := x] ! j = (if j = 0 then x else procs k ! j)" for x j
      using len by (simp add: nth_list_update)
    have "list_all2 same_space (procs k1) (procs k')"
      unfolding sel ps using ss by (simp add: list_all2_conv_all_nth at)
    from mem_inv_same [OF inv1 sel(3) this] have mi: "mem_inv fl1 k'" and all: "all_pages fl1 k' = all_pages fl k"
      using all1 by simp_all
    have idle: "p_state (procs k ! j) = UNUSED \<and> p_parent (procs k ! j) = None" if "j < length (procs k)" for j
      using b nth_mem [OF that] by (auto simp: booted_def idle_unused)
    have "tree_inv {} k'"
      unfolding tree_inv_def sel using len idle qs
      by (auto simp: at alive_def)
    then show ?thesis
      using run mi all booted_all [OF b] sel len qs used by (auto simp: kinv_def)
  qed
qed

end
