(* ===== verification/Fork_Steps.thy ===== *)
theory Fork_Steps
  imports Proc_Boot
begin

text \<open>
  The three critical sections of \<open>kfork\<close>, between which other processes run: creating the child
  under its lock, entering it in the tree under \<open>wait_lock\<close>, and making it runnable under its lock
  again. In between the child is a slot in state \<open>USED\<close>, first without a parent.
\<close>

definition fork_make :: "'fs fsops \<Rightarrow> nat \<Rightarrow> 'fs kst \<Rightarrow> (nat option \<times> 'fs kst) run" where
  "fork_make fs p k =
     rbnd (allocproc k) (\<lambda>(r, k).
       case r of None \<Rightarrow> ret (None, k)
       | Some np \<Rightarrow>
         rbnd (lift (uvmcopy (p_pagetable (procs k ! p)) (p_pagetable (procs k ! np))
                 (p_sz (procs k ! p)) (k_mem k))) (\<lambda>(r, s).
         let k = set_mem s k in
         if r < 0 then rbnd (freeproc np k) (\<lambda>k. ret (None, k))
         else
           let pp = procs k ! p; c = procs k ! np;
               m = memmove (pmem (k_mem k)) (p_trapframe c) (p_trapframe pp) TF_SIZE;
               m = store64 m (p_trapframe c + TF_A0) 0
           in case dup_files fs (p_ofile pp) (p_ofile c) (k_fs k) of (ofile, f) \<Rightarrow>
              case idup fs (p_cwd pp) f of (cwd, f) \<Rightarrow>
                ret (Some np, upd np (\<lambda>c. c\<lparr>p_sz := p_sz pp, p_ofile := ofile, p_cwd := cwd,
                        p_name := safestrcpy16 (p_name pp)\<rparr>)
                      (k\<lparr>k_mem := (k_mem k)\<lparr>pmem := m\<rparr>, k_fs := f\<rparr>))))"

definition fork_adopt :: "nat \<Rightarrow> nat \<Rightarrow> 'fs kst \<Rightarrow> 'fs kst" where
  "fork_adopt p np k = upd np (\<lambda>c. c\<lparr>p_parent := Some p\<rparr>) k"

definition fork_start :: "nat \<Rightarrow> 'fs kst \<Rightarrow> 'fs kst" where
  "fork_start np k = upd np (\<lambda>c. c\<lparr>p_state := RUNNABLE\<rparr>) k"

lemma upd_upd: "upd i g (upd i f k) = upd i (\<lambda>q. g (f q)) k"
  by (cases "i < length (procs k)") (simp_all add: upd_def list_update_beyond)

text \<open>Without interruption the three sections are \<open>kfork\<close>.\<close>

lemma kfork_sections:
  "kfork fs p k = rbnd (fork_make fs p k) (\<lambda>(r, k).
     case r of None \<Rightarrow> ret (-1, k)
     | Some np \<Rightarrow> ret (p_pid (procs k ! np), fork_start np (fork_adopt p np k)))"
proof -
  have pid: "p_pid q = p_pid (ps ! i) \<Longrightarrow> p_pid (ps[i := q] ! i) = p_pid (ps ! i)" for q i ps
    by (cases "i < length ps") (simp_all add: list_update_beyond)
  show ?thesis
    unfolding kfork_def fork_make_def rbnd_assoc
    by (intro arg_cong2 [where f = rbnd] refl ext)
      (auto simp: rbnd_assoc Let_def fork_start_def fork_adopt_def upd_upd pid split: option.split prod.splits
        intro!: arg_cong2 [where f = rbnd] ext)
qed

section \<open>The child between the sections\<close>

lemma fork_make_child:
  assumes "fork_make fs p k = ret (Some np, k')"
  shows "\<exists>ka f. allocproc k = ret (Some np, ka) \<and> procs k' = (procs ka)[np := f (procs ka ! np)] \<and>
    initproc k' = initproc ka \<and> (\<forall>q. p_state (f q) = p_state q \<and> p_parent (f q) = p_parent q \<and> p_chan (f q) = p_chan q)"
proof -
  from assms obtain r ka where a: "allocproc k = ret (r, ka)" unfolding fork_make_def by (auto simp: res_simps)
  with assms obtain np' where r: "r = Some np'" unfolding fork_make_def by (cases r) auto
  obtain u s where "uvmcopy (p_pagetable (procs ka ! p)) (p_pagetable (procs ka ! np')) (p_sz (procs ka ! p)) (k_mem ka) = Ok (u, s)"
    using assms a r unfolding fork_make_def by (auto simp: res_simps)
  then show ?thesis
    using assms a r unfolding fork_make_def
    by (auto simp: Let_def res_simps split: if_splits prod.splits 
        intro!: exI [of _ "\<lambda>q. q\<lparr>p_sz := p_sz (procs ka ! p), p_ofile := x, p_cwd := y, p_name := z\<rparr>" for x y z])
qed

lemma tree_inv_birth:
  assumes inv: "tree_inv N k" and ip': "initproc k' = initproc k" and ps: "procs k' = (procs k)[i := c]"
    and i: "i < length (procs k)" "p_state (procs k ! i) = UNUSED" and c: "newborn c"
  shows "tree_inv (insert i N) k'"
proof -
  from inv obtain ip where ip: "initproc k = Some ip" "ip < length (procs k)" "alive (procs k ! ip)"
      "p_parent (procs k ! ip) = None"
    and un: "\<forall>i < length (procs k). p_state (procs k ! i) = UNUSED \<longrightarrow> p_parent (procs k ! i) = None"
    and nb: "\<forall>i \<in> N. i < length (procs k) \<and> i \<noteq> ip \<and> newborn (procs k ! i)"
    and pa: "\<forall>i < length (procs k). p_state (procs k ! i) \<noteq> UNUSED \<longrightarrow> i \<noteq> ip \<longrightarrow> i \<notin> N \<longrightarrow>
        (\<exists>j < length (procs k). p_parent (procs k ! i) = Some j \<and> alive (procs k ! j))"
    unfolding tree_inv_def by blast
  have at: "procs k' ! j = (if j = i then c else procs k ! j)" if "j < length (procs k)" for j
    using that ps by (simp add: nth_list_update)
  have neq: "ip \<noteq> i" using ip(3) i(2) by (auto simp: alive_def)
  have "\<exists>j < length (procs k). p_parent (procs k' ! l) = Some j \<and> alive (procs k' ! j)"
    if l: "l < length (procs k)" "p_state (procs k' ! l) \<noteq> UNUSED" "l \<noteq> ip" "l \<notin> insert i N" for l
  proof -
    from pa l at [OF l(1)] obtain j where j: "j < length (procs k)" "p_parent (procs k ! l) = Some j" "alive (procs k ! j)"
      by auto
    have "j \<noteq> i" using j(3) i(2) by (auto simp: alive_def)
    then show ?thesis using j l at [OF l(1)] at [OF j(1)] by auto
  qed
  moreover have "newborn (procs k' ! l) \<and> l < length (procs k) \<and> l \<noteq> ip" if "l \<in> insert i N" for l
    using that nb i(1) c neq at [of l] by auto
  moreover have "p_parent (procs k' ! l) = None" if "l < length (procs k)" "p_state (procs k' ! l) = UNUSED" for l
    using that un c at [OF that(1)] by (auto simp: newborn_def split: if_splits)
  moreover have "length (procs k') = length (procs k)" using ps by simp
  ultimately show ?thesis
    unfolding tree_inv_def using ip ip' at [OF ip(2)] neq by (intro exI [of _ ip]) auto
qed

lemma tree_inv_adopt:
  assumes inv: "tree_inv N k" and np: "np \<in> N" and p: "p < length (procs k)" "alive (procs k ! p)" "p \<noteq> np"
  shows "tree_inv (N - {np}) (fork_adopt p np k)"
proof -
  from inv obtain ip where ip: "initproc k = Some ip" "ip < length (procs k)" "alive (procs k ! ip)"
      "p_parent (procs k ! ip) = None"
    and un: "\<forall>i < length (procs k). p_state (procs k ! i) = UNUSED \<longrightarrow> p_parent (procs k ! i) = None"
    and nb: "\<forall>i \<in> N. i < length (procs k) \<and> i \<noteq> ip \<and> newborn (procs k ! i)"
    and pa: "\<forall>i < length (procs k). p_state (procs k ! i) \<noteq> UNUSED \<longrightarrow> i \<noteq> ip \<longrightarrow> i \<notin> N \<longrightarrow>
        (\<exists>j < length (procs k). p_parent (procs k ! i) = Some j \<and> alive (procs k ! j))"
    unfolding tree_inv_def by blast
  let ?k = "fork_adopt p np k"
  have at: "procs ?k ! j = (if j = np then (procs k ! np)\<lparr>p_parent := Some p\<rparr> else procs k ! j)"
    if "j < length (procs k)" for j
    using that by (simp add: fork_adopt_def)
  have al: "alive (procs ?k ! j) \<longleftrightarrow> alive (procs k ! j)" if "j < length (procs k)" for j
    using at [OF that] by (simp add: alive_def)
  have "\<exists>j < length (procs k). p_parent (procs ?k ! l) = Some j \<and> alive (procs ?k ! j)"
    if l: "l < length (procs k)" "p_state (procs ?k ! l) \<noteq> UNUSED" "l \<noteq> ip" "l \<notin> N - {np}" for l
  proof (cases "l = np")
    case True
    then show ?thesis using p at [OF l(1)] al [OF p(1)] by (intro exI [of _ p]) simp
  next
    case False
    then show ?thesis using pa l at [OF l(1)] al by auto
  qed
  moreover have "newborn (procs ?k ! l) \<and> l < length (procs k) \<and> l \<noteq> ip" if "l \<in> N - {np}" for l
    using that nb at [of l] by auto
  moreover have "p_parent (procs ?k ! l) = None" if "l < length (procs k)" "p_state (procs ?k ! l) = UNUSED" for l
    using that un nb np at [OF that(1)] by (auto simp: newborn_def split: if_splits)
  moreover have "length (procs ?k) = length (procs k)" "initproc ?k = initproc k" by (simp_all add: fork_adopt_def)
  ultimately show ?thesis
    unfolding tree_inv_def using ip at [OF ip(2)] nb np by (intro exI [of _ ip]) auto
qed

text \<open>What the first section leaves, and that the other two keep the invariants.\<close>

definition made :: "nat \<Rightarrow> 'fs kst \<Rightarrow> 'fs kst \<Rightarrow> bool" where
  "made np k k' \<longleftrightarrow> np < length (procs k) \<and> p_state (procs k ! np) = UNUSED \<and>
     (\<exists>c. procs k' = (procs k)[np := c] \<and> newborn c \<and> p_chan c = Null)"

lemma fork_make_spec:
  assumes inv: "kinv N fl k" and p: "p < length (procs k)" "alive (procs k ! p)"
  shows "\<exists>r fl' k'. fork_make fs p k = ret (r, k') \<and> all_pages fl' k' = all_pages fl k \<and>
    (case r of
       None \<Rightarrow> kinv N fl' k' \<and> (procs k' = procs k \<or>
         (\<exists>i c. p_state (procs k ! i) = UNUSED \<and> procs k' = (procs k)[i := c] \<and> p_state c \<noteq> ZOMBIE \<and> p_chan c = Null))
     | Some np \<Rightarrow> kinv (insert np N) fl' k' \<and> made np k k')"
proof -
  have mi: "mem_inv fl k" and ti: "tree_inv N k" using inv by (auto simp: kinv_def)
  from kfork_kinv [OF inv p, of fs] obtain r0 fl' k0 where
    f: "kfork fs p k = ret (r0, k0)" and post: "fork_post fs p fl k r0 fl' k0" and inv0: "kinv N fl' k0" by blast
  have all: "all_pages fl' k0 = all_pages fl k" using post by (simp add: fork_post_def)
  from f obtain r k1 where m: "fork_make fs p k = ret (r, k1)"
    unfolding kfork_sections by (auto simp: res_simps)
  show ?thesis
  proof (cases r)
    case None
    then have k1: "k1 = k0" using f m by (simp add: kfork_sections)
    have "procs k0 = procs k \<or> (\<exists>i c. p_state (procs k ! i) = UNUSED \<and> procs k0 = (procs k)[i := c] \<and>
        p_state c \<noteq> ZOMBIE \<and> p_chan c = Null)"
    proof (cases "find_unused k")
      case (Some i)
      then show ?thesis
        using post find_unused_Some [OF Some] unfolding fork_post_def Some option.case fork_ok_def fork_child_def
        by (intro disjI2 exI [of _ i]) (auto simp: idle_def dest!: kst_slot)
    qed (use post in \<open>simp add: fork_post_def\<close>)
    then show ?thesis using m None inv0 all k1 by auto
  next
    case (Some np)
    then have k0: "k0 = fork_start np (fork_adopt p np k1)" using f m by (simp add: kfork_sections)
    from fork_make_child [OF m [unfolded Some]] obtain ka g where
      al: "allocproc k = ret (Some np, ka)" and ps1: "procs k1 = (procs ka)[np := g (procs ka ! np)]"
        "initproc k1 = initproc ka"
      and g: "\<And>q. p_state (g q) = p_state q \<and> p_parent (g q) = p_parent q \<and> p_chan (g q) = p_chan q" by blast
    from allocproc_spec [OF mi] al obtain i fl2 where
      i: "find_unused k = Some i" "idle (procs k ! i)" and ap: "alloc_post fl i k (Some np) fl2 ka"
      by (auto split: option.splits)
    then have "i = np" by (auto simp: alloc_post_def)
    then have u: "np < length (procs k)" "p_state (procs k ! np) = UNUSED"
      using find_unused_Some [OF i(1)] by simp_all
    have par: "p_parent (procs k ! np) = None" using ti u by (auto simp: tree_inv_def)
    from ap \<open>i = np\<close> obtain q where q: "procs ka = (procs k)[np := q]" "initproc ka = initproc k"
        "p_state q = USED" "p_parent q = None" "p_chan q = Null"
      using par i(2) by (auto simp: alloc_post_def born_def idle_def dest!: kst_slot)
    define c where "c = g q"
    have c: "procs k1 = (procs k)[np := c]" "newborn c" "p_chan c = Null"
      using ps1 q g [of q] u(1) by (simp_all add: c_def newborn_def)
    have mem: "k_mem k0 = k_mem k1" by (simp add: k0 fork_start_def fork_adopt_def)
    have ps0: "procs k0 = (procs k)[np := c\<lparr>p_parent := Some p, p_state := RUNNABLE\<rparr>]"
      using c(1) u(1) by (simp add: k0 fork_start_def fork_adopt_def)
    have "same_space (c\<lparr>p_parent := Some p, p_state := RUNNABLE\<rparr>) c"
      using c(2) by (simp add: same_space_def newborn_def)
    then have "list_all2 same_space (procs k0) (procs k1)"
      using u(1) by (simp add: ps0 c(1) list_all2_conv_all_nth nth_list_update)
    note mi1 = mem_inv_same [OF _ mem [symmetric] this, of fl']
    have "tree_inv (insert np N) k1"
      by (rule tree_inv_birth [OF ti _ c(1) u c(2)]) (simp add: ps1(2) q(2))
    then have "kinv (insert np N) fl' k1" using mi1(1) inv0 by (simp add: kinv_def)
    moreover have "all_pages fl' k1 = all_pages fl k" using mi1(2) inv0 all by (simp add: kinv_def)
    moreover have "made np k k1" using u c by (auto simp: made_def)
    ultimately show ?thesis using m Some by auto
  qed
qed

lemma fork_adopt_kinv:
  assumes inv: "kinv N fl k" and np: "np \<in> N" and p: "p < length (procs k)" "alive (procs k ! p)" "p \<noteq> np"
  shows "kinv (N - {np}) fl (fork_adopt p np k)" "all_pages fl (fork_adopt p np k) = all_pages fl k"
proof -
  have "same_space (procs k ! np) ((procs k ! np)\<lparr>p_parent := Some p\<rparr>)" by (auto simp: same_space_def idle_def)
  note m = mem_inv_upd_same [of fl k np "\<lambda>c. c\<lparr>p_parent := Some p\<rparr>", OF _ this]
  show "kinv (N - {np}) fl (fork_adopt p np k)" "all_pages fl (fork_adopt p np k) = all_pages fl k"
    using inv m tree_inv_adopt [OF _ np p] by (simp_all add: kinv_def fork_adopt_def)
qed

lemma fork_start_kinv:
  assumes inv: "kinv N fl k" and np: "np \<notin> N" "p_state (procs k ! np) = USED"
  shows "kinv N fl (fork_start np k)" "all_pages fl (fork_start np k) = all_pages fl k"
proof -
  have s: "same_space (procs k ! np) ((procs k ! np)\<lparr>p_state := RUNNABLE\<rparr>)"
    "same_tree (procs k ! np) ((procs k ! np)\<lparr>p_state := RUNNABLE\<rparr>)"
    using np(2) by (simp_all add: same_space_def same_tree_def)
  show "kinv N fl (fork_start np k)" unfolding fork_start_def by (rule upd_kinv [OF inv]) (use s np(1) in simp_all)
  show "all_pages fl (fork_start np k) = all_pages fl k"
    using mem_inv_upd_same [of fl k np "\<lambda>c. c\<lparr>p_state := RUNNABLE\<rparr>"] s inv by (simp add: fork_start_def kinv_def)
qed

end
