(* ===== verification/Kernel_Steps.thy ===== *)
theory Kernel_Steps
  imports Mem_Steps Fork_Steps
begin

text \<open>
  The kernel as a transition system. A step is one critical section of the code of \<open>proc.c\<close>, run by
  the process that is marked running: the scan of \<open>kwait\<close> together with \<open>sleep_prepare\<close> (both under
  \<open>wait_lock\<close>), \<open>sleep\<close> (under \<open>p->lock\<close>), \<open>kexit\<close>, each of the three sections of \<open>kfork\<close>, and
  so on; between them other processes run. An operation of a running process on its own memory,
  which no other process reads or writes, is one step too: both branches of \<open>sbrk\<close>, a page fault,
  a copy, \<open>pgaccess\<close>, a store of the program, an accessed bit that the hardware sets. The file
  layer takes, writes and returns pages at any time. \<open>exec\<close> is not among the steps: its source is not
  in the repository. Here are the steps and their invariant; \<open>Kernel_Inv\<close> proves that each keeps it.
\<close>

text \<open>The invariant of \<open>wait\<close>: a process registered on its own channel has no zombie child.\<close>

definition wait_inv :: "'fs kst \<Rightarrow> bool" where
  "wait_inv k \<longleftrightarrow> (\<forall>p < length (procs k). p_chan (procs k ! p) = Proc_chan p \<longrightarrow>
     (\<forall>i < length (procs k). \<not> zombie_child p k i))"

definition step_inv :: "nat set \<Rightarrow> u64 set \<Rightarrow> nat \<Rightarrow> 'fs kst \<Rightarrow> bool" where
  "step_inv N pages n k \<longleftrightarrow> (\<exists>fl. kinv N fl k \<and> all_pages fl k = pages) \<and> wait_inv k \<and> length (procs k) = n"

lemma wait_inv_weaken:
  assumes "wait_inv k" "length (procs k') = length (procs k)"
    and "\<And>p. p < length (procs k) \<Longrightarrow> p_chan (procs k' ! p) = Proc_chan p \<Longrightarrow> p_chan (procs k ! p) = Proc_chan p"
    and "\<And>p i. p < length (procs k) \<Longrightarrow> i < length (procs k) \<Longrightarrow> p_chan (procs k' ! p) = Proc_chan p \<Longrightarrow>
      zombie_child p k' i \<Longrightarrow> zombie_child p k i"
  shows "wait_inv k'"
  using assms unfolding wait_inv_def by metis

text \<open>Steps that change neither parents nor zombies and register nobody on a channel.\<close>

definition same_wait :: "proc \<Rightarrow> proc \<Rightarrow> bool" where
  "same_wait p q \<longleftrightarrow> p_parent q = p_parent p \<and> (p_state q = ZOMBIE \<longleftrightarrow> p_state p = ZOMBIE) \<and>
     (p_chan q = p_chan p \<or> p_chan q = Null)"

lemma same_wait_refl [simp]: "same_wait p p"
  by (simp add: same_wait_def)

lemma wait_inv_same:
  assumes inv: "wait_inv k" and s: "list_all2 same_wait (procs k) (procs k')"
  shows "wait_inv k'"
proof (rule wait_inv_weaken [OF inv])
  show "length (procs k') = length (procs k)" using s by (simp add: list_all2_lengthD)
  have at: "same_wait (procs k ! i) (procs k' ! i)" if "i < length (procs k)" for i
    using s that by (rule list_all2_nthD)
  show "p_chan (procs k ! p) = Proc_chan p" if "p < length (procs k)" "p_chan (procs k' ! p) = Proc_chan p" for p
    using at [OF that(1)] that(2) by (auto simp: same_wait_def)
  show "zombie_child p k i" if "i < length (procs k)" "zombie_child p k' i" for p i
    using at [OF that(1)] that(2) by (auto simp: zombie_child_def same_wait_def)
qed

lemma same_wait_upd: "same_wait (procs k ! p) (f (procs k ! p)) \<Longrightarrow> list_all2 same_wait (procs k) (procs (upd p f k))"
  by (cases "p < length (procs k)") (auto simp: list_all2_conv_all_nth nth_list_update)

lemma kill_same_wait: "list_all2 same_wait ps (snd (kill_loop pid ps))"
  by (induction ps) (auto simp: same_wait_def Let_def list_all2_same split: prod.splits)

lemma step_inv_upd:
  assumes inv: "step_inv N pages n k" and s: "same_space (procs k ! p) (f (procs k ! p))"
    and t: "same_tree (procs k ! p) (f (procs k ! p))" and w: "wait_inv (upd p f k)"
    and pN: "p \<in> N \<Longrightarrow> p_state (f (procs k ! p)) = p_state (procs k ! p)"
  shows "step_inv N pages n (upd p f k)"
proof -
  from inv obtain fl where k: "kinv N fl k" "all_pages fl k = pages" "length (procs k) = n"
    by (auto simp: step_inv_def)
  have "all_pages fl (upd p f k) = pages"
    using mem_inv_upd_same [of fl k p f] s k by (simp add: kinv_def)
  then show ?thesis using upd_kinv [of N fl k p f] s t k w pN by (auto simp: step_inv_def)
qed

text \<open>One step on the fields of the running process, with its own registration unchanged.\<close>

lemma step_inv_old: "step_inv N pages n k \<Longrightarrow> p_state (procs k ! p) \<noteq> USED \<Longrightarrow> p \<notin> N"
  using kinv_old by (auto simp: step_inv_def)

lemma step_inv_state:
  assumes inv: "step_inv N pages n k" and al: "alive (procs k ! p)" "p_state (procs k ! p) \<noteq> USED" "st \<noteq> UNUSED" "st \<noteq> ZOMBIE"
    and ch: "st = SLEEPING \<longrightarrow> p_chan (procs k ! p) \<noteq> Null"
  shows "step_inv N pages n (upd p (\<lambda>q. q\<lparr>p_state := st\<rparr>) k)"
proof (rule step_inv_upd [OF inv])
  show "same_space (procs k ! p) ((procs k ! p)\<lparr>p_state := st\<rparr>)"
    "same_tree (procs k ! p) ((procs k ! p)\<lparr>p_state := st\<rparr>)"
    using al ch by (auto simp: same_space_def same_tree_def alive_def)
  have "same_wait (procs k ! p) ((procs k ! p)\<lparr>p_state := st\<rparr>)"
    using al by (auto simp: same_wait_def alive_def)
  then show "wait_inv (upd p (\<lambda>q. q\<lparr>p_state := st\<rparr>) k)"
    using inv same_wait_upd [of k p "\<lambda>q. q\<lparr>p_state := st\<rparr>"] by (auto simp: step_inv_def intro: wait_inv_same)
qed (use step_inv_old [OF inv al(2)] in simp)

lemma woken_chan:
  "p_chan (woken p k q) = Proc_chan j \<Longrightarrow> p_chan q = Proc_chan j"
  "p_parent (adopt p k (procs k ! p)) = Some j \<Longrightarrow> p_chan (woken p k q) \<noteq> Proc_chan j"
  "i < length (procs k) \<Longrightarrow> p_parent (procs k ! i) = Some p \<Longrightarrow> initproc k = Some j \<Longrightarrow>
   p_chan (woken p k q) \<noteq> Proc_chan j"
proof -
  show "p_chan (woken p k q) = Proc_chan j \<Longrightarrow> p_chan q = Proc_chan j"
    unfolding woken_def wake_chan by (simp split: if_splits)
  show "p_parent (adopt p k (procs k ! p)) = Some j \<Longrightarrow> p_chan (woken p k q) \<noteq> Proc_chan j"
    unfolding woken_def wake_chan by (simp only: proc_ptr_def option.case) simp
  assume "i < length (procs k)" "p_parent (procs k ! i) = Some p" and j: "initproc k = Some j"
  then have "\<exists>i < length (procs k). p_parent (procs k ! i) = Some p" by blast
  then show "p_chan (woken p k q) \<noteq> Proc_chan j"
    unfolding woken_def by (simp add: j proc_ptr_def)
qed

lemma exited_wait_inv:
  assumes inv: "kinv N fl k" "wait_inv k" and p: "p < length (procs k)" "alive (procs k ! p)" "initproc k \<noteq> Some p"
  shows "wait_inv (exited fs p st k)"
  unfolding wait_inv_def exited_sel
proof (intro allI impI notI)
  let ?k = "exited fs p st k"
  fix q i assume q: "q < length (procs k)" "p_chan (procs ?k ! q) = Proc_chan q"
    and i: "i < length (procs k)" "zombie_child q ?k i"
  from inv(1) obtain ip where ip: "initproc k = Some ip" "ip < length (procs k)"
    unfolding kinv_def tree_inv_def by blast
  have par: "p_parent (procs ?k ! i) = p_parent (adopt p k (procs k ! i))"
    using exited_other [OF i(1) p(1)] exited_self(5) [OF p(1)] by (cases "i = p") (simp_all add: woken_sel)
  then have qi: "p_parent (adopt p k (procs k ! i)) = Some q" using i(2) by (simp add: zombie_child_def)
  have "q \<noteq> p" using qi p(3) by (auto split: if_splits)
  note at_q = exited_other [OF q(1) p(1) this]
  show False
  proof (cases "i = p")
    case True
    then show ?thesis using woken_chan(2) qi q(2) at_q by metis
  next
    case False
    then have z: "p_state (woken p k (procs k ! i)) = ZOMBIE"
      using i exited_other [OF i(1) p(1)] by (simp add: zombie_child_def)
    then have "\<not> alive (woken p k (procs k ! i))" "p_state (woken p k (procs k ! i)) \<noteq> UNUSED"
      by (simp_all add: alive_def)
    then have z': "p_state (procs k ! i) = ZOMBIE" by (simp add: woken_sel alive_def [of "procs k ! i"])
    show ?thesis
    proof (cases "p_parent (procs k ! i) = Some p")
      case True
      then have "q = ip" using qi ip(1) by simp
      moreover have "p_chan (woken p k (procs k ! q)) \<noteq> Proc_chan ip"
        by (rule woken_chan(3) [OF i(1) True ip(1)])
      ultimately show ?thesis using q(2) at_q by simp
    next
      case False
      then have "zombie_child q k i" using qi z' by (simp add: zombie_child_def)
      moreover have "p_chan (procs k ! q) = Proc_chan q"
        by (rule woken_chan(1) [of p k]) (use q(2) at_q in simp)
      ultimately show ?thesis using inv(2) q(1) i(1) by (auto simp: wait_inv_def)
    qed
  qed
qed

lemma step_inv_procs:
  assumes k: "kinv N fl' k'" "all_pages fl' k' = pages" "length (procs k') = n" "wait_inv k'"
  shows "step_inv N pages n k'"
  using assms by (auto simp: step_inv_def)

lemma step_inv_reap:
  assumes inv: "step_inv N pages n k" and p: "p < length (procs k)" "alive (procs k ! p)"
    and f: "wait_scan p addr [0..<length (procs k)] False k = ret (Inl v, k')"
  shows "step_inv N pages n k'"
proof -
  from inv obtain fl where k: "kinv N fl k" "all_pages fl k = pages" "length (procs k) = n" and w: "wait_inv k"
    by (auto simp: step_inv_def)
  from f obtain i where i: "find (zombie_child p k) [0..<length (procs k)] = Some i"
    and r: "rbnd (reap p addr i k) (\<lambda>(v, k). ret (Inl v, k)) = (ret (Inl v, k') :: ((i32 + bool) \<times> 'a kst) run)"
    unfolding wait_scan_find by (auto split: option.splits)
  then have il: "i < length (procs k)" "zombie_child p k i" by (auto simp: find_Some_iff)
  from reap_spec [OF k(1) p il, of addr] r obtain fl' where
    post: "reap_post N p addr i fl k v fl' k'" by auto
  then have all: "all_pages fl' k' = pages" and inv': "kinv N fl' k'" using k(2) by (auto simp: reap_post_def)
  from post consider "procs k' = procs k" | "procs k' = (procs k)[i := (cleared (procs k ! i))\<lparr>p_parent := None\<rparr>]"
    unfolding reap_post_def by blast
  then have "list_all2 same_wait (procs k) (procs k') \<or>
      procs k' = (procs k)[i := (cleared (procs k ! i))\<lparr>p_parent := None\<rparr>]"
    by cases (auto simp: list_all2_same)
  then have "wait_inv k' \<and> length (procs k') = n"
  proof
    assume s: "list_all2 same_wait (procs k) (procs k')"
    then show ?thesis using wait_inv_same [OF w s] k(3) by (simp add: list_all2_lengthD)
  next
    assume ps: "procs k' = (procs k)[i := (cleared (procs k ! i))\<lparr>p_parent := None\<rparr>]"
    have "wait_inv k'"
    proof (rule wait_inv_weaken [OF w])
      show "length (procs k') = length (procs k)" using ps by simp
      show "p_chan (procs k ! j) = Proc_chan j" if "j < length (procs k)" "p_chan (procs k' ! j) = Proc_chan j" for j
        using that ps by (cases "j = i") (auto simp: cleared_def)
      show "zombie_child q k j" if "j < length (procs k)" "zombie_child q k' j" for j q
        using that ps by (cases "j = i") (auto simp: zombie_child_def)
    qed
    then show ?thesis using ps k(3) by simp
  qed
  then show ?thesis using inv' all by (intro step_inv_procs) auto
qed

lemma step_inv_register:
  assumes inv: "step_inv N pages n k" and p: "alive (procs k ! p)" "p_state (procs k ! p) \<noteq> SLEEPING"
    and c: "c \<noteq> Null" "c = Proc_chan p \<Longrightarrow> \<forall>i < length (procs k). \<not> zombie_child p k i"
  shows "step_inv N pages n (upd p (\<lambda>q. q\<lparr>p_chan := c\<rparr>) k)"
proof (rule step_inv_upd [OF inv])
  show "same_space (procs k ! p) ((procs k ! p)\<lparr>p_chan := c\<rparr>)"
    "same_tree (procs k ! p) ((procs k ! p)\<lparr>p_chan := c\<rparr>)"
    using p c by (auto simp: same_space_def same_tree_def alive_def)
  have w: "wait_inv k" using inv by (simp add: step_inv_def)
  have z: "zombie_child j (upd p (\<lambda>q. q\<lparr>p_chan := c\<rparr>) k) i \<longleftrightarrow> zombie_child j k i"
    if "i < length (procs k)" for i j
    using that by (cases "i = p") (auto simp: zombie_child_def)
  show "wait_inv (upd p (\<lambda>q. q\<lparr>p_chan := c\<rparr>) k)"
    unfolding wait_inv_def
  proof (intro allI impI)
    fix j i assume j: "j < length (procs (upd p (\<lambda>q. q\<lparr>p_chan := c\<rparr>) k))"
        "p_chan (procs (upd p (\<lambda>q. q\<lparr>p_chan := c\<rparr>) k) ! j) = Proc_chan j"
      and i: "i < length (procs (upd p (\<lambda>q. q\<lparr>p_chan := c\<rparr>) k))"
    then have "\<not> zombie_child j k i"
      using w c(2) by (cases "j = p") (auto simp: wait_inv_def)
    then show "\<not> zombie_child j (upd p (\<lambda>q. q\<lparr>p_chan := c\<rparr>) k) i" using z i by simp
  qed
qed simp

section \<open>The steps\<close>

text \<open>
  What the running process \<open>p\<close> does outside of \<open>kfork\<close>. The last rule is what the calls of the file
  layer, which is not in the repository, do to the process itself: its open files and its directory.
\<close>

inductive proc_step :: "'fs sysenv \<Rightarrow> nat \<Rightarrow> 'fs kst \<Rightarrow> 'fs kst \<Rightarrow> bool" for e p k where
  exit: "proc_step e p k k'" if "kexit (e_fs e) p st k = Ok k'"
| reap: "proc_step e p k k'" if "wait_scan p addr [0..<length (procs k)] False k = ret (Inl v, k')"
| prepare_wait: "proc_step e p k k'"
    if "wait_scan p addr [0..<length (procs k)] False k = ret (Inr True, k)" "killed p k = 0"
      "sleep_prepare p (Proc_chan p) k = Ok k'"
| prepare: "proc_step e p k k'" if "sleep_prepare p (Obj_chan a) k = Ok k'"
| sleep: "proc_step e p k k'" if "sleep p k = Ok k'"
| setkilled: "proc_step e p k (setkilled p k)"
| sbrk: "proc_step e p k k'" if "sys_sbrk e p k = ret (r, k')"
| memory: "proc_step e p k (set_mem s' k)" if "mem_step (procs k ! p) (k_mem k) s'"
| files: "proc_step e p k (upd p (\<lambda>q. q\<lparr>p_ofile := fds, p_cwd := cwd\<rparr>) (k\<lparr>k_fs := f\<rparr>))"

text \<open>What happens at any time: scheduling, wakeups, \<open>kill\<close>, the clock, the console and the disk.\<close>

inductive sys_step :: "'fs kst \<Rightarrow> 'fs kst \<Rightarrow> bool" for k where
  dispatch: "sys_step k (upd p (\<lambda>q. q\<lparr>p_state := RUNNING\<rparr>) k)"
    if "p < length (procs k)" "p_state (procs k ! p) = RUNNABLE"
| preempt: "sys_step k k'"
    if "p < length (procs k)" "p_state (procs k ! p) = RUNNING" "yield p k = Ok k'"
| wakeup: "sys_step k (wakeup (Obj_chan a) k)"
| kill: "sys_step k (snd (kkill pid k))"
| other: "sys_step k (k\<lparr>k_ticks := t, k_console := out, k_fs := f\<rparr>)"

text \<open>
  The state of the machine: the kernel, how far each process is in \<open>kfork\<close> (the child, and whether it
  is in the tree already), and the pages that the file layer has taken, such as those of pipes.
\<close>

record 'fs machine =
  m_k :: "'fs kst"
  m_fork :: "nat \<Rightarrow> (nat \<times> bool) option"
  m_files :: "u64 set"

definition running :: "nat \<Rightarrow> 'fs kst \<Rightarrow> bool" where
  "running p k \<longleftrightarrow> p < length (procs k) \<and> p_state (procs k ! p) = RUNNING"

inductive kstep :: "'fs sysenv \<Rightarrow> 'fs machine \<Rightarrow> 'fs machine \<Rightarrow> bool" for e m where
  process: "kstep e m (m\<lparr>m_k := k'\<rparr>)"
    if "running p (m_k m)" "m_fork m p = None" "proc_step e p (m_k m) k'"
| system: "kstep e m (m\<lparr>m_k := k'\<rparr>)" if "sys_step (m_k m) k'"
| fork_fails: "kstep e m (m\<lparr>m_k := k'\<rparr>)"
    if "running p (m_k m)" "m_fork m p = None" "fork_make (e_fs e) p (m_k m) = ret (None, k')"
| fork_makes: "kstep e m (m\<lparr>m_k := k', m_fork := (m_fork m)(p \<mapsto> (np, False))\<rparr>)"
    if "running p (m_k m)" "m_fork m p = None" "fork_make (e_fs e) p (m_k m) = ret (Some np, k')"
| fork_adopts: "kstep e m (m\<lparr>m_k := fork_adopt p np (m_k m), m_fork := (m_fork m)(p \<mapsto> (np, True))\<rparr>)"
    if "running p (m_k m)" "m_fork m p = Some (np, False)"
| fork_starts: "kstep e m (m\<lparr>m_k := fork_start np (m_k m), m_fork := (m_fork m)(p := None)\<rparr>)"
    if "running p (m_k m)" "m_fork m p = Some (np, True)"
| file_alloc: "kstep e m (m\<lparr>m_k := set_mem s (m_k m), m_files := insert a (m_files m)\<rparr>)"
    if "kalloc (k_mem (m_k m)) = (a, s)" "a \<noteq> 0"
| file_write: "kstep e m (m\<lparr>m_k := set_mem (s\<lparr>pmem := (pmem s)(x := b)\<rparr>) (m_k m)\<rparr>)"
    if "s = k_mem (m_k m)" "PGROUNDDOWN x \<in> m_files m"
| file_free: "kstep e m (m\<lparr>m_k := set_mem s (m_k m), m_files := m_files m - {a}\<rparr>)"
    if "a \<in> m_files m" "kfree a (k_mem (m_k m)) = Ok s"

inductive reachable :: "'fs sysenv \<Rightarrow> 'fs machine \<Rightarrow> 'fs machine \<Rightarrow> bool" for e m0 where
  start: "reachable e m0 m0"
| step: "reachable e m0 m \<Longrightarrow> kstep e m m' \<Longrightarrow> reachable e m0 m'"

definition started :: "'fs kst \<Rightarrow> 'fs machine" where
  "started k = \<lparr>m_k = k, m_fork = Map.empty, m_files = {}\<rparr>"

definition newborns :: "(nat \<Rightarrow> (nat \<times> bool) option) \<Rightarrow> nat set" where
  "newborns F = {np. \<exists>p. F p = Some (np, False)}"

end
