(* ===== verification/Kernel_Inv.thy ===== *)
theory Kernel_Inv
  imports Kernel_Steps
begin

text \<open>
  Every step of the machine keeps its invariants: those of the processes and of \<open>wait\<close>
  (\<open>step_inv\<close>), what is known of the forks that are under way, and the account of all pages.
\<close>

section \<open>Steps of the process table\<close>

text \<open>
  What a step leaves to the forks of others: \<open>W\<close> is the set of the processes that act in it.
\<close>

definition settled :: "nat set \<Rightarrow> 'fs kst \<Rightarrow> 'fs kst \<Rightarrow> bool" where
  "settled W k k' \<longleftrightarrow> (\<forall>i < length (procs k).
     (p_state (procs k ! i) = USED \<longrightarrow> p_state (procs k' ! i) = USED \<and>
        (p_parent (procs k ! i) \<notin> Some ` W \<longrightarrow> p_parent (procs k' ! i) = p_parent (procs k ! i))) \<and>
     (i \<notin> W \<longrightarrow> p_state (procs k ! i) \<in> {RUNNING, RUNNABLE} \<longrightarrow>
        p_state (procs k' ! i) \<in> {RUNNING, RUNNABLE}))"

lemma settled_upd:
  assumes "p_state (procs k ! p) = USED \<longrightarrow> p_state (f (procs k ! p)) = USED \<and>
      p_parent (f (procs k ! p)) = p_parent (procs k ! p)"
    and "p \<in> W \<or> (p_state (procs k ! p) \<in> {RUNNING, RUNNABLE} \<longrightarrow> p_state (f (procs k ! p)) \<in> {RUNNING, RUNNABLE})"
  shows "settled W k (upd p f k)"
  unfolding settled_def
proof (intro allI impI)
  fix i assume "i < length (procs k)"
  then show "(p_state (procs k ! i) = USED \<longrightarrow> p_state (procs (upd p f k) ! i) = USED \<and>
        (p_parent (procs k ! i) \<notin> Some ` W \<longrightarrow> p_parent (procs (upd p f k) ! i) = p_parent (procs k ! i))) \<and>
     (i \<notin> W \<longrightarrow> p_state (procs k ! i) \<in> {RUNNING, RUNNABLE} \<longrightarrow>
        p_state (procs (upd p f k) ! i) \<in> {RUNNING, RUNNABLE})"
    using assms by (cases "i = p") auto
qed

lemma settled_same: "procs k' = procs k \<Longrightarrow> settled W k k'"
  by (simp add: settled_def)

lemma settled_slot:
  assumes "procs k' = (procs k)[i := c]" "p_state (procs k ! i) \<notin> {USED, RUNNING, RUNNABLE}"
  shows "settled W k k'"
proof -
  have "procs k' ! j = (if j = i then c else procs k ! j)" if "j < length (procs k)" for j
    using that assms(1) by (simp add: nth_list_update)
  then show ?thesis using assms(2) by (auto simp: settled_def)
qed

lemma step_inv_kept:
  assumes inv: "step_inv N pages n k" and p: "running p k" and kp: "\<exists>fl'. kept (k_mem k) fl (procs k ! p) s fl'"
    and fl: "kinv N fl k" "all_pages fl k = pages"
  shows "step_inv N pages n (set_mem s k)"
proof -
  from kp obtain fl' where "kept (k_mem k) fl (procs k ! p) s fl'" by blast
  from kinv_kept [OF fl(1) _ this] p fl(2) have "kinv N fl' (set_mem s k)" "all_pages fl' (set_mem s k) = pages"
    by (simp_all add: running_def)
  then show ?thesis using inv by (auto simp: step_inv_def wait_inv_def zombie_child_def)
qed

lemma step_inv_cong:
  assumes "step_inv N pages n k" "procs k' = procs k" "k_mem k' = k_mem k" "initproc k' = initproc k"
  shows "step_inv N pages n k'"
proof -
  have "mem_inv fl k' = mem_inv fl k" "all_pages fl k' = all_pages fl k" for fl
    by (simp_all add: mem_inv_def all_pages_def assms)
  moreover have "tree_inv N k' = tree_inv N k" "wait_inv k' = wait_inv k"
    by (simp_all add: tree_inv_def wait_inv_def zombie_child_def assms)
  ultimately show ?thesis using assms(1) by (simp add: step_inv_def kinv_def assms(2))
qed

lemma step_inv_exit:
  assumes inv: "step_inv N pages n k" and p: "running p k" and x: "kexit fs p st k = Ok k'"
  shows "step_inv N pages n k' \<and> settled {p} k k'"
proof -
  have al: "p < length (procs k)" "alive (procs k ! p)" using p by (simp_all add: running_def alive_def)
  have ni: "initproc k \<noteq> Some p" and sw: "switch p (exited fs p st k) = Ok k'"
    using x by (simp_all add: kexit_exited split: if_splits)
  have k': "k' = exited fs p st k" by (rule switch_mem_inv [OF sw])
  from inv obtain fl where k: "kinv N fl k" "all_pages fl k = pages" "length (procs k) = n" "wait_inv k"
    by (auto simp: step_inv_def)
  have pN: "p \<notin> N" by (rule kinv_old [OF k(1)]) (use p in \<open>simp add: running_def\<close>)
  have "all_pages fl k' = pages"
    using exited_mem(2) [of fl k p fs st] k p unfolding k' by (simp add: kinv_def running_def)
  then have "step_inv N pages n k'"
    using exited_kinv [OF k(1) al ni pN] exited_wait_inv [OF k(1,4) al ni] k(3) by (auto simp: step_inv_def k')
  moreover have "settled {p} k k'"
    unfolding settled_def
  proof (intro allI impI)
    fix i assume i: "i < length (procs k)"
    have a: "p_state (wake c q) \<in> {p_state q, RUNNABLE}" for c q by (simp add: wake_def Let_def)
    have w: "p_state (woken p k q) \<in> {p_state q, RUNNABLE}" for q
    proof -
      obtain r c where r: "woken p k q = wake c r" "p_state r \<in> {p_state q, RUNNABLE}"
        unfolding woken_def using a [of "proc_ptr (initproc k)" "adopt p k q"]
        by (cases "\<exists>i < length (procs k). p_parent (procs k ! i) = Some p") auto
      show ?thesis using a [of c r] r by auto
    qed
    show "(p_state (procs k ! i) = USED \<longrightarrow> p_state (procs k' ! i) = USED \<and>
          (p_parent (procs k ! i) \<notin> Some ` {p} \<longrightarrow> p_parent (procs k' ! i) = p_parent (procs k ! i))) \<and>
       (i \<notin> {p} \<longrightarrow> p_state (procs k ! i) \<in> {RUNNING, RUNNABLE} \<longrightarrow>
          p_state (procs k' ! i) \<in> {RUNNING, RUNNABLE})"
      using p exited_other [OF i al(1), of fs st] woken_used [of "procs k ! i" p k] w [of "procs k ! i"]
      by (cases "i = p") (auto simp: k' running_def woken_sel)
  qed
  ultimately show ?thesis ..
qed

lemma proc_step_inv:
  assumes "proc_step e p k k'" and inv: "step_inv N pages n k" and p: "running p k"
  shows "step_inv N pages n k' \<and> settled {p} k k'"
  using assms(1)
proof cases
  case (exit st)
  then show ?thesis using step_inv_exit [OF inv p] by blast
next
  case (reap addr v)
  have al: "p < length (procs k)" "alive (procs k ! p)" using p by (simp_all add: running_def alive_def)
  have "settled {p} k k'"
  proof -
    from reap obtain i where i: "find (zombie_child p k) [0..<length (procs k)] = Some i"
      and r: "rbnd (reap p addr i k) (\<lambda>(v, k). ret (Inl v, k)) = (ret (Inl v, k') :: ((i32 + bool) \<times> 'a kst) run)"
      unfolding wait_scan_find by (auto split: option.splits)
    then have il: "i < length (procs k)" "zombie_child p k i" by (auto simp: find_Some_iff)
    from inv obtain fl where "kinv N fl k" by (auto simp: step_inv_def)
    from reap_spec [OF this al il, of addr] r obtain fl' where "reap_post N p addr i fl k v fl' k'" by auto
    then have "procs k' = procs k \<or> procs k' = (procs k)[i := (cleared (procs k ! i))\<lparr>p_parent := None\<rparr>]"
      unfolding reap_post_def by blast
    then show ?thesis
    proof
      assume "procs k' = procs k"
      then show ?thesis by (rule settled_same)
    next
      assume "procs k' = (procs k)[i := (cleared (procs k ! i))\<lparr>p_parent := None\<rparr>]"
      then show ?thesis by (rule settled_slot) (use il(2) in \<open>simp add: zombie_child_def\<close>)
    qed
  qed
  then show ?thesis using step_inv_reap [OF inv al reap] by simp
next
  case (prepare_wait addr)
  have "find (zombie_child p k) [0..<length (procs k)] = None"
    using prepare_wait(1) unfolding wait_scan_find by (auto split: option.splits simp: res_simps)
  then have "\<forall>i < length (procs k). \<not> zombie_child p k i" by (simp add: find_zombie)
  moreover have k': "k' = upd p (\<lambda>q. q\<lparr>p_chan := Proc_chan p\<rparr>) k"
    using prepare_wait(3) by (simp add: sleep_prepare_def)
  ultimately show ?thesis unfolding k' using p
    by (intro conjI step_inv_register [OF inv, of p] settled_upd) (simp_all add: alive_def running_def)
next
  case (prepare a)
  then have k': "k' = upd p (\<lambda>q. q\<lparr>p_chan := Obj_chan a\<rparr>) k" by (simp add: sleep_prepare_def)
  show ?thesis unfolding k' using p
    by (intro conjI step_inv_register [OF inv] settled_upd) (simp_all add: alive_def running_def)
next
  case sleep
  show ?thesis
  proof (cases "p_chan (procs k ! p) = Null")
    case True
    then show ?thesis using sleep inv by (simp add: sleep_def settled_same)
  next
    case False
    have k': "k' = upd p (\<lambda>q. q\<lparr>p_state := SLEEPING\<rparr>) k"
      by (rule switch_mem_inv [of p]) (use sleep False in \<open>simp add: sleep_def\<close>)
    show ?thesis unfolding k' using p False
      by (intro conjI step_inv_state [OF inv] settled_upd) (simp_all add: alive_def running_def)
  qed
next
  case setkilled
  have s: "same_space (procs k ! p) ((procs k ! p)\<lparr>p_killed := 1\<rparr>)"
    "same_tree (procs k ! p) ((procs k ! p)\<lparr>p_killed := 1\<rparr>)"
    "same_wait (procs k ! p) ((procs k ! p)\<lparr>p_killed := 1\<rparr>)"
    using p by (auto simp: same_space_def same_tree_def same_wait_def running_def)
  have "wait_inv (upd p (\<lambda>q. q\<lparr>p_killed := 1\<rparr>) k)"
    using inv same_wait_upd [of k p "\<lambda>q. q\<lparr>p_killed := 1\<rparr>"] s(3) by (auto simp: step_inv_def intro: wait_inv_same)
  then show ?thesis unfolding setkilled setkilled_def
    by (intro conjI step_inv_upd [OF inv] settled_upd) (use s in simp_all)
next
  case (sbrk r)
  from inv obtain fl where k: "kinv N fl k" "all_pages fl k = pages" "length (procs k) = n" "wait_inv k"
    by (auto simp: step_inv_def)
  from sys_sbrk_spec [OF k(1) _ _ refl refl, of p e] p sbrk obtain v fl' where
    post: "kinv N fl' k'" "all_pages fl' k' = all_pages fl k"
      "sbrk_post (e_sbrk_eager e) (ucast (tf_reg p 112 k)) (ucast (tf_reg p 120 k)) p k v k'"
    by (auto simp: running_def)
  then obtain sz where ps: "procs k' = (procs k)[p := (procs k ! p)\<lparr>p_sz := sz\<rparr>]" by (auto simp: sbrk_post_def)
  then have ps': "procs k' = procs (upd p (\<lambda>q. q\<lparr>p_sz := sz\<rparr>) k)" by simp
  have "list_all2 same_wait (procs k) (procs k')" unfolding ps'
    by (rule same_wait_upd) (simp add: same_wait_def)
  then have "wait_inv k'" by (rule wait_inv_same [OF k(4)])
  moreover have "settled {p} k (upd p (\<lambda>q. q\<lparr>p_sz := sz\<rparr>) k)" by (intro settled_upd) simp_all
  ultimately show ?thesis using post k ps' by (auto simp: step_inv_def settled_def)
next
  case (memory s')
  from inv obtain fl where k: "kinv N fl k" "all_pages fl k = pages" by (auto simp: step_inv_def)
  have "live (k_mem k) fl (procs k ! p)"
    using k(1) p by (intro live_slot) (simp_all add: kinv_def running_def)
  from mem_step_kept [OF memory(2) this] show ?thesis unfolding memory(1)
    using step_inv_kept [OF inv p _ k] by (simp add: settled_same)
next
  case (files cwd fds f)
  let ?k = "k\<lparr>k_fs := f\<rparr>" and ?f = "\<lambda>q. q\<lparr>p_ofile := fds, p_cwd := cwd\<rparr>"
  have inv': "step_inv N pages n ?k" by (rule step_inv_cong [OF inv]) simp_all
  have s: "same_space (procs k ! p) (?f (procs k ! p))" "same_tree (procs k ! p) (?f (procs k ! p))"
    "same_wait (procs k ! p) (?f (procs k ! p))"
    using p by (auto simp: same_space_def same_tree_def same_wait_def running_def)
  have "wait_inv (upd p ?f ?k)"
    using inv' same_wait_upd [of ?k p ?f] s(3) by (auto simp: step_inv_def intro: wait_inv_same)
  then have "step_inv N pages n (upd p ?f ?k)" by (intro step_inv_upd [OF inv']) (use s in simp_all)
  moreover have "settled {p} ?k (upd p ?f ?k)" by (intro settled_upd) simp_all
  ultimately show ?thesis unfolding files by (simp add: settled_def)
qed

lemma sys_step_inv:
  assumes "sys_step k k'" and inv: "step_inv N pages n k"
  shows "step_inv N pages n k' \<and> settled {} k k'"
  using assms(1)
proof cases
  case (dispatch p)
  then show ?thesis unfolding dispatch(1)
    by (intro conjI step_inv_state [OF inv] settled_upd) (simp_all add: alive_def)
next
  case (preempt p)
  have k': "k' = upd p (\<lambda>q. q\<lparr>p_state := RUNNABLE\<rparr>) k"
    by (rule switch_mem_inv [OF preempt(3) [unfolded yield_def]])
  show ?thesis unfolding k' using preempt
    by (intro conjI step_inv_state [OF inv] settled_upd) (simp_all add: alive_def)
next
  case (wakeup a)
  from inv obtain fl where k: "kinv N fl k" "all_pages fl k = pages" "length (procs k) = n" "wait_inv k"
    by (auto simp: step_inv_def)
  have "same_wait q (wake (Obj_chan a) q)" for q by (auto simp: same_wait_def wake_def Let_def)
  then have "wait_inv k'" unfolding wakeup
    by (intro wait_inv_same [OF k(4)]) (simp add: list_all2_conv_all_nth)
  moreover have "settled {} k k'" unfolding wakeup by (auto simp: settled_def wake_def Let_def)
  ultimately show ?thesis
    using wakeup_kinv [OF k(1), of "Obj_chan a"] wakeup_mem [of fl k "Obj_chan a"] k
    by (auto simp: step_inv_def kinv_def wakeup)
next
  case (kill pid)
  from inv obtain fl where k: "kinv N fl k" "all_pages fl k = pages" "length (procs k) = n" "wait_inv k"
    by (auto simp: step_inv_def)
  have s: "list_all2 same_wait (procs k) (procs k')"
    using kill_same_wait [of "procs k" pid] by (auto simp: kill kkill_def list_all2_same split: prod.splits)
  have one: "(p_state (ps ! i) = USED \<longrightarrow> p_state (snd (kill_loop pid ps) ! i) = USED) \<and>
      p_parent (snd (kill_loop pid ps) ! i) = p_parent (ps ! i) \<and>
      (p_state (ps ! i) \<in> {RUNNING, RUNNABLE} \<longrightarrow> p_state (snd (kill_loop pid ps) ! i) \<in> {RUNNING, RUNNABLE})"
    if "i < length ps" for i ps
    using that
  proof (induction ps arbitrary: i)
    case (Cons a ps)
    show ?case
    proof (cases i)
      case 0
      then show ?thesis by (auto simp: Let_def split: prod.splits)
    next
      case (Suc j)
      then show ?thesis using Cons.IH [of j] Cons.prems by (cases "kill_loop pid ps") (simp add: Let_def)
    qed
  qed simp
  have ps: "procs k' = (if pid = 0 then procs k else snd (kill_loop pid (procs k)))"
    by (simp add: kill kkill_def split: prod.splits)
  have "settled {} k k'"
    unfolding settled_def
  proof (intro allI impI)
    fix i assume "i < length (procs k)"
    from one [OF this] show "(p_state (procs k ! i) = USED \<longrightarrow> p_state (procs k' ! i) = USED \<and>
          (p_parent (procs k ! i) \<notin> Some ` {} \<longrightarrow> p_parent (procs k' ! i) = p_parent (procs k ! i))) \<and>
       (i \<notin> {} \<longrightarrow> p_state (procs k ! i) \<in> {RUNNING, RUNNABLE} \<longrightarrow> p_state (procs k' ! i) \<in> {RUNNING, RUNNABLE})"
      unfolding ps by (cases "pid = 0") simp_all
  qed
  then show ?thesis
    using kkill_kinv [OF k(1), of pid] kkill_mem [of fl k pid] k wait_inv_same [OF k(4) s] list_all2_lengthD [OF s]
    by (auto simp: step_inv_def kinv_def kill)
next
  case (other t out f)
  then show ?thesis using step_inv_cong [OF inv, of k'] by (simp add: settled_same)
qed

section \<open>Forks under way\<close>

definition forks_ok :: "nat \<Rightarrow> 'fs kst \<Rightarrow> (nat \<Rightarrow> (nat \<times> bool) option) \<Rightarrow> bool" where
  "forks_ok n k F \<longleftrightarrow> (\<forall>p np b. F p = Some (np, b) \<longrightarrow>
     p < n \<and> np < n \<and> p_state (procs k ! p) \<in> {RUNNING, RUNNABLE} \<and> p_state (procs k ! np) = USED \<and>
     p_parent (procs k ! np) = (if b then Some p else None) \<and> (\<forall>q c. F q = Some (np, c) \<longrightarrow> q = p))"

lemma forks_ok_settled:
  assumes F: "forks_ok n k F" and s: "settled W k k'" and W: "\<And>p. p \<in> W \<Longrightarrow> F p = None"
    and n: "length (procs k) = n"
  shows "forks_ok n k' F"
  unfolding forks_ok_def
proof (intro allI impI)
  fix p np b assume f: "F p = Some (np, b)"
  with W have "p \<notin> W" by force
  from F f have old: "p < n" "np < n" "p_state (procs k ! p) \<in> {RUNNING, RUNNABLE}" "p_state (procs k ! np) = USED"
    "p_parent (procs k ! np) = (if b then Some p else None)" "\<forall>q c. F q = Some (np, c) \<longrightarrow> q = p"
    unfolding forks_ok_def by blast+
  have "p_parent (procs k ! np) \<notin> Some ` W" using old(5) \<open>p \<notin> W\<close> by auto
  then have "p_state (procs k' ! np) = USED \<and> p_parent (procs k' ! np) = p_parent (procs k ! np)"
    using s old(2,4) n unfolding settled_def by blast
  moreover have "p_state (procs k' ! p) \<in> {RUNNING, RUNNABLE}"
    using s old(1,3) \<open>p \<notin> W\<close> n unfolding settled_def by blast
  ultimately have one: "p_state (procs k' ! np) = USED \<and> p_parent (procs k' ! np) = (if b then Some p else None)"
    "p_state (procs k' ! p) \<in> {RUNNING, RUNNABLE}"
    using old(5) by simp_all
  show "p < n \<and> np < n \<and> p_state (procs k' ! p) \<in> {RUNNING, RUNNABLE} \<and> p_state (procs k' ! np) = USED \<and>
     p_parent (procs k' ! np) = (if b then Some p else None) \<and> (\<forall>q c. F q = Some (np, c) \<longrightarrow> q = p)"
    using old(1,2,6) one(2) one(1) by simp
qed

lemma newborns_upd:
  assumes "forks_ok n k F" "F p = Some (np, b)"
  shows "newborns (F(p \<mapsto> (np, True))) = newborns F - {np}" "b \<Longrightarrow> newborns (F(p := None)) = newborns F"
    "np \<in> newborns F \<longleftrightarrow> \<not> b"
proof -
  have one: "F q = Some (np, c) \<Longrightarrow> q = p" for q c using assms unfolding forks_ok_def by blast
  show "newborns (F(p \<mapsto> (np, True))) = newborns F - {np}"
  proof (rule set_eqI)
    fix i
    show "i \<in> newborns (F(p \<mapsto> (np, True))) \<longleftrightarrow> i \<in> newborns F - {np}"
    proof (cases "i = np")
      case True
      then show ?thesis using one by (auto simp: newborns_def split: if_splits)
    next
      case False
      then have "(F(p \<mapsto> (np, True))) q = Some (i, False) \<longleftrightarrow> F q = Some (i, False)" for q
        using assms(2) by simp
      then show ?thesis using False by (simp add: newborns_def)
    qed
  qed
  show "b \<Longrightarrow> newborns (F(p := None)) = newborns F" using assms(2) by (force simp: newborns_def)
  show "np \<in> newborns F \<longleftrightarrow> \<not> b"
  proof
    assume "np \<in> newborns F"
    then obtain q where "F q = Some (np, False)" by (auto simp: newborns_def)
    then show "\<not> b" using one assms(2) by force
  next
    assume "\<not> b"
    then show "np \<in> newborns F" using assms(2) by (auto simp: newborns_def)
  qed
qed

lemma newborns_new: "F p = None \<Longrightarrow> newborns (F(p \<mapsto> (np, False))) = insert np (newborns F)"
proof -
  assume "F p = None"
  then have "(F(p \<mapsto> (np, False))) q = Some (i, False) \<longleftrightarrow> q = p \<and> i = np \<or> F q = Some (i, False)" for q i
    by auto
  then show ?thesis unfolding newborns_def by blast
qed

section \<open>Pages of the file layer\<close>

text \<open>A change of memory outside of the pages of all the processes.\<close>

lemma mem_inv_outside:
  assumes inv: "mem_inv fl k" and out: "same_outside P (k_mem k) s" and fp: "free_pages s fl'"
    and P: "\<And>i. i < length (procs k) \<Longrightarrow> pages_of (k_mem k) (procs k ! i) \<inter> (P \<union> set fl') = {}"
  shows "mem_inv fl' (set_mem s k)" "all_pages fl' (set_mem s k) = set fl' \<union> (all_pages fl k - set fl)"
proof -
  have at: "proc_ok s fl' (procs k ! i)" "pages_of s (procs k ! i) = pages_of (k_mem k) (procs k ! i)"
    "pages_of (k_mem k) (procs k ! i) \<inter> set fl = {}" if "i < length (procs k)" for i
    using proc_ok_frame [OF mem_inv_slot [OF inv that] out _ fp] P [OF that] proc_ok_disjoint [OF mem_inv_slot [OF inv that]]
    by auto
  show "mem_inv fl' (set_mem s k)" using inv at fp by (simp add: mem_inv_def)
  show "all_pages fl' (set_mem s k) = set fl' \<union> (all_pages fl k - set fl)"
    using at(2,3) by (auto simp: all_pages_def UN_nth)
qed

definition minv :: "u64 set \<Rightarrow> nat \<Rightarrow> 'fs machine \<Rightarrow> bool" where
  "minv pages n m \<longleftrightarrow> step_inv (newborns (m_fork m)) (pages - m_files m) n (m_k m) \<and>
     m_files m \<subseteq> pages \<and> 0 \<notin> m_files m \<and> forks_ok n (m_k m) (m_fork m)"

lemma step_inv_outside:
  assumes inv: "step_inv N pages n k"
    and s: "\<And>fl. free_pages (k_mem k) fl \<Longrightarrow> \<exists>fl'. free_pages s fl' \<and> same_outside P (k_mem k) s \<and>
      set fl' = set fl \<union> A - D \<and> D \<subseteq> set fl \<and> P \<subseteq> A \<union> D"
    and A: "A \<inter> pages = {}" "D \<inter> A = {}"
  shows "step_inv N (pages \<union> A - D) n (set_mem s k)"
proof -
  from inv obtain fl where k: "kinv N fl k" "all_pages fl k = pages" by (auto simp: step_inv_def)
  then have mi: "mem_inv fl k" by (simp add: kinv_def)
  from s [OF mem_inv_free [OF mi]] obtain fl' where
    fl': "free_pages s fl'" "same_outside P (k_mem k) s" "set fl' = set fl \<union> A - D" "D \<subseteq> set fl" "P \<subseteq> A \<union> D" by blast
  have dis: "pages_of (k_mem k) (procs k ! i) \<inter> (P \<union> set fl') = {}" if i: "i < length (procs k)" for i
  proof -
    have "pages_of (k_mem k) (procs k ! i) \<inter> set fl = {}" "pages_of (k_mem k) (procs k ! i) \<subseteq> pages"
      using proc_ok_disjoint [OF mem_inv_slot [OF mi i]] i k(2) by (auto simp: all_pages_def)
    then show ?thesis using fl'(3-5) A(1) by blast
  qed
  note m = mem_inv_outside [OF mi fl'(2,1) dis]
  have "D \<inter> (all_pages fl k - set fl) = {}" using fl'(4) by auto
  then have "all_pages fl' (set_mem s k) = pages \<union> A - D"
    using m(2) fl'(3) A k(2) by (auto simp: all_pages_def)
  moreover have "tree_inv N (set_mem s k)" "wait_inv (set_mem s k)"
    using inv by (auto simp: step_inv_def kinv_def tree_inv_def wait_inv_def zombie_child_def)
  ultimately show ?thesis using inv m(1) by (auto simp: step_inv_def kinv_def)
qed

lemma file_alloc_inv:
  assumes inv: "step_inv N pages n k" and a: "kalloc (k_mem k) = (a, s)" "a \<noteq> 0"
  shows "step_inv N (pages - {a}) n (set_mem s k) \<and> a \<in> pages"
proof -
  have al: "\<exists>fl'. free_pages s fl' \<and> same_outside {a} (k_mem k) s \<and> set fl' = set fl \<union> {} - {a} \<and> {a} \<subseteq> set fl \<and> {a} \<subseteq> {} \<union> {a}"
    if fl: "free_pages (k_mem k) fl" for fl
  proof (cases fl)
    case Nil
    then show ?thesis using ka.alloc_nil fl a by simp
  next
    case (Cons b rest)
    from kalloc_step [OF fl [unfolded Cons]] a(1) Cons show ?thesis by (intro exI [of _ rest]) auto
  qed
  from inv obtain fl where "kinv N fl k" "all_pages fl k = pages" by (auto simp: step_inv_def)
  then have "a \<in> pages" using al [of fl] by (auto simp: kinv_def mem_inv_def all_pages_def)
  have "step_inv N (pages \<union> {} - {a}) n (set_mem s k)" by (rule step_inv_outside [OF inv al]) simp_all
  then show ?thesis using \<open>a \<in> pages\<close> by simp
qed

lemma file_free_inv:
  assumes inv: "step_inv N pages n k" and a: "a \<notin> pages" "a \<noteq> 0" "kfree a (k_mem k) = Ok s"
  shows "step_inv N (insert a pages) n (set_mem s k)"
proof -
  have u: "usable (k_mem k) a"
    using a(2,3) by (auto simp: usable_def kfree_def page_aligned_mod split: if_splits)
  have fr: "\<exists>fl'. free_pages s fl' \<and> same_outside {a} (k_mem k) s \<and> set fl' = set fl \<union> {a} - {} \<and> {} \<subseteq> set fl \<and> {a} \<subseteq> {a} \<union> {}"
    if "free_pages (k_mem k) fl" "a \<notin> set fl" for fl
    using kfree_step [OF that(1) u that(2)] a(3) by (intro exI [of _ "a # fl"]) auto
  from inv obtain fl where k: "kinv N fl k" "all_pages fl k = pages" by (auto simp: step_inv_def)
  then have fp: "free_pages (k_mem k) fl" "a \<notin> set fl" using a(1) by (auto simp: kinv_def mem_inv_def all_pages_def)
  have "step_inv N (pages \<union> {a} - {}) n (set_mem s k)"
    by (rule step_inv_outside [OF inv fr]) (use a(1) ka.pool_unique [OF fp(1)] fp(2) in auto)
  then show ?thesis by simp
qed

lemma file_write_inv:
  assumes inv: "step_inv N pages n k" and x: "PGROUNDDOWN x \<notin> pages"
  shows "step_inv N pages n (set_mem ((k_mem k)\<lparr>pmem := (pmem (k_mem k))(x := b)\<rparr>) k)"
proof -
  let ?s = "(k_mem k)\<lparr>pmem := (pmem (k_mem k))(x := b)\<rparr>"
  have out: "same_outside {PGROUNDDOWN x} (k_mem k) ?s"
    by (auto simp: same_outside_def same_page_def)
  from inv obtain fl where k: "kinv N fl k" "all_pages fl k = pages" by (auto simp: step_inv_def)
  then have mi: "mem_inv fl k" by (simp add: kinv_def)
  have px: "PGROUNDDOWN x \<notin> set fl" using x k(2) by (auto simp: all_pages_def)
  have fp: "free_pages ?s fl"
  proof (rule free_pages_frame [OF mem_inv_free [OF mi]])
    show "same_page (pmem (k_mem k)) ((pmem (k_mem k))(x := b)) a" if "a \<in> set fl" for a
      using that px by (auto simp: same_page_def)
  qed
  have dis: "pages_of (k_mem k) (procs k ! i) \<inter> ({PGROUNDDOWN x} \<union> set fl) = {}" if i: "i < length (procs k)" for i
    using proc_ok_disjoint [OF mem_inv_slot [OF mi i]] i k(2) x by (auto simp: all_pages_def)
  note m = mem_inv_outside [OF mi out fp dis]
  have "all_pages fl (set_mem ?s k) = pages" using m(2) k(2) by (auto simp: all_pages_def)
  moreover have "tree_inv N (set_mem ?s k)" "wait_inv (set_mem ?s k)"
    using inv by (auto simp: step_inv_def kinv_def tree_inv_def wait_inv_def zombie_child_def)
  ultimately show ?thesis using inv m(1) by (auto simp: step_inv_def kinv_def)
qed

section \<open>The steps of fork\<close>

lemma made_settled: "made np k k' \<Longrightarrow> settled W k k'"
  by (auto simp: made_def intro: settled_slot)

lemma slot_wait_inv:
  assumes w: "wait_inv k" and ps: "procs k' = (procs k)[i := c]" and c: "p_state c \<noteq> ZOMBIE" "p_chan c = Null"
  shows "wait_inv k'"
proof (rule wait_inv_weaken [OF w])
  show "length (procs k') = length (procs k)" using ps by simp
  show "p_chan (procs k ! j) = Proc_chan j" if "j < length (procs k)" "p_chan (procs k' ! j) = Proc_chan j" for j
    using that ps c by (cases "j = i") auto
  show "zombie_child q k j" if "j < length (procs k)" "zombie_child q k' j" for j q
    using that ps c by (cases "j = i") (auto simp: zombie_child_def)
qed

lemma fork_make_inv:
  assumes inv: "step_inv N pages n k" and p: "running p k" and f: "fork_make fs p k = ret (r, k')"
  shows "case r of None \<Rightarrow> step_inv N pages n k' \<and> settled {} k k'
    | Some np \<Rightarrow> step_inv (insert np N) pages n k' \<and> made np k k'"
proof -
  have al: "p < length (procs k)" "alive (procs k ! p)" using p by (simp_all add: running_def alive_def)
  from inv obtain fl where k: "kinv N fl k" "all_pages fl k = pages" "length (procs k) = n" "wait_inv k"
    by (auto simp: step_inv_def)
  from fork_make_spec [OF k(1) al, of fs] f obtain fl' where all: "all_pages fl' k' = pages"
    and post: "case r of
       None \<Rightarrow> kinv N fl' k' \<and> (procs k' = procs k \<or>
         (\<exists>i c. p_state (procs k ! i) = UNUSED \<and> procs k' = (procs k)[i := c] \<and> p_state c \<noteq> ZOMBIE \<and> p_chan c = Null))
     | Some np \<Rightarrow> kinv (insert np N) fl' k' \<and> made np k k'"
    using k(2) by auto
  show ?thesis
  proof (cases r)
    case None
    with post have kv: "kinv N fl' k'" and ps: "procs k' = procs k \<or>
         (\<exists>i c. p_state (procs k ! i) = UNUSED \<and> procs k' = (procs k)[i := c] \<and> p_state c \<noteq> ZOMBIE \<and> p_chan c = Null)"
      by simp_all
    from ps have "wait_inv k' \<and> settled {} k k' \<and> length (procs k') = n"
    proof
      assume "procs k' = procs k"
      then show ?thesis using k(3,4) by (simp add: settled_same wait_inv_def zombie_child_def)
    next
      assume "\<exists>i c. p_state (procs k ! i) = UNUSED \<and> procs k' = (procs k)[i := c] \<and> p_state c \<noteq> ZOMBIE \<and> p_chan c = Null"
      then obtain i c where c: "p_state (procs k ! i) = UNUSED" "procs k' = (procs k)[i := c]" "p_state c \<noteq> ZOMBIE" "p_chan c = Null"
        by blast
      then show ?thesis using slot_wait_inv [OF k(4) c(2-4)] settled_slot [OF c(2)] k(3) by simp
    qed
    then show ?thesis using kv all None by (auto simp: step_inv_def)
  next
    case (Some np)
    with post have kv: "kinv (insert np N) fl' k'" "made np k k'" by simp_all
    from kv(2) obtain c where c: "procs k' = (procs k)[np := c]" "newborn c" "p_chan c = Null"
      by (auto simp: made_def)
    have "wait_inv k'" by (rule slot_wait_inv [OF k(4) c(1)]) (use c in \<open>simp_all add: newborn_def\<close>)
    then show ?thesis using kv all k(3) c(1) Some by (auto simp: step_inv_def)
  qed
qed

lemma forks_ok_made:
  assumes F: "forks_ok n k F" and n: "length (procs k) = n" and mk: "made np k k'"
    and p: "running p k" "F p = None"
  shows "forks_ok n k' (F(p \<mapsto> (np, False)))"
proof -
  have F': "forks_ok n k' F" by (rule forks_ok_settled [OF F made_settled [OF mk, of "{}"]]) (use n in simp_all)
  from mk obtain c where c: "procs k' = (procs k)[np := c]" "newborn c" "np < n" "p_state (procs k ! np) = UNUSED"
    using n by (auto simp: made_def)
  have "p \<noteq> np" using p(1) c(4) by (auto simp: running_def)
  then have new: "p < n" "p_state (procs k' ! p) = RUNNING" "p_state (procs k' ! np) = USED" "p_parent (procs k' ! np) = None"
    using p(1) c n by (simp_all add: running_def newborn_def)
  have fresh: "F q \<noteq> Some (np, b)" for q b using F c(4) unfolding forks_ok_def by force
  show ?thesis
    unfolding forks_ok_def
  proof (intro allI impI)
    fix q nq b assume q: "(F(p \<mapsto> (np, False))) q = Some (nq, b)"
    show "q < n \<and> nq < n \<and> p_state (procs k' ! q) \<in> {RUNNING, RUNNABLE} \<and> p_state (procs k' ! nq) = USED \<and>
      p_parent (procs k' ! nq) = (if b then Some q else None) \<and> (\<forall>r c. (F(p \<mapsto> (np, False))) r = Some (nq, c) \<longrightarrow> r = q)"
    proof (cases "q = p")
      case True
      then show ?thesis using q new c(3) fresh by auto
    next
      case False
      then have f: "F q = Some (nq, b)" using q by simp
      then have "nq \<noteq> np" using fresh by auto
      then show ?thesis using F' f unfolding forks_ok_def by auto
    qed
  qed
qed

lemma step_inv_adopt:
  assumes inv: "step_inv N pages n k" and p: "running p k"
    and np: "np \<in> N" "p_state (procs k ! np) = USED"
  shows "step_inv (N - {np}) pages n (fork_adopt p np k)"
proof -
  from inv obtain fl where k: "kinv N fl k" "all_pages fl k = pages" "length (procs k) = n" "wait_inv k"
    by (auto simp: step_inv_def)
  have "wait_inv (fork_adopt p np k)"
  proof (rule wait_inv_weaken [OF k(4)])
    show "length (procs (fork_adopt p np k)) = length (procs k)" by (simp add: fork_adopt_def)
    show "p_chan (procs k ! j) = Proc_chan j"
      if "j < length (procs k)" "p_chan (procs (fork_adopt p np k) ! j) = Proc_chan j" for j
      using that by (cases "j = np") (simp_all add: fork_adopt_def)
    show "zombie_child q k j" if "j < length (procs k)" "zombie_child q (fork_adopt p np k) j" for j q
      using that np(2) by (cases "j = np") (auto simp: fork_adopt_def zombie_child_def)
  qed
  moreover have "p \<noteq> np" "alive (procs k ! p)" "p < length (procs k)"
    using p np(2) by (auto simp: running_def alive_def)
  ultimately show ?thesis
    using fork_adopt_kinv [OF k(1) np(1)] k by (auto simp: step_inv_def fork_adopt_def)
qed

lemma step_inv_start:
  assumes inv: "step_inv N pages n k" and np: "np \<notin> N" "p_state (procs k ! np) = USED"
  shows "step_inv N pages n (fork_start np k)"
  unfolding fork_start_def
proof (rule step_inv_upd [OF inv])
  show "same_space (procs k ! np) ((procs k ! np)\<lparr>p_state := RUNNABLE\<rparr>)"
    "same_tree (procs k ! np) ((procs k ! np)\<lparr>p_state := RUNNABLE\<rparr>)"
    using np(2) by (simp_all add: same_space_def same_tree_def)
  have "same_wait (procs k ! np) ((procs k ! np)\<lparr>p_state := RUNNABLE\<rparr>)" using np(2) by (simp add: same_wait_def)
  then show "wait_inv (upd np (\<lambda>q. q\<lparr>p_state := RUNNABLE\<rparr>) k)"
    using inv same_wait_upd [of k np "\<lambda>q. q\<lparr>p_state := RUNNABLE\<rparr>"] by (auto simp: step_inv_def intro: wait_inv_same)
qed (use np in simp)

section \<open>Every step keeps the invariants\<close>

lemma forks_ok_D:
  "forks_ok n k F \<Longrightarrow> F p = Some (np, b) \<Longrightarrow> p < n \<and> np < n \<and> p_state (procs k ! p) \<in> {RUNNING, RUNNABLE} \<and>
   p_state (procs k ! np) = USED \<and> p_parent (procs k ! np) = (if b then Some p else None)"
  unfolding forks_ok_def by blast

lemma forks_ok_adopted:
  assumes F: "forks_ok n k F" and n: "length (procs k) = n" and f: "F p = Some (np, False)"
  shows "forks_ok n (fork_adopt p np k) (F(p \<mapsto> (np, True)))"
  unfolding forks_ok_def
proof (intro allI impI)
  let ?F = "F(p \<mapsto> (np, True))" and ?k = "fork_adopt p np k"
  note d = forks_ok_D [OF F f]
  fix q nq b assume q: "?F q = Some (nq, b)"
  have other: "\<And>q c. F q = Some (np, c) \<Longrightarrow> q = p" using F f unfolding forks_ok_def by blast
  have st: "p_state (procs ?k ! j) = p_state (procs k ! j)" for j
    by (cases "j = np") (use d n in \<open>simp_all add: fork_adopt_def\<close>)
  show "q < n \<and> nq < n \<and> p_state (procs ?k ! q) \<in> {RUNNING, RUNNABLE} \<and> p_state (procs ?k ! nq) = USED \<and>
      p_parent (procs ?k ! nq) = (if b then Some q else None) \<and> (\<forall>r c. ?F r = Some (nq, c) \<longrightarrow> r = q)"
  proof (cases "q = p")
    case True
    then have e: "nq = np" "b = True" using q by simp_all
    have one: "\<forall>r c. ?F r = Some (np, c) \<longrightarrow> r = p" using other by (auto split: if_splits)
    have par: "p_parent (procs ?k ! np) = (if True then Some p else None)" using d n by (simp add: fork_adopt_def)
    show ?thesis unfolding e True st using d one par by blast
  next
    case False
    then have fq: "F q = Some (nq, b)" using q by simp
    have "nq \<noteq> np" using fq other False by auto
    have one: "r = q" if "?F r = Some (nq, c)" for r c
      using that F fq \<open>nq \<noteq> np\<close> unfolding forks_ok_def by (cases "r = p") auto
    have "p_parent (procs ?k ! nq) = p_parent (procs k ! nq)" using \<open>nq \<noteq> np\<close> by (simp add: fork_adopt_def)
    then show ?thesis using forks_ok_D [OF F fq] one unfolding st by metis
  qed
qed

lemma forks_ok_started:
  assumes F: "forks_ok n k F" and n: "length (procs k) = n" and f: "F p = Some (np, True)"
  shows "forks_ok n (fork_start np k) (F(p := None))"
  unfolding forks_ok_def
proof (intro allI impI)
  let ?F = "F(p := None)" and ?k = "fork_start np k"
  note d = forks_ok_D [OF F f]
  fix q nq b assume q: "?F q = Some (nq, b)"
  then have fq: "F q = Some (nq, b)" "q \<noteq> p" by (auto split: if_splits)
  then have "nq \<noteq> np" using F f unfolding forks_ok_def by blast
  moreover have "q \<noteq> np" using d forks_ok_D [OF F fq(1)] by auto
  moreover have "r = q" if "?F r = Some (nq, c)" for r c
    using that F fq unfolding forks_ok_def by (cases "r = p") auto
  ultimately show "q < n \<and> nq < n \<and> p_state (procs ?k ! q) \<in> {RUNNING, RUNNABLE} \<and> p_state (procs ?k ! nq) = USED \<and>
      p_parent (procs ?k ! nq) = (if b then Some q else None) \<and> (\<forall>r c. ?F r = Some (nq, c) \<longrightarrow> r = q)"
    using forks_ok_D [OF F fq(1)] by (auto simp: fork_start_def)
qed

lemma kstep_minv:
  assumes "kstep e m m'" and inv: "minv pages n m"
  shows "minv pages n m'"
proof -
  let ?N = "newborns (m_fork m)" and ?pages = "pages - m_files m"
  have si: "step_inv ?N ?pages n (m_k m)" and fi: "m_files m \<subseteq> pages" "0 \<notin> m_files m"
    and F: "forks_ok n (m_k m) (m_fork m)" using inv by (simp_all add: minv_def)
  have n: "length (procs (m_k m)) = n" using si by (simp add: step_inv_def)
  from assms(1) show ?thesis
  proof cases
    case (process p k')
    from proc_step_inv [OF process(4) si process(2)] show ?thesis
      using forks_ok_settled [OF F _ _ n, of "{p}" k'] process fi by (simp add: minv_def)
  next
    case (system k')
    from sys_step_inv [OF system(2) si] show ?thesis
      using forks_ok_settled [OF F _ _ n, of "{}" k'] system fi by (simp add: minv_def)
  next
    case (fork_fails p k')
    from fork_make_inv [OF si fork_fails(2,4)] show ?thesis
      using forks_ok_settled [OF F _ _ n, of "{}" k'] fork_fails fi by (simp add: minv_def)
  next
    case (fork_makes p np k')
    from fork_make_inv [OF si fork_makes(2,4)] show ?thesis
      using forks_ok_made [OF F n _ fork_makes(2,3)] fork_makes fi by (simp add: minv_def newborns_new)
  next
    case (fork_adopts p np)
    note d = forks_ok_D [OF F fork_adopts(3)] and nb = newborns_upd [OF F fork_adopts(3)]
    show ?thesis
      using step_inv_adopt [OF si fork_adopts(2)] forks_ok_adopted [OF F n fork_adopts(3)] d nb fork_adopts fi
      by (simp add: minv_def)
  next
    case (fork_starts p np)
    note d = forks_ok_D [OF F fork_starts(3)] and nb = newborns_upd [OF F fork_starts(3)]
    show ?thesis
      using step_inv_start [OF si] forks_ok_started [OF F n fork_starts(3)] d nb fork_starts fi
      by (simp add: minv_def)
  next
    case (file_alloc a s)
    note al = file_alloc_inv [OF si file_alloc(2,3)]
    have "pages - insert a (m_files m) = pages - m_files m - {a}" by auto
    moreover have "forks_ok n (set_mem s (m_k m)) (m_fork m)"
      by (rule forks_ok_settled [OF F settled_same [of _ _ "{}"]]) (use n in simp_all)
    ultimately show ?thesis using al file_alloc fi by (simp add: minv_def)
  next
    case (file_write s x b)
    have "forks_ok n (set_mem t (m_k m)) (m_fork m)" for t
      by (rule forks_ok_settled [OF F settled_same [of _ _ "{}"]]) (use n in simp_all)
    then show ?thesis using file_write_inv [OF si, of x b] file_write fi by (simp add: minv_def)
  next
    case (file_free a s)
    then have "a \<noteq> 0" "a \<in> pages" using fi by auto
    then have "step_inv ?N (insert a ?pages) n (set_mem s (m_k m))"
      using file_free_inv [OF si, of a s] file_free by simp
    moreover have "insert a ?pages = pages - (m_files m - {a})" using \<open>a \<in> pages\<close> by auto
    moreover have "forks_ok n (set_mem s (m_k m)) (m_fork m)"
      by (rule forks_ok_settled [OF F settled_same [of _ _ "{}"]]) (use n in simp_all)
    ultimately show ?thesis using file_free fi by (auto simp: minv_def)
  qed
qed

lemma reachable_minv: "reachable e m0 m \<Longrightarrow> minv pages n m0 \<Longrightarrow> minv pages n m"
  by (induction rule: reachable.induct) (auto intro: kstep_minv)

end
