(* ===== verification/Vm_Print.thy ===== *)
theory Vm_Print
  imports Vm_Sizes
begin

text \<open>
  \<open>vmprint\<close> shows the address space: reading its output back, the lines at depth three are
  exactly the mapped pages, in increasing order of address.
\<close>

text \<open>The lines of an output, each with the number of \<open>" .."\<close> printed before it.\<close>

fun scan :: "nat \<Rightarrow> printed list \<Rightarrow> (nat \<times> u64 \<times> u64 \<times> u64) list" where
  "scan d [] = []"
| "scan d (Page_table t # out) = scan 0 out"
| "scan d (Dots # out) = scan (Suc d) out"
| "scan d (Pte_line va e pa # out) = (d, va, e, pa) # scan 0 out"

definition leaf_lines :: "printed list \<Rightarrow> (u64 \<times> u64 \<times> u64) list" where
  "leaf_lines out = map snd (filter (\<lambda>l. fst l = 3) (scan 0 out))"

definition whole :: "printed list \<Rightarrow> bool" where
  "whole out \<longleftrightarrow> (\<forall>rest. scan 0 (out @ rest) = scan 0 out @ scan 0 rest)"

lemma scan_dots: "scan d (replicate k Dots @ out) = scan (d + k) out"
  by (induction k arbitrary: d) auto

lemma whole_Nil: "whole []"
  by (simp add: whole_def)

lemma whole_append: "whole a \<Longrightarrow> whole b \<Longrightarrow> whole (a @ b)"
  by (simp add: whole_def)

lemma whole_line: "whole out \<Longrightarrow> whole (replicate k Dots @ Pte_line va e pa # out)"
  by (simp add: whole_def scan_dots)

lemma whole_concat: "(\<And>x. x \<in> set xs \<Longrightarrow> whole (f x)) \<Longrightarrow> whole (concat (map f xs))"
  by (induction xs) (auto simp: whole_Nil intro: whole_append)

lemma whole_vmprint: "whole (vmprint_nivel m l t va)"
proof (induction l arbitrary: t va)
  case 0
  show ?case unfolding vmprint_nivel.simps
    by (rule whole_concat) (simp add: Let_def whole_Nil whole_line)
next
  case (Suc l)
  show ?case unfolding vmprint_nivel.simps
    by (rule whole_concat) (simp add: Let_def whole_Nil whole_line Suc.IH)
qed

lemma leaf_lines_append: "whole a \<Longrightarrow> leaf_lines (a @ b) = leaf_lines a @ leaf_lines b"
  by (simp add: leaf_lines_def whole_def)

lemma leaf_lines_concat:
  "(\<And>x. x \<in> set xs \<Longrightarrow> whole (f x)) \<Longrightarrow>
   leaf_lines (concat (map f xs)) = concat (map (\<lambda>x. leaf_lines (f x)) xs)"
proof (induction xs)
  case Nil
  show ?case by (simp add: leaf_lines_def)
next
  case (Cons x xs)
  then show ?case by (simp add: leaf_lines_append)
qed

lemma leaf_lines_line:
  "leaf_lines (replicate k Dots @ Pte_line va e pa # out) =
   (if k = 3 then [(va, e, pa)] else []) @ leaf_lines out"
  by (simp add: leaf_lines_def scan_dots)

section \<open>Addresses in order\<close>

definition pages_from :: "u64 \<Rightarrow> nat \<Rightarrow> u64 list" where
  "pages_from base n = map (\<lambda>i. base + of_nat i * PGSIZE) [0..<n]"

definition leaves :: "(u64 \<Rightarrow> u64) \<Rightarrow> u64 list \<Rightarrow> (u64 \<times> u64 \<times> u64) list" where
  "leaves f vas = map (\<lambda>va. (va, f va, PTE2PA (f va))) (filter (\<lambda>va. valid (f va)) vas)"

lemma leaves_append: "leaves f (xs @ ys) = leaves f xs @ leaves f ys"
  by (simp add: leaves_def)

lemma leaves_concat: "leaves f (concat xss) = concat (map (leaves f) xss)"
  by (induction xss) (auto simp: leaves_append leaves_def)

lemma leaves_cong: "(\<And>va. va \<in> set vas \<Longrightarrow> f va = g va) \<Longrightarrow> leaves f vas = leaves g vas"
  by (induction vas) (auto simp: leaves_def)

lemma pages_from_add:
  "pages_from base (n + k) = pages_from base n @ pages_from (base + of_nat n * PGSIZE) k"
proof -
  have "[0..<n + k] = [0..<n] @ map (\<lambda>i. i + n) [0..<k]"
    using upt_add_eq_append [of 0 n k] map_add_upt [of n k] by (simp add: add.commute)
  then show ?thesis by (simp add: pages_from_def algebra_simps)
qed

lemma pages_from_mult:
  "pages_from base (n * k) = concat (map (\<lambda>i. pages_from (base + of_nat (i * k) * PGSIZE) k) [0..<n])"
proof (induction n)
  case 0
  show ?case by (simp add: pages_from_def)
next
  case (Suc n)
  have "pages_from base (Suc n * k) =
      pages_from base (n * k) @ pages_from (base + of_nat (n * k) * PGSIZE) k"
    using pages_from_add [of base "n * k" k] by (simp add: add.commute)
  then show ?case using Suc by simp
qed

lemma unat_add_small:
  "unat a + unat b < 18446744073709551616 \<Longrightarrow> unat (a + b :: u64) = unat a + unat b"
  by (simp add: unat_word_ariths)

lemma unat_PX: "unat (PX l va) = unat va div 2 ^ (12 + 9 * l) mod 512"
proof -
  have "PX l va = take_bit 9 (drop_bit (12 + 9 * l) va)"
    by (simp add: PX_def PXSHIFT_def masks flip: take_bit_eq_mask)
  then have "unat (PX l va) = take_bit 9 (drop_bit (12 + 9 * l) (unat va))"
    by (simp add: unsigned_take_bit_eq unsigned_drop_bit_eq)
      (simp add: take_bit_nat_eq_self unat64)
  then show ?thesis by (simp add: take_bit_eq_mod drop_bit_eq_div)
qed


text \<open>The part of a table's range that entry \<open>i\<close> covers.\<close>

lemma PX_base:
  assumes b: "unat base + 4096 * 512 ^ Suc l \<le> 2 ^ 39" "unat base mod (4096 * 512 ^ Suc l) = 0"
    and i: "i < 512" and j: "j < 512 ^ l"
  shows "PX l (base + of_nat (i * 512 ^ l) * PGSIZE + of_nat j * PGSIZE) = of_nat i"
proof -
  let ?va = "base + of_nat (i * 512 ^ l) * PGSIZE + of_nat j * PGSIZE"
  let ?u = "4096 * 512 ^ l :: nat"
  obtain c where c: "unat base = 512 * c * ?u" using b(2) by (auto elim!: dvdE simp: mod_eq_0_iff_dvd)
  have ij: "i * 512 ^ l + j < 512 ^ Suc l"
  proof -
    have "i * 512 ^ l + j < (i + 1) * 512 ^ l" using j by simp
    also have "\<dots> \<le> 512 * 512 ^ l" using i by (intro mult_le_mono1) simp
    finally show ?thesis by simp
  qed
  have va: "?va = base + of_nat ((i * 512 ^ l + j) * 4096)" by (simp add: algebra_simps)
  have lt: "unat base + (i * 512 ^ l + j) * 4096 < 2 ^ 39" using b(1) ij by simp
  have "unat (of_nat ((i * 512 ^ l + j) * 4096) :: u64) = (i * 512 ^ l + j) * 4096"
    using lt by (subst unat_of_nat) simp
  then have "unat ?va = unat base + (i * 512 ^ l + j) * 4096"
    unfolding va using lt by (simp add: unat_word_ariths)
  also have "\<dots> = (512 * c + i) * ?u + j * 4096" using c by (simp add: algebra_simps)
  finally have "unat ?va div ?u = 512 * c + i" using j by simp
  moreover have "(2 :: nat) ^ (12 + 9 * l) = ?u"
    by (simp add: power_add power_mult)
  ultimately have "unat (PX l ?va) = i" using i by (simp add: unat_PX)
  then show ?thesis using i by (simp add: word_unat_eq_iff unat_of_nat)
qed

lemma sub_base:
  assumes b: "unat base + 4096 * 512 ^ Suc l \<le> 2 ^ 39" "unat base mod (4096 * 512 ^ Suc l) = 0"
    and i: "i < 512"
  shows "unat (base + of_nat (i * 512 ^ l) * PGSIZE) + 4096 * 512 ^ l \<le> 2 ^ 39"
    "unat (base + of_nat (i * 512 ^ l) * PGSIZE) mod (4096 * 512 ^ l) = 0"
proof -
  have "Suc i * (4096 * 512 ^ l) \<le> 512 * (4096 * 512 ^ l)" using i by (intro mult_le_mono1) simp
  moreover have "Suc i * (4096 * 512 ^ l) = i * (4096 * 512 ^ l) + 4096 * 512 ^ l" by simp
  moreover have "unat base + 512 * (4096 * 512 ^ l) \<le> 2 ^ 39" using b(1) by simp
  ultimately have lt: "unat base + i * (4096 * 512 ^ l) + 4096 * 512 ^ l \<le> 2 ^ 39" by linarith
  have pos: "0 < (4096 :: nat) * 512 ^ l" by simp
  have "(of_nat (i * 512 ^ l) * PGSIZE :: u64) = of_nat (i * (4096 * 512 ^ l))"
    by (simp add: algebra_simps)
  moreover have "unat (of_nat (i * (4096 * 512 ^ l)) :: u64) = i * (4096 * 512 ^ l)"
    using lt pos by (subst unat_of_nat) simp
  ultimately have w: "unat (of_nat (i * 512 ^ l) * PGSIZE :: u64) = i * (4096 * 512 ^ l)"
    by (simp only:)
  have "(2 :: nat) ^ 39 < 18446744073709551616" by simp
  then have "unat base + i * (4096 * 512 ^ l) < 18446744073709551616" using lt by linarith
  then have u: "unat (base + of_nat (i * 512 ^ l) * PGSIZE) = unat base + i * (4096 * 512 ^ l)"
    using unat_add_small [of base "of_nat (i * 512 ^ l) * PGSIZE"] unfolding w by blast
  show "unat (base + of_nat (i * 512 ^ l) * PGSIZE) + 4096 * 512 ^ l \<le> 2 ^ 39"
    using lt u by simp
  have "4096 * 512 ^ l dvd (4096 * 512 ^ Suc l :: nat)" by simp
  then have "4096 * 512 ^ l dvd unat base" using b(2) by (meson dvd_trans mod_eq_0_iff_dvd)
  then show "unat (base + of_nat (i * 512 ^ l) * PGSIZE) mod (4096 * 512 ^ l) = 0"
    unfolding u by simp
qed

lemma shift_page: "(push_bit (PGSHIFT + 9 * l) (of_nat i) :: u64) = of_nat (i * 512 ^ l) * PGSIZE"
  by (simp add: push_bit_eq_mult power_add power_mult)

section \<open>vmprint\<close>

lemma vmprint_nivel_leaves:
  "pt_tree ok m l t \<Longrightarrow> l \<le> 2 \<Longrightarrow> unat base + 4096 * 512 ^ Suc l \<le> 2 ^ 39 \<Longrightarrow>
   unat base mod (4096 * 512 ^ Suc l) = 0 \<Longrightarrow>
   leaf_lines (vmprint_nivel m l t base) = leaves (pt_look m l t) (pages_from base (512 ^ Suc l))"
proof (induction l arbitrary: t base)
  case (0 t base)
  have PX0: "PX 0 (base + of_nat i * PGSIZE) = of_nat i" if "i < 512" for i
    using PX_base [of base 0 i 0] 0(3,4) that by simp
  have "leaf_lines (vmprint_nivel m 0 t base) = concat (map (\<lambda>i.
      leaves (pt_look m 0 t) [base + of_nat i * PGSIZE]) [0..<512])"
    unfolding vmprint_nivel.simps
  proof (subst leaf_lines_concat)
    show "whole (let pte = ent m t (of_nat x); vaini = base + push_bit PGSHIFT (of_nat x)
        in if pte AND PTE_V = 0 then []
           else replicate 3 Dots @ [Pte_line vaini pte (PTE2PA pte)])" for x
      by (simp add: Let_def whole_Nil whole_line)
    show "concat (map (\<lambda>x. leaf_lines (let pte = ent m t (of_nat x);
        vaini = base + push_bit PGSHIFT (of_nat x)
        in if pte AND PTE_V = 0 then []
           else replicate 3 Dots @ [Pte_line vaini pte (PTE2PA pte)])) [0..<512]) =
      concat (map (\<lambda>i. leaves (pt_look m 0 t) [base + of_nat i * PGSIZE]) [0..<512])"
      using PX0 shift_page [of 0]
      by (intro arg_cong [where f = concat] map_cong refl)
        (simp add: Let_def leaves_def valid_def leaf_lines_line, simp add: leaf_lines_def)
  qed
  also have "\<dots> = leaves (pt_look m 0 t) (concat (map (\<lambda>i. [base + of_nat i * PGSIZE]) [0..<512]))"
    by (simp only: leaves_concat map_map o_def)
  also have "concat (map (\<lambda>i. [base + of_nat i * PGSIZE]) [0..<512]) = pages_from base (512 ^ Suc 0)"
    by (simp only: pages_from_def power_Suc power_0 mult_1_right concat_map_singleton)
  finally show ?case .
next
  case (Suc l t base)
  let ?f = "\<lambda>i. let pte = ent m t (of_nat i);
      vaini = base + push_bit (PGSHIFT + 9 * Suc l) (of_nat i)
      in if pte AND PTE_V = 0 then []
         else replicate (3 - Suc l) Dots @ [Pte_line vaini pte (PTE2PA pte)] @
              (if pte AND (PTE_R OR PTE_W OR PTE_X) = 0
               then vmprint_nivel m l (PTE2PA pte) vaini else [])"
  let ?b = "\<lambda>i. base + of_nat (i * 512 ^ Suc l) * PGSIZE"
  have one: "leaf_lines (?f i) = leaves (pt_look m (Suc l) t) (pages_from (?b i) (512 ^ Suc l))"
    if i: "i < 512" for i
  proof -
    have i': "(of_nat i :: u64) < 512" using i by (simp add: word_less_nat_alt unat_of_nat)
    have look: "pt_look m (Suc l) t va = (if valid (ent m t (of_nat i))
        then pt_look m l (PTE2PA (ent m t (of_nat i))) va else 0)"
      if "va \<in> set (pages_from (?b i) (512 ^ Suc l))" for va
      using that PX_base [OF Suc.prems(3,4) i] by (auto simp: pages_from_def Let_def)
    show ?thesis
    proof (cases "valid (ent m t (of_nat i))")
      case False
      then have "leaves (pt_look m (Suc l) t) (pages_from (?b i) (512 ^ Suc l)) =
          leaves (\<lambda>_. 0) (pages_from (?b i) (512 ^ Suc l))"
        using look by (intro leaves_cong) simp
      also have "\<dots> = []" by (simp add: leaves_def)
      finally show ?thesis using False by (simp add: valid_def Let_def leaf_lines_def)
    next
      case True
      let ?c = "PTE2PA (ent m t (of_nat i))"
      have "interior (ent m t (of_nat i))" "pt_tree ok m l ?c" using Suc.prems(1) True i' by auto
      moreover have "leaf_lines (vmprint_nivel m l ?c (?b i)) =
          leaves (pt_look m l ?c) (pages_from (?b i) (512 ^ Suc l))"
        by (rule Suc.IH) (use \<open>pt_tree ok m l ?c\<close> Suc.prems(2) sub_base [OF Suc.prems(3,4) i] in auto)
      moreover have "leaves (pt_look m l ?c) (pages_from (?b i) (512 ^ Suc l)) =
          leaves (pt_look m (Suc l) t) (pages_from (?b i) (512 ^ Suc l))"
        using look True by (intro leaves_cong) simp
      ultimately show ?thesis
        using True shift_page [of "Suc l" i] Suc.prems(2)
        by (simp add: valid_def interior_def Let_def leaf_lines_line)
    qed
  qed
  have "leaf_lines (vmprint_nivel m (Suc l) t base) = concat (map (\<lambda>i. leaf_lines (?f i)) [0..<512])"
    unfolding vmprint_nivel.simps
    by (rule leaf_lines_concat) (simp add: Let_def whole_Nil whole_line whole_vmprint)
  also have "\<dots> = concat (map (\<lambda>i. leaves (pt_look m (Suc l) t)
      (pages_from (?b i) (512 ^ Suc l))) [0..<512])"
    by (intro arg_cong [where f = concat] map_cong refl one) simp
  also have "\<dots> = leaves (pt_look m (Suc l) t)
      (concat (map (\<lambda>i. pages_from (?b i) (512 ^ Suc l)) [0..<512]))"
    by (simp only: leaves_concat map_map o_def)
  also have "concat (map (\<lambda>i. pages_from (?b i) (512 ^ Suc l)) [0..<512]) =
      pages_from base (512 * 512 ^ Suc l)"
    by (rule pages_from_mult [symmetric])
  finally show ?case by simp
qed

end
