(* ===== verification/Vm_Props.thy ===== *)
theory Vm_Props
  imports Vm_Fork Vm_Print
begin

text \<open>
  The properties of the page-table and user-memory routines, over concrete sample states
  that their witnesses use: a machine with 32 free pages, two empty address spaces in it,
  and the first of them grown to two pages.
\<close>

section \<open>Sample states\<close>

definition sample_phys :: phys where
  "sample_phys = (case kinit (boot_phys 0x87fe0000) of Ok s \<Rightarrow> s | Panic _ \<Rightarrow> boot_phys 0)"

definition sample_pt :: u64 where
  "sample_pt = fst (uvmcreate sample_phys)"

definition sample_pt2 :: u64 where
  "sample_pt2 = fst (uvmcreate (snd (uvmcreate sample_phys)))"

definition sample_empty :: phys where
  "sample_empty = snd (uvmcreate (snd (uvmcreate sample_phys)))"

definition sample_user :: phys where
  "sample_user = (case uvmalloc sample_pt 0 8192 PTE_W sample_empty of
     Ok (r, s) \<Rightarrow> s | Panic _ \<Rightarrow> sample_empty)"

lemma sample_phys_free: "\<exists>fl. free_pages sample_phys fl \<and> 32 \<le> length fl"
proof -
  have "\<exists>s' fl. kinit (boot_phys 0x87fe0000) = Ok s' \<and> free_pages s' fl \<and>
      kend s' = kend (boot_phys 0x87fe0000) \<and>
      set fl = {a. page_aligned a \<and> kend (boot_phys 0x87fe0000) \<le> a \<and> a < PHYSTOP}"
    by (rule kinit_spec) (simp_all add: boot_phys_def PHYSTOP_val)
  then obtain s' fl where k: "kinit (boot_phys 0x87fe0000) = Ok s'" "free_pages s' fl"
    and fl: "set fl = {a. page_aligned a \<and> 0x87fe0000 \<le> a \<and> a < PHYSTOP}"
    by (auto simp: boot_phys_def)
  let ?A = "(\<lambda>i :: nat. 0x87fe0000 + of_nat i * PGSIZE) ` {0..<32}"
  have u: "unat (0x87fe0000 + of_nat i * PGSIZE :: u64) = 0x87fe0000 + i * 4096" if "i < 32" for i
    using that by (simp add: unat_word_ariths unat_of_nat)
  have "?A \<subseteq> set fl"
  proof
    fix a assume "a \<in> ?A"
    then obtain i where i: "i < 32" "a = 0x87fe0000 + of_nat i * PGSIZE" by auto
    have "(4096 :: nat) dvd 0x87fe0000 + i * 4096" by (intro dvd_add) simp_all
    then have "page_aligned a" unfolding page_aligned_unat i(2) u [OF i(1)] .
    then show "a \<in> set fl"
      using i u [OF i(1)] unfolding fl by (simp add: word_le_nat_alt word_less_nat_alt PHYSTOP_val)
  qed
  moreover have "inj_on (\<lambda>i :: nat. 0x87fe0000 + of_nat i * PGSIZE :: u64) {0..<32}"
    by (rule inj_onI) (metis u atLeastLessThan_iff add_left_cancel mult_right_cancel zero_neq_numeral)
  then have "card ?A = 32" by (simp add: card_image)
  ultimately have "32 \<le> card (set fl)" by (metis card_mono List.finite_set)
  then show ?thesis
    using k card_length [of fl] by (intro exI [of _ fl]) (simp add: sample_phys_def)
qed

lemma sample_phys_kend: "kend sample_phys = 0x87fe0000"
proof -
  have "\<exists>s' fl. kinit (boot_phys 0x87fe0000) = Ok s' \<and> free_pages s' fl \<and>
      kend s' = kend (boot_phys 0x87fe0000) \<and>
      set fl = {a. page_aligned a \<and> kend (boot_phys 0x87fe0000) \<le> a \<and> a < PHYSTOP}"
    by (rule kinit_spec) (simp_all add: boot_phys_def PHYSTOP_val)
  then obtain s' where "kinit (boot_phys 0x87fe0000) = Ok s'" "kend s' = kend (boot_phys 0x87fe0000)" by blast
  then show ?thesis unfolding sample_phys_def by (simp only: res.case) (simp add: boot_phys_def)
qed

lemma sample_empty_spaces:
  "\<exists>fl. uspace sample_empty fl sample_pt \<and> uspace sample_empty fl sample_pt2 \<and>
     apart sample_empty fl sample_pt2 sample_pt \<and> 30 \<le> length fl \<and>
     (\<forall>va. pte_of sample_empty sample_pt va = 0) \<and> (\<forall>va. pte_of sample_empty sample_pt2 va = 0)"
proof -
  obtain fl where fp: "free_pages sample_phys fl" and len: "32 \<le> length fl"
    using sample_phys_free by blast
  then obtain p q rest where fl: "fl = p # q # rest"
    by (cases fl; cases "tl fl") auto
  from uvmcreate_spec [of sample_phys p "q # rest"] fp fl obtain s1 where
    c1: "uvmcreate sample_phys = (p, s1)" and u1: "uspace s1 (q # rest) p" and t1: "tables s1 p = {p}"
    and e1: "\<forall>va. pte_of s1 p va = 0" by auto
  have fp1: "free_pages s1 (q # rest)" using uspace_as_inv [OF u1] by (simp add: as_inv_def)
  from uvmcreate_spec [OF fp1] obtain s2 where
    c2: "uvmcreate s1 = (q, s2)" and u2: "uspace s2 rest q" and t2: "tables s2 q = {q}"
    and m2: "upages s2 q = {}" and e2: "\<forall>va. pte_of s2 q va = 0" and out: "same_outside {q} s1 s2" by auto
  have pq: "p \<noteq> q" "p \<notin> set rest" "q \<notin> set rest"
    using fp fl by (auto simp: free_pages_def)
  have tree: "pt_tree (usable s1) (pmem s1) 2 p" using uspace_as_inv [OF u1] by (simp add: as_inv_def)
  have "tables s1 p \<inter> {q} = {}" using t1 pq by auto
  note fr = space_frame [OF tree out this]
  have fp2: "free_pages s2 rest" using uspace_as_inv [OF u2] by (simp add: as_inv_def)
  have inv: "as_inv s2 rest 2 p" using fr fp2 t1 pq by (simp add: as_inv_def)
  have up0: "upages s1 p = {}" using e1 by (simp add: upages_def mapped_def)
  have sm: "same_map s1 s2 p" using fr(3) by (simp add: same_map_def)
  have u1': "uspace s2 rest p"
    by (rule uspace_cong [OF u1 inv sm same_outside_usable [OF out]]) (simp add: up0)
  have "upages s2 p = {}" using upages_cong [OF sm] up0 by simp
  then have "account s2 rest p = insert p (set rest)" using fr t1 by (auto simp: account_def)
  then have "apart s2 rest q p" using u2 t2 m2 pq by (auto simp: apart_def)
  moreover have "sample_empty = s2" "sample_pt = p" "sample_pt2 = q"
    using c1 c2 by (simp_all add: sample_empty_def sample_pt_def sample_pt2_def)
  moreover have "30 \<le> length rest" using len fl by simp
  ultimately show ?thesis using u1' u2 e1 e2 fr(3) by auto
qed


lemma sample_user_spec:
  "\<exists>fl. uspace sample_user fl sample_pt \<and> uspace sample_user fl sample_pt2 \<and>
     apart sample_user fl sample_pt sample_pt2 \<and>
     (\<forall>va < VATOP. valid (pte_of sample_user sample_pt va) \<longleftrightarrow> va < 8192) \<and>
     (\<forall>va < VATOP. \<not> valid (pte_of sample_user sample_pt2 va)) \<and>
     (\<forall>va < 8192. PTE_FLAGS (pte_of sample_user sample_pt va) = PTE_R OR PTE_U OR PTE_W OR PTE_V)"
proof -
  let ?s = sample_empty and ?p = sample_pt and ?q = sample_pt2
  from sample_empty_spaces obtain fl where u: "uspace ?s fl ?p" "uspace ?s fl ?q"
    and ap: "apart ?s fl ?q ?p" and len: "30 \<le> length fl"
    and e: "\<forall>va. pte_of ?s ?p va = 0" "\<forall>va. pte_of ?s ?q va = 0" by blast
  have up: "PGROUNDUP 0 = 0" "PGROUNDUP 8192 = 8192" by (simp_all add: PGROUNDUP_def)
  have "\<exists>r s'. uvmalloc_loop ?p 0 0 8192 PTE_W ?s = Ok (r, s') \<and>
      grow_post ?s fl ?p 0 0 (PGROUNDUP 8192) 8192 (PTE_R OR PTE_U OR PTE_W) r s' \<and>
      (3 * 2 \<le> length fl \<longrightarrow> r = 8192 \<and> grown ?s s' ?p 0 (PGROUNDUP 8192) (PTE_R OR PTE_U OR PTE_W))"
    by (rule uvmalloc_loop_spec [OF u(1)])
      (simp_all add: page_aligned_def up e pte_bits TRAPFRAME_val word_le_nat_alt)
  then obtain s' where s': "uvmalloc_loop ?p 0 0 8192 PTE_W ?s = Ok (8192, s')"
    and post: "grow_post ?s fl ?p 0 0 8192 8192 (PTE_R OR PTE_U OR PTE_W) 8192 s'"
    and g: "grown ?s s' ?p 0 8192 (PTE_R OR PTE_U OR PTE_W)"
    using len up by auto
  then have su: "sample_user = s'" by (simp add: sample_user_def uvmalloc_def up)
  from post obtain fl' where p: "uspace s' fl' ?p" "account s' fl' ?p = account ?s fl ?p"
    "same_outside (account ?s fl ?p) ?s s'"
    unfolding grow_post_def by blast
  note keep = apart_keep [OF ap p(3,2,1)]
  have q: "uspace s' fl' ?q" using keep(1) by (simp add: apart_def)
  have eq0: "pte_of s' ?q va = 0" for va using keep(2) e(2) by simp
  then have "upages s' ?q = {}" by (simp add: upages_def mapped_def)
  moreover have "tables s' ?q \<inter> account s' fl' ?p = {}" using keep(1) by (auto simp: apart_def)
  moreover have "(tables s' ?p \<union> upages s' ?p) \<inter> set fl' = {}"
    using uspace_disjoint [OF p(1)] uspace_as_inv [OF p(1)] by (auto simp: as_inv_def uspace_def)
  ultimately have "apart s' fl' ?p ?q" using p(1) by (auto simp: apart_def account_def)
  moreover have "valid (pte_of s' ?p va) \<longleftrightarrow> va < 8192" if "va < VATOP" for va
    using g [unfolded grown_def, rule_format, OF that] e(1) by (auto simp: mapped_def split: if_splits)
  moreover have "PTE_FLAGS (pte_of s' ?p va) = PTE_R OR PTE_U OR PTE_W OR PTE_V" if "va < 8192" for va
  proof -
    have "va < VATOP" using that by (simp add: word_less_nat_alt)
    from g [unfolded grown_def, rule_format, OF this] that show ?thesis by (simp add: or.assoc)
  qed
  ultimately show ?thesis using su p(1) q eq0 by (intro exI [of _ fl']) auto
qed

section \<open>Mapping and unmapping\<close>

text \<open>
  C20. \<open>mappages\<close> on a page-aligned range below \<open>MAXVA\<close> without valid entries never panics.
  It maps the first \<open>k\<close> pages of the range to consecutive physical pages with the given
  permissions and changes no other entry; the result is 0 exactly when all pages are
  mapped, and two free pages per page suffice for that.
\<close>

theorem mappages_maps_range:
  assumes "as_inv s fl 2 pt" "page_aligned va" "unat va + 4096 * n \<le> 2 ^ 38" "0 < n"
    "\<And>x. in_run va n x \<Longrightarrow> \<not> valid (pte_of s pt x)"
  shows "\<exists>r s' fl' k. mappages pt va (of_nat n * PGSIZE) pa perm s = Ok (r, s') \<and>
    as_inv s' fl' 2 pt \<and> k \<le> n \<and> r = (if k = n then 0 else -1) \<and>
    (2 * n \<le> length fl \<longrightarrow> r = 0) \<and>
    (\<forall>x < VATOP. pte_of s' pt x =
       (if in_run va k x then PA2PTE (pa + (PGROUNDDOWN x - va)) OR perm OR PTE_V
        else pte_of s pt x)) \<and>
    same_outside (tables s pt \<union> set fl) s s'"
proof -
  from mappages_spec [OF assms(1-4), of pa perm] assms(5) obtain r s' where
    call: "mappages pt va (of_nat n * PGSIZE) pa perm s = Ok (r, s')"
    and "map_post s fl pt va n pa perm r s'" by blast
  then obtain used fl' k where p: "fl = used @ fl'" "as_inv s' fl' 2 pt" "touched s pt used s'"
    "k \<le> n" "r = (if k = n then 0 else -1)" "k < n \<longrightarrow> fl' = []"
    "length used + (if k < n then 1 else 0) \<le> 2 * k + (if k < n then 2 else 0)"
    "mapped_run (pte_of s pt) (pte_of s' pt) va k pa perm"
    unfolding map_post_def by blast
  have "k = n" if "2 * n \<le> length fl"
  proof (rule ccontr)
    assume "k \<noteq> n"
    then have "k < n" using p(4) by simp
    then show False using that p(1,6,7) by auto
  qed
  moreover have "same_outside (tables s pt \<union> set fl) s s'"
    by (rule same_outside_mono [OF touched_outside [OF p(3)]]) (use p(1) in auto)
  ultimately show ?thesis using call p by (auto simp: mapped_run_def)
qed

theorem mappages_maps_range_witness:
  "\<exists>r s'. mappages sample_pt 0x10000 (of_nat 2 * PGSIZE) 0x80000000 PTE_R sample_empty = Ok (r, s') \<and> r = 0"
proof -
  from sample_empty_spaces obtain fl where u: "uspace sample_empty fl sample_pt" "30 \<le> length fl"
    "\<forall>va. pte_of sample_empty sample_pt va = 0" by blast
  have "page_aligned (0x10000 :: u64)" by (simp add: page_aligned_unat)
  from mappages_maps_range [OF uspace_as_inv [OF u(1)] this, of 2 "0x80000000" PTE_R] u
  show ?thesis by auto
qed

lemma mappages_first_remap:
  assumes inv: "as_inv s fl 2 pt" and va: "va < MAXVA" and v: "valid (pte_of s pt va)"
  shows "mappages_loop pt va l pa perm s = Panic ''mappages: remap''"
proof -
  from walk_spec [OF inv va] obtain r s' used fl' where w: "walk pt va True s = Ok (r, s')"
    and inv': "as_inv s' fl' 2 pt" and pte: "pte_of s' pt = pte_of s pt"
    and lf: "leaf (pmem s') 2 pt va = r" by blast
  have nz: "r \<noteq> 0" using no_leaf [OF inv', of va] lf pte v by auto
  then have "load64 (pmem s') r = pte_of s pt va" using load_leaf [OF inv', of va] lf pte by simp
  then show ?thesis
    using w nz v by (subst mappages_loop.simps) (simp add: valid_def)
qed

text \<open>
  What \<open>mappages\<close> refuses: an unaligned address or size, an empty range, and a page
  that is already mapped stop the kernel with the panic of that check; \<open>walkaddr\<close> and
  \<open>ismapped\<close> report that page instead.
\<close>

theorem mappages_panics:
  assumes "as_inv s fl 2 pt" "va < MAXVA"
  shows "(\<not> page_aligned va \<longrightarrow> mappages pt va sz pa perm s = Panic ''mappages: va not aligned'') \<and>
    (page_aligned va \<longrightarrow> \<not> page_aligned sz \<longrightarrow>
       mappages pt va sz pa perm s = Panic ''mappages: size not aligned'') \<and>
    (page_aligned va \<longrightarrow> mappages pt va 0 pa perm s = Panic ''mappages: size'') \<and>
    (page_aligned va \<longrightarrow> page_aligned sz \<longrightarrow> sz \<noteq> 0 \<longrightarrow> valid (pte_of s pt va) \<longrightarrow>
       mappages pt va sz pa perm s = Panic ''mappages: remap'') \<and>
    ismapped pt va s = Ok (if valid (pte_of s pt va) then 1 else 0, s)"
  using mappages_first_remap [OF assms] ismapped_spec [OF assms]
  by (simp add: mappages_def page_aligned_mod)

theorem mappages_panics_witness:
  "mappages sample_pt 0 4096 0x80000000 PTE_R sample_user = Panic ''mappages: remap'' \<and>
   mappages sample_pt 8 4096 0x80000000 PTE_R sample_user = Panic ''mappages: va not aligned''"
proof -
  from sample_user_spec obtain fl where u: "uspace sample_user fl sample_pt"
    "valid (pte_of sample_user sample_pt 0)" by auto
  have "page_aligned (0 :: u64)" "page_aligned (4096 :: u64)" "\<not> page_aligned (8 :: u64)"
    by (simp_all add: page_aligned_unat)
  moreover have "(0 :: u64) < MAXVA" "(8 :: u64) < MAXVA" by (simp_all add: MAXVA_val)
  ultimately show ?thesis
    using mappages_panics [OF uspace_as_inv [OF u(1)], of 0 4096 "0x80000000" PTE_R]
      mappages_panics [OF uspace_as_inv [OF u(1)], of 8 4096 "0x80000000" PTE_R] u(2) by simp
qed

lemma page_aligned_plus: "page_aligned a \<Longrightarrow> page_aligned b \<Longrightarrow> page_aligned (a + b)"
  unfolding page_aligned_unat by (simp add: unat_word_ariths dvd_mod)

lemma page_aligned_minus: "page_aligned a \<Longrightarrow> page_aligned b \<Longrightarrow> page_aligned (a - b)"
  unfolding page_aligned_unat by (auto simp: unat_sub_if' intro!: dvd_diff_nat dvd_add)

text \<open>
  Mapping a range of user pages and unmapping it again: in between, \<open>walkaddr\<close> finds
  for every address of the range the physical page it was given, and afterwards the
  address space maps exactly what it mapped before.
\<close>

theorem map_unmap_roundtrip:
  assumes "as_inv s fl 2 pt" "page_aligned va" "unat va + 4096 * n \<le> 2 ^ 38" "0 < n"
    "\<And>x. in_run va n x \<Longrightarrow> \<not> valid (pte_of s pt x)"
    "2 * n \<le> length fl" "page_aligned pa" "perm < 1024" "perm AND PTE_U \<noteq> 0"
  shows "\<exists>s1 s2. mappages pt va (of_nat n * PGSIZE) pa perm s = Ok (0, s1) \<and>
    (\<forall>x < MAXVA. in_run va n x \<longrightarrow> walkaddr pt x s1 = Ok (pa + (PGROUNDDOWN x - va), s1)) \<and>
    uvmunmap pt va (of_nat n) False s1 = Ok s2 \<and>
    (\<forall>x < VATOP. if valid (pte_of s pt x) then pte_of s2 pt x = pte_of s pt x
                 else \<not> valid (pte_of s2 pt x))"
proof -
  from mappages_spec [OF assms(1-4), of pa perm] assms(5) obtain r s1 where
    call: "mappages pt va (of_nat n * PGSIZE) pa perm s = Ok (r, s1)"
    and post: "map_post s fl pt va n pa perm r s1" by blast
  from post obtain fl1 where inv1: "as_inv s1 fl1 2 pt" and r: "r = 0"
    and run: "mapped_run (pte_of s pt) (pte_of s1 pt) va n pa perm"
    unfolding map_post_def using assms(6) by (auto split: if_splits)
  have bU: "bit perm 4" using assms(9) by (simp add: test_pte_bits)
  have w: "walkaddr pt x s1 = Ok (pa + (PGROUNDDOWN x - va), s1)" if x: "x < MAXVA" "in_run va n x" for x
  proof -
    let ?p = "pa + (PGROUNDDOWN x - va)"
    have e: "pte_of s1 pt x = PA2PTE ?p OR perm OR PTE_V"
      using run x MAXVA_VATOP by (simp add: mapped_run_def)
    have "page_aligned ?p"
      using assms(2,7) by (intro page_aligned_plus page_aligned_minus) simp_all
    then have "PTE2PA (pte_of s1 pt x) = ?p" unfolding e by (rule PTE2PA_leaf [OF _ assms(8)])
    moreover have "bit (pte_of s1 pt x) 4" using e bU by (simp add: bit_or_iff)
    ultimately show ?thesis using walkaddr_spec [OF inv1, of x] x(1) e by simp
  qed
  from uvmunmap_spec [OF inv1 assms(2,3), of False] obtain s2 where
    un: "uvmunmap pt va (of_nat n) False s1 = Ok s2" and "unmap_post s1 fl1 pt va n [] s2" by auto
  then have "cleared_run (pte_of s1 pt) (pte_of s2 pt) va n" by (simp add: unmap_post_def)
  then have "if valid (pte_of s pt x) then pte_of s2 pt x = pte_of s pt x
      else \<not> valid (pte_of s2 pt x)" if "x < VATOP" for x
    using run assms(5) [of x] that by (auto simp: cleared_run_def mapped_run_def)
  then show ?thesis using call r w un by blast
qed

theorem map_unmap_roundtrip_witness:
  "\<exists>s1 s2. mappages sample_pt 0x10000 (of_nat 2 * PGSIZE) 0x80000000 (PTE_R OR PTE_U) sample_empty = Ok (0, s1) \<and>
     walkaddr sample_pt 0x11008 s1 = Ok (0x80001000, s1) \<and>
     uvmunmap sample_pt 0x10000 (of_nat 2) False s1 = Ok s2"
proof -
  from sample_empty_spaces obtain fl where u: "uspace sample_empty fl sample_pt" "30 \<le> length fl"
    "\<forall>va. pte_of sample_empty sample_pt va = 0" by blast
  have al: "page_aligned (0x10000 :: u64)" "page_aligned (0x80000000 :: u64)"
    by (simp_all add: page_aligned_unat)
  have "\<exists>s1 s2. mappages sample_pt 0x10000 (of_nat 2 * PGSIZE) 0x80000000 (PTE_R OR PTE_U) sample_empty = Ok (0, s1) \<and>
    (\<forall>x < MAXVA. in_run 0x10000 2 x \<longrightarrow>
       walkaddr sample_pt x s1 = Ok (0x80000000 + (PGROUNDDOWN x - 0x10000), s1)) \<and>
    uvmunmap sample_pt 0x10000 (of_nat 2) False s1 = Ok s2 \<and>
    (\<forall>x < VATOP. if valid (pte_of sample_empty sample_pt x)
       then pte_of s2 sample_pt x = pte_of sample_empty sample_pt x
       else \<not> valid (pte_of s2 sample_pt x))"
    by (rule map_unmap_roundtrip [OF uspace_as_inv [OF u(1)]])
      (use u al in \<open>simp_all add: pte_bits\<close>)
  moreover have "(0x11008 :: u64) < MAXVA" "in_run 0x10000 2 0x11008"
    "0x80000000 + (PGROUNDDOWN 0x11008 - 0x10000) = (0x80001000 :: u64)"
    by (simp_all add: MAXVA_val in_run_def PGROUNDDOWN_def)
  ultimately show ?thesis by metis
qed

text \<open>
  C10. \<open>uvmunmap\<close> with \<open>do_free\<close> on a range of a user address space clears exactly the valid
  entries of the range and puts exactly their pages in front of the free list, in reverse
  order; tables, other entries and all other memory are unchanged.
\<close>

theorem uvmunmap_frees_range:
  assumes "uspace s fl pt" "page_aligned a" "unat a + 4096 * n \<le> unat TRAPFRAME"
  shows "\<exists>s'. uvmunmap pt a (of_nat n) True s = Ok s' \<and>
    uspace s' (rev (run_pages (pte_of s pt) a n) @ fl) pt \<and>
    (\<forall>va < VATOP. pte_of s' pt va =
       (if in_run a n va \<and> valid (pte_of s pt va) then 0 else pte_of s pt va)) \<and>
    tables s' pt = tables s pt \<and>
    same_outside (tables s pt \<union> set (run_pages (pte_of s pt) a n)) s s'"
  using unmap_owned [OF assms] by (auto simp: cleared_run_def)

theorem uvmunmap_frees_range_witness:
  "\<exists>s'. uvmunmap sample_pt 0 (of_nat 2) True sample_user = Ok s' \<and> pte_of s' sample_pt 0x1000 = 0"
proof -
  from sample_user_spec obtain fl where u: "uspace sample_user fl sample_pt"
    and v: "\<forall>va < VATOP. valid (pte_of sample_user sample_pt va) \<longleftrightarrow> va < 8192" by blast
  have "page_aligned (0 :: u64)" "unat (0 :: u64) + 4096 * 2 \<le> unat TRAPFRAME"
    by (simp_all add: page_aligned_unat TRAPFRAME_val)
  from uvmunmap_frees_range [OF u this] obtain s' where
    s': "uvmunmap sample_pt 0 (of_nat 2) True sample_user = Ok s'"
    and e: "\<forall>va < VATOP. pte_of s' sample_pt va =
      (if in_run 0 2 va \<and> valid (pte_of sample_user sample_pt va) then 0
       else pte_of sample_user sample_pt va)" by blast
  have "pte_of s' sample_pt 0x1000 = 0" using e [rule_format, of "0x1000"] v by (simp add: in_run_def)
  then show ?thesis using s' by blast
qed

section \<open>Sizes\<close>

text \<open>
  \<open>uvmalloc\<close> never panics on a range without mappings. It either returns the new size
  with every page of the range mapped to a zeroed page of its own with the requested
  permissions, or returns 0 with the range unmapped again; in both cases the rest of the
  address space is as before and no page is lost. Three free pages per page suffice.
\<close>

theorem uvmalloc_grows:
  assumes "uspace s fl pt" "oldsz \<le> newsz" "newsz \<le> - PGSIZE" "PGROUNDUP newsz \<le> TRAPFRAME"
    "xperm < 1024"
    "\<And>va. PGROUNDUP oldsz \<le> va \<Longrightarrow> va < PGROUNDUP newsz \<Longrightarrow> \<not> valid (pte_of s pt va)"
  shows "\<exists>r s' fl'. uvmalloc pt oldsz newsz xperm s = Ok (r, s') \<and> uspace s' fl' pt \<and>
    account s' fl' pt = account s fl pt \<and> same_outside (account s fl pt) s s' \<and>
    (r = newsz \<and> grown s s' pt (PGROUNDUP oldsz) (PGROUNDUP newsz) (PTE_R OR PTE_U OR xperm) \<or>
     r = 0 \<and> rolled_back s s' pt (PGROUNDUP oldsz) (PGROUNDUP newsz)) \<and>
    (3 * (unat (PGROUNDUP newsz - PGROUNDUP oldsz) div 4096) \<le> length fl \<longrightarrow>
       r = newsz \<and> grown s s' pt (PGROUNDUP oldsz) (PGROUNDUP newsz) (PTE_R OR PTE_U OR xperm))"
  by (rule uvmalloc_spec [OF assms])

theorem uvmalloc_grows_witness:
  "\<exists>s'. uvmalloc sample_pt 0 5000 PTE_W sample_empty = Ok (5000, s') \<and>
     (\<forall>va < 8192. mapped s' sample_pt va \<and> ubyte s' sample_pt va = 0)"
proof -
  from sample_empty_spaces obtain fl where u: "uspace sample_empty fl sample_pt" "30 \<le> length fl"
    "\<forall>va. pte_of sample_empty sample_pt va = 0" by blast
  have up: "PGROUNDUP 0 = 0" "PGROUNDUP 5000 = 8192" by (simp_all add: PGROUNDUP_def)
  have "\<exists>r s' fl'. uvmalloc sample_pt 0 5000 PTE_W sample_empty = Ok (r, s') \<and> uspace s' fl' sample_pt \<and>
    account s' fl' sample_pt = account sample_empty fl sample_pt \<and>
    same_outside (account sample_empty fl sample_pt) sample_empty s' \<and>
    (r = 5000 \<and> grown sample_empty s' sample_pt (PGROUNDUP 0) (PGROUNDUP 5000) (PTE_R OR PTE_U OR PTE_W) \<or>
     r = 0 \<and> rolled_back sample_empty s' sample_pt (PGROUNDUP 0) (PGROUNDUP 5000)) \<and>
    (3 * (unat (PGROUNDUP 5000 - PGROUNDUP 0) div 4096) \<le> length fl \<longrightarrow> r = 5000 \<and>
       grown sample_empty s' sample_pt (PGROUNDUP 0) (PGROUNDUP 5000) (PTE_R OR PTE_U OR PTE_W))"
    by (rule uvmalloc_grows [OF u(1)])
      (use u in \<open>simp_all add: up TRAPFRAME_val pte_bits word_le_nat_alt\<close>)
  then obtain s' where s': "uvmalloc sample_pt 0 5000 PTE_W sample_empty = Ok (5000, s')"
    and g: "grown sample_empty s' sample_pt 0 8192 (PTE_R OR PTE_U OR PTE_W)"
    using u(2) by (auto simp: up)
  have "mapped s' sample_pt va \<and> ubyte s' sample_pt va = 0" if "va < 8192" for va
  proof -
    have "va < VATOP" using that by (simp add: word_less_nat_alt)
    from g [unfolded grown_def, rule_format, OF this] that show ?thesis by simp
  qed
  then show ?thesis using s' by blast
qed

text \<open>
  \<open>uvmdealloc\<close> to a smaller size returns that size, removes exactly the mappings from
  its page boundary up to the old one, and gives their pages back: none is lost, and no
  byte of the pages that stay mapped changes. The \<open>int\<close> page count of the code does not
  overflow there.
\<close>

theorem uvmdealloc_shrinks:
  assumes "uspace s fl pt" "PGROUNDUP oldsz \<le> TRAPFRAME" "oldsz \<le> - PGSIZE" "newsz < oldsz"
  shows "\<exists>s' fl'. uvmdealloc pt oldsz newsz s = Ok (newsz, s') \<and> uspace s' fl' pt \<and>
    account s' fl' pt = account s fl pt \<and> tables s' pt = tables s pt \<and> set fl \<subseteq> set fl' \<and>
    (\<forall>va < VATOP. pte_of s' pt va =
       (if PGROUNDUP newsz \<le> va \<and> va < PGROUNDUP oldsz \<and> valid (pte_of s pt va) then 0
        else pte_of s pt va)) \<and>
    (\<forall>va. mapped s' pt va \<longrightarrow> ubyte s' pt va = ubyte s pt va)"
  using uvmdealloc_spec [OF assms] unfolding shrunk_def by blast

theorem uvmdealloc_shrinks_witness:
  "\<exists>s'. uvmdealloc sample_pt 8192 4096 sample_user = Ok (4096, s') \<and> pte_of s' sample_pt 0x1000 = 0"
proof -
  from sample_user_spec obtain fl where u: "uspace sample_user fl sample_pt"
    and v: "\<forall>va < VATOP. valid (pte_of sample_user sample_pt va) \<longleftrightarrow> va < 8192" by blast
  have up: "PGROUNDUP 4096 = 4096" "PGROUNDUP 8192 = 8192" by (simp_all add: PGROUNDUP_def)
  have "\<exists>s' fl'. uvmdealloc sample_pt 8192 4096 sample_user = Ok (4096, s') \<and> uspace s' fl' sample_pt \<and>
    account s' fl' sample_pt = account sample_user fl sample_pt \<and>
    tables s' sample_pt = tables sample_user sample_pt \<and> set fl \<subseteq> set fl' \<and>
    (\<forall>va < VATOP. pte_of s' sample_pt va =
       (if PGROUNDUP 4096 \<le> va \<and> va < PGROUNDUP 8192 \<and> valid (pte_of sample_user sample_pt va) then 0
        else pte_of sample_user sample_pt va)) \<and>
    (\<forall>va. mapped s' sample_pt va \<longrightarrow> ubyte s' sample_pt va = ubyte sample_user sample_pt va)"
    by (rule uvmdealloc_shrinks [OF u]) (simp_all add: up TRAPFRAME_val word_le_nat_alt)
  then obtain s' where s': "uvmdealloc sample_pt 8192 4096 sample_user = Ok (4096, s')"
    and e: "\<forall>va < VATOP. pte_of s' sample_pt va =
       (if 4096 \<le> va \<and> va < 8192 \<and> valid (pte_of sample_user sample_pt va) then 0
        else pte_of sample_user sample_pt va)" unfolding up by blast
  then show ?thesis using e [rule_format, of "0x1000"] v by auto
qed

text \<open>
  C27. \<open>uvmfree\<close> returns and frees everything: after it the free list holds exactly the
  pages it held before, the pages of the user memory and every table page, each once.
\<close>

theorem uvmfree_releases_everything:
  assumes "uspace s fl pt" "PGROUNDUP sz \<le> TRAPFRAME"
    "\<forall>va < VATOP. valid (pte_of s pt va) \<longrightarrow> va < PGROUNDUP sz"
  shows "\<exists>s' fl'. uvmfree pt sz s = Some (Ok s') \<and> free_pages s' fl' \<and>
    set fl' = set fl \<union> tables s pt \<union> upages s pt \<and> same_outside (set fl') s s'"
  using uvmfree_spec [OF assms] unfolding account_def by metis

theorem uvmfree_releases_everything_witness:
  "\<exists>s' fl'. uvmfree sample_pt 8000 sample_user = Some (Ok s') \<and> free_pages s' fl' \<and>
     sample_pt \<in> set fl' \<and> page_of sample_user sample_pt 0 \<in> set fl'"
proof -
  from sample_user_spec obtain fl where u: "uspace sample_user fl sample_pt"
    and v: "\<forall>va < VATOP. valid (pte_of sample_user sample_pt va) \<longleftrightarrow> va < 8192" by blast
  have up: "PGROUNDUP 8000 = 8192" by (simp add: PGROUNDUP_def)
  have "PGROUNDUP 8000 \<le> TRAPFRAME" by (simp add: up TRAPFRAME_val)
  moreover have "\<forall>va < VATOP. valid (pte_of sample_user sample_pt va) \<longrightarrow> va < PGROUNDUP 8000"
    using v up by simp
  ultimately obtain s' fl' where "uvmfree sample_pt 8000 sample_user = Some (Ok s')" "free_pages s' fl'"
    "set fl' = set fl \<union> tables sample_user sample_pt \<union> upages sample_user sample_pt"
    using uvmfree_releases_everything [OF u] by blast
  moreover have "mapped sample_user sample_pt 0" using v by (simp add: mapped_def TRAPFRAME_val)
  ultimately show ?thesis using mapped_upages pt_set_root by blast
qed

section \<open>Copying\<close>

lemma not_stuck:
  assumes "uspace s fl pt" "user_pte (pte_of s pt va)" "va < TRAPFRAME"
  shows "\<not> stuck s pt psz (PGROUNDDOWN va) fl'"
proof -
  have "PGROUNDDOWN va < TRAPFRAME" using assms(3) PGROUNDDOWN_le [of va] by simp
  then show ?thesis
    using assms(2) by (simp add: stuck_def lbyte_def pte_of_PGROUNDDOWN user_pte_def)
qed

lemma bit_PTE_FLAGS: "n < 10 \<Longrightarrow> bit (PTE_FLAGS e) n \<longleftrightarrow> bit e n"
  by (simp add: PTE_FLAGS_def masks bit_simps)

text \<open>The two pages of the sample process are readable and writable.\<close>

lemma sample_rw:
  assumes "va < 8192"
  shows "user_pte (pte_of sample_user sample_pt va)" "lwrite sample_user sample_pt psz va" "va < TRAPFRAME"
proof -
  have f: "PTE_FLAGS (pte_of sample_user sample_pt va) = PTE_R OR PTE_U OR PTE_W OR PTE_V"
    using sample_user_spec assms by blast
  have "bit (pte_of sample_user sample_pt va) 0" "bit (pte_of sample_user sample_pt va) 4"
    "bit (pte_of sample_user sample_pt va) 2"
    using bit_PTE_FLAGS [of 0 "pte_of sample_user sample_pt va"]
      bit_PTE_FLAGS [of 4 "pte_of sample_user sample_pt va"]
      bit_PTE_FLAGS [of 2 "pte_of sample_user sample_pt va"]
    unfolding f by (simp_all add: bit_or_iff bit_pte_bits)
  moreover show "va < TRAPFRAME" using assms by (simp add: TRAPFRAME_val word_less_nat_alt)
  ultimately show "user_pte (pte_of sample_user sample_pt va)" "lwrite sample_user sample_pt psz va"
    by (simp_all add: user_pte_def valid_bit lwrite_def)
qed

lemma sample_not_blocked: "va < 8192 \<Longrightarrow> \<not> blocked sample_user sample_pt psz (PGROUNDDOWN va) fl'"
proof -
  assume "va < 8192"
  then have "PGROUNDDOWN va < 8192" using PGROUNDDOWN_le [of va] by simp
  then show ?thesis using sample_rw(1,2) by (simp add: blocked_def user_pte_def)
qed


text \<open>
  C28. Lazy allocation is invisible: a page fault below the process size changes no byte of
  the abstract user memory (where unallocated pages read as zero) and loses no page; the
  faulting page is afterwards a user page, unless the address is out of range, already
  mapped, or no page is left.
\<close>

theorem vmfault_invisible:
  assumes "uspace s fl pt" "psz \<le> TRAPFRAME"
  shows "\<exists>r s' fl'. vmfault pt psz va rd s = Ok (r, s') \<and> uspace s' fl' pt \<and>
    account s' fl' pt = account s fl pt \<and> lbyte s' pt psz = lbyte s pt psz \<and>
    (r \<noteq> 0 \<longrightarrow> va < psz \<and> user_pte (pte_of s' pt va) \<and> page_of s' pt va = r) \<and>
    (r = 0 \<longrightarrow> psz \<le> va \<or> valid (pte_of s pt va) \<or> length fl' \<le> 1)"
  using vmfault_spec [OF assms] unfolding keeps_def by blast

theorem vmfault_invisible_witness:
  "\<exists>r s'. vmfault sample_pt 0x3000 0x2fff True sample_user = Ok (r, s') \<and>
     lbyte s' sample_pt 0x3000 0x2fff = Some 0"
proof -
  from sample_user_spec obtain fl where u: "uspace sample_user fl sample_pt"
    and v: "\<forall>va < VATOP. valid (pte_of sample_user sample_pt va) \<longleftrightarrow> va < 8192" by blast
  have "(0x3000 :: u64) \<le> TRAPFRAME" by (simp add: TRAPFRAME_val)
  from vmfault_invisible [OF u this, of "0x2fff" True] obtain r s' where
    "vmfault sample_pt 0x3000 0x2fff True sample_user = Ok (r, s')"
    "lbyte s' sample_pt 0x3000 = lbyte sample_user sample_pt 0x3000" by blast
  moreover have "lbyte sample_user sample_pt 0x3000 0x2fff = Some 0"
    using v [rule_format, of "0x2fff"] by (simp add: lbyte_def user_pte_def TRAPFRAME_val PGROUNDDOWN_def)
  ultimately show ?thesis by metis
qed

text \<open>
  C21. \<open>copyin\<close> refines reading the abstract user memory: the bytes it delivers are those of
  the memory, in order; it returns 0 exactly when it has delivered all of them, and -1
  only where the next page is not readable user memory or a lazy page cannot be
  allocated. The abstract memory does not change and no page is lost.
\<close>

theorem copyin_reads:
  assumes "uspace s fl pt" "psz \<le> TRAPFRAME"
  shows "\<exists>r bs s' fl'. copyin pt psz srcva len s = Ok (r, bs, s') \<and> uspace s' fl' pt \<and>
    account s' fl' pt = account s fl pt \<and> lbyte s' pt psz = lbyte s pt psz \<and>
    (\<forall>i < length bs. lbyte s pt psz (srcva + of_nat i) = Some (bs ! i)) \<and>
    (r = 0 \<and> length bs = unat len \<or>
     r = -1 \<and> length bs < unat len \<and> stuck s pt psz (PGROUNDDOWN (srcva + of_nat (length bs))) fl')"
  using copyin_spec [OF assms] unfolding read_post_def keeps_def by blast

theorem copyin_reads_witness:
  "\<exists>bs s'. copyin sample_pt 8192 4090 10 sample_user = Ok (0, bs, s') \<and> length bs = 10"
proof -
  from sample_user_spec obtain fl where u: "uspace sample_user fl sample_pt" by blast
  have "(8192 :: u64) \<le> TRAPFRAME" by (simp add: TRAPFRAME_val)
  from copyin_reads [OF u this, of 4090 10] obtain r bs s' fl' where
    c: "copyin sample_pt 8192 4090 10 sample_user = Ok (r, bs, s')"
    and res: "r = 0 \<and> length bs = unat (10 :: u64) \<or> r = -1 \<and> length bs < unat (10 :: u64) \<and>
      stuck sample_user sample_pt 8192 (PGROUNDDOWN (4090 + of_nat (length bs))) fl'" by blast
  have "\<not> stuck sample_user sample_pt 8192 (PGROUNDDOWN (4090 + of_nat n)) fl'" if "n < 10" for n
  proof -
    have "unat (4090 + of_nat n :: u64) = 4090 + n" using that by (simp add: unat_word_ariths unat_of_nat)
    then have "(4090 + of_nat n :: u64) < 8192" using that by (simp add: word_less_nat_alt)
    from sample_rw [OF this] show ?thesis using not_stuck [OF u] by blast
  qed
  then show ?thesis using c res by auto
qed

text \<open>
  C5. \<open>copyout\<close> refines writing the abstract user memory: after it the memory holds the
  first \<open>k\<close> source bytes from the destination on and is unchanged elsewhere; the result is
  0 exactly when all bytes are written, and -1 only where the next page is not writable
  user memory or a lazy page cannot be allocated.
\<close>

theorem copyout_writes:
  assumes "uspace s fl pt" "psz \<le> TRAPFRAME" "length src < 2 ^ 64"
  shows "\<exists>r s' fl' k. copyout pt psz dstva src s = Ok (r, s') \<and> uspace s' fl' pt \<and>
    account s' fl' pt = account s fl pt \<and> k \<le> length src \<and>
    lbyte s' pt psz = (\<lambda>x. if unat (x - dstva) < k then Some (src ! unat (x - dstva))
                           else lbyte s pt psz x) \<and>
    (r = 0 \<and> k = length src \<or>
     r = -1 \<and> k < length src \<and> blocked s pt psz (PGROUNDDOWN (dstva + of_nat k)) fl')"
proof -
  from copyout_spec [OF assms, of dstva] obtain r s' fl' k where
    c: "copyout pt psz dstva src s = Ok (r, s')" "keeps s fl pt psz s' fl'" "k \<le> length src"
      "lbyte s' pt psz = put_bytes (lbyte s pt psz) dstva (take k src)"
      "r = 0 \<and> k = length src \<or> r = -1 \<and> k < length src \<and>
       blocked s pt psz (PGROUNDDOWN (dstva + of_nat k)) fl'"
    unfolding write_post_def by blast
  have "lbyte s' pt psz = (\<lambda>x. if unat (x - dstva) < k then Some (src ! unat (x - dstva))
      else lbyte s pt psz x)"
    using c(3) unfolding c(4) put_bytes_def by (auto simp: fun_eq_iff)
  then show ?thesis using c unfolding keeps_def by blast
qed

theorem copyout_writes_witness:
  "\<exists>s'. copyout sample_pt 8192 4095 [1, 2] sample_user = Ok (0, s') \<and>
     lbyte s' sample_pt 8192 4096 = Some 2"
proof -
  from sample_user_spec obtain fl where u: "uspace sample_user fl sample_pt" by blast
  have "(8192 :: u64) \<le> TRAPFRAME" "length [1 :: u8, 2] < 2 ^ 64" by (simp_all add: TRAPFRAME_val)
  from copyout_writes [OF u this, of 4095] obtain r s' fl' k where
    c: "copyout sample_pt 8192 4095 [1, 2] sample_user = Ok (r, s')"
    and l: "lbyte s' sample_pt 8192 = (\<lambda>x. if unat (x - 4095) < k then Some ([1, 2] ! unat (x - 4095))
      else lbyte sample_user sample_pt 8192 x)"
    and res: "r = 0 \<and> k = length [1 :: u8, 2] \<or> r = -1 \<and> k < length [1 :: u8, 2] \<and>
      blocked sample_user sample_pt 8192 (PGROUNDDOWN (4095 + of_nat k)) fl'" by blast
  have "\<not> blocked sample_user sample_pt 8192 (PGROUNDDOWN (4095 + of_nat k)) fl'" if "k < 2"
  proof -
    have "unat (4095 + of_nat k :: u64) = 4095 + k" using that by (simp add: unat_word_ariths unat_of_nat)
    then have "(4095 + of_nat k :: u64) < 8192" using that by (simp add: word_less_nat_alt)
    then show ?thesis by (rule sample_not_blocked)
  qed
  then have "r = 0" "k = 2" using res by auto
  then show ?thesis using c l by auto
qed

lemma sample_copyout: "\<exists>s1. copyout sample_pt 8192 100 [7, 8, 9] sample_user = Ok (0, s1)"
proof -
  from sample_user_spec obtain fl where u: "uspace sample_user fl sample_pt" by blast
  have "(8192 :: u64) \<le> TRAPFRAME" "length [7 :: u8, 8, 9] < 2 ^ 64" by (simp_all add: TRAPFRAME_val)
  from copyout_spec [OF u this, of 100] obtain r s' fl' k where
    c: "copyout sample_pt 8192 100 [7, 8, 9] sample_user = Ok (r, s')"
    and res: "r = 0 \<and> k = length [7 :: u8, 8, 9] \<or> r = -1 \<and> k < length [7 :: u8, 8, 9] \<and>
      blocked sample_user sample_pt 8192 (PGROUNDDOWN (100 + of_nat k)) fl'"
    unfolding write_post_def by blast
  have "\<not> blocked sample_user sample_pt 8192 (PGROUNDDOWN (100 + of_nat k)) fl'" if "k < 3"
  proof -
    have "unat (100 + of_nat k :: u64) = 100 + k" using that by (simp add: unat_word_ariths unat_of_nat)
    then have "(100 + of_nat k :: u64) < 8192" using that by (simp add: word_less_nat_alt)
    then show ?thesis by (rule sample_not_blocked)
  qed
  then show ?thesis using c res by auto
qed

text \<open>
  C38. Round trip between kernel and user memory: what \<open>copyout\<close> has written with result 0,
  \<open>copyin\<close> from the same address returns, byte for byte and with result 0.
\<close>

theorem copyout_copyin_roundtrip:
  assumes "uspace s fl pt" "psz \<le> TRAPFRAME" "length src < 2 ^ 64"
    "copyout pt psz va src s = Ok (0, s1)"
  shows "\<exists>s2. copyin pt psz va (of_nat (length src)) s1 = Ok (0, src, s2)"
proof -
  from copyout_spec [OF assms(1-3), of va] assms(4) obtain fl1 where
    k1: "keeps s fl pt psz s1 fl1" and l1: "lbyte s1 pt psz = put_bytes (lbyte s pt psz) va src"
    and usr: "\<forall>i < length src. user_pte (pte_of s1 pt (va + of_nat i)) \<and> va + of_nat i < TRAPFRAME"
    unfolding write_post_def by (auto simp: user_wpte_def)
  have us1: "uspace s1 fl1 pt" using k1 by (simp add: keeps_def)
  let ?len = "of_nat (length src) :: u64"
  have len: "unat ?len = length src" using assms(3) by (simp add: unat_of_nat)
  from copyin_spec [OF us1 assms(2), of va ?len] obtain r bs s2 fl2 where
    c: "copyin pt psz va ?len s1 = Ok (r, bs, s2)" "length bs \<le> length src"
      "\<forall>i < length bs. lbyte s1 pt psz (va + of_nat i) = Some (bs ! i)"
    and res: "r = 0 \<and> length bs = length src \<or> r = -1 \<and> length bs < length src \<and>
      stuck s1 pt psz (PGROUNDDOWN (va + of_nat (length bs))) fl2"
    unfolding read_post_def len by blast
  have ok: "r = 0" "length bs = length src"
    using res not_stuck [OF us1] usr by auto
  have "bs ! i = src ! i" if "i < length src" for i
  proof -
    have "unat (va + of_nat i - va) = i" using that assms(3) by (simp add: unat_of_nat)
    then have "put_bytes (lbyte s pt psz) va src (va + of_nat i) = Some (src ! i)"
      unfolding put_bytes_def using that by (simp only: if_True)
    then show ?thesis using c(3) that ok(2) l1 by simp
  qed
  then have "bs = src" using ok(2) by (intro nth_equalityI) auto
  then show ?thesis using c(1) ok(1) by blast
qed


theorem copyout_copyin_roundtrip_witness:
  "\<exists>s1 s2. copyout sample_pt 8192 100 [7, 8, 9] sample_user = Ok (0, s1) \<and>
     copyin sample_pt 8192 100 (of_nat (length [7 :: u8, 8, 9])) s1 = Ok (0, [7, 8, 9], s2)"
proof -
  from sample_user_spec obtain fl where u: "uspace sample_user fl sample_pt" by blast
  have "(8192 :: u64) \<le> TRAPFRAME" "length [7 :: u8, 8, 9] < 2 ^ 64" by (simp_all add: TRAPFRAME_val)
  moreover obtain s1 where "copyout sample_pt 8192 100 [7, 8, 9] sample_user = Ok (0, s1)"
    using sample_copyout by blast
  ultimately show ?thesis using copyout_copyin_roundtrip [OF u] by blast
qed

text \<open>
  C39. \<open>copyinstr\<close> delivers bytes of the abstract user memory in order. Result 0: they are a
  string with its NUL as the last byte and no other, of at most \<open>max\<close> bytes. Result -1:
  there was no NUL among the bytes read, and either all \<open>max\<close> bytes were read or the next
  page is not readable.
\<close>

theorem copyinstr_reads_string:
  assumes "uspace s fl pt" "psz \<le> TRAPFRAME"
  shows "\<exists>r bs s' fl'. copyinstr pt psz srcva mx s = Ok (r, bs, s') \<and> uspace s' fl' pt \<and>
    account s' fl' pt = account s fl pt \<and> lbyte s' pt psz = lbyte s pt psz \<and>
    (\<forall>i < length bs. lbyte s pt psz (srcva + of_nat i) = Some (bs ! i)) \<and> length bs \<le> unat mx \<and>
    (r = 0 \<and> bs \<noteq> [] \<and> last bs = 0 \<and> 0 \<notin> set (butlast bs) \<or>
     r = -1 \<and> 0 \<notin> set bs \<and>
       (length bs = unat mx \<or> stuck s pt psz (PGROUNDDOWN (srcva + of_nat (length bs))) fl'))"
  using copyinstr_spec [OF assms, of srcva mx] unfolding read_ok_def keeps_def str_out_def by blast

theorem copyinstr_reads_string_witness:
  "\<exists>r bs s'. copyinstr sample_pt 8192 4000 200 sample_user = Ok (r, bs, s') \<and> (r = 0 \<or> length bs = 200)"
proof -
  from sample_user_spec obtain fl where u: "uspace sample_user fl sample_pt" by blast
  have "(8192 :: u64) \<le> TRAPFRAME" by (simp add: TRAPFRAME_val)
  from copyinstr_reads_string [OF u this, of 4000 200] obtain r bs s' fl' where
    c: "copyinstr sample_pt 8192 4000 200 sample_user = Ok (r, bs, s')" "length bs \<le> unat (200 :: u64)"
    and res: "r = 0 \<or> length bs = unat (200 :: u64) \<or>
      stuck sample_user sample_pt 8192 (PGROUNDDOWN (4000 + of_nat (length bs))) fl'" by blast
  have "\<not> stuck sample_user sample_pt 8192 (PGROUNDDOWN (4000 + of_nat (length bs))) fl'"
  proof -
    have "unat (4000 + of_nat (length bs) :: u64) = 4000 + length bs"
      using c(2) by (simp add: unat_word_ariths unat_of_nat)
    then have "(4000 + of_nat (length bs) :: u64) < 8192" using c(2) by (simp add: word_less_nat_alt)
    from sample_rw [OF this] show ?thesis using not_stuck [OF u] by blast
  qed
  then show ?thesis using c res by auto
qed

section \<open>fork and vmprint\<close>

text \<open>
  C26. \<open>uvmcopy\<close> gives the child an address space of its own. On success every page of the
  parent below its size is mapped in the child at the same address with the same flags and
  the same bytes (in a different physical page, by the invariant), and nothing else is. On
  failure the child is empty below the size again. The parent's map and bytes do not
  change, and no page is lost. Three free pages per page suffice.
\<close>

theorem uvmcopy_copies:
  assumes "apart s fl old new" "uspace s fl new" "sz \<le> - PGSIZE" "PGROUNDUP sz \<le> TRAPFRAME"
    "\<forall>va < PGROUNDUP sz. \<not> valid (pte_of s new va)"
  shows "\<exists>r s' fl'. uvmcopy old new sz s = Ok (r, s') \<and> uspace s' fl' new \<and>
    apart s' fl' old new \<and> account s' fl' new = account s fl new \<and>
    pte_of s' old = pte_of s old \<and> (\<forall>va. mapped s old va \<longrightarrow> ubyte s' old va = ubyte s old va) \<and>
    (r = 0 \<and> copied s s' old new 0 (PGROUNDUP sz) \<or>
     r = -1 \<and> rolled_back s s' new 0 (PGROUNDUP sz)) \<and>
    (3 * (unat (PGROUNDUP sz) div 4096) \<le> length fl \<longrightarrow> r = 0)"
  using uvmcopy_spec [OF assms] by blast

theorem uvmcopy_copies_witness:
  "\<exists>r s'. uvmcopy sample_pt sample_pt2 8192 sample_user = Ok (r, s') \<and>
     (r = 0 \<longrightarrow> ubyte s' sample_pt2 5000 = ubyte sample_user sample_pt 5000)"
proof -
  from sample_user_spec obtain fl where u: "uspace sample_user fl sample_pt2"
    "apart sample_user fl sample_pt sample_pt2"
    and v: "\<forall>va < VATOP. valid (pte_of sample_user sample_pt va) \<longleftrightarrow> va < 8192"
    and nv: "\<forall>va < VATOP. \<not> valid (pte_of sample_user sample_pt2 va)" by blast
  have up: "PGROUNDUP 8192 = 8192" by (simp add: PGROUNDUP_def)
  have "\<not> valid (pte_of sample_user sample_pt2 va)" if "va < PGROUNDUP 8192" for va
  proof -
    have "va < VATOP" using that up by (simp add: word_less_nat_alt)
    then show ?thesis using nv by blast
  qed
  then have "\<forall>va < PGROUNDUP 8192. \<not> valid (pte_of sample_user sample_pt2 va)" by blast
  moreover have "(8192 :: u64) \<le> - PGSIZE" "PGROUNDUP 8192 \<le> TRAPFRAME"
    by (simp_all add: up TRAPFRAME_val word_le_nat_alt)
  ultimately obtain r s' where c: "uvmcopy sample_pt sample_pt2 8192 sample_user = Ok (r, s')"
    and r: "r = 0 \<longrightarrow> copied sample_user s' sample_pt sample_pt2 0 8192"
    using uvmcopy_copies [OF u(2,1), of 8192] unfolding up by auto
  have "mapped sample_user sample_pt 5000" using v by (simp add: mapped_def TRAPFRAME_val)
  then have "ubyte s' sample_pt2 5000 = ubyte sample_user sample_pt 5000" if "r = 0"
    using r that unfolding copied_def by (auto dest: spec [of _ "5000"])
  then show ?thesis using c by blast
qed

text \<open>
  C40. The output of \<open>vmprint\<close>, read back, is the address space: the lines printed at depth
  three are, in increasing order of virtual address, exactly the pages that are mapped,
  each with its entry and its physical address.
\<close>

theorem vmprint_lists_leaves:
  assumes "as_inv s fl 2 pt"
  shows "leaf_lines (vmprint pt s) =
    map (\<lambda>va. (va, pte_of s pt va, PTE2PA (pte_of s pt va)))
      (filter (\<lambda>va. valid (pte_of s pt va)) (map (\<lambda>i. of_nat i * PGSIZE) [0..<512 * 512 * 512]))"
proof -
  have tree: "pt_tree (usable s) (pmem s) 2 pt" using assms by (simp add: as_inv_def)
  have "leaf_lines (vmprint pt s) = leaf_lines (vmprint_nivel (pmem s) 2 pt 0)"
    by (simp add: vmprint_def leaf_lines_def)
  also have "\<dots> = leaves (pt_look (pmem s) 2 pt) (pages_from 0 (512 ^ Suc 2))"
    by (rule vmprint_nivel_leaves [OF tree]) simp_all
  finally show ?thesis
    by (simp add: leaves_def pages_from_def pte_of_def power3_eq_cube numeral_3_eq_3 [symmetric])
qed

theorem vmprint_lists_leaves_witness:
  "\<exists>l. leaf_lines (vmprint sample_pt sample_user) = l \<and>
     (\<forall>x \<in> set l. fst x < VATOP \<longrightarrow> fst x < 8192)"
proof -
  from sample_user_spec obtain fl where u: "uspace sample_user fl sample_pt"
    and v: "\<forall>va < VATOP. valid (pte_of sample_user sample_pt va) \<longleftrightarrow> va < 8192" by blast
  show ?thesis unfolding vmprint_lists_leaves [OF uspace_as_inv [OF u]] using v by auto
qed

end
