(* ===== verification/Proc_Props.thy ===== *)
theory Proc_Props
  imports Vm_Props Proc_Boot
begin

text \<open>
  The properties of the process table. Their witnesses run on a small kernel: three slots and
  the free pages of \<open>sample_phys\<close>, taken through \<open>userinit\<close>, the dispatch of the first
  process, its \<open>fork\<close>, and the exit of the child.
\<close>

section \<open>A sample kernel\<close>

definition sample_fs :: "unit fsops" where
  "sample_fs = \<lparr>filedup = Pair, idup = Pair, fileclose = (\<lambda>_ s. s), iput = (\<lambda>_ s. s),
     begin_op = (\<lambda>s. s), end_op = (\<lambda>s. s), namei = (\<lambda>_ s. (0x80008000, s))\<rparr>"

definition empty_slot :: proc where
  "empty_slot = \<lparr>p_state = UNUSED, p_chan = Null, p_killed = 0, p_xstate = 0, p_pid = 0, p_parent = None,
     p_kstack = 0, p_sz = 0, p_pagetable = 0, p_trapframe = 0, p_usyscall = 0,
     p_context = \<lparr>c_ra = 0, c_sp = 0, c_s = []\<rparr>, p_ofile = replicate 16 0, p_cwd = 0, p_name = ''''\<rparr>"

definition sample_boot :: "unit kst" where
  "sample_boot = procinit \<lparr>k_mem = sample_phys, procs = replicate 3 empty_slot, initproc = None, nextpid = 1,
     k_fs = (), k_trampoline = 0x80007000, k_forkret = 0x80002000,
     k_cpu = \<lparr>cpu_proc = None, cpu_context = \<lparr>c_ra = 0, c_sp = 0, c_s = []\<rparr>, cpu_noff = 0, cpu_intena = True\<rparr>,
     k_ticks = 0, k_console = []\<rparr>"

definition run_state :: "('a \<times> 'fs kst) run \<Rightarrow> 'fs kst \<Rightarrow> 'fs kst" where
  "run_state m k = (case m of Some (Ok (_, k')) \<Rightarrow> k' | _ \<Rightarrow> k)"

definition dispatched :: "nat \<Rightarrow> 'fs kst \<Rightarrow> 'fs kst" where
  "dispatched p k = upd p (\<lambda>q. q\<lparr>p_state := RUNNING\<rparr>) k"

definition sample_init :: "unit kst" where
  "sample_init = dispatched 0 (run_state (rbnd (userinit sample_fs sample_boot) (\<lambda>k. ret ((), k))) sample_boot)"

definition sample_fork :: "unit kst" where
  "sample_fork = run_state (kfork sample_fs 0 sample_init) sample_init"

definition sample_zombie :: "unit kst" where
  "sample_zombie = exited sample_fs 1 7 (dispatched 1 sample_fork)"

lemma sample_booted: "\<exists>fl. booted fl sample_boot \<and> 32 \<le> length fl"
proof -
  obtain fl where "free_pages sample_phys fl" "32 \<le> length fl" using sample_phys_free by blast
  moreover have "set (procs sample_boot) = (\<lambda>i. empty_slot\<lparr>p_kstack := KSTACK (of_nat i)\<rparr>) ` {0..<3}"
    by (auto simp: sample_boot_def procinit_def empty_slot_def)
  ultimately show ?thesis
    by (intro exI [of _ fl]) (auto simp: booted_def sample_boot_def procinit_def idle_def empty_slot_def)
qed

lemma sample_boot_sel: "length (procs sample_boot) = 3" "k_cpu sample_boot = \<lparr>cpu_proc = None,
    cpu_context = \<lparr>c_ra = 0, c_sp = 0, c_s = []\<rparr>, cpu_noff = 0, cpu_intena = True\<rparr>" "nextpid sample_boot = 1"
  "i < 3 \<Longrightarrow> p_state (procs sample_boot ! i) = UNUSED \<and> p_parent (procs sample_boot ! i) = None \<and>
     p_killed (procs sample_boot ! i) = 0"
  by (simp_all add: sample_boot_def procinit_def empty_slot_def)

lemma dispatched_kinv:
  assumes "kinv N fl k" "p_state (procs k ! p) = RUNNABLE"
  shows "kinv N fl (dispatched p k)" "all_pages fl (dispatched p k) = all_pages fl k"
proof -
  have s: "same_space (procs k ! p) ((procs k ! p)\<lparr>p_state := RUNNING\<rparr>)"
    "same_tree (procs k ! p) ((procs k ! p)\<lparr>p_state := RUNNING\<rparr>)"
    using assms(2) by (auto simp: same_space_def same_tree_def)
  show "kinv N fl (dispatched p k)" unfolding dispatched_def by (rule upd_kinv [OF assms(1)]) (use s kinv_old [OF assms(1), of p] assms(2) in simp_all)
  show "all_pages fl (dispatched p k) = all_pages fl k" unfolding dispatched_def
    using mem_inv_upd_same [of fl k p "\<lambda>q. q\<lparr>p_state := RUNNING\<rparr>"] s(1) assms(1) by (simp add: kinv_def)
qed

lemma dispatched_sel [simp]:
  "length (procs (dispatched p k)) = length (procs k)" "k_cpu (dispatched p k) = k_cpu k"
  "initproc (dispatched p k) = initproc k" "nextpid (dispatched p k) = nextpid k"
  "procs (dispatched p k) = (procs k)[p := (procs k ! p)\<lparr>p_state := RUNNING\<rparr>]"
  by (simp_all add: dispatched_def)

lemma sample_init_spec:
  "\<exists>fl. kinv {} fl sample_init \<and> 23 \<le> length fl \<and> length (procs sample_init) = 3 \<and>
     initproc sample_init = Some 0 \<and> p_state (procs sample_init ! 0) = RUNNING \<and>
     (\<forall>i \<in> {1, 2}. p_state (procs sample_init ! i) = UNUSED \<and> p_parent (procs sample_init ! i) = None) \<and>
     cpu_noff (k_cpu sample_init) = 0 \<and> nextpid sample_init = 2 \<and> p_chan (procs sample_init ! 0) = Null \<and>
     p_sz (procs sample_init ! 0) = 0 \<and> p_pid (procs sample_init ! 0) = 1 \<and> p_killed (procs sample_init ! 0) = 0"
proof -
  obtain fl where b: "booted fl sample_boot" "32 \<le> length fl" using sample_booted by blast
  from userinit_kinv [OF b(1), of sample_fs] b(2) obtain fl' k' where
    u: "userinit sample_fs sample_boot = ret k'" "kinv {} fl' k'" "initproc k' = Some 0"
      "p_state (procs k' ! 0) = RUNNABLE" "length (procs k') = 3"
      "\<forall>i < 3. 0 < i \<longrightarrow> procs k' ! i = procs sample_boot ! i" "p_chan (procs k' ! 0) = Null"
      "length fl \<le> length fl' + 9" "k_cpu k' = k_cpu sample_boot" "nextpid k' = 2" "p_sz (procs k' ! 0) = 0"
      "p_pid (procs k' ! 0) = 1" "p_killed (procs k' ! 0) = 0"
    by (auto simp: sample_boot_sel(1,3))
  have s: "sample_init = dispatched 0 k'" by (simp add: sample_init_def run_state_def u(1))
  show ?thesis
    using dispatched_kinv [OF u(2,4)] u b(2) by (intro exI [of _ fl']) (auto simp: s sample_boot_sel)
qed

lemma fork_ok_sel:
  assumes "fork_ok fs p k np fl' r k'"
  shows "\<exists>c. procs k' = (procs k)[np := c] \<and> p_state c = RUNNABLE \<and> p_parent c = Some p \<and>
    p_pid c = nextpid k \<and> k_cpu k' = k_cpu k \<and> initproc k' = initproc k"
proof -
  from assms obtain c files cwd where
    k': "k' = k\<lparr>k_mem := k_mem k', nextpid := nextpid k + 1, procs := (procs k)[np := c], k_fs := k_fs k'\<rparr>"
    and c: "fork_child p k np files cwd c"
    unfolding fork_ok_def by blast
  show ?thesis
    using arg_cong [OF k', of procs] arg_cong [OF k', of k_cpu] arg_cong [OF k', of initproc] c
    by (intro exI [of _ c]) (simp add: fork_child_def)
qed

lemma sample_fork_spec:
  "\<exists>fl. kinv {} fl sample_fork \<and> length (procs sample_fork) = 3 \<and> initproc sample_fork = Some 0 \<and>
     procs sample_fork ! 0 = procs sample_init ! 0 \<and> p_state (procs sample_fork ! 1) = RUNNABLE \<and>
     p_parent (procs sample_fork ! 1) = Some 0 \<and> p_pid (procs sample_fork ! 1) = 2 \<and>
     p_state (procs sample_fork ! 2) = UNUSED \<and> p_parent (procs sample_fork ! 2) = None \<and>
     cpu_noff (k_cpu sample_fork) = 0 \<and> kfork sample_fs 0 sample_init = ret (2, sample_fork)"
proof -
  obtain fl where i: "kinv {} fl sample_init" "23 \<le> length fl" "length (procs sample_init) = 3"
     "initproc sample_init = Some 0" "p_state (procs sample_init ! 0) = RUNNING"
     "\<forall>i \<in> {1, 2}. p_state (procs sample_init ! i) = UNUSED \<and> p_parent (procs sample_init ! i) = None"
     "cpu_noff (k_cpu sample_init) = 0" "nextpid sample_init = 2" "p_sz (procs sample_init ! 0) = 0"
    using sample_init_spec by blast
  have fu: "find_unused sample_init = Some 1"
    using i by (simp add: find_unused_def upt_conv_Cons)
  have "0 < length (procs sample_init)" "alive (procs sample_init ! 0)" using i by (simp_all add: alive_def)
  from kfork_kinv [OF i(1) this, of sample_fs] obtain r fl' k' where
    f: "kfork sample_fs 0 sample_init = ret (r, k')" "fork_post sample_fs 0 fl sample_init r fl' k'" "kinv {} fl' k'"
    by blast
  have "PGROUNDUP (p_sz (procs sample_init ! 0)) = 0" by (simp add: i(9) PGROUNDUP_def)
  then have "fork_ok sample_fs 0 sample_init 1 fl' r k'"
    using f(2) i(2) unfolding fork_post_def fu by auto
  from fork_ok_sel [OF this] i(8) obtain c where c: "procs k' = (procs sample_init)[1 := c]"
      "p_state c = RUNNABLE" "p_parent c = Some 0" "p_pid c = 2" "k_cpu k' = k_cpu sample_init"
      "initproc k' = initproc sample_init" by auto
  have "r = 2" using \<open>fork_ok sample_fs 0 sample_init 1 fl' r k'\<close> i(8) by (simp add: fork_ok_def)
  moreover have "sample_fork = k'" by (simp add: sample_fork_def run_state_def f(1))
  ultimately show ?thesis using f(1,3) c i by (intro exI [of _ fl']) auto
qed

lemma sample_live:
  "\<exists>fl. mem_inv fl sample_fork \<and> live (k_mem sample_fork) fl (procs sample_fork ! 0) \<and>
     live (k_mem sample_fork) fl (procs sample_fork ! 1)"
proof -
  obtain fl where i: "mem_inv fl sample_fork" "length (procs sample_fork) = 3"
     "procs sample_fork ! 0 = procs sample_init ! 0" "p_state (procs sample_fork ! 1) = RUNNABLE"
    using sample_fork_spec by (auto simp: kinv_def)
  moreover have "p_state (procs sample_init ! 0) = RUNNING" using sample_init_spec by blast
  ultimately show ?thesis
    using live_slot [OF i(1), of 0] live_slot [OF i(1), of 1] by auto
qed

section \<open>Allocating and freeing a process\<close>

text \<open>
  C7. \<open>allocproc\<close> takes the first unused slot and builds a process in it with the next pid:
  its page table maps exactly the trampoline, the trapframe and the read-only \<open>USYSCALL\<close>
  page, at which the user reads the pid. When a page is missing it undoes everything, so that
  no page is lost, and this happens only with at most eight free pages. In both cases the
  invariant of all processes holds afterwards.
\<close>

theorem allocproc_builds:
  assumes "mem_inv fl k"
  shows "\<exists>r fl' k'. allocproc k = ret (r, k') \<and> mem_inv fl' k' \<and> all_pages fl' k' = all_pages fl k \<and>
    (case (find_unused k, r) of
       (None, _) \<Rightarrow> r = None \<and> k' = k
     | (Some i, None) \<Rightarrow> length fl \<le> 8 \<and> set fl' = set fl \<and>
         procs k' = (procs k)[i := cleared (procs k ! i)]
     | (Some i, Some j) \<Rightarrow> j = i \<and> (\<exists>q. procs k' = (procs k)[i := q] \<and> p_state q = USED \<and>
         p_pid q = nextpid k \<and> nextpid k' = nextpid k + 1 \<and>
         c_ra (p_context q) = k_forkret k \<and> c_sp (p_context q) = p_kstack (procs k ! i) + PGSIZE \<and>
         (\<forall>va < VATOP. pte_of (k_mem k') (p_pagetable q) va =
            proc_map (k_trampoline k) (p_trapframe q) (p_usyscall q) va) \<and>
         pid_page (k_mem k') (p_pagetable q) (nextpid k)))"
proof -
  from allocproc_spec [OF assms] obtain r fl' k' where al: "allocproc k = ret (r, k')" and
    cs: "case find_unused k of None \<Rightarrow> r = None \<and> k' = k \<and> fl' = fl
     | Some i \<Rightarrow> i < length (procs k) \<and> idle (procs k ! i) \<and> alloc_post fl i k r fl' k'" by blast
  show ?thesis
  proof (cases "find_unused k")
    case None
    then show ?thesis using al cs assms by auto
  next
    case (Some i)
    then have post: "alloc_post fl i k r fl' k'" using cs by simp
    show ?thesis
    proof (cases r)
      case None
      then obtain q where k': "k' = k\<lparr>k_mem := k_mem k', nextpid := nextpid k + 1, procs := (procs k)[i := q]\<rparr>"
        and q: "q = cleared (procs k ! i)" "set fl' = set fl" "length fl \<le> 8"
        using post unfolding alloc_post_def by auto
      have "procs k' = (procs k)[i := q]" using arg_cong [OF k', of procs] by simp
      then show ?thesis using al Some None post q unfolding alloc_post_def by auto
    next
      case r: (Some j)
      then obtain q where k': "k' = k\<lparr>k_mem := k_mem k', nextpid := nextpid k + 1, procs := (procs k)[i := q]\<rparr>"
        and j: "j = i" and lq: "live (k_mem k') fl' q"
        and "\<exists>pt tf us. q = born (nextpid k) tf us pt (k_forkret k) (procs k ! i) \<and>
          (\<forall>va < VATOP. pte_of (k_mem k') pt va = proc_map (k_trampoline k) tf us va)"
        using post unfolding alloc_post_def by auto
      then obtain pt tf us where q: "q = born (nextpid k) tf us pt (k_forkret k) (procs k ! i)"
        and map: "\<forall>va < VATOP. pte_of (k_mem k') pt va = proc_map (k_trampoline k) tf us va" by blast
      have sel: "procs k' = (procs k)[i := q]" "nextpid k' = nextpid k + 1"
        using arg_cong [OF k', of procs] arg_cong [OF k', of nextpid] by simp_all
      have "pid_page (k_mem k') pt (nextpid k)" using lq by (simp add: q live_def born_def)
      then have "\<exists>q. procs k' = (procs k)[i := q] \<and> p_state q = USED \<and>
         p_pid q = nextpid k \<and> nextpid k' = nextpid k + 1 \<and>
         c_ra (p_context q) = k_forkret k \<and> c_sp (p_context q) = p_kstack (procs k ! i) + PGSIZE \<and>
         (\<forall>va < VATOP. pte_of (k_mem k') (p_pagetable q) va =
            proc_map (k_trampoline k) (p_trapframe q) (p_usyscall q) va) \<and>
         pid_page (k_mem k') (p_pagetable q) (nextpid k)"
        using map sel by (intro exI [of _ q]) (simp add: q born_def)
      then show ?thesis
        using al Some r j post unfolding alloc_post_def by (intro exI [of _ r] exI [of _ fl'] exI [of _ k']) simp
    qed
  qed
qed

theorem allocproc_builds_witness:
  "\<exists>k'. allocproc sample_init = ret (Some 1, k') \<and> p_pid (procs k' ! 1) = 2 \<and>
     pid_page (k_mem k') (p_pagetable (procs k' ! 1)) 2"
proof -
  obtain fl where i: "mem_inv fl sample_init" "23 \<le> length fl" "length (procs sample_init) = 3"
     "p_state (procs sample_init ! 0) = RUNNING"
     "\<forall>i \<in> {1, 2}. p_state (procs sample_init ! i) = UNUSED" "nextpid sample_init = 2"
    using sample_init_spec by (auto simp: kinv_def)
  have fu: "find_unused sample_init = Some 1"
    using i by (simp add: find_unused_def upt_conv_Cons)
  show ?thesis using allocproc_builds [OF i(1)] i(2,3,6) by (auto simp: fu split: option.splits)
qed

text \<open>
  C22. \<open>freeproc\<close> returns: it frees the trapframe, the \<open>USYSCALL\<close> page, every user page and
  every page-table page of the process, each exactly once, and leaves the slot unused and
  cleared; memory of other processes does not change.
\<close>

theorem freeproc_releases:
  assumes "mem_inv fl k" "i < length (procs k)" "live (k_mem k) fl (procs k ! i)"
  shows "\<exists>fl' k'. freeproc i k = ret k' \<and> mem_inv fl' k' \<and> all_pages fl' k' = all_pages fl k \<and>
    set fl' = set fl \<union> pages_of (k_mem k) (procs k ! i) \<and> distinct fl' \<and>
    procs k' = (procs k)[i := cleared (procs k ! i)] \<and>
    same_outside (set fl \<union> pages_of (k_mem k) (procs k ! i)) (k_mem k) (k_mem k')"
proof -
  from freeproc_live [OF assms] obtain s' fl' where
    f: "freeproc i k = ret (upd i cleared (set_mem s' k))" "mem_inv fl' (upd i cleared (set_mem s' k))"
      "all_pages fl' (upd i cleared (set_mem s' k)) = all_pages fl k"
      "set fl' = set fl \<union> pages_of (k_mem k) (procs k ! i)"
      "same_outside (set fl \<union> pages_of (k_mem k) (procs k ! i)) (k_mem k) s'" by blast
  have "distinct fl'" using mem_inv_free [OF f(2)] by (simp add: free_pages_def)
  then show ?thesis using f by (intro exI [of _ fl'] exI [of _ "upd i cleared (set_mem s' k)"]) simp
qed

theorem freeproc_releases_witness:
  "\<exists>k'. freeproc 1 sample_fork = ret k' \<and> p_state (procs k' ! 1) = UNUSED"
proof -
  obtain fl where "mem_inv fl sample_fork" "live (k_mem sample_fork) fl (procs sample_fork ! 1)"
    using sample_live by blast
  moreover have "1 < length (procs sample_fork)" using sample_fork_spec by auto
  ultimately show ?thesis using freeproc_releases [of fl sample_fork 1] by auto
qed

section \<open>Growing, forking\<close>

text \<open>
  C23. \<open>growproc\<close> on every branch. A positive \<open>n\<close> adds zeroed writable pages or fails: beyond
  \<open>USYSCALL\<close> without any effect, out of memory with the size unchanged and the new pages
  gone. A negative \<open>n\<close> removes the pages above the new size and keeps all other bytes. A
  negative \<open>n\<close> below \<open>-sz\<close> wraps around and reports success without any effect. The size
  never exceeds \<open>USYSCALL\<close> and the invariant of all processes is kept.
\<close>

theorem growproc_resizes:
  assumes "mem_inv fl k" "p < length (procs k)" "live (k_mem k) fl (procs k ! p)"
  shows "\<exists>r fl' k' sz. growproc p n k = Ok (r, k') \<and> mem_inv fl' k' \<and> all_pages fl' k' = all_pages fl k \<and>
    procs k' = (procs k)[p := (procs k ! p)\<lparr>p_sz := sz\<rparr>] \<and> sz \<le> USYSCALL \<and>
    (let pt = p_pagetable (procs k ! p); old = p_sz (procs k ! p); new = old + scast n in
     if sint n > 0
     then r = 0 \<and> sz = new \<and>
          grown (k_mem k) (k_mem k') pt (PGROUNDUP old) (PGROUNDUP new) (PTE_R OR PTE_U OR PTE_W) \<or>
          r = -1 \<and> sz = old \<and> (new > USYSCALL \<and> k' = k \<or>
            rolled_back (k_mem k) (k_mem k') pt (PGROUNDUP old) (PGROUNDUP new))
     else if sint n < 0 \<and> new < old
     then r = 0 \<and> sz = new \<and> shrunk (k_mem k) (k_mem k') pt (PGROUNDUP new) (PGROUNDUP old) \<and>
          (\<forall>va. mapped (k_mem k') pt va \<longrightarrow> ubyte (k_mem k') pt va = ubyte (k_mem k) pt va)
     else r = 0 \<and> sz = old \<and> k' = k)"
proof -
  from growproc_spec [OF assms, of n] obtain r fl' k' sz where
    g: "growproc p n k = Ok (r, k')" "size_post fl p k sz fl' k'"
    and c: "let pt = p_pagetable (procs k ! p); old = p_sz (procs k ! p); new = old + scast n in
     r = 0 \<and> sint n > 0 \<and> sz = new \<and> new \<le> USYSCALL \<and>
       grown (k_mem k) (k_mem k') pt (PGROUNDUP old) (PGROUNDUP new) (PTE_R OR PTE_U OR PTE_W) \<or>
     r = -1 \<and> sint n > 0 \<and> sz = old \<and>
       (k' = k \<and> new > USYSCALL \<or>
        rolled_back (k_mem k) (k_mem k') pt (PGROUNDUP old) (PGROUNDUP new)) \<or>
     r = 0 \<and> sint n < 0 \<and> new < old \<and> sz = new \<and>
       shrunk (k_mem k) (k_mem k') pt (PGROUNDUP new) (PGROUNDUP old) \<and>
       (\<forall>va. mapped (k_mem k') pt va \<longrightarrow> ubyte (k_mem k') pt va = ubyte (k_mem k) pt va) \<or>
     r = 0 \<and> (sint n = 0 \<or> sint n < 0 \<and> old \<le> new) \<and> sz = old \<and> k' = k" by blast
  then have k': "k' = upd p (\<lambda>q. q\<lparr>p_sz := sz\<rparr>) (set_mem (k_mem k') k)" by (simp add: size_post_def)
  have ps: "procs k' = (procs k)[p := (procs k ! p)\<lparr>p_sz := sz\<rparr>]"
    using arg_cong [OF k', of procs] by simp
  have "p_state (procs k' ! p) \<noteq> UNUSED" using assms(2,3) by (simp add: ps live_def)
  then have "live (k_mem k') fl' (procs k' ! p)"
    using g(2) assms(2) by (intro live_slot) (simp_all add: size_post_def ps)
  then have "sz \<le> USYSCALL" using live_space assms(2) by (fastforce simp: ps proc_space_def)
  then show ?thesis
    using g c ps by (intro exI [of _ r] exI [of _ fl'] exI [of _ k'] exI [of _ sz])
      (auto simp: size_post_def Let_def)
qed

theorem growproc_resizes_witness: "growproc 0 (-8) sample_fork = Ok (0, sample_fork)"
proof -
  obtain fl where "mem_inv fl sample_fork" "live (k_mem sample_fork) fl (procs sample_fork ! 0)"
    using sample_live by blast
  moreover have "0 < length (procs sample_fork)" "p_sz (procs sample_fork ! 0) = 0"
    using sample_fork_spec sample_init_spec by auto
  ultimately show ?thesis
    using growproc_resizes [of fl sample_fork 0 "-8"] by (auto simp: Let_def word_less_nat_alt)
qed

text \<open>
  C6. \<open>kfork\<close>: the child in the first unused slot has the next pid, the caller as parent, is
  runnable, and has the same user memory: the same pages with the same flags and bytes, in
  pages of its own. Its registers are the parent's except \<open>a0\<close>, which is 0, and its files
  are duplicates. If the table is full, or if memory runs out (only with fewer than nine
  free pages and three per page of the parent), the result is -1 and no page is lost.
  No byte outside the free pages changes, in particular none of any other process.
\<close>

theorem kfork_copies:
  assumes "mem_inv fl k" "p < length (procs k)" "live (k_mem k) fl (procs k ! p)"
  shows "\<exists>r fl' k'. kfork fs p k = ret (r, k') \<and> mem_inv fl' k' \<and> all_pages fl' k' = all_pages fl k \<and>
    same_outside (set fl) (k_mem k) (k_mem k') \<and>
    (case find_unused k of
       None \<Rightarrow> r = -1 \<and> k' = k
     | Some np \<Rightarrow>
         if r = nextpid k \<and> p_state (procs k' ! np) = RUNNABLE
         then \<exists>c files cwd f. procs k' = (procs k)[np := c] \<and> fork_child p k np files cwd c \<and>
           dup_files fs (p_ofile (procs k ! p)) (p_ofile (procs k ! np)) (k_fs k) = (files, f) \<and>
           idup fs (p_cwd (procs k ! p)) f = (cwd, k_fs k') \<and>
           same_memory (k_mem k) (p_pagetable (procs k ! p)) (k_mem k') (p_pagetable c)
             (PGROUNDUP (p_sz (procs k ! p))) \<and>
           child_frame (pmem (k_mem k)) (p_trapframe (procs k ! p)) (pmem (k_mem k')) (p_trapframe c)
         else r = -1 \<and> set fl' = set fl \<and> p_state (procs k' ! np) = UNUSED \<and>
           length fl < 9 + 3 * (unat (PGROUNDUP (p_sz (procs k ! p))) div 4096))"
proof -
  from kfork_spec [OF assms, of fs] obtain r fl' k' where
    f: "kfork fs p k = ret (r, k')" and post: "fork_post fs p fl k r fl' k'" by blast
  show ?thesis
  proof (cases "find_unused k")
    case None
    then show ?thesis using f post by (auto simp: fork_post_def)
  next
    case (Some np)
    then have np: "np < length (procs k)" using find_unused_Some by blast
    have base: "mem_inv fl' k'" "all_pages fl' k' = all_pages fl k" "same_outside (set fl) (k_mem k) (k_mem k')"
      using post by (simp_all add: fork_post_def)
    from post Some consider "fork_ok fs p k np fl' r k'"
      | q where "r = -1" "set fl' = set fl" "idle q"
          "length fl < 9 + 3 * (unat (PGROUNDUP (p_sz (procs k ! p))) div 4096)"
          "k' = k\<lparr>k_mem := k_mem k', nextpid := nextpid k + 1, procs := (procs k)[np := q]\<rparr>"
      unfolding fork_post_def by auto
    then show ?thesis
    proof cases
      case 1
      then obtain c files cwd f' where k': "r = nextpid k"
          "k' = k\<lparr>k_mem := k_mem k', nextpid := nextpid k + 1, procs := (procs k)[np := c], k_fs := k_fs k'\<rparr>"
          "fork_child p k np files cwd c"
          "dup_files fs (p_ofile (procs k ! p)) (p_ofile (procs k ! np)) (k_fs k) = (files, f')"
          "idup fs (p_cwd (procs k ! p)) f' = (cwd, k_fs k')"
          "same_memory (k_mem k) (p_pagetable (procs k ! p)) (k_mem k') (p_pagetable c)
             (PGROUNDUP (p_sz (procs k ! p)))"
          "child_frame (pmem (k_mem k)) (p_trapframe (procs k ! p)) (pmem (k_mem k')) (p_trapframe c)"
        unfolding fork_ok_def by blast
      have ps: "procs k' = (procs k)[np := c]" using arg_cong [OF k'(2), of procs] by simp
      then have "p_state (procs k' ! np) = RUNNABLE" using k'(3) np by (simp add: fork_child_def)
      then show ?thesis using f base Some k' ps by (intro exI [of _ r] exI [of _ fl'] exI [of _ k']) auto
    next
      case 2
      have "procs k' = (procs k)[np := q]" using arg_cong [OF 2(5), of procs] by simp
      then have "p_state (procs k' ! np) = UNUSED" using 2(3) np by (simp add: idle_def)
      then show ?thesis using f base Some 2 by (intro exI [of _ r] exI [of _ fl'] exI [of _ k']) simp
    qed
  qed
qed

theorem kfork_copies_witness:
  "\<exists>k'. kfork sample_fs 0 sample_init = ret (2, k') \<and> p_parent (procs k' ! 1) = Some 0 \<and>
     (\<exists>m. child_frame m (p_trapframe (procs sample_init ! 0)) (pmem (k_mem k')) (p_trapframe (procs k' ! 1)))"
proof -
  obtain fl where i: "mem_inv fl sample_init" "23 \<le> length fl" "length (procs sample_init) = 3"
     "p_state (procs sample_init ! 0) = RUNNING" "p_sz (procs sample_init ! 0) = 0"
     "\<forall>i \<in> {1, 2}. p_state (procs sample_init ! i) = UNUSED" "nextpid sample_init = 2"
    using sample_init_spec by (auto simp: kinv_def)
  have fu: "find_unused sample_init = Some 1" using i by (simp add: find_unused_def upt_conv_Cons)
  have "0 < length (procs sample_init)" "PGROUNDUP 0 = 0" using i by (simp_all add: PGROUNDUP_def)
  then show ?thesis
    using kfork_copies [OF i(1), of 0 sample_fs] live_slot [OF i(1), of 0] i
    by (auto simp: fu fork_child_def split: if_splits)
qed

section \<open>Exiting and waiting\<close>

lemma wake_state: "p_state (wake c q) = (if p_chan q = c \<and> p_state q = SLEEPING then RUNNABLE else p_state q)"
  by (simp add: wake_def Let_def)

lemma woken_ids: "p_pid (woken p k q) = p_pid q" "p_xstate (woken p k q) = p_xstate q"
  by (simp_all add: woken_def adopt_def)

lemma woken_state:
  "p_state (woken p k q) = p_state q \<or> p_state (woken p k q) = RUNNABLE"
  "p_state q = SLEEPING \<Longrightarrow> p_chan q = Proc_chan i \<Longrightarrow> p_parent (adopt p k (procs k ! p)) = Some i \<Longrightarrow>
   p_state (woken p k q) = RUNNABLE"
proof -
  define c1 c2 where "c1 = proc_ptr (p_parent (adopt p k (procs k ! p)))" and "c2 = proc_ptr (initproc k)"
  define r where "r = (if \<exists>i < length (procs k). p_parent (procs k ! i) = Some p then wake c2 else id) (adopt p k q)"
  have w: "woken p k q = wake c1 r" unfolding woken_def c1_def r_def c2_def ..
  have r: "r = adopt p k q \<or> r = wake c2 (adopt p k q)" unfolding r_def by simp
  have a: "p_state (adopt p k q) = p_state q" "p_chan (adopt p k q) = p_chan q" by (simp_all add: adopt_def)
  show "p_state (woken p k q) = p_state q \<or> p_state (woken p k q) = RUNNABLE"
    using r unfolding w by (auto simp: wake_state a)
  assume q: "p_state q = SLEEPING" "p_chan q = Proc_chan i" "p_parent (adopt p k (procs k ! p)) = Some i"
  then have "c1 = Proc_chan i" by (simp add: c1_def proc_ptr_def)
  then show "p_state (woken p k q) = RUNNABLE"
    using r q(1,2) unfolding w by (cases "c2 = Proc_chan i") (auto simp: wake_state a)
qed

text \<open>
  C12. \<open>kexit\<close> panics exactly for the first process. Otherwise the caller becomes a zombie with
  its status, its files closed, and switches to the scheduler; every child it had is now a
  child of the first process, a parent asleep in \<open>kwait\<close> is runnable again, nothing else of
  the other processes changes, and no page of the processes is freed or lost. Closing the files
  is a call of the file layer, whose own pages, such as the buffer of a pipe that \<open>fileclose\<close> may
  return, are not part of the memory here; \<open>Kernel_Steps\<close> has them as steps of their own.
\<close>

theorem kexit_becomes_zombie:
  assumes "kinv N fl k" "p < length (procs k)" "alive (procs k ! p)" "cpu_noff (k_cpu k) = 0"
    and "p \<notin> N"
  shows "if initproc k = Some p then kexit fs p status k = Panic ''init exiting''
    else \<exists>k'. kexit fs p status k = Ok k' \<and> kinv N fl k' \<and> all_pages fl k' = all_pages fl k \<and>
      k_mem k' = k_mem k \<and> length (procs k') = length (procs k) \<and>
      p_state (procs k' ! p) = ZOMBIE \<and> p_xstate (procs k' ! p) = status \<and>
      set (p_ofile (procs k' ! p)) \<subseteq> {0} \<and> p_cwd (procs k' ! p) = 0 \<and>
      (\<forall>i < length (procs k). p_parent (procs k' ! i) =
         (if p_parent (procs k ! i) = Some p then initproc k else p_parent (procs k ! i))) \<and>
      (\<forall>i < length (procs k). i \<noteq> p \<longrightarrow> p_pid (procs k' ! i) = p_pid (procs k ! i) \<and>
         p_xstate (procs k' ! i) = p_xstate (procs k ! i) \<and>
         (if p_state (procs k ! i) = SLEEPING \<and> p_chan (procs k ! i) = Proc_chan i \<and>
             p_parent (procs k' ! p) = Some i
          then p_state (procs k' ! i) = RUNNABLE
          else p_state (procs k' ! i) \<in> {p_state (procs k ! i), RUNNABLE}))"
proof (cases "initproc k = Some p")
  case True
  then show ?thesis by (simp add: kexit_exited)
next
  case False
  let ?k = "exited fs p status k"
  have z: "p_state (procs ?k ! p) = ZOMBIE" by (rule exited_self(1) [OF assms(2)])
  have run: "kexit fs p status k = Ok ?k"
    using False switch_ok [of ?k p] assms(4) z by (simp add: kexit_exited)
  have al: "p_state (procs k ! p) \<noteq> UNUSED" and mi: "mem_inv fl k" using assms by (auto simp: alive_def kinv_def)
  have par: "p_parent (procs ?k ! i) =
      (if p_parent (procs k ! i) = Some p then initproc k else p_parent (procs k ! i))"
    if "i < length (procs k)" for i
    using exited_other [OF that assms(2)] exited_self(5) [OF assms(2)]
    by (cases "i = p") (simp_all add: woken_sel adopt_def)
  have other: "p_pid (procs ?k ! i) = p_pid (procs k ! i) \<and> p_xstate (procs ?k ! i) = p_xstate (procs k ! i) \<and>
         (if p_state (procs k ! i) = SLEEPING \<and> p_chan (procs k ! i) = Proc_chan i \<and>
             p_parent (procs ?k ! p) = Some i
          then p_state (procs ?k ! i) = RUNNABLE
          else p_state (procs ?k ! i) \<in> {p_state (procs k ! i), RUNNABLE})"
    if "i < length (procs k)" "i \<noteq> p" for i
    using exited_other [OF that(1) assms(2) that(2)] exited_self(5) [OF assms(2)]
      woken_state(1) [of p k "procs k ! i"] woken_state(2) [of "procs k ! i" i p k] by (simp add: woken_ids)
  note facts = run exited_kinv [OF assms(1-3) False assms(5)] exited_mem(2) [OF mi assms(2) al] z par
    conjunct1 [OF other] conjunct1 [OF conjunct2 [OF other]] conjunct2 [OF conjunct2 [OF other]]
    exited_self(2,3) [OF assms(2)] exited_sel
  have "set (p_ofile (procs ?k ! p)) \<subseteq> {0}"
    unfolding exited_self(4) [OF assms(2)] by (rule close_files_zero)
  then show ?thesis
    unfolding if_not_P [OF False] by (intro exI [of _ ?k] conjI allI impI) (rule facts | assumption)+
qed

lemma sample_child:
  "\<exists>fl. kinv {} fl (dispatched 1 sample_fork) \<and> alive (procs (dispatched 1 sample_fork) ! 1) \<and>
     length (procs (dispatched 1 sample_fork)) = 3 \<and> initproc (dispatched 1 sample_fork) = Some 0 \<and>
     p_state (procs (dispatched 1 sample_fork) ! 0) = RUNNING \<and>
     p_parent (procs (dispatched 1 sample_fork) ! 1) = Some 0 \<and> p_pid (procs (dispatched 1 sample_fork) ! 1) = 2 \<and>
     cpu_noff (k_cpu (dispatched 1 sample_fork)) = 0"
proof -
  obtain fl where f: "kinv {} fl sample_fork" "length (procs sample_fork) = 3" "initproc sample_fork = Some 0"
     "procs sample_fork ! 0 = procs sample_init ! 0" "p_state (procs sample_fork ! 1) = RUNNABLE"
     "p_parent (procs sample_fork ! 1) = Some 0" "p_pid (procs sample_fork ! 1) = 2"
     "cpu_noff (k_cpu sample_fork) = 0"
    using sample_fork_spec by blast
  moreover have "p_state (procs sample_init ! 0) = RUNNING" using sample_init_spec by blast
  ultimately show ?thesis
    using dispatched_kinv(1) [OF f(1,5)] by (intro exI [of _ fl]) (simp add: alive_def)
qed

lemma sample_zombie_spec:
  "\<exists>fl. kinv {} fl sample_zombie \<and> length (procs sample_zombie) = 3 \<and> alive (procs sample_zombie ! 0) \<and>
     cpu_noff (k_cpu sample_zombie) = 0 \<and> zombie_child 0 sample_zombie 1 \<and>
     p_pid (procs sample_zombie ! 1) = 2 \<and> \<not> zombie_child 0 sample_zombie 0"
proof -
  let ?k = "dispatched 1 sample_fork"
  obtain fl where c: "kinv {} fl ?k" "alive (procs ?k ! 1)" "length (procs ?k) = 3" "initproc ?k = Some 0"
     "p_state (procs ?k ! 0) = RUNNING" "p_parent (procs ?k ! 1) = Some 0" "p_pid (procs ?k ! 1) = 2"
     "cpu_noff (k_cpu ?k) = 0"
    using sample_child by blast
  have lt: "1 < length (procs ?k)" "0 < length (procs ?k)" using c(3) by simp_all
  have ne: "initproc ?k \<noteq> Some 1" using c(4) by simp
  have "p_state (procs sample_zombie ! 0) \<in> {p_state (procs ?k ! 0), RUNNABLE}"
    unfolding sample_zombie_def using exited_other [OF lt(2,1), of sample_fs 7] woken_state(1) [of 1 ?k "procs ?k ! 0"]
    by simp
  then have z: "p_state (procs sample_zombie ! 0) \<in> {RUNNING, RUNNABLE}" using c(5) by simp
  have "p_state (procs sample_zombie ! 1) = ZOMBIE" "p_pid (procs sample_zombie ! 1) = 2"
    "p_parent (procs sample_zombie ! 1) = Some 0"
    unfolding sample_zombie_def using exited_self(1,5,6) [OF lt(1), of sample_fs 7] c(6,7) by (simp_all add: adopt_def)
  moreover have "kinv {} fl sample_zombie"
    unfolding sample_zombie_def by (rule exited_kinv) (use c lt ne in simp_all)
  moreover have "length (procs sample_zombie) = 3" "k_cpu sample_zombie = k_cpu ?k"
    using c(3) unfolding sample_zombie_def by (simp_all only: exited_sel)
  ultimately show ?thesis
    using z c(8) by (intro exI [of _ fl]) (auto simp: zombie_child_def alive_def)
qed

theorem kexit_becomes_zombie_witness:
  "kexit sample_fs 0 3 sample_init = Panic ''init exiting'' \<and>
   (\<exists>k'. kexit sample_fs 1 7 (dispatched 1 sample_fork) = Ok k' \<and> p_xstate (procs k' ! 1) = 7)"
proof
  obtain fl where i: "kinv {} fl sample_init" "length (procs sample_init) = 3"
     "initproc sample_init = Some 0" "p_state (procs sample_init ! 0) = RUNNING" "cpu_noff (k_cpu sample_init) = 0"
    using sample_init_spec by blast
  then show "kexit sample_fs 0 3 sample_init = Panic ''init exiting''"
    using kexit_becomes_zombie [OF i(1), of 0 sample_fs 3] by (simp add: alive_def)
  obtain fl where c: "kinv {} fl (dispatched 1 sample_fork)" "alive (procs (dispatched 1 sample_fork) ! 1)"
      "1 < length (procs (dispatched 1 sample_fork))" "initproc (dispatched 1 sample_fork) = Some 0"
      "cpu_noff (k_cpu (dispatched 1 sample_fork)) = 0"
    using sample_child by auto
  have "initproc (dispatched 1 sample_fork) \<noteq> Some 1" using c(4) by simp
  from kexit_becomes_zombie [OF c(1,3,2,5), of sample_fs 7, unfolded if_not_P [OF this]]
  show "\<exists>k'. kexit sample_fs 1 7 (dispatched 1 sample_fork) = Ok k' \<and> p_xstate (procs k' ! 1) = 7" by blast
qed

text \<open>
  C11. \<open>kwait\<close> returns. With a zombie child, the first in the table, it copies the exit status
  to the caller and gives back its pid, its slot and all its memory; if the status cannot be
  copied it returns -1 and the child stays a zombie. Without a zombie it returns -1 when the
  caller has no children or was killed, and otherwise leaves the caller registered and asleep
  on its own channel.
\<close>

theorem kwait_reaps:
  assumes "kinv N fl k" "p < length (procs k)" "alive (procs k ! p)" "cpu_noff (k_cpu k) = 0"
    and "p \<notin> N"
  shows "\<exists>res fl' k'. kwait p addr k = ret (res, k') \<and> kinv N fl' k' \<and> all_pages fl' k' = all_pages fl k \<and>
    (case find (zombie_child p k) [0..<length (procs k)] of
       Some i \<Rightarrow>
         res = Wait_return (p_pid (procs k ! i)) \<and> pages_of (k_mem k) (procs k ! i) \<subseteq> set fl' \<and>
         procs k' = (procs k)[i := (cleared (procs k ! i))\<lparr>p_parent := None\<rparr>] \<and>
         lbyte (k_mem k') (p_pagetable (procs k ! p)) (p_sz (procs k ! p)) =
           (if addr = 0 then id else (\<lambda>f. put_bytes f addr (int_bytes (p_xstate (procs k ! i)))))
             (lbyte (k_mem k) (p_pagetable (procs k ! p)) (p_sz (procs k ! p))) \<or>
         res = Wait_return (-1) \<and> addr \<noteq> 0 \<and> procs k' = procs k \<and>
           (\<exists>n < 4. blocked (k_mem k) (p_pagetable (procs k ! p)) (p_sz (procs k ! p))
              (PGROUNDDOWN (addr + of_nat n)) fl')
     | None \<Rightarrow>
         if (\<exists>i < length (procs k). p_parent (procs k ! i) = Some p) \<and> p_killed (procs k ! p) = 0
         then res = Wait_sleep \<and> k' = waiting p k else res = Wait_return (-1) \<and> k' = k)"
proof -
  from kwait_spec [OF assms(1-3,5,4), of addr] obtain res fl' k' where
    w: "kwait p addr k = ret (res, k')" and post: "wait_post N p addr fl k res fl' k'" by blast
  show ?thesis
  proof (cases "find (zombie_child p k) [0..<length (procs k)]")
    case None
    then show ?thesis using w post unfolding wait_post_def None option.case
      by (intro exI [of _ res] exI [of _ fl'] exI [of _ k']) (auto split: if_splits)
  next
    case (Some i)
    then obtain v where v: "res = Wait_return v" "reap_post N p addr i fl k v fl' k'"
      using post unfolding wait_post_def by auto
    then obtain s r where wr: "wrote p addr (int_bytes (p_xstate (procs k ! i))) fl k r s"
      and l: "lbyte (k_mem k') (p_pagetable (procs k ! p)) (p_sz (procs k ! p)) =
          lbyte s (p_pagetable (procs k ! p)) (p_sz (procs k ! p))"
      and r: "r = 0 \<and> v = p_pid (procs k ! i) \<and> pages_of (k_mem k) (procs k ! i) \<subseteq> set fl' \<and>
           procs k' = (procs k)[i := (cleared (procs k ! i))\<lparr>p_parent := None\<rparr>] \<or>
         r = -1 \<and> v = -1 \<and> procs k' = procs k \<and>
           (\<exists>n < 4. blocked (k_mem k) (p_pagetable (procs k ! p)) (p_sz (procs k ! p))
              (PGROUNDDOWN (addr + of_nat n)) fl')"
      unfolding reap_post_def by blast
    have "r = 0 \<Longrightarrow> lbyte s (p_pagetable (procs k ! p)) (p_sz (procs k ! p)) =
      (if addr = 0 then id else (\<lambda>f. put_bytes f addr (int_bytes (p_xstate (procs k ! i)))))
        (lbyte (k_mem k) (p_pagetable (procs k ! p)) (p_sz (procs k ! p)))" "r = -1 \<Longrightarrow> addr \<noteq> 0"
      using wr by (auto simp: wrote_def write_post_def split: if_splits)
    then show ?thesis using w post v(1) l r unfolding wait_post_def Some option.case
      by (intro exI [of _ res] exI [of _ fl'] exI [of _ k']) auto
  qed
qed

theorem kwait_reaps_witness:
  "\<exists>k'. kwait 0 0 sample_zombie = ret (Wait_return 2, k') \<and> p_state (procs k' ! 1) = UNUSED"
proof -
  obtain fl where z: "kinv {} fl sample_zombie" "length (procs sample_zombie) = 3" "alive (procs sample_zombie ! 0)"
     "cpu_noff (k_cpu sample_zombie) = 0" "zombie_child 0 sample_zombie 1" "\<not> zombie_child 0 sample_zombie 0"
     "p_pid (procs sample_zombie ! 1) = 2"
    using sample_zombie_spec by blast
  have "find (zombie_child 0 sample_zombie) [0..<3] = Some 1" using z(5,6) by (simp add: upt_conv_Cons)
  then show ?thesis using kwait_reaps [OF z(1), of 0 0] z(2-4,7) by auto
qed

section \<open>Killing\<close>

lemma kill_loop_find:
  "kill_loop pid ps = (case find (\<lambda>i. p_pid (ps ! i) = pid) [0..<length ps] of
     None \<Rightarrow> (-1, ps)
   | Some i \<Rightarrow> (0, ps[i := (ps ! i)\<lparr>p_killed := 1,
       p_state := if p_state (ps ! i) = SLEEPING then RUNNABLE else p_state (ps ! i)\<rparr>]))"
proof (induction ps)
  case (Cons p ps)
  have "find (\<lambda>i. p_pid ((p # ps) ! i) = pid) [0..<length (p # ps)] =
      (if p_pid p = pid then Some 0
       else map_option Suc (find (\<lambda>i. p_pid (ps ! i) = pid) [0..<length ps]))"
    by (simp add: upt_conv_Cons map_Suc_upt [symmetric] find_map_list comp_def del: upt_Suc)
  then show ?case using Cons by (auto simp: Let_def split: option.splits)
qed simp

text \<open>
  \<open>kkill\<close> fails without effect on pid 0 and on a pid that no process has. Otherwise it
  marks the first process with the pid, which is a used slot, and makes it runnable if it
  sleeps; nothing else changes.
\<close>

theorem kkill_marks:
  assumes "mem_inv fl k"
  shows "case kkill pid k of (r, k') \<Rightarrow>
    if pid = 0 \<or> (\<forall>p \<in> set (procs k). p_pid p \<noteq> pid) then r = -1 \<and> k' = k
    else r = 0 \<and> (\<exists>i < length (procs k). p_pid (procs k ! i) = pid \<and> p_state (procs k ! i) \<noteq> UNUSED \<and>
      (\<forall>j < i. p_pid (procs k ! j) \<noteq> pid) \<and>
      k' = upd i (\<lambda>p. p\<lparr>p_killed := 1, p_state := if p_state p = SLEEPING then RUNNABLE else p_state p\<rparr>) k)"
proof (cases "pid = 0")
  case True
  then show ?thesis by (simp add: kkill_def)
next
  case nz: False
  show ?thesis
  proof (cases "find (\<lambda>i. p_pid (procs k ! i) = pid) [0..<length (procs k)]")
    case None
    then have "\<forall>p \<in> set (procs k). p_pid p \<noteq> pid" by (auto simp: find_None_iff in_set_conv_nth)
    then show ?thesis using nz None by (simp add: kkill_def kill_loop_find)
  next
    case (Some i)
    then have i: "i < length (procs k)" "p_pid (procs k ! i) = pid" "\<forall>j < i. p_pid (procs k ! j) \<noteq> pid"
      by (auto simp: find_Some_iff)
    moreover have "p_state (procs k ! i) \<noteq> UNUSED"
      using proc_ok_unused [OF mem_inv_slot [OF assms i(1)]] i(2) nz by (auto simp: idle_def)
    moreover have "\<not> (\<forall>p \<in> set (procs k). p_pid p \<noteq> pid)" using i by auto
    ultimately show ?thesis using nz Some by (auto simp: kkill_def kill_loop_find upd_def)
  qed
qed

theorem kkill_marks_witness:
  "fst (kkill 2 sample_fork) = 0 \<and> fst (kkill 0 sample_fork) = -1"
proof -
  obtain fl where f: "mem_inv fl sample_fork" "length (procs sample_fork) = 3" "p_pid (procs sample_fork ! 1) = 2"
    using sample_fork_spec by (auto simp: kinv_def)
  then have "procs sample_fork ! 1 \<in> set (procs sample_fork)" by simp
  then show ?thesis using kkill_marks [OF f(1), of 2] kkill_marks [OF f(1), of 0] f(3)
    by (auto split: prod.splits if_splits)
qed

text \<open>
  C35. The \<open>kkill\<close> of \<open>Proyecto2\<close> has no test for pid 0, which is the pid of every unused slot:
  it reports success and marks the first unused slot, the very one that the next
  \<open>allocproc\<close> takes. The version of \<open>Proyecto3\<close> refuses.
\<close>

theorem kkill_p2_zero:
  assumes "\<forall>p \<in> set (procs k). p_state p = UNUSED \<longleftrightarrow> p_pid p = 0" "find_unused k = Some i"
  shows "kkill_p2 0 k = (0, upd i (\<lambda>p. p\<lparr>p_killed := 1\<rparr>) k) \<and>
    find_unused (snd (kkill_p2 0 k)) = Some i \<and> kkill 0 k = (-1, k)"
proof -
  have "p_pid (procs k ! j) = 0 \<longleftrightarrow> p_state (procs k ! j) = UNUSED" if "j \<in> set [0..<length (procs k)]" for j
    using assms(1) that by auto
  then have "find (\<lambda>j. p_pid (procs k ! j) = 0) [0..<length (procs k)] =
      find (\<lambda>j. p_state (procs k ! j) = UNUSED) [0..<length (procs k)]"
    by (intro find_cong refl)
  then have "find (\<lambda>j. p_pid (procs k ! j) = 0) [0..<length (procs k)] = Some i"
    using assms(2) by (simp add: find_unused_def)
  moreover have i: "i < length (procs k)" "p_state (procs k ! i) = UNUSED"
    using find_unused_Some [OF assms(2)] by auto
  ultimately have e: "kkill_p2 0 k = (0, upd i (\<lambda>p. p\<lparr>p_killed := 1\<rparr>) k)"
    by (simp add: kkill_p2_def kill_loop_find upd_def)
      (metis (mono_tags, lifting) proc.surjective proc.update_convs(1,3))
  have "p_state (procs (upd i (\<lambda>p. p\<lparr>p_killed := 1\<rparr>) k) ! j) = p_state (procs k ! j)" for j
    using i by (simp add: nth_list_update)
  then have "find_unused (snd (kkill_p2 0 k)) = Some i"
    using assms(2) unfolding e find_unused_def by simp
  then show ?thesis using e by (simp add: kkill_def)
qed

theorem kkill_p2_zero_witness:
  "fst (kkill_p2 0 sample_boot) = 0 \<and> p_killed (procs (snd (kkill_p2 0 sample_boot)) ! 0) = 1"
proof -
  have "\<forall>p \<in> set (procs sample_boot). p_state p = UNUSED \<longleftrightarrow> p_pid p = 0"
    by (auto simp: sample_boot_def procinit_def empty_slot_def)
  moreover have "find_unused sample_boot = Some 0"
    by (simp add: find_unused_def sample_boot_sel upt_conv_Cons)
  ultimately show ?thesis using kkill_p2_zero [of sample_boot 0] sample_boot_sel(1) by simp
qed

section \<open>Scheduling\<close>

lemma runnable_loop_count: "runnable_loop ps n = n + of_nat (length (filter (\<lambda>p. p_state p = RUNNABLE) ps))"
  by (induction ps n rule: runnable_loop.induct) simp_all

text \<open>What a program that logs its dispatch does to the state: it appends one entry.\<close>

definition logs :: "(nat \<Rightarrow> (nat \<times> procstate \<times> nat option) list kst \<Rightarrow> (nat \<times> procstate \<times> nat option) list kst) \<Rightarrow> bool" where
  "logs run \<longleftrightarrow> (\<forall>i k. k_fs (run i k) = k_fs k @ [(i, p_state (procs k ! i), cpu_proc (k_cpu k))] \<and>
     length (procs (run i k)) = length (procs k) \<and>
     (\<forall>j. j \<noteq> i \<longrightarrow> p_state (procs k ! j) = RUNNABLE \<longrightarrow> p_state (procs (run i k) ! j) = RUNNABLE))"

lemma sched_pass_log:
  assumes "logs run"
  shows "distinct is \<Longrightarrow> set is \<subseteq> {..<length (procs k)} \<Longrightarrow>
    \<exists>ds. k_fs (snd (sched_pass run is found k)) = k_fs k @ map (\<lambda>i. (i, RUNNING, Some i)) ds \<and>
      distinct ds \<and> {i \<in> set is. p_state (procs k ! i) = RUNNABLE} \<subseteq> set ds \<and> set ds \<subseteq> set is \<and>
      fst (sched_pass run is found k) = (found \<or> ds \<noteq> []) \<and>
      (ds = [] \<longrightarrow> snd (sched_pass run is found k) = k) \<and>
      length (procs (snd (sched_pass run is found k))) = length (procs k)"
proof (induction "is" arbitrary: k found)
  case Nil
  then show ?case by (intro exI [of _ "[]"]) simp
next
  case (Cons i "is")
  show ?case
  proof (cases "p_state (procs k ! i) = RUNNABLE")
    case False
    from Cons.IH [of k found] Cons.prems obtain ds where
      "k_fs (snd (sched_pass run is found k)) = k_fs k @ map (\<lambda>i. (i, RUNNING, Some i)) ds"
      "distinct ds" "{i \<in> set is. p_state (procs k ! i) = RUNNABLE} \<subseteq> set ds" "set ds \<subseteq> set is"
      "fst (sched_pass run is found k) = (found \<or> ds \<noteq> [])" "ds = [] \<longrightarrow> snd (sched_pass run is found k) = k"
      "length (procs (snd (sched_pass run is found k))) = length (procs k)" by auto
    then show ?thesis using False by (intro exI [of _ ds]) auto
  next
    case True
    define k1 where "k1 = (upd i (\<lambda>q. q\<lparr>p_state := RUNNING\<rparr>) k)\<lparr>k_cpu := (k_cpu k)\<lparr>cpu_proc := Some i\<rparr>\<rparr>"
    define k2 where "k2 = (run i k1)\<lparr>k_cpu := (k_cpu (run i k1))\<lparr>cpu_intena := False, cpu_proc := None\<rparr>\<rparr>"
    have i: "i < length (procs k)" using Cons.prems by simp
    have l: "k_fs (run i k1) = k_fs k1 @ [(i, p_state (procs k1 ! i), cpu_proc (k_cpu k1))]"
      "length (procs (run i k1)) = length (procs k1)"
      "\<forall>j. j \<noteq> i \<longrightarrow> p_state (procs k1 ! j) = RUNNABLE \<longrightarrow> p_state (procs (run i k1) ! j) = RUNNABLE"
      using assms unfolding logs_def by blast+
    have fs: "k_fs k2 = k_fs k @ [(i, RUNNING, Some i)]" and len: "length (procs k2) = length (procs k)"
      using l(1,2) i by (simp_all add: k1_def k2_def)
    have keep: "p_state (procs k2 ! j) = RUNNABLE" if "j \<noteq> i" "p_state (procs k ! j) = RUNNABLE" for j
      using l(3) that by (simp add: k1_def k2_def)
    from Cons.IH [of k2 True] Cons.prems len obtain ds where
      d: "k_fs (snd (sched_pass run is True k2)) = k_fs k2 @ map (\<lambda>i. (i, RUNNING, Some i)) ds"
      "distinct ds" "{i \<in> set is. p_state (procs k2 ! i) = RUNNABLE} \<subseteq> set ds" "set ds \<subseteq> set is"
      "fst (sched_pass run is True k2)" "length (procs (snd (sched_pass run is True k2))) = length (procs k2)" by auto
    have e: "sched_pass run (i # is) found k = sched_pass run is True k2"
      using True by (simp add: k1_def k2_def Let_def)
    have "{j \<in> set is. p_state (procs k ! j) = RUNNABLE} \<subseteq> set ds"
    proof
      fix j assume j: "j \<in> {j \<in> set is. p_state (procs k ! j) = RUNNABLE}"
      then have "j \<noteq> i" using Cons.prems(1) by auto
      then have "j \<in> {i \<in> set is. p_state (procs k2 ! i) = RUNNABLE}" using keep j by simp
      then show "j \<in> set ds" using d(3) by blast
    qed
    then show ?thesis unfolding e using d fs len Cons.prems(1)
      by (intro exI [of _ "i # ds"]) auto
  qed
qed

text \<open>
  C31. One round of the scheduler dispatches every process that is runnable when the round
  starts, and each at most once; the process gets the CPU marked running and as \<open>c->proc\<close>.
  The core goes to sleep exactly when it dispatched nothing, and then nothing has changed.
  (The dispatched processes are observed by a log that each appends to.)
\<close>

theorem scheduler_dispatches_all:
  assumes "logs run" "k_fs k = []"
  shows "\<exists>ds. k_fs (snd (scheduler_round run k)) = map (\<lambda>i. (i, RUNNING, Some i)) ds \<and> distinct ds \<and>
    {i. i < length (procs k) \<and> p_state (procs k ! i) = RUNNABLE} \<subseteq> set ds \<and>
    (fst (scheduler_round run k) \<longleftrightarrow> ds \<noteq> []) \<and>
    (\<not> fst (scheduler_round run k) \<longrightarrow> snd (scheduler_round run k) = k \<and> get_runnable_count k = 0)"
proof -
  have "distinct [0..<length (procs k)]" "set [0..<length (procs k)] \<subseteq> {..<length (procs k)}" by auto
  from sched_pass_log [OF assms(1) this, of False] assms(2) obtain ds where
    d: "k_fs (snd (scheduler_round run k)) = map (\<lambda>i. (i, RUNNING, Some i)) ds" "distinct ds"
      "{i \<in> set [0..<length (procs k)]. p_state (procs k ! i) = RUNNABLE} \<subseteq> set ds"
      "fst (scheduler_round run k) = (ds \<noteq> [])" "ds = [] \<longrightarrow> snd (scheduler_round run k) = k"
    unfolding scheduler_round_def by auto
  have s: "{i. i < length (procs k) \<and> p_state (procs k ! i) = RUNNABLE} \<subseteq> set ds" using d(3) by auto
  have "get_runnable_count k = 0" if "ds = []"
  proof -
    have "filter (\<lambda>p. p_state p = RUNNABLE) (procs k) = []"
      using s that by (auto simp: filter_empty_conv in_set_conv_nth)
    then show ?thesis by (simp add: get_runnable_count_def runnable_loop_count)
  qed
  then show ?thesis using d s by auto
qed

definition logged :: "nat \<Rightarrow> (nat \<times> procstate \<times> nat option) list kst \<Rightarrow> (nat \<times> procstate \<times> nat option) list kst" where
  "logged i k = k\<lparr>k_fs := k_fs k @ [(i, p_state (procs k ! i), cpu_proc (k_cpu k))]\<rparr>"

definition sample_sched :: "(nat \<times> procstate \<times> nat option) list kst" where
  "sample_sched = \<lparr>k_mem = boot_phys 0,
     procs = [empty_slot\<lparr>p_state := RUNNABLE\<rparr>, empty_slot, empty_slot\<lparr>p_state := RUNNABLE\<rparr>],
     initproc = None, nextpid = 1, k_fs = [], k_trampoline = 0, k_forkret = 0,
     k_cpu = \<lparr>cpu_proc = None, cpu_context = \<lparr>c_ra = 0, c_sp = 0, c_s = []\<rparr>, cpu_noff = 0, cpu_intena = True\<rparr>,
     k_ticks = 0, k_console = []\<rparr>"

theorem scheduler_dispatches_all_witness:
  "\<exists>ds. k_fs (snd (scheduler_round logged sample_sched)) = map (\<lambda>i. (i, RUNNING, Some i)) ds \<and>
     0 \<in> set ds \<and> 2 \<in> set ds"
proof -
  have "logs logged" by (simp add: logs_def logged_def)
  moreover have "k_fs sample_sched = []" "length (procs sample_sched) = 3"
    "p_state (procs sample_sched ! 0) = RUNNABLE" "p_state (procs sample_sched ! 2) = RUNNABLE"
    by (simp_all add: sample_sched_def)
  ultimately show ?thesis using scheduler_dispatches_all [of logged sample_sched] by fastforce
qed

end
