(* ===== verification/Kernel2.thy ===== *)
theory Kernel2
  imports Syscall
begin

text \<open>
  The process layer of \<open>Proyecto2/kernel\<close> (\<open>proc.c\<close>, \<open>sysproc.c\<close> and the argument fetching of
  \<open>syscall.c\<close>). That kernel has a field \<open>traced_syscall\<close> in each process and no \<open>USYSCALL\<close> page;
  the other routines have the text of \<open>Proyecto3\<close>, and are the same definitions. A state of it
  is the list of the fields \<open>traced_syscall\<close>, indexed as the process table, and a kernel state
  (whose \<open>p_usyscall\<close> it does not use). Its \<open>vm.c\<close> is not in the repository: the routines it
  calls there are the record \<open>vmops\<close>.
\<close>

type_synonym 'fs kst2 = "i32 list \<times> 'fs kst"

type_synonym 'fs handler2 = "nat \<Rightarrow> 'fs kst2 \<Rightarrow> (outcome \<times> 'fs kst2) run"

record vmops =
  v_uvmcreate :: "phys \<Rightarrow> u64 \<times> phys"
  v_mappages :: "u64 \<Rightarrow> u64 \<Rightarrow> u64 \<Rightarrow> u64 \<Rightarrow> u64 \<Rightarrow> phys \<Rightarrow> (int \<times> phys) res"
  v_uvmunmap :: "u64 \<Rightarrow> u64 \<Rightarrow> u64 \<Rightarrow> bool \<Rightarrow> phys \<Rightarrow> phys res"
  v_uvmfree :: "u64 \<Rightarrow> u64 \<Rightarrow> phys \<Rightarrow> phys run"
  v_uvmalloc :: "u64 \<Rightarrow> u64 \<Rightarrow> u64 \<Rightarrow> u64 \<Rightarrow> phys \<Rightarrow> (u64 \<times> phys) res"
  v_uvmdealloc :: "u64 \<Rightarrow> u64 \<Rightarrow> u64 \<Rightarrow> phys \<Rightarrow> (u64 \<times> phys) res"
  v_uvmcopy :: "u64 \<Rightarrow> u64 \<Rightarrow> u64 \<Rightarrow> phys \<Rightarrow> (int \<times> phys) res"
  v_copyout :: "u64 \<Rightarrow> u64 \<Rightarrow> u64 \<Rightarrow> u8 list \<Rightarrow> phys \<Rightarrow> (int \<times> phys) res"
  v_copyin :: "u64 \<Rightarrow> u64 \<Rightarrow> u64 \<Rightarrow> u64 \<Rightarrow> phys \<Rightarrow> (int \<times> u8 list \<times> phys) res"
  v_copyinstr :: "u64 \<Rightarrow> u64 \<Rightarrow> u64 \<Rightarrow> u64 \<Rightarrow> phys \<Rightarrow> (int \<times> u8 list \<times> phys) res"

text \<open>A routine that does not know the new field.\<close>

definition same_field :: "('fs kst \<Rightarrow> ('a \<times> 'fs kst) run) \<Rightarrow> 'fs kst2 \<Rightarrow> ('a \<times> 'fs kst2) run" where
  "same_field f st = rbnd (f (snd st)) (\<lambda>(r, k). ret (r, (fst st, k)))"

section \<open>Address space of a process\<close>

definition proc_pagetable_p2 :: "vmops \<Rightarrow> u64 \<Rightarrow> u64 \<Rightarrow> phys \<Rightarrow> (u64 \<times> phys) run" where
  "proc_pagetable_p2 v trampoline trapframe s =
     (case v_uvmcreate v s of (pagetable, s) \<Rightarrow>
      if pagetable = 0 then ret (0, s)
      else rbnd (lift (v_mappages v pagetable TRAMPOLINE PGSIZE trampoline (PTE_R OR PTE_X) s)) (\<lambda>(r, s).
        if r < 0 then rbnd (v_uvmfree v pagetable 0 s) (\<lambda>s. ret (0, s))
        else rbnd (lift (v_mappages v pagetable TRAPFRAME PGSIZE trapframe (PTE_R OR PTE_W) s)) (\<lambda>(r, s).
          if r < 0
          then rbnd (lift (v_uvmunmap v pagetable TRAMPOLINE 1 False s)) (\<lambda>s.
               rbnd (v_uvmfree v pagetable 0 s) (\<lambda>s. ret (0, s)))
          else ret (pagetable, s))))"

definition proc_freepagetable_p2 :: "vmops \<Rightarrow> u64 \<Rightarrow> u64 \<Rightarrow> phys \<Rightarrow> phys run" where
  "proc_freepagetable_p2 v pagetable sz s =
     rbnd (lift (v_uvmunmap v pagetable TRAMPOLINE 1 False s)) (\<lambda>s.
     rbnd (lift (v_uvmunmap v pagetable TRAPFRAME 1 False s)) (\<lambda>s.
     v_uvmfree v pagetable sz s))"

section \<open>Allocating and freeing a process\<close>

definition freeproc_p2 :: "vmops \<Rightarrow> nat \<Rightarrow> 'fs kst2 \<Rightarrow> 'fs kst2 run" where
  "freeproc_p2 v i st =
     (case st of (traced, k) \<Rightarrow>
      let p = procs k ! i in
      rbnd (if p_trapframe p \<noteq> 0 then lift (kfree (p_trapframe p) (k_mem k)) else ret (k_mem k)) (\<lambda>s.
      rbnd (if p_pagetable p \<noteq> 0 then proc_freepagetable_p2 v (p_pagetable p) (p_sz p) s else ret s) (\<lambda>s.
        ret (traced[i := 0],
             upd i (\<lambda>p. p\<lparr>p_trapframe := 0, p_pagetable := 0, p_sz := 0, p_pid := 0, p_name := '''',
               p_chan := Null, p_killed := 0, p_xstate := 0, p_state := UNUSED\<rparr>) (set_mem s k)))))"

text \<open>From \<open>found:\<close> on.\<close>

definition allocproc_at_p2 :: "vmops \<Rightarrow> nat \<Rightarrow> 'fs kst2 \<Rightarrow> (nat option \<times> 'fs kst2) run" where
  "allocproc_at_p2 v i st =
     (case st of (traced, k) \<Rightarrow>
      case allocpid k of (pid, k) \<Rightarrow>
      let k = upd i (\<lambda>p. p\<lparr>p_pid := pid, p_state := USED\<rparr>) k in
      case kalloc (k_mem k) of (tf, s) \<Rightarrow>
      let k = upd i (\<lambda>p. p\<lparr>p_trapframe := tf\<rparr>) (set_mem s k) in
      if tf = 0 then rbnd (freeproc_p2 v i (traced, k)) (\<lambda>st. ret (None, st))
      else rbnd (proc_pagetable_p2 v (k_trampoline k) tf (k_mem k)) (\<lambda>(pt, s).
      let k = upd i (\<lambda>p. p\<lparr>p_pagetable := pt\<rparr>) (set_mem s k) in
      if pt = 0 then rbnd (freeproc_p2 v i (traced, k)) (\<lambda>st. ret (None, st))
      else ret (Some i, (traced, upd i (\<lambda>p. p\<lparr>p_context :=
             \<lparr>c_ra = k_forkret k, c_sp = p_kstack p + PGSIZE, c_s = replicate 12 0\<rparr>\<rparr>) k))))"

definition allocproc_p2 :: "vmops \<Rightarrow> 'fs kst2 \<Rightarrow> (nat option \<times> 'fs kst2) run" where
  "allocproc_p2 v st =
     (case find_unused (snd st) of None \<Rightarrow> ret (None, st) | Some i \<Rightarrow> allocproc_at_p2 v i st)"

definition userinit_p2 :: "vmops \<Rightarrow> 'fs fsops \<Rightarrow> 'fs kst2 \<Rightarrow> 'fs kst2 run" where
  "userinit_p2 v fs st =
     rbnd (allocproc_p2 v st) (\<lambda>(r, (traced, k)).
       case r of None \<Rightarrow> None
       | Some i \<Rightarrow> (case namei fs ''/'' (k_fs k) of (ip, f) \<Rightarrow>
           ret (traced, upd i (\<lambda>p. p\<lparr>p_cwd := ip, p_state := RUNNABLE\<rparr>)
                 (k\<lparr>initproc := Some i, k_fs := f\<rparr>))))"

definition growproc_p2 :: "vmops \<Rightarrow> nat \<Rightarrow> i32 \<Rightarrow> 'fs kst \<Rightarrow> (int \<times> 'fs kst) res" where
  "growproc_p2 v p n k =
     (let pr = procs k ! p; sz = p_sz pr; pt = p_pagetable pr;
          done = (\<lambda>sz s. Ok (0, upd p (\<lambda>q. q\<lparr>p_sz := sz\<rparr>) (set_mem s k)))
      in if sint n > 0
         then if sz + scast n > TRAPFRAME then Ok (-1, k)
              else bnd (v_uvmalloc v pt sz (sz + scast n) PTE_W (k_mem k)) (\<lambda>(sz, s).
                     if sz = 0 then Ok (-1, set_mem s k) else done sz s)
         else if sint n < 0
         then bnd (v_uvmdealloc v pt sz (sz + scast n) (k_mem k)) (\<lambda>(sz, s). done sz s)
         else done sz (k_mem k))"

section \<open>fork and wait\<close>

text \<open>The child does not get the \<open>traced_syscall\<close> of its parent.\<close>

definition kfork_p2 :: "vmops \<Rightarrow> 'fs fsops \<Rightarrow> nat \<Rightarrow> 'fs kst2 \<Rightarrow> (i32 \<times> 'fs kst2) run" where
  "kfork_p2 v fs p st =
     rbnd (allocproc_p2 v st) (\<lambda>(r, (traced, k)).
       case r of None \<Rightarrow> ret (-1, (traced, k))
       | Some np \<Rightarrow>
         rbnd (lift (v_uvmcopy v (p_pagetable (procs k ! p)) (p_pagetable (procs k ! np))
                 (p_sz (procs k ! p)) (k_mem k))) (\<lambda>(r, s).
         let k = set_mem s k in
         if r < 0 then rbnd (freeproc_p2 v np (traced, k)) (\<lambda>st. ret (-1, st))
         else
           let pp = procs k ! p; c = procs k ! np;
               m = memmove (pmem (k_mem k)) (p_trapframe c) (p_trapframe pp) TF_SIZE;
               m = store64 m (p_trapframe c + TF_A0) 0
           in case dup_files fs (p_ofile pp) (p_ofile c) (k_fs k) of (ofile, f) \<Rightarrow>
              case idup fs (p_cwd pp) f of (cwd, f) \<Rightarrow>
                ret (p_pid c, (traced, upd np (\<lambda>c. c\<lparr>p_sz := p_sz pp, p_ofile := ofile, p_cwd := cwd,
                        p_name := safestrcpy16 (p_name pp), p_parent := Some p, p_state := RUNNABLE\<rparr>)
                      (k\<lparr>k_mem := (k_mem k)\<lparr>pmem := m\<rparr>, k_fs := f\<rparr>)))))"

fun wait_scan_p2 ::
  "vmops \<Rightarrow> nat \<Rightarrow> u64 \<Rightarrow> nat list \<Rightarrow> bool \<Rightarrow> 'fs kst2 \<Rightarrow> ((i32 + bool) \<times> 'fs kst2) run" where
  "wait_scan_p2 v p addr [] havekids st = ret (Inr havekids, st)"
| "wait_scan_p2 v p addr (i # is) havekids st =
     (case st of (traced, k) \<Rightarrow>
      let pp = procs k ! i in
      if p_parent pp = Some p
      then if p_state pp = ZOMBIE
           then rbnd (if addr \<noteq> 0
                      then lift (v_copyout v (p_pagetable (procs k ! p)) (p_sz (procs k ! p)) addr
                                   (int_bytes (p_xstate pp)) (k_mem k))
                      else ret (0, k_mem k)) (\<lambda>(r, s).
                let k = set_mem s k in
                if r < 0 then ret (Inl (-1), (traced, k))
                else rbnd (freeproc_p2 v i (traced, upd i (\<lambda>q. q\<lparr>p_parent := None\<rparr>) k)) (\<lambda>st.
                       ret (Inl (p_pid pp), st)))
           else wait_scan_p2 v p addr is True st
      else wait_scan_p2 v p addr is havekids st)"

definition kwait_p2 :: "vmops \<Rightarrow> nat \<Rightarrow> u64 \<Rightarrow> 'fs kst2 \<Rightarrow> (wait_result \<times> 'fs kst2) run" where
  "kwait_p2 v p addr st =
     rbnd (wait_scan_p2 v p addr [0..<length (procs (snd st))] False st) (\<lambda>(r, (traced, k)).
       case r of Inl x \<Rightarrow> ret (Wait_return x, (traced, k))
       | Inr havekids \<Rightarrow>
           if \<not> havekids \<or> killed p k \<noteq> 0 then ret (Wait_return (-1), (traced, k))
           else rbnd (lift (sleep_prepare p (Proc_chan p) k)) (\<lambda>k.
                rbnd (lift (sleep p k)) (\<lambda>k. ret (Wait_sleep, (traced, k)))))"

section \<open>Fetching arguments\<close>

definition fetchaddr_p2 :: "vmops \<Rightarrow> nat \<Rightarrow> u64 \<Rightarrow> 'fs kst \<Rightarrow> (int \<times> u8 list \<times> 'fs kst) res" where
  "fetchaddr_p2 v p addr k =
     (let pr = procs k ! p in
      if addr \<ge> p_sz pr \<or> addr + 8 > p_sz pr then Ok (-1, [], k)
      else bnd (v_copyin v (p_pagetable pr) (p_sz pr) addr 8 (k_mem k)) (\<lambda>(r, bs, s).
             if r \<noteq> 0 then Ok (-1, bs, set_mem s k) else Ok (0, bs, set_mem s k)))"

definition fetchstr_p2 :: "vmops \<Rightarrow> nat \<Rightarrow> u64 \<Rightarrow> i32 \<Rightarrow> 'fs kst \<Rightarrow> (int \<times> u8 list \<times> 'fs kst) res" where
  "fetchstr_p2 v p addr mx k =
     (let pr = procs k ! p in
      bnd (v_copyinstr v (p_pagetable pr) (p_sz pr) addr (scast mx) (k_mem k)) (\<lambda>(r, bs, s).
        if r < 0 then Ok (-1, bs, set_mem s k)
        else Ok (int (strlen_bytes bs), bs, set_mem s k)))"

definition argstr_p2 :: "vmops \<Rightarrow> nat \<Rightarrow> i32 \<Rightarrow> nat \<Rightarrow> 'fs kst \<Rightarrow> (int \<times> u8 list \<times> 'fs kst) res" where
  "argstr_p2 v n mx p k = bnd (argaddr n p k) (\<lambda>addr. fetchstr_p2 v p addr mx k)"

section \<open>The calls of sysproc.c\<close>

record 'fs p2env =
  p2_sys :: "'fs sysenv"
  p2_vm :: vmops

definition sys_exit_p2 :: "'fs p2env \<Rightarrow> 'fs handler2" where
  "sys_exit_p2 e p = same_field (sys_exit (p2_sys e) p)"

definition sys_getpid_p2 :: "'fs handler2" where
  "sys_getpid_p2 p = same_field (sys_getpid p)"

definition sys_fork_p2 :: "'fs p2env \<Rightarrow> 'fs handler2" where
  "sys_fork_p2 e p st = rbnd (kfork_p2 (p2_vm e) (e_fs (p2_sys e)) p st) (\<lambda>(r, st). ret (Sys_return (scast r), st))"

definition sys_wait_p2 :: "'fs p2env \<Rightarrow> 'fs handler2" where
  "sys_wait_p2 e p st = rbnd (lift (argaddr 0 p (snd st))) (\<lambda>addr. rbnd (kwait_p2 (p2_vm e) p addr st) (\<lambda>(r, st).
     case r of Wait_return x \<Rightarrow> ret (Sys_return (scast x), st) | Wait_sleep \<Rightarrow> ret (Sys_sleep, st)))"

text \<open>Both branches go up to \<open>TRAPFRAME\<close>, as this kernel has no page below it.\<close>

definition sbrk_p2 :: "'fs p2env \<Rightarrow> 'fs handler" where
  "sbrk_p2 e p k = lift
     (bnd (argint 0 p k) (\<lambda>n. bnd (argint 1 p k) (\<lambda>t.
      let addr = p_sz (procs k ! p) in
      if t = e_sbrk_eager (p2_sys e) \<or> sint n < 0
      then bnd (growproc_p2 (p2_vm e) p n k) (\<lambda>(r, k).
             if r < 0 then Ok (Sys_return (-1), k) else Ok (Sys_return addr, k))
      else if addr + scast n < addr then Ok (Sys_return (-1), k)
      else if addr + scast n > TRAPFRAME then Ok (Sys_return (-1), k)
      else Ok (Sys_return addr, upd p (\<lambda>q. q\<lparr>p_sz := p_sz q + scast n\<rparr>) k))))"

definition sys_sbrk_p2 :: "'fs p2env \<Rightarrow> 'fs handler2" where
  "sys_sbrk_p2 e p = same_field (sbrk_p2 e p)"

definition sys_pause_p2 :: "'fs p2env \<Rightarrow> 'fs handler2" where
  "sys_pause_p2 e p = same_field (sys_pause (p2_sys e) p)"

definition sys_kill_p2 :: "'fs handler2" where
  "sys_kill_p2 p = same_field (\<lambda>k. lift (bnd (argint 0 p k) (\<lambda>pid.
     case kkill_p2 pid k of (r, k) \<Rightarrow> Ok (Sys_return (of_int r), k))))"

definition sys_uptime_p2 :: "'fs handler2" where
  "sys_uptime_p2 p = same_field (sys_uptime p)"

end
