(* ===== verification/Trace_Sysinfo.thy ===== *)
theory Trace_Sysinfo
  imports Kernel2
begin

text \<open>
  The system calls that \<open>Proyecto2\<close> adds, \<open>trace\<close> and \<open>sysinfo\<close>, and its dispatcher
  (\<open>Proyecto2/kernel/syscall.c\<close> and \<open>sysproc.c\<close>).
\<close>

section \<open>Names of system calls\<close>

text \<open>\<open>strncmp\<close> of the C library, on strings without their NUL.\<close>

fun strncmp :: "string \<Rightarrow> string \<Rightarrow> nat \<Rightarrow> int" where
  "strncmp p q 0 = 0"
| "strncmp [] [] (Suc n) = 0"
| "strncmp [] (b # q) (Suc n) = - of_char b"
| "strncmp (a # p) [] (Suc n) = of_char a"
| "strncmp (a # p) (b # q) (Suc n) = (if a = b then strncmp p q n else of_char a - of_char b)"

definition syscallnames :: "string option list" where
  "syscallnames = [None, Some ''fork'', Some ''exit'', Some ''wait'', Some ''pipe'', Some ''read'',
     Some ''kill'', Some ''exec'', Some ''fstat'', Some ''chdir'', Some ''dup'', Some ''getpid'',
     Some ''sbrk'', Some ''pause'', Some ''uptime'', Some ''open'', Some ''write'', Some ''mknod'',
     Some ''unlink'', Some ''link'', Some ''mkdir'', Some ''close'', Some ''sync'',
     Some ''sysinfo'', Some ''trace'']"

definition syscallid_by_name :: "string \<Rightarrow> int" where
  "syscallid_by_name name =
     (case find (\<lambda>i. case syscallnames ! i of Some s \<Rightarrow> strncmp s name 16 = 0 | None \<Rightarrow> False)
             [1..<length syscallnames] of
        Some i \<Rightarrow> int i | None \<Rightarrow> -1)"

section \<open>trace\<close>

definition c_string :: "u8 list \<Rightarrow> string" where
  "c_string bs = map (\<lambda>b. char_of (unat b)) (takeWhile (\<lambda>b. b \<noteq> 0) bs)"

definition sys_trace :: "'fs p2env \<Rightarrow> 'fs handler2" where
  "sys_trace e p st =
     (case st of (traced, k) \<Rightarrow> lift (bnd (argstr_p2 (p2_vm e) 0 16 p k) (\<lambda>(len, bs, k).
        if len < 0 then Ok (Sys_return (-1), (traced, k))
        else let id = syscallid_by_name (c_string bs) in
          if id < 0
          then Ok (Sys_return (-1), (traced, print_console (Unknown_trace (c_string bs)) k))
          else Ok (Sys_return 0, (traced[p := of_int id], k)))))"

section \<open>sysinfo\<close>

record sysinfo =
  freemem :: u64
  n_upages :: u64
  n_apages :: u64
  n_runnable :: u64

definition sysinfo_bytes :: "sysinfo \<Rightarrow> u8 list" where
  "sysinfo_bytes i = long_bytes (freemem i) @ long_bytes (n_upages i) @ long_bytes (n_apages i) @
     long_bytes (n_runnable i)"

definition fill_sysinfo :: "u64 \<Rightarrow> i32 \<Rightarrow> sysinfo" where
  "fill_sysinfo free runnable =
     (let total_pages = (PHYSTOP - KERNBASE) div PGSIZE;
          free_pages = free div PGSIZE
      in \<lparr>freemem = free,
          n_upages = (if total_pages > free_pages then total_pages - free_pages else 0),
          n_apages = free_pages, n_runnable = scast runnable\<rparr>)"

definition sys_sysinfo :: "'fs p2env \<Rightarrow> 'fs handler2" where
  "sys_sysinfo e p st =
     (case st of (traced, k) \<Rightarrow>
      rbnd (lift (argaddr 0 p k)) (\<lambda>addr.
      case get_free_memory (k_mem k) of
        None \<Rightarrow> None
      | Some free \<Rightarrow>
          rbnd (lift (v_copyout (p2_vm e) (p_pagetable (procs k ! p)) (p_sz (procs k ! p)) addr
                   (sysinfo_bytes (fill_sysinfo free (get_runnable_count k))) (k_mem k))) (\<lambda>(r, s).
            ret (Sys_return (if r < 0 then -1 else 0), (traced, set_mem s k)))))"

section \<open>Dispatch with tracing\<close>

text \<open>The other numbers are those of \<open>Proyecto3\<close>.\<close>

abbreviation SYS_sysinfo :: nat where "SYS_sysinfo \<equiv> 23"
abbreviation SYS_trace :: nat where "SYS_trace \<equiv> 24"

definition syscalls_p2 :: "'fs p2env \<Rightarrow> nat \<Rightarrow> 'fs handler2 option" where
  "syscalls_p2 e num =
     (if num = SYS_fork then Some (sys_fork_p2 e)
      else if num = SYS_exit then Some (sys_exit_p2 e)
      else if num = SYS_wait then Some (sys_wait_p2 e)
      else if num = SYS_kill then Some sys_kill_p2
      else if num = SYS_getpid then Some sys_getpid_p2
      else if num = SYS_sbrk then Some (sys_sbrk_p2 e)
      else if num = SYS_pause then Some (sys_pause_p2 e)
      else if num = SYS_uptime then Some sys_uptime_p2
      else if num = SYS_sysinfo then Some (sys_sysinfo e)
      else if num = SYS_trace then Some (sys_trace e)
      else if 1 \<le> num \<and> num \<le> 22 then Some (\<lambda>p. same_field (e_file_call (p2_sys e) num p))
      else None)"

text \<open>The report is printed after \<open>a0\<close> was overwritten by the result.\<close>

definition trace_report :: "nat \<Rightarrow> nat \<Rightarrow> 'fs kst \<Rightarrow> 'fs kst" where
  "trace_report num p k =
     print_console (Traced (p_pid (procs k ! p)) (the (syscallnames ! num))
       (ucast (tf_reg p TF_A0 k)) (ucast (tf_reg p 96 k)) (ucast (tf_reg p 104 k))
       (ucast (tf_reg p TF_A0 k)) (ucast (tf_reg p 120 k))) k"

definition syscall_p2 :: "'fs p2env \<Rightarrow> 'fs handler2" where
  "syscall_p2 e p st =
     (let num = (ucast (tf_reg p TF_A7 (snd st)) :: i32) in
      case (if sint num > 0 \<and> sint num < NSYSCALLS then syscalls_p2 e (nat (sint num)) else None) of
        Some f \<Rightarrow> rbnd (f p st) (\<lambda>(r, (traced, k)).
          case r of
            Sys_return v \<Rightarrow>
              let k = set_a0 p v k;
                  k = (if traced ! p = num then trace_report (nat (sint num)) p k else k)
              in ret (r, (traced, k))
          | _ \<Rightarrow> ret (r, (traced, k)))
      | None \<Rightarrow> (case st of (traced, k) \<Rightarrow>
          let k = print_console (Unknown_call (p_pid (procs k ! p)) (p_name (procs k ! p)) num) k
          in ret (Sys_return (-1), (traced, set_a0 p (-1) k))))"

section \<open>Names and numbers agree\<close>

lemma of_char_zero: "of_char c = (0 :: int) \<longleftrightarrow> c = CHR 0x00"
proof -
  have "of_char c = (of_char CHR 0x00 :: int) \<longleftrightarrow> c = CHR 0x00" by (rule of_char_eq_iff)
  then show ?thesis by simp
qed

lemma strncmp_eq:
  "length p < n \<Longrightarrow> CHR 0x00 \<notin> set p \<Longrightarrow> CHR 0x00 \<notin> set q \<Longrightarrow> strncmp p q n = 0 \<longleftrightarrow> q = p"
proof (induction p q n rule: strncmp.induct)
  case (5 a p b q n)
  have "of_char a = (of_char b :: int) \<longleftrightarrow> a = b" by (rule of_char_eq_iff)
  then show ?case using 5 by auto
qed (auto simp: of_char_zero)

definition names :: "string list" where
  "names = map (\<lambda>n. case n of Some s \<Rightarrow> s | None \<Rightarrow> []) (tl syscallnames)"

lemma names_ok: "distinct names" "length names = 24" "\<forall>s \<in> set names. length s < 16 \<and> CHR 0x00 \<notin> set s"
  by (simp_all add: names_def syscallnames_def)

lemma syscallnames_names: "syscallnames = None # map Some names"
  by (simp add: names_def syscallnames_def)

lemma syscallnames_nth: "0 < i \<Longrightarrow> i < 25 \<Longrightarrow> syscallnames ! i = Some (names ! (i - 1))"
  using names_ok(2) by (simp add: syscallnames_names nth_Cons')

lemma syscallid_by_name_names:
  assumes "CHR 0x00 \<notin> set name"
  shows "syscallid_by_name name = (case find (\<lambda>i. names ! (i - 1) = name) [1..<25] of
    Some i \<Rightarrow> int i | None \<Rightarrow> -1)"
proof -
  have "(case syscallnames ! i of Some s \<Rightarrow> strncmp s name 16 = 0 | None \<Rightarrow> False) \<longleftrightarrow> names ! (i - 1) = name"
    if "i \<in> set [1..<25]" for i
  proof -
    have "i - 1 < 24" using that by auto
    then have "length (names ! (i - 1)) < 16" "CHR 0x00 \<notin> set (names ! (i - 1))"
      using names_ok(2,3) by auto
    then show ?thesis using that strncmp_eq [of "names ! (i - 1)" 16 name] assms
      by (auto simp: syscallnames_nth)
  qed
  then have "find (\<lambda>i. case syscallnames ! i of Some s \<Rightarrow> strncmp s name 16 = 0 | None \<Rightarrow> False) [1..<25] =
      find (\<lambda>i. names ! (i - 1) = name) [1..<25]"
    by (intro find_cong) simp_all
  moreover have "length syscallnames = 25" by (simp add: syscallnames_def)
  ultimately show ?thesis by (simp only: syscallid_by_name_def)
qed

lemma find_unique: "find P xs = Some i \<Longrightarrow> P i \<and> i \<in> set xs"
  by (auto simp: find_Some_iff)

lemma syscallid_by_name_iff:
  assumes n: "CHR 0x00 \<notin> set name" and i: "0 < i" "i < 25"
  shows "syscallid_by_name name = int i \<longleftrightarrow> syscallnames ! i = Some name"
proof
  assume "syscallid_by_name name = int i"
  then have "find (\<lambda>i. names ! (i - 1) = name) [1..<25] = Some i"
    unfolding syscallid_by_name_names [OF n] by (auto split: option.splits)
  then show "syscallnames ! i = Some name" using find_unique i by (fastforce simp: syscallnames_nth)
next
  assume "syscallnames ! i = Some name"
  then have ni: "names ! (i - 1) = name" using i by (simp add: syscallnames_nth)
  then have "find (\<lambda>i. names ! (i - 1) = name) [1..<25] \<noteq> None" using i by (auto simp: find_None_iff)
  then obtain j where j: "find (\<lambda>i. names ! (i - 1) = name) [1..<25] = Some j" by blast
  from find_unique [OF j] have "names ! (j - 1) = names ! (i - 1)" "0 < j" "j < 25" using ni by auto
  then have "j - 1 = i - 1" using names_ok(1,2) i nth_eq_iff_index_eq [of names "j - 1" "i - 1"] by auto
  then have "j = i" using i \<open>0 < j\<close> by simp
  then show "syscallid_by_name name = int i" using j by (simp add: syscallid_by_name_names [OF n])
qed

end
