(* ===== verification/Sys_Props.thy ===== *)
theory Sys_Props
  imports Mem_Steps Proc_Props Trace_Sysinfo
begin

text \<open>
  The properties of the system call layer and of the calls that \<open>Proyecto3\<close> adds, and the names of the calls of \<open>Proyecto2\<close>.
\<close>

definition sample_env :: "unit sysenv" where
  "sample_env = \<lparr>e_fs = sample_fs, e_file_call = (\<lambda>_ p k. ret (Sys_return 0, k)),
     e_ticks_addr = 0x80009000, e_sbrk_eager = 1\<rparr>"

section \<open>The dispatcher\<close>

text \<open>A call by the child of the first process, with number and argument in its trapframe.\<close>

definition put_reg :: "nat \<Rightarrow> u64 \<Rightarrow> u64 \<Rightarrow> 'fs kst \<Rightarrow> 'fs kst" where
  "put_reg p off v k =
     set_mem ((k_mem k)\<lparr>pmem := store64 (pmem (k_mem k)) (p_trapframe (procs k ! p) + off) v\<rparr>) k"

definition sample_call :: "u64 \<Rightarrow> u64 \<Rightarrow> unit kst" where
  "sample_call n a = put_reg 1 TF_A0 a (put_reg 1 TF_A7 n (dispatched 1 sample_fork))"

lemma put_reg_kinv:
  assumes "kinv N fl k" "p < length (procs k)" "p_state (procs k ! p) \<noteq> UNUSED" "off < PGSIZE - 8"
  shows "kinv N fl (put_reg p off v k)" "all_pages fl (put_reg p off v k) = all_pages fl k"
proof -
  have "live (k_mem k) fl (procs k ! p)" using assms(1-3) by (intro live_slot) (simp_all add: kinv_def)
  from kinv_kept [OF assms(1,2) kept_tf [OF this assms(4)]]
  show "kinv N fl (put_reg p off v k)" "all_pages fl (put_reg p off v k) = all_pages fl k"
    by (simp_all add: put_reg_def)
qed

lemma sample_call_spec:
  "\<exists>fl. kinv {} fl (sample_call n a) \<and> calling 1 (sample_call n a) \<and> tf_reg 1 TF_A7 (sample_call n a) = n \<and>
     tf_reg 1 TF_A0 (sample_call n a) = a \<and> procs (sample_call n a) = procs (dispatched 1 sample_fork) \<and>
     initproc (sample_call n a) = Some 0 \<and> length (procs (sample_call n a)) = 3"
proof -
  obtain fl where c: "kinv {} fl (dispatched 1 sample_fork)" "length (procs (dispatched 1 sample_fork)) = 3"
     "initproc (dispatched 1 sample_fork) = Some 0" "cpu_noff (k_cpu (dispatched 1 sample_fork)) = 0"
    using sample_child by blast
  then have st: "p_state (procs (dispatched 1 sample_fork) ! 1) = RUNNING" by simp
  have off: "TF_A7 < PGSIZE - 8" "TF_A0 < PGSIZE - 8" by (simp_all add: word_less_nat_alt)
  let ?k = "put_reg 1 TF_A7 n (dispatched 1 sample_fork)"
  have p: "1 < length (procs (dispatched 1 sample_fork))" "p_state (procs (dispatched 1 sample_fork) ! 1) \<noteq> UNUSED"
    using c(2) st by simp_all
  have p': "1 < length (procs ?k)" "p_state (procs ?k ! 1) \<noteq> UNUSED" using p by (simp_all only: put_reg_def) simp_all
  have "kinv {} fl (sample_call n a)" unfolding sample_call_def
    by (rule put_reg_kinv(1) [OF put_reg_kinv(1) [OF c(1) p off(1)] p' off(2)])
  moreover have "load64 (store64 (store64 m (t + TF_A7) n) (t + TF_A0) a) (t + TF_A7) = n" for m t
    by (subst load64_apart) (simp_all add: load64_store64)
  moreover have "procs (sample_call n a) = procs (dispatched 1 sample_fork)"
    by (simp only: sample_call_def put_reg_def) simp
  ultimately show ?thesis using c(2-4) st
    by (intro exI [of _ fl]) (simp add: sample_call_def put_reg_def tf_reg_def calling_def load64_store64)
qed

text \<open>
  C1. A system call cannot break the kernel. Whatever the number in \<open>a7\<close>, except for those of the
  calls of \<open>sysfile.c\<close> (which is not in the repository), and whatever the arguments in the registers
  of the calling process, the dispatcher returns without a panic, keeps the invariants of all
  processes and loses no page. The one exception is stated as such: \<open>exit\<close> in the first process
  panics.
\<close>

theorem syscall_never_breaks:
  assumes "kinv N fl k" "calling p k" "num = (ucast (tf_reg p TF_A7 k) :: i32)"
    and "nat (sint num) \<notin> set sysfile_calls"
  shows "if num = 2 \<and> initproc k = Some p then syscall e p k = Some (Panic ''init exiting'')
    else \<exists>out fl' k'. syscall e p k = ret (out, k') \<and> mem_inv fl' k' \<and> tree_inv N k' \<and>
      all_pages fl' k' = all_pages fl k \<and> length (procs k') = length (procs k)"
proof (cases "num = 2 \<and> initproc k = Some p")
  case True
  then show ?thesis using syscall_exit_init [of k p e] assms(3) by simp
next
  case False
  then have "num = 2 \<longrightarrow> initproc k \<noteq> Some p" by blast
  from syscall_call_ok [OF assms(1,2,3,4) this, of e] show ?thesis
    unfolding if_not_P [OF False] call_ok_def kinv_def by blast
qed

theorem syscall_never_breaks_witness:
  "\<exists>out fl k'. syscall sample_env 1 (sample_call 3 0) = ret (out, k') \<and> mem_inv fl k' \<and> tree_inv {} k'"
proof -
  obtain fl where c: "kinv {} fl (sample_call 3 0)" "calling 1 (sample_call 3 0)"
    "tf_reg 1 TF_A7 (sample_call 3 0) = 3" using sample_call_spec by blast
  have "(3 :: i32) = ucast (tf_reg 1 TF_A7 (sample_call 3 0))" "nat (sint (3 :: i32)) \<notin> set sysfile_calls"
    unfolding c(3) by (simp_all add: sysfile_calls_def)
  from syscall_never_breaks [OF c(1,2) this, of sample_env] show ?thesis by auto
qed

section \<open>What each call gives its caller\<close>

lemma set_a0_sel [simp]:
  "procs (set_a0 p v k) = procs k" "k_console (set_a0 p v k) = k_console k" "tf_reg p TF_A0 (set_a0 p v k) = v"
  by (simp_all add: set_a0_def tf_reg_def load64_store64)























section \<open>Arguments from user memory\<close>

text \<open>
  C36. \<open>fetchaddr\<close> reads a 64-bit word only from inside the process: if the eight bytes do not
  all lie below its size, even when the end of the range would wrap around, it fails without
  touching memory; otherwise it delivers those bytes of the user memory, or fails where a page
  is unreadable or memory is exhausted. The invariant of all processes is kept.
\<close>

theorem fetchaddr_inside:
  assumes "mem_inv fl k" "p < length (procs k)" "p_state (procs k ! p) \<noteq> UNUSED"
  shows "if unat addr + 8 \<le> unat (p_sz (procs k ! p))
    then \<exists>r bs fl' k'. fetchaddr p addr k = Ok (r, bs, k') \<and> mem_inv fl' k' \<and>
      all_pages fl' k' = all_pages fl k \<and> procs k' = procs k \<and>
      (\<forall>i < length bs. lbyte (k_mem k) (p_pagetable (procs k ! p)) (p_sz (procs k ! p)) (addr + of_nat i) =
         Some (bs ! i)) \<and>
      (r = 0 \<and> length bs = 8 \<or> r = -1 \<and> length bs < 8)
    else fetchaddr p addr k = Ok (-1, [], k)"
proof -
  let ?sz = "p_sz (procs k ! p)"
  have lv: "live (k_mem k) fl (procs k ! p)" by (rule live_slot [OF assms])
  have small: "unat ?sz \<le> 0x3fffffd000"
    using live_size [OF lv] by (simp add: word_le_nat_alt USYSCALL_val)
  have iff: "unat addr + 8 \<le> unat ?sz \<longleftrightarrow> \<not> (addr \<ge> ?sz \<or> addr + 8 > ?sz)"
  proof (cases "addr \<ge> ?sz")
    case False
    then have "unat (addr + 8) = unat addr + 8"
      using small by (simp add: unat_word_ariths(1) word_le_nat_alt)
    then show ?thesis using False by (auto simp: word_le_nat_alt word_less_nat_alt)
  qed (auto simp: word_le_nat_alt)
  show ?thesis
  proof (cases "unat addr + 8 \<le> unat ?sz")
    case False
    then show ?thesis using iff by (simp add: fetchaddr_def Let_def)
  next
    case True
    from copyin_spec [OF live_uspace [OF lv] live_limits(1) [OF lv], of addr 8] obtain r bs s' where
      c: "copyin (p_pagetable (procs k ! p)) ?sz addr 8 (k_mem k) = Ok (r, bs, s')"
      and rp: "read_post (k_mem k) fl (p_pagetable (procs k ! p)) ?sz addr 8 r bs s'" by blast
    from rp obtain fl' where kp: "keeps (k_mem k) fl (p_pagetable (procs k ! p)) ?sz s' fl'"
      "lbyte s' (p_pagetable (procs k ! p)) ?sz = lbyte (k_mem k) (p_pagetable (procs k ! p)) ?sz"
      unfolding read_post_def by blast
    note m = mem_inv_kept [OF assms(1,2) live_read [OF lv kp]]
    have "r = 0 \<and> length bs = 8 \<or> r = -1 \<and> length bs < 8" using rp by (auto simp: read_post_def)
    moreover from this c have "fetchaddr p addr k = Ok (if r = 0 then 0 else -1, bs, set_mem s' k)"
      using True iff by (auto simp: fetchaddr_def Let_def)
    ultimately show ?thesis using True m rp unfolding read_post_def
      by (intro if_P [THEN iffD2] TrueI) auto
  qed
qed

lemma sample_fork_inv:
  "\<exists>fl. kinv {} fl sample_fork \<and> mem_inv fl sample_fork \<and> 0 < length (procs sample_fork) \<and>
     p_state (procs sample_fork ! 0) \<noteq> UNUSED \<and> p_sz (procs sample_fork ! 0) = 0"
  using sample_fork_spec sample_init_spec by (auto simp: kinv_def)

theorem fetchaddr_inside_witness: "fetchaddr 0 (-4) sample_fork = Ok (-1, [], sample_fork)"
proof -
  obtain fl where f: "mem_inv fl sample_fork" "0 < length (procs sample_fork)"
    "p_state (procs sample_fork ! 0) \<noteq> UNUSED" "p_sz (procs sample_fork ! 0) = 0"
    using sample_fork_inv by blast
  show ?thesis using fetchaddr_inside [OF f(1-3), of "-4"] f(4) by simp
qed

section \<open>sbrk\<close>

text \<open>
  C24. \<open>sbrk\<close> keeps the process below the \<open>USYSCALL\<close> page whatever its arguments: the result is
  the old size and the size changes by \<open>n\<close>, or the result is -1 and the size stays. A lazy
  growth fails exactly when the new size, computed without wrap-around, would exceed
  \<open>USYSCALL\<close>, and it touches no page table. A shrink below zero reports success and changes
  nothing.
\<close>

theorem sys_sbrk_bounds:
  assumes "kinv N fl k" "p < length (procs k)" "p_state (procs k ! p) \<noteq> UNUSED"
    and "(n :: i32) = ucast (tf_reg p 112 k)" "(t :: i32) = ucast (tf_reg p 120 k)" "old = p_sz (procs k ! p)"
  shows "\<exists>v fl' k' sz. sys_sbrk e p k = ret (Sys_return v, k') \<and> kinv N fl' k' \<and> all_pages fl' k' = all_pages fl k \<and>
    procs k' = (procs k)[p := (procs k ! p)\<lparr>p_sz := sz\<rparr>] \<and> sz \<le> USYSCALL \<and>
    (v = old \<and> (if sint n < 0 \<and> old \<le> old + scast n then sz = old else sz = old + scast n) \<or>
     v = -1 \<and> sz = old) \<and>
    (t \<noteq> e_sbrk_eager e \<and> 0 \<le> sint n \<longrightarrow> k_mem k' = k_mem k \<and>
       (v = -1 \<longleftrightarrow> unat old + nat (sint n) > unat USYSCALL))"
  using sys_sbrk_spec [OF assms(1-5), of e] unfolding sbrk_post_def assms(6) Let_def by blast

theorem sys_sbrk_bounds_witness:
  "\<exists>v k' sz. sys_sbrk sample_env 0 sample_fork = ret (Sys_return v, k') \<and> p_sz (procs k' ! 0) \<le> USYSCALL"
proof -
  obtain fl where f: "kinv {} fl sample_fork" "0 < length (procs sample_fork)"
    "p_state (procs sample_fork ! 0) \<noteq> UNUSED" using sample_fork_inv by blast
  from sys_sbrk_bounds [OF f refl refl refl, of sample_env] f(2) show ?thesis by fastforce
qed

section \<open>pgaccess\<close>

text \<open>
  C13. \<open>pgaccess\<close> on a valid range (aligned, 1 to 64 pages, inside the process without
  wrap-around) writes a 64-bit mask to the user in which bit \<open>i\<close> says that page \<open>i\<close> is mapped
  and has its accessed bit set; then it clears exactly the accessed bits of the pages of the
  range, and nothing else in the page table. The result is -1 only where the mask cannot be
  copied in full, because a page it goes to is not writable or memory has run out; then a prefix of
  it may have been written, and no accessed bit is cleared. On an invalid range nothing happens at all. The page table
  and the memory of the process keep their invariant.
\<close>

theorem pgaccess_reports_and_clears:
  assumes "live s fl p" "pt = p_pagetable p"
  shows "\<exists>r s' fl'. pgaccess pt (p_sz p) base npages maskaddr s = Ok (r, s') \<and> live s' fl' p \<and>
    set fl' \<union> pages_of s' p = set fl \<union> pages_of s p \<and>
    (if page_aligned base \<and> 1 \<le> sint npages \<and> sint npages \<le> 64 \<and>
        unat base + nat (sint npages) * 4096 \<le> unat (p_sz p)
     then \<exists>msk. (\<forall>i. bit msk i \<longleftrightarrow> i < nat (sint npages) \<and> valid (pte_of s pt (base + of_nat i * PGSIZE)) \<and>
          bit (pte_of s pt (base + of_nat i * PGSIZE)) 6) \<and>
        (r = -1 \<and> (\<forall>va < VATOP. valid (pte_of s pt va) \<longrightarrow> pte_of s' pt va = pte_of s pt va) \<and>
         (\<exists>n < 8. lbyte s' pt (p_sz p) = put_bytes (lbyte s pt (p_sz p)) maskaddr (take n (long_bytes msk)) \<and>
           (\<not> lwrite s pt (p_sz p) (PGROUNDDOWN (maskaddr + of_nat n)) \<or>
            \<not> valid (pte_of s pt (PGROUNDDOWN (maskaddr + of_nat n))) \<and> length fl' \<le> 1)) \<or>
         r = 0 \<and> lbyte s' pt (p_sz p) = put_bytes (lbyte s pt (p_sz p)) maskaddr (long_bytes msk) \<and>
         (\<forall>va < VATOP. valid (pte_of s pt va) \<longrightarrow> pte_of s' pt va =
           (if \<exists>i < nat (sint npages). PGROUNDDOWN va = base + of_nat i * PGSIZE
            then pte_of s pt va AND NOT PTE_A else pte_of s pt va)))
     else r = -1 \<and> s' = s)"
  using pgaccess_live [OF assms(1), of base npages maskaddr]
  unfolding pg_post_def kept_def pg_range_def pg_mask_def accessed_def blocked_def assms(2) by blast

text \<open>
  A process of one page, which is present, writable and accessed: the first process grows lazily,
  faults the page in and touches it.
\<close>

lemma fault_maps:
  assumes lv: "live s fl p" and va: "va < p_sz p" "page_aligned va" "\<not> valid (pte_of s (p_pagetable p) va)"
    and few: "2 < length fl"
  shows "\<exists>r s' fl'. vmfault (p_pagetable p) (p_sz p) va rd s = Ok (r, s') \<and> live s' fl' p \<and>
    user_wpte (pte_of s' (p_pagetable p) va)"
proof -
  let ?pt = "p_pagetable p"
  note us = live_uspace [OF lv] and psz = live_limits(1) [OF lv]
  have vT: "va < TRAPFRAME" using va(1) psz by simp
  obtain mem s1 where ka: "kalloc s = (mem, s1)" by fastforce
  have nz: "mem \<noteq> 0"
    using ka few by (cases rule: kalloc_as_inv [OF uspace_as_inv [OF us]]) auto
  have al: "page_aligned mem"
    using ka nz by (cases rule: kalloc_as_inv [OF uspace_as_inv [OF us]]) (auto dest: usable_aligned)
  define s2 where "s2 = s1\<lparr>pmem := memset (pmem s1) mem 0 PGSIZE\<rparr>"
  have m2: "\<And>q. q \<noteq> mem \<Longrightarrow> same_page (pmem s1) (memset (pmem s1) mem 0 PGSIZE) q"
    using al by (simp add: same_page_memset)
  note im = ismapped_spec [OF uspace_as_inv [OF us] TRAPFRAME_MAXVA [OF vT]]
  obtain s3 where m: "mappages ?pt va PGSIZE mem (PTE_W OR PTE_U OR PTE_R) s2 = Ok (0, s3)"
    "\<forall>x < VATOP. pte_of s3 ?pt x =
       (if PGROUNDDOWN x = va then PA2PTE mem OR (PTE_W OR PTE_U OR PTE_R) OR PTE_V else pte_of s ?pt x)"
    by (rule map_fresh [OF us va(2) vT va(3) fresh_perm ka nz s2_def m2]) (use few in auto)
  have run: "vmfault ?pt (p_sz p) va rd s = Ok (mem, s3)"
    using va(1,3) iffD1 [OF PGROUNDDOWN_id va(2)] im ka nz m(1) by (simp add: vmfault_def Let_def s2_def)
  have "user_wpte (pte_of s3 ?pt va)"
    using m(2) iffD1 [OF PGROUNDDOWN_id va(2)] vT TRAPFRAME_VATOP bit_fresh [of mem] by (simp add: user_wpte_def user_pte_def)
  moreover have "\<exists>fl'. kept s fl p s3 fl'"
    by (rule mem_step_kept [OF mem_step.fault [OF run] lv])
  ultimately show ?thesis using run by (auto simp: kept_def)
qed

lemma sample_page:
  "\<exists>s fl p. live s fl p \<and> p_sz p = 4096 \<and> user_wpte (pte_of s (p_pagetable p) 0) \<and> bit (pte_of s (p_pagetable p) 0) 6"
proof -
  obtain fl where i: "kinv {} fl sample_init" "23 \<le> length fl" "length (procs sample_init) = 3"
      "p_state (procs sample_init ! 0) = RUNNING" "p_sz (procs sample_init ! 0) = 0"
    using sample_init_spec by blast
  let ?q = "procs sample_init ! 0" and ?s = "k_mem sample_init"
  have l0: "live ?s fl ?q" using i by (intro live_slot) (simp_all add: kinv_def)
  define p where "p = ?q\<lparr>p_sz := 4096\<rparr>"
  have l: "live ?s fl p" unfolding p_def
    by (rule live_bigger(1) [OF l0]) (simp_all add: i(5) word_le_nat_alt layout_vals)
  have "\<not> valid (pte_of ?s (p_pagetable p) 0)"
    using live_low [OF l0, of 0] i(5) by (auto simp: p_def PGROUNDUP_def word_less_nat_alt layout_vals)
  then obtain s fl1 where l1: "live s fl1 p" and w: "user_wpte (pte_of s (p_pagetable p) 0)"
    using fault_maps [OF l, of 0 True] i(2) by (auto simp: p_def page_aligned_unat)
  let ?t = "set_accessed (p_pagetable p) 0 s"
  have v: "valid (pte_of s (p_pagetable p) 0)" using w by (simp add: user_wpte_def user_pte_def)
  have "(0 :: u64) < MAXVA" "(0 :: u64) < VATOP" by (simp_all add: word_less_nat_alt layout_vals MAXVA_VATOP)
  note a = set_accessed_pte [OF l1 this(1) v this(2)]
  have "user_wpte (pte_of ?t (p_pagetable p) 0) \<and> bit (pte_of ?t (p_pagetable p) 0) 6"
    using w unfolding a(1) by (simp add: user_wpte_def user_pte_def bit_or_iff bit_pte_bits valid_bit)
  moreover have "live ?t fl1 p" using a(2) by (simp add: kept_def)
  ultimately show ?thesis by (intro exI [of _ ?t] exI [of _ fl1] exI [of _ p]) (simp add: p_def)
qed

theorem pgaccess_reports_and_clears_witness:
  "\<exists>s s' fl p. live s fl p \<and> pgaccess (p_pagetable p) 4096 0 1 8 s = Ok (0, s') \<and>
     bit (pte_of s (p_pagetable p) 0) 6 \<and> \<not> bit (pte_of s' (p_pagetable p) 0) 6 \<and>
     lbyte s' (p_pagetable p) 4096 8 = Some 1"
proof -
  obtain s fl p where l: "live s fl p" and sz: "p_sz p = 4096" and w: "user_wpte (pte_of s (p_pagetable p) 0)"
    and a: "bit (pte_of s (p_pagetable p) 0) 6" using sample_page by blast
  let ?pt = "p_pagetable p"
  have v: "valid (pte_of s ?pt 0)" using w by (simp add: user_wpte_def user_pte_def)
  have range: "page_aligned (0 :: u64) \<and> 1 \<le> sint (1 :: i32) \<and> sint (1 :: i32) \<le> 64 \<and>
      unat (0 :: u64) + nat (sint (1 :: i32)) * 4096 \<le> unat (p_sz p)" by (simp add: sz page_aligned_unat)
  obtain r s' fl' msk where run: "pgaccess ?pt 4096 0 1 8 s = Ok (r, s')"
    and m: "\<forall>i. bit msk i \<longleftrightarrow> i < nat (sint (1 :: i32)) \<and> valid (pte_of s ?pt (0 + of_nat i * PGSIZE)) \<and>
          bit (pte_of s ?pt (0 + of_nat i * PGSIZE)) 6"
    and res: "(\<exists>n < 8. \<not> lwrite s ?pt 4096 (PGROUNDDOWN (8 + of_nat n)) \<or>
            \<not> valid (pte_of s ?pt (PGROUNDDOWN (8 + of_nat n)))) \<or>
         r = 0 \<and> lbyte s' ?pt 4096 = put_bytes (lbyte s ?pt 4096) 8 (long_bytes msk) \<and>
         (\<forall>va < VATOP. valid (pte_of s ?pt va) \<longrightarrow> pte_of s' ?pt va =
           (if \<exists>i < nat (sint (1 :: i32)). PGROUNDDOWN va = 0 + of_nat i * PGSIZE
            then pte_of s ?pt va AND NOT PTE_A else pte_of s ?pt va))"
    using pgaccess_reports_and_clears [OF l refl, of 0 1 8, unfolded if_P [OF range]] unfolding sz by blast
  have pg: "PGROUNDDOWN (8 + of_nat n) = 0" if "n < 8" for n
    using PGROUNDDOWN_add [of 0 "8 + of_nat n"] that by (simp add: word_less_nat_alt unat_word_ariths(1) unat_of_nat page_aligned_def)
  have "lwrite s ?pt 4096 0" using w by (simp add: lwrite_def user_wpte_def word_less_nat_alt layout_vals)
  then have r: "r = 0" "lbyte s' ?pt 4096 = put_bytes (lbyte s ?pt 4096) 8 (long_bytes msk)"
    "pte_of s' ?pt 0 = pte_of s ?pt 0 AND NOT PTE_A"
    using res pg v iffD1 [OF PGROUNDDOWN_id, of 0] by (auto simp: word_less_nat_alt page_aligned_unat)
  have "bit msk i \<longleftrightarrow> i = 0" for i using m [rule_format, of i] v a by (cases i) simp_all
  then have "msk = 1" by (intro bit_word_eqI) (simp add: bit_1_iff)
  then have "lbyte s' ?pt 4096 8 = Some 1" using r(2) by (simp add: put_bytes_def long_bytes_def)
  then show ?thesis using l run r a by (intro exI [of _ s] exI [of _ s'] exI [of _ fl] exI [of _ p]) (simp add: bit_clear_A)
qed

section \<open>trace\<close>

lemma syscallid_unknown:
  assumes "CHR 0x00 \<notin> set name" "\<forall>i \<in> {1..<25}. syscallnames ! i \<noteq> Some name"
  shows "syscallid_by_name name = -1"
proof -
  have "find (\<lambda>i. names ! (i - 1) = name) [1..<25] = None"
    using assms(2) by (auto simp: find_None_iff syscallnames_nth)
  then show ?thesis using syscallid_by_name_names [OF assms(1)] by simp
qed

text \<open>
  The names and the numbers of the calls are inverse to each other: \<open>syscallid_by_name\<close> maps
  the name of each of the 24 calls to its number, and every other string to -1. The
  comparison of only sixteen characters confuses no two names.
\<close>

theorem syscallid_roundtrip:
  assumes "CHR 0x00 \<notin> set name"
  shows "if \<exists>i. 1 \<le> i \<and> i \<le> 24 \<and> syscallnames ! i = Some name
    then \<exists>i. 1 \<le> i \<and> i \<le> 24 \<and> syscallnames ! i = Some name \<and> syscallid_by_name name = int i
    else syscallid_by_name name = -1"
proof (cases "\<exists>i. 1 \<le> i \<and> i \<le> 24 \<and> syscallnames ! i = Some name")
  case True
  then obtain i where i: "1 \<le> i" "i \<le> 24" "syscallnames ! i = Some name" by blast
  have "0 < i" "i < 25" using i by simp_all
  with syscallid_by_name_iff [OF assms this] have "syscallid_by_name name = int i" using i(3) by simp
  then show ?thesis using i True by auto
next
  case False
  have "\<forall>i \<in> {1..<25}. syscallnames ! i \<noteq> Some name"
  proof
    fix i :: nat assume "i \<in> {1..<25}"
    then have "1 \<le> i" "i \<le> 24" by simp_all
    then show "syscallnames ! i \<noteq> Some name" using False by blast
  qed
  from syscallid_unknown [OF assms this] show ?thesis unfolding if_not_P [OF False] .
qed

theorem syscallid_roundtrip_witness:
  "\<exists>i. syscallnames ! i = Some ''sysinfo'' \<and> syscallid_by_name ''sysinfo'' = int i"
proof -
  have "CHR 0x00 \<notin> set ''sysinfo''" by simp
  moreover have "syscallnames ! 23 = Some ''sysinfo''" by (simp add: syscallnames_def)
  then have "\<exists>i. 1 \<le> i \<and> i \<le> 24 \<and> syscallnames ! i = Some ''sysinfo''" by (intro exI [of _ 23]) simp
  ultimately show ?thesis using syscallid_roundtrip [of "''sysinfo''"] by (simp only: if_True) blast
qed

end
