(* ===== verification/Step_Props.thy ===== *)
theory Step_Props
  imports Kernel_Inv Sys_Props
begin

text \<open>
  What holds in every state that the kernel reaches from boot by the steps of \<open>Kernel_Steps\<close>, in
  any interleaving.
\<close>

section \<open>The first states\<close>

lemma booted_minv:
  assumes "booted fl k0" "8 < length fl" "userinit fs k0 = ret k1"
  shows "minv (set fl) (length (procs k0)) (started k1)"
proof -
  from userinit_kinv [OF assms(1,2), of fs] assms(3) obtain fl' where
    u: "kinv {} fl' k1" "all_pages fl' k1 = set fl" "length (procs k1) = length (procs k0)"
      "\<forall>i < length (procs k0). 0 < i \<longrightarrow> procs k1 ! i = procs k0 ! i" "p_chan (procs k1 ! 0) = Null" by auto
  have "p_chan (procs k1 ! i) = Null" if "i < length (procs k0)" for i
  proof (cases "i = 0")
    case False
    then have "procs k1 ! i \<in> set (procs k0)" using u(4) that by simp
    then show ?thesis using assms(1) by (simp add: booted_def idle_def)
  qed (use u(5) in simp)
  then have "wait_inv k1" using u(3) by (simp add: wait_inv_def)
  then have "step_inv {} (set fl) (length (procs k0)) k1" using u by (auto simp: step_inv_def)
  then show ?thesis by (simp add: minv_def started_def newborns_def forks_ok_def)
qed

lemma reachable_inv:
  assumes "booted fl k0" "8 < length fl" "userinit (e_fs e) k0 = ret k1" "reachable e (started k1) m"
  shows "minv (set fl) (length (procs k0)) m"
  by (rule reachable_minv [OF assms(4) booted_minv [OF assms(1-3)]])

lemma minv_inv:
  assumes "minv pages n m"
  shows "\<exists>fl. mem_inv fl (m_k m) \<and> tree_inv (newborns (m_fork m)) (m_k m) \<and> all_pages fl (m_k m) = pages - m_files m"
    "wait_inv (m_k m)"
  using assms by (auto simp: minv_def step_inv_def kinv_def)

lemma sample_env_fs [simp]: "e_fs sample_env = sample_fs"
  by (simp add: sample_env_def)

text \<open>
  The first process forks: \<open>sample_half\<close> is the state after the first section of \<open>kfork\<close>, in which
  the child has no parent yet.
\<close>

definition sample_half :: "unit kst" where
  "sample_half = run_state (fork_make sample_fs 0 sample_init) sample_init"

lemma sample_wait: "wait_inv sample_init"
proof -
  obtain fl where i: "length (procs sample_init) = 3" "p_state (procs sample_init ! 0) = RUNNING"
     "\<forall>i \<in> {1, 2}. p_state (procs sample_init ! i) = UNUSED"
    using sample_init_spec by auto
  then have "p_state (procs sample_init ! i) \<noteq> ZOMBIE" if "i < 3" for i
  proof -
    have "i = 0 \<or> i = 1 \<or> i = 2" using that by auto
    then show ?thesis using i by auto
  qed
  then show ?thesis using i(1) by (simp add: wait_inv_def zombie_child_def)
qed

lemma sample_reachable:
  "\<exists>fl k1 np. booted fl sample_boot \<and> 8 < length fl \<and> userinit (e_fs sample_env) sample_boot = ret k1 \<and>
     reachable sample_env (started k1) \<lparr>m_k = sample_half, m_fork = [0 \<mapsto> (np, False)], m_files = {}\<rparr> \<and>
     reachable sample_env (started k1) (started sample_fork)"
proof -
  obtain fl where b: "booted fl sample_boot" "32 \<le> length fl" using sample_booted by blast
  from userinit_kinv [OF b(1), of sample_fs] b(2) obtain k1 where
    u: "userinit sample_fs sample_boot = ret k1" "p_state (procs k1 ! 0) = RUNNABLE" "length (procs k1) = 3"
    by (auto simp: sample_boot_sel(1))
  have s: "sample_init = dispatched 0 k1" by (simp add: sample_init_def run_state_def u(1))
  have "sys_step k1 sample_init"
    unfolding s dispatched_def by (rule sys_step.dispatch) (use u in simp_all)
  from kstep.system [of "started k1" sample_init, simplified started_def machine.simps, OF this]
  have "kstep sample_env (started k1) (started sample_init)" by (simp add: started_def)
  then have r: "reachable sample_env (started k1) (started sample_init)" by (rule reachable.step [OF reachable.start])
  obtain fl' where i: "kinv {} fl' sample_init" "length (procs sample_init) = 3" "p_state (procs sample_init ! 0) = RUNNING"
     "p_state (procs sample_init ! 1) = UNUSED"
    using sample_init_spec by blast
  then have i': "0 < length (procs sample_init)" "alive (procs sample_init ! 0)" and run: "running 0 sample_init"
    by (simp_all add: alive_def running_def)
  obtain x kh where f: "fork_make sample_fs 0 sample_init = ret (x, kh)" using fork_make_spec [OF i(1) i', of sample_fs] by blast
  have k: "kfork sample_fs 0 sample_init = ret (2, sample_fork)" using sample_fork_spec by blast
  obtain np where x: "x = Some np" using k f unfolding kfork_sections by (cases x) auto
  have sf: "sample_fork = fork_start np (fork_adopt 0 np kh)" using k f unfolding kfork_sections x by simp
  have h: "sample_half = kh" by (simp add: sample_half_def run_state_def f)
  have "step_inv {} (all_pages fl' sample_init) 3 sample_init"
    using i sample_wait by (auto simp: step_inv_def)
  from fork_make_inv [OF this run f] have "made np sample_init kh" by (simp add: x)
  then have c: "np < 3" "\<exists>c. procs kh = (procs sample_init)[np := c]" and un: "p_state (procs sample_init ! np) = UNUSED"
    using i by (auto simp: made_def)
  have "np \<noteq> 0" using un i(3) by (cases "np = 0") simp_all
  have r0: "running 0 kh" "running 0 (fork_adopt 0 np kh)"
  proof -
    from c(2) obtain q where "procs kh = (procs sample_init)[np := q]" by blast
    then have "length (procs kh) = 3" "procs kh ! 0 = procs sample_init ! 0" using \<open>np \<noteq> 0\<close> i(2) by simp_all
    then show "running 0 kh" "running 0 (fork_adopt 0 np kh)"
      using i(3) \<open>np \<noteq> 0\<close> by (simp_all add: running_def fork_adopt_def)
  qed
  let ?m = "\<lparr>m_k = kh, m_fork = [0 \<mapsto> (np, False)], m_files = {}\<rparr> :: unit machine"
  let ?n = "\<lparr>m_k = fork_adopt 0 np kh, m_fork = [0 \<mapsto> (np, True)], m_files = {}\<rparr> :: unit machine"
  have "kstep sample_env (started sample_init) ?m"
    using kstep.fork_makes [of 0 "started sample_init" sample_env np kh] run f x by (simp add: started_def)
  from reachable.step [OF r this] have r1: "reachable sample_env (started k1) ?m" .
  have "kstep sample_env ?m ?n" using kstep.fork_adopts [of 0 ?m np sample_env] r0 by simp
  from reachable.step [OF r1 this] have r2: "reachable sample_env (started k1) ?n" .
  have "kstep sample_env ?n (started sample_fork)"
    using kstep.fork_starts [of 0 ?n np sample_env] r0 by (simp add: started_def sf)
  from reachable.step [OF r2 this] show ?thesis
    using b u r1 h by (intro exI [of _ fl] exI [of _ k1] exI [of _ np]) simp
qed

section \<open>The invariants\<close>

text \<open>
  C2. In every state that the kernel reaches from boot, in any interleaving of the steps of
  \<open>Kernel_Steps\<close>: every slot of the process table is either unused and cleared or has an address
  space of its own with its pid in the read-only \<open>USYSCALL\<close> page; no page belongs to two processes
  or is both free and owned; the first process is alive, and every other used slot has a live
  parent, except for the child of a \<open>kfork\<close> that has not entered it in the tree yet, which is in
  state \<open>USED\<close> and has none; and no page was ever lost: the free pages, those of the processes and
  those that the file layer has taken are together exactly the pages that were free at boot. The
  steps are the critical sections of the code (three for \<open>kfork\<close>), both branches of \<open>sbrk\<close>, page
  faults, copies, \<open>pgaccess\<close>, user stores and the accessed bits that the hardware sets, and the
  pages that the file layer takes, writes and returns; \<open>exec\<close>, which is not in the repository, is not
  one of them.
\<close>

theorem reachable_invariant:
  assumes "booted fl k0" "8 < length fl" "userinit (e_fs e) k0 = ret k1" "reachable e (started k1) m"
  shows "\<exists>fl'. mem_inv fl' (m_k m) \<and> tree_inv (newborns (m_fork m)) (m_k m) \<and>
    all_pages fl' (m_k m) \<union> m_files m = set fl \<and> all_pages fl' (m_k m) \<inter> m_files m = {} \<and>
    length (procs (m_k m)) = length (procs k0) \<and>
    (\<forall>p np b. m_fork m p = Some (np, b) \<longrightarrow> p_state (procs (m_k m) ! p) \<in> {RUNNING, RUNNABLE} \<and>
       p_state (procs (m_k m) ! np) = USED \<and> p_parent (procs (m_k m) ! np) = (if b then Some p else None))"
proof -
  have inv: "minv (set fl) (length (procs k0)) m" by (rule reachable_inv [OF assms])
  then have "length (procs (m_k m)) = length (procs k0)" "m_files m \<subseteq> set fl"
    "forks_ok (length (procs k0)) (m_k m) (m_fork m)" by (auto simp: minv_def step_inv_def)
  note mi = this
  have m: "length (procs (m_k m)) = length (procs k0)" "m_files m \<subseteq> set fl" using mi(1,2) by simp_all
  have f: "p_state (procs (m_k m) ! p) \<in> {RUNNING, RUNNABLE} \<and> p_state (procs (m_k m) ! np) = USED \<and>
      p_parent (procs (m_k m) ! np) = (if b then Some p else None)" if "m_fork m p = Some (np, b)" for p np b
    using forks_ok_D [OF mi(3) that] by blast
  from minv_inv(1) [OF inv] obtain fl' where "mem_inv fl' (m_k m)" "tree_inv (newborns (m_fork m)) (m_k m)"
    "all_pages fl' (m_k m) = set fl - m_files m" by blast
  then show ?thesis using m f by (intro exI [of _ fl']) auto
qed

theorem reachable_invariant_witness:
  "\<exists>fl np. mem_inv fl sample_half \<and> tree_inv {np} sample_half \<and> p_state (procs sample_half ! np) = USED \<and>
     p_parent (procs sample_half ! np) = None"
proof -
  obtain fl k1 np where "booted fl sample_boot" "8 < length fl" "userinit (e_fs sample_env) sample_boot = ret k1"
    "reachable sample_env (started k1) \<lparr>m_k = sample_half, m_fork = [0 \<mapsto> (np, False)], m_files = {}\<rparr>"
    using sample_reachable by blast
  from reachable_invariant [OF this] show ?thesis by (auto simp: newborns_def split: if_splits)
qed

lemma woken_registered:
  assumes "p_parent (adopt i k (procs k ! i)) = Some p" "p_chan q = Proc_chan p"
  shows "p_chan (woken i k q) = Null"
    "p_state (woken i k q) = (if p_state q = SLEEPING then RUNNABLE else p_state q)"
proof -
  define r where "r = (if \<exists>j < length (procs k). p_parent (procs k ! j) = Some i
    then wake (proc_ptr (initproc k)) else id) (adopt i k q)"
  have w: "woken i k q = wake (Proc_chan p) r" unfolding woken_def r_def assms(1) by (simp add: proc_ptr_def)
  have a: "p_state (adopt i k q) = p_state q" "p_chan (adopt i k q) = Proc_chan p"
    using assms(2) by (simp_all add: adopt_def)
  have r: "r = adopt i k q \<or> r = wake (proc_ptr (initproc k)) (adopt i k q)" unfolding r_def by simp
  then show "p_chan (woken i k q) = Null"
    using a unfolding w by (cases "proc_ptr (initproc k) = Proc_chan p") auto
  show "p_state (woken i k q) = (if p_state q = SLEEPING then RUNNABLE else p_state q)"
    using r a unfolding w by (cases "proc_ptr (initproc k) = Proc_chan p") (auto simp: wake_state)
qed

text \<open>
  C3. No wakeup of a waiting parent is lost. In every reachable state a process registered on
  its own channel by \<open>kwait\<close>, whether already asleep or only about to sleep, has no zombie
  child; and when one of its children exits, it is no longer registered, so that a pending
  \<open>sleep\<close> returns at once, and if it was asleep it is runnable.
\<close>

theorem no_lost_wakeup:
  assumes "booted fl k0" "8 < length fl" "userinit (e_fs e) k0 = ret k1" "reachable e (started k1) m" "k = m_k m"
    and "p < length (procs k)" "p_chan (procs k ! p) = Proc_chan p"
    and "i < length (procs k)" "p_parent (procs k ! i) = Some p" "i \<noteq> p"
  shows "p_state (procs k ! i) \<noteq> ZOMBIE \<and>
    (\<forall>st k'. kexit (e_fs e) i st k = Ok k' \<longrightarrow> p_chan (procs k' ! p) = Null \<and> sleep p k' = Ok k' \<and>
       p_state (procs k' ! p) = (if p_state (procs k ! p) = SLEEPING then RUNNABLE else p_state (procs k ! p)))"
proof (intro conjI allI impI)
  have w: "wait_inv k" using minv_inv(2) [OF reachable_inv [OF assms(1-4)]] by (simp add: assms(5))
  then show "p_state (procs k ! i) \<noteq> ZOMBIE"
    using assms(6-9) by (auto simp: wait_inv_def zombie_child_def)
  fix st k' assume e: "kexit (e_fs e) i st k = Ok k'"
  then have "switch i (exited (e_fs e) i st k) = Ok k'" by (simp add: kexit_exited split: if_splits)
  then have k': "k' = exited (e_fs e) i st k" by (rule switch_mem_inv)
  have at: "procs k' ! p = woken i k (procs k ! p)"
    unfolding k' by (rule exited_other [OF assms(6,8) assms(10) [symmetric]])
  have par: "p_parent (adopt i k (procs k ! i)) = Some p" using assms(9,10) by (simp add: adopt_def)
  from woken_registered [OF this assms(7)] show null: "p_chan (procs k' ! p) = Null"
    and "p_state (procs k' ! p) = (if p_state (procs k ! p) = SLEEPING then RUNNABLE else p_state (procs k ! p))"
    unfolding at by simp_all
  from null show "sleep p k' = Ok k'" by (simp add: sleep_def)
qed

theorem no_lost_wakeup_witness:
  "\<exists>k k'. p_chan (procs k ! 0) = Proc_chan 0 \<and> kexit sample_fs 1 7 k = Ok k' \<and> p_chan (procs k' ! 0) = Null"
proof -
  obtain fl k1 where r: "booted fl sample_boot" "8 < length fl" "userinit (e_fs sample_env) sample_boot = ret k1"
    "reachable sample_env (started k1) (started sample_fork)" using sample_reachable by blast
  obtain fl' where f: "kinv {} fl' sample_fork" "length (procs sample_fork) = 3" "initproc sample_fork = Some 0"
     "procs sample_fork ! 0 = procs sample_init ! 0" "p_state (procs sample_fork ! 1) = RUNNABLE"
     "p_parent (procs sample_fork ! 1) = Some 0" "p_state (procs sample_fork ! 2) = UNUSED"
     "cpu_noff (k_cpu sample_fork) = 0"
    using sample_fork_spec by blast
  have i: "p_state (procs sample_fork ! 0) = RUNNING" "p_killed (procs sample_fork ! 0) = 0"
    using sample_init_spec f(4) by auto
  let ?k2 = "upd 0 (\<lambda>q. q\<lparr>p_chan := Proc_chan 0\<rparr>) sample_fork"
  let ?k3 = "dispatched 1 ?k2"
  have "[0..<3] = [0, 1, 2 :: nat]" by code_simp
  then have "find (zombie_child 0 sample_fork) [0..<3] = None"
    using f i by (simp add: zombie_child_def)
  then have ws: "wait_scan 0 0 [0..<length (procs sample_fork)] False sample_fork = ret (Inr True, sample_fork)"
    unfolding wait_scan_find using f by (auto intro!: exI [of _ 1])
  have "proc_step sample_env 0 sample_fork ?k2"
    by (rule proc_step.prepare_wait [OF ws]) (use i in \<open>simp_all add: killed_def sleep_prepare_def\<close>)
  with kstep.process [of 0 "started sample_fork" sample_env ?k2]
  have "kstep sample_env (started sample_fork) (started ?k2)" using f(2) i(1) by (simp add: started_def running_def)
  from reachable.step [OF r(4) this] have r2: "reachable sample_env (started k1) (started ?k2)" .
  have "sys_step ?k2 ?k3" unfolding dispatched_def by (rule sys_step.dispatch) (use f in simp_all)
  with kstep.system [of "started ?k2" ?k3 sample_env] have "kstep sample_env (started ?k2) (started ?k3)"
    by (simp add: started_def)
  from reachable.step [OF r2 this] have r3: "reachable sample_env (started k1) (started ?k3)" .
  have m3: "?k3 = m_k (started ?k3)" by (simp add: started_def)
  have k3: "0 < length (procs ?k3)" "p_chan (procs ?k3 ! 0) = Proc_chan 0" "1 < length (procs ?k3)"
    "p_parent (procs ?k3 ! 1) = Some 0" "(1 :: nat) \<noteq> 0" "initproc ?k3 = Some 0" "cpu_noff (k_cpu ?k3) = 0"
    using f by simp_all
  have "kexit sample_fs 1 7 ?k3 = Ok (exited sample_fs 1 7 ?k3)"
    using switch_ok [of "exited sample_fs 1 7 ?k3" 1] exited_self(1) [OF k3(3)] k3(6,7)
    by (simp add: kexit_exited)
  then have x: "kexit (e_fs sample_env) 1 7 ?k3 = Ok (exited sample_fs 1 7 ?k3)" by simp
  from no_lost_wakeup [OF r(1-3) r3 m3 k3(1-5)] this have "p_chan (procs (exited sample_fs 1 7 ?k3) ! 0) = Null" by blast
  then show ?thesis using x k3(2) unfolding sample_env_fs by blast
qed


end
