(* ===== verification/Ulib.thy ===== *)
theory Ulib
  imports Sys_Safe
begin

text \<open>
  The user library \<open>Proyecto3/user/ulib.c\<close>, over the memory of the program as a byte per
  address. \<open>char\<close> is unsigned on RISC-V. Loops whose end depends on finding a NUL have no value
  when there is none; counted loops are recursions on the count. System calls come from
  generated stubs and are parameters.
\<close>

section \<open>The functions\<close>

text \<open>\<open>main\<close> is the program's own, and \<open>exit\<close> does not return.\<close>

definition start :: "(i32 \<Rightarrow> u64 \<Rightarrow> 'w \<Rightarrow> i32 \<times> 'w) \<Rightarrow> (i32 \<Rightarrow> 'w \<Rightarrow> 'r) \<Rightarrow> i32 \<Rightarrow> u64 \<Rightarrow> 'w \<Rightarrow> 'r" where
  "start main exit argc argv w = (case main argc argv w of (r, w) \<Rightarrow> exit r w)"

definition ugetpid :: "mem \<Rightarrow> i32" where
  "ugetpid m = load32 m USYSCALL"

partial_function (option) strcpy_loop :: "u64 \<Rightarrow> u64 \<Rightarrow> mem \<Rightarrow> mem option" where
  "strcpy_loop s t m =
     (let c = m t; m = m(s := c) in if c \<noteq> 0 then strcpy_loop (s + 1) (t + 1) m else Some m)"

definition strcpy :: "u64 \<Rightarrow> u64 \<Rightarrow> mem \<Rightarrow> (u64 \<times> mem) option" where
  "strcpy s t m = map_option (Pair s) (strcpy_loop s t m)"

partial_function (option) strcmp :: "u64 \<Rightarrow> u64 \<Rightarrow> mem \<Rightarrow> i32 option" where
  "strcmp p q m =
     (if m p \<noteq> 0 \<and> m p = m q then strcmp (p + 1) (q + 1) m else Some (ucast (m p) - ucast (m q)))"

text \<open>The counter of \<open>strlen\<close> and \<open>memset\<close> is an \<open>int\<close>, sign-extended when it indexes.\<close>

partial_function (option) strlen_loop :: "u64 \<Rightarrow> i32 \<Rightarrow> mem \<Rightarrow> i32 option" where
  "strlen_loop s n m = (if m (s + scast n) \<noteq> 0 then strlen_loop s (n + 1) m else Some n)"

definition strlen :: "u64 \<Rightarrow> mem \<Rightarrow> u32 option" where
  "strlen s m = strlen_loop s 0 m"

partial_function (option) memset_loop :: "u64 \<Rightarrow> i32 \<Rightarrow> u32 \<Rightarrow> i32 \<Rightarrow> mem \<Rightarrow> mem option" where
  "memset_loop dst c n i m =
     (if i < n then memset_loop dst c n (i + 1) (m(dst + scast i := ucast c)) else Some m)"

definition umemset :: "u64 \<Rightarrow> i32 \<Rightarrow> u32 \<Rightarrow> mem \<Rightarrow> (u64 \<times> mem) option" where
  "umemset dst c n m = map_option (Pair dst) (memset_loop dst c n 0 m)"

partial_function (option) strchr :: "u64 \<Rightarrow> u8 \<Rightarrow> mem \<Rightarrow> u64 option" where
  "strchr s c m = (if m s \<noteq> 0 then if m s = c then Some s else strchr (s + 1) c m else Some 0)"

text \<open>
  \<open>rd\<close> is \<open>read(0, &c, 1)\<close>: its result and the byte, given the state of the world. The first
  loop of \<open>gets\<close> gives the value of \<open>i\<close> at its end.
\<close>

partial_function (option) gets_loop ::
  "('w \<Rightarrow> i32 \<times> u8 \<times> 'w) \<Rightarrow> u64 \<Rightarrow> i32 \<Rightarrow> i32 \<Rightarrow> mem \<times> 'w \<Rightarrow> (i32 \<times> mem \<times> 'w) option" where
  "gets_loop rd buf mx i mw =
     (if sint (i + 1) < sint mx
      then case mw of (m, w) \<Rightarrow> case rd w of (cc, c, w) \<Rightarrow>
        if sint cc < 1 then Some (i, m, w)
        else let m = m(buf + scast i := c) in
          if c = 10 \<or> c = 13 then Some (i + 1, m, w)
          else gets_loop rd buf mx (i + 1) (m, w)
      else Some (i, mw))"

definition gets :: "('w \<Rightarrow> i32 \<times> u8 \<times> 'w) \<Rightarrow> u64 \<Rightarrow> i32 \<Rightarrow> mem \<times> 'w \<Rightarrow> (u64 \<times> mem \<times> 'w) option" where
  "gets rd buf mx mw = map_option (\<lambda>(i, m, w). (buf, m(buf + scast i := 0), w)) (gets_loop rd buf mx 0 mw)"

text \<open>The calls that \<open>stat\<close> makes.\<close>

record 'w statcalls =
  u_open :: "u64 \<Rightarrow> i32 \<Rightarrow> 'w \<Rightarrow> i32 \<times> 'w"
  u_fstat :: "i32 \<Rightarrow> u64 \<Rightarrow> 'w \<Rightarrow> i32 \<times> 'w"
  u_close :: "i32 \<Rightarrow> 'w \<Rightarrow> 'w"

definition ustat :: "'w statcalls \<Rightarrow> i32 \<Rightarrow> u64 \<Rightarrow> u64 \<Rightarrow> 'w \<Rightarrow> i32 \<times> 'w" where
  "ustat u O_RDONLY n st w =
     (case u_open u n O_RDONLY w of (fd, w) \<Rightarrow>
      if sint fd < 0 then (-1, w)
      else case u_fstat u fd st w of (r, w) \<Rightarrow> (r, u_close u fd w))"

partial_function (option) atoi_loop :: "u64 \<Rightarrow> i32 \<Rightarrow> mem \<Rightarrow> i32 option" where
  "atoi_loop s n m =
     (if 48 \<le> m s \<and> m s \<le> 57 then atoi_loop (s + 1) (n * 10 + ucast (m s) - 48) m else Some n)"

definition atoi :: "u64 \<Rightarrow> mem \<Rightarrow> i32 option" where
  "atoi s m = atoi_loop s 0 m"

text \<open>The two loops of \<open>memmove\<close>, upwards and downwards, with the number of rounds that remain.\<close>

fun move_up :: "u64 \<Rightarrow> u64 \<Rightarrow> nat \<Rightarrow> mem \<Rightarrow> mem" where
  "move_up dst src 0 m = m"
| "move_up dst src (Suc n) m = move_up (dst + 1) (src + 1) n (m(dst := m src))"

fun move_down :: "u64 \<Rightarrow> u64 \<Rightarrow> nat \<Rightarrow> mem \<Rightarrow> mem" where
  "move_down dst src 0 m = m"
| "move_down dst src (Suc n) m = move_down (dst - 1) (src - 1) n (m(dst - 1 := m (src - 1)))"

definition umemmove :: "u64 \<Rightarrow> u64 \<Rightarrow> i32 \<Rightarrow> mem \<Rightarrow> u64 \<times> mem" where
  "umemmove vdst vsrc n m =
     (vdst, if vsrc > vdst then move_up vdst vsrc (nat (sint n)) m
            else move_down (vdst + scast n) (vsrc + scast n) (nat (sint n)) m)"

fun memcmp_loop :: "u64 \<Rightarrow> u64 \<Rightarrow> nat \<Rightarrow> mem \<Rightarrow> i32" where
  "memcmp_loop p1 p2 0 m = 0"
| "memcmp_loop p1 p2 (Suc n) m =
     (if m p1 \<noteq> m p2 then ucast (m p1) - ucast (m p2) else memcmp_loop (p1 + 1) (p2 + 1) n m)"

definition memcmp :: "u64 \<Rightarrow> u64 \<Rightarrow> u32 \<Rightarrow> mem \<Rightarrow> i32" where
  "memcmp s1 s2 n m = memcmp_loop s1 s2 (unat n) m"

definition memcpy :: "u64 \<Rightarrow> u64 \<Rightarrow> u32 \<Rightarrow> mem \<Rightarrow> u64 \<times> mem" where
  "memcpy dst src n m = umemmove dst src n m"

text \<open>\<open>sbrk\<close> and \<open>sbrklazy\<close> are the same system call with two modes.\<close>

definition usbrk :: "(i32 \<Rightarrow> i32 \<Rightarrow> 'w \<Rightarrow> u64 \<times> 'w) \<Rightarrow> i32 \<Rightarrow> i32 \<Rightarrow> 'w \<Rightarrow> u64 \<times> 'w" where
  "usbrk stub SBRK_EAGER n w = stub n SBRK_EAGER w"

definition usbrklazy :: "(i32 \<Rightarrow> i32 \<Rightarrow> 'w \<Rightarrow> u64 \<times> 'w) \<Rightarrow> i32 \<Rightarrow> i32 \<Rightarrow> 'w \<Rightarrow> u64 \<times> 'w" where
  "usbrklazy stub SBRK_LAZY n w = stub n SBRK_LAZY w"

section \<open>Strings in memory\<close>

definition cstr :: "mem \<Rightarrow> u64 \<Rightarrow> u8 list \<Rightarrow> bool" where
  "cstr m a bs \<longleftrightarrow> (\<forall>i < length bs. m (a + of_nat i) = bs ! i) \<and> 0 \<notin> set bs \<and> m (a + of_nat (length bs)) = 0"

lemma cstr_Nil [simp]: "cstr m a [] \<longleftrightarrow> m a = 0"
  by (simp add: cstr_def)

lemma cstr_Cons [simp]: "cstr m a (b # bs) \<longleftrightarrow> m a = b \<and> b \<noteq> 0 \<and> cstr m (a + 1) bs"
  unfolding cstr_def by (auto simp: All_less_Suc2 algebra_simps)

lemma addr_eq: "i < 2 ^ 64 \<Longrightarrow> x = a + of_nat i \<longleftrightarrow> unat (x - a :: u64) = i"
  by (auto simp: unat_of_nat)

lemma scast_of_nat: "k < 2 ^ 31 \<Longrightarrow> (scast (of_nat k :: i32) :: u64) = of_nat k"
proof -
  assume k: "k < 2 ^ 31"
  then have s: "sint (of_nat k :: i32) = int k" by (simp add: signed_of_nat signed_take_bit_int_eq_self)
  then have "unat (scast (of_nat k :: i32) :: u64) = k" using unat_scast(1) [of "of_nat k"] by simp
  then show ?thesis using k by (simp add: word_unat_eq_iff unat_of_nat)
qed

lemma strlen_loop_spec:
  "cstr m (s + of_nat k) bs \<Longrightarrow> k + length bs < 2 ^ 31 \<Longrightarrow>
   strlen_loop s (of_nat k) m = Some (of_nat (k + length bs))"
proof (induction bs arbitrary: k)
  case Nil
  then show ?case by (subst strlen_loop.simps) (simp add: scast_of_nat)
next
  case (Cons b bs)
  have "s + of_nat (Suc k) = s + of_nat k + 1" by (simp add: algebra_simps)
  then have "cstr m (s + of_nat (Suc k)) bs" using Cons.prems(1) by (simp only: cstr_Cons)
  then have "strlen_loop s (of_nat (Suc k)) m = Some (of_nat (Suc k + length bs))"
    using Cons.prems(2) by (intro Cons.IH) simp_all
  moreover have "(of_nat k :: i32) + 1 = of_nat (Suc k)" by (simp add: algebra_simps)
  ultimately show ?case using Cons.prems
    by (subst strlen_loop.simps) (simp add: scast_of_nat add.commute)
qed

lemma strlen_spec: "cstr m s bs \<Longrightarrow> length bs < 2 ^ 31 \<Longrightarrow> strlen s m = Some (of_nat (length bs))"
  using strlen_loop_spec [of m s 0 bs] by (simp add: strlen_def)

lemma byte_diff:
  "sint (ucast (a :: u8) - ucast (b :: u8) :: i32) = int (unat a) - int (unat b)"
proof -
  have "(ucast a - ucast b :: i32) = word_of_int (int (unat a) - int (unat b))"
    by (simp only: ucast_eq of_int_diff) simp
  moreover have "- 2147483648 \<le> int (unat a) - int (unat b)" "int (unat a) - int (unat b) < 2147483648"
    using unat_byte [of a] unat_byte [of b] by linarith+
  ultimately show ?thesis by (simp add: signed_of_int signed_take_bit_int_eq_self del: of_int_diff)
qed

lemma byte_order:
  "(ucast (a :: u8) - ucast (b :: u8) :: i32) = 0 \<longleftrightarrow> a = b"
  "sint (ucast a - ucast b :: i32) < 0 \<longleftrightarrow> a < b"
proof -
  have "(ucast a - ucast b :: i32) = 0 \<longleftrightarrow> sint (ucast a - ucast b :: i32) = 0"
    by (metis signed_word_eqI signed_0)
  also have "\<dots> \<longleftrightarrow> a = b" unfolding byte_diff by (metis eq_iff_diff_eq_0 of_nat_eq_iff unsigned_word_eqI)
  finally show "(ucast a - ucast b :: i32) = 0 \<longleftrightarrow> a = b" .
  show "sint (ucast a - ucast b :: i32) < 0 \<longleftrightarrow> a < b"
    unfolding byte_diff by (metis diff_less_0_iff_less of_nat_less_iff word_less_nat_alt)
qed

lemma strcmp_spec:
  "cstr m p as \<Longrightarrow> cstr m q bs \<Longrightarrow> \<exists>r. strcmp p q m = Some r \<and> (r = 0 \<longleftrightarrow> as = bs) \<and>
     (sint r < 0 \<longleftrightarrow> ord_class.lexordp as bs)"
proof (induction as arbitrary: p q bs)
  case Nil
  then have d: "strcmp p q m = Some (ucast (m p) - ucast (m q))" by (subst strcmp.simps) simp
  show ?case unfolding d using Nil byte_order [of "m p" "m q"] by (cases bs) (auto simp: word_gt_0)
next
  case (Cons a as)
  show ?case
  proof (cases "bs \<noteq> [] \<and> a = hd bs")
    case True
    then obtain bs' where bs: "bs = a # bs'" by (cases bs) auto
    then have d: "strcmp p q m = strcmp (p + 1) (q + 1) m"
      using Cons.prems by (subst strcmp.simps) simp
    show ?thesis unfolding d using Cons.IH [of "p + 1" "q + 1" bs'] Cons.prems bs by simp
  next
    case False
    then have d: "strcmp p q m = Some (ucast (m p) - ucast (m q))"
      using Cons.prems by (subst strcmp.simps, cases bs) auto
    show ?thesis unfolding d using Cons.prems False byte_order [of "m p" "m q"] by (cases bs) auto
  qed
qed

lemma move_up_spec:
  assumes "n \<le> 2 ^ 63" "\<forall>j. 1 \<le> j \<longrightarrow> j < n \<longrightarrow> src + of_nat j \<noteq> dst"
  shows "move_up dst src n m = (\<lambda>x. if unat (x - dst) < n then m (src + (x - dst)) else m x)"
  using assms
proof (induction n arbitrary: dst src m)
  case (Suc n)
  have "\<forall>j. 1 \<le> j \<longrightarrow> j < n \<longrightarrow> (src + 1) + of_nat j \<noteq> dst + 1" using Suc.prems(2) by auto
  then have IH: "move_up (dst + 1) (src + 1) n (m(dst := m src)) =
      (\<lambda>x. if unat (x - (dst + 1)) < n then (m(dst := m src)) (src + 1 + (x - (dst + 1)))
           else (m(dst := m src)) x)"
    using Suc.prems(1) by (intro Suc.IH) simp_all
  show ?case
  proof
    fix x
    define d where "d = unat (x - dst)"
    have xd: "x = dst + of_nat d" by (simp add: d_def)
    have dl: "d < 2 ^ 64" using unat64 [of "x - dst"] by (simp add: d_def)
    show "move_up dst src (Suc n) m x = (if unat (x - dst) < Suc n then m (src + (x - dst)) else m x)"
    proof (cases "d = 0")
      case True
      have "unat (- 1 :: u64) = 18446744073709551615"
        by (simp add: unsigned_minus_1_eq_mask mask_eq_exp_minus_1)
      then show ?thesis using True Suc.prems(1) IH xd by (simp add: d_def [symmetric])
    next
      case False
      have m1: "unat (x - (dst + 1)) = d - 1"
      proof -
        have "x - (dst + 1) = of_nat (d - 1)" using False by (simp add: xd of_nat_diff)
        then show ?thesis using dl by (simp add: unat_of_nat)
      qed
      have neq: "x \<noteq> dst" using False by (auto simp: d_def)
      have "src + 1 + (x - (dst + 1)) = src + of_nat d" "src + (x - dst) = src + of_nat d" by (simp_all add: xd)
      then have "move_up dst src (Suc n) m x =
          (if d - 1 < n then (m(dst := m src)) (src + of_nat d) else m x)"
        using neq by (simp add: IH m1)
      moreover have "d < Suc n \<Longrightarrow> src + of_nat d \<noteq> dst" using Suc.prems(2) False by simp
      moreover have "d - 1 < n \<longleftrightarrow> d < Suc n" using False by auto
      ultimately show ?thesis by (simp only: d_def [symmetric] \<open>src + (x - dst) = _\<close>) simp
    qed
  qed
qed simp


lemma move_down_spec:
  assumes "n \<le> 2 ^ 63" "\<forall>j. 1 \<le> j \<longrightarrow> j < n \<longrightarrow> dst + of_nat j \<noteq> src"
  shows "move_down (dst + of_nat n) (src + of_nat n) n m =
    (\<lambda>x. if unat (x - dst) < n then m (src + (x - dst)) else m x)"
  using assms
proof (induction n arbitrary: m)
  case (Suc n)
  let ?m = "m(dst + of_nat n := m (src + of_nat n))"
  have "move_down (dst + of_nat (Suc n)) (src + of_nat (Suc n)) (Suc n) m =
      move_down (dst + of_nat n) (src + of_nat n) n ?m"
    by (simp add: algebra_simps)
  also have "\<dots> = (\<lambda>x. if unat (x - dst) < n then ?m (src + (x - dst)) else ?m x)"
    using Suc.prems by (intro Suc.IH) simp_all
  also have "\<dots> = (\<lambda>x. if unat (x - dst) < Suc n then m (src + (x - dst)) else m x)"
  proof
    fix x
    define d where "d = unat (x - dst)"
    have xd: "x = dst + of_nat d" by (simp add: d_def)
    have at_n: "x = dst + of_nat n \<longleftrightarrow> d = n"
      using Suc.prems(1) unfolding d_def by (intro addr_eq) simp
    show "(if unat (x - dst) < n then ?m (src + (x - dst)) else ?m x) =
        (if unat (x - dst) < Suc n then m (src + (x - dst)) else m x)"
    proof (cases "d < n")
      case True
      then have "dst + of_nat (n - d) \<noteq> src"
        using Suc.prems(2) [rule_format, of "n - d"] by (simp add: less_Suc_eq_le)
      then have "src + of_nat d \<noteq> dst + of_nat n" using True by (auto simp: of_nat_diff algebra_simps)
      then have "src + (x - dst) \<noteq> dst + of_nat n" by (simp add: xd)
      then show ?thesis using True by (simp add: d_def [symmetric])
    next
      case False
      have e: "x - dst = of_nat d" "unat (of_nat d :: u64) = d" by (simp_all add: d_def)
      show ?thesis unfolding e using False at_n by (cases "d = n") auto
    qed
  qed
  finally show ?case .
qed simp

text \<open>A range of \<open>n\<close> bytes that does not run past the last address.\<close>

definition in_space :: "u64 \<Rightarrow> nat \<Rightarrow> bool" where
  "in_space a n \<longleftrightarrow> unat a + n \<le> 2 ^ 64"

lemma in_space_unat: "in_space a n \<Longrightarrow> j < n \<Longrightarrow> unat (a + of_nat j) = unat a + j"
  using unat64 [of a] unfolding in_space_def by (subst unat_word_ariths) (simp add: unat_of_nat)

lemma umemmove_spec:
  assumes "0 \<le> sint n" "in_space vdst (nat (sint n))" "in_space vsrc (nat (sint n))"
  shows "umemmove vdst vsrc n m = (vdst, memmove m vdst vsrc (scast n))"
proof -
  define k where "k = nat (sint n)"
  note u = unat_scast [OF assms(1), folded k_def]
  have k: "k \<le> 2 ^ 63" using u(2) by simp
  have sc: "(scast n :: u64) = of_nat k" using u by (simp add: word_unat_eq_iff unat_of_nat)
  have mv: "memmove m vdst vsrc (scast n) =
      (\<lambda>x. if unat (x - vdst) < k then m (vsrc + (x - vdst)) else m x)"
    by (simp add: memmove_def word_less_nat_alt u)
  have sp: "in_space vdst k" "in_space vsrc k" using assms(2,3) by (simp_all add: k_def)
  show ?thesis
  proof (cases "vsrc > vdst")
    case True
    have "vsrc + of_nat j \<noteq> vdst" if "j < k" for j
      using in_space_unat [OF sp(2) that] True by (auto simp: word_less_nat_alt)
    then have "move_up vdst vsrc k m = memmove m vdst vsrc (scast n)"
      unfolding mv using k by (intro move_up_spec) auto
    then show ?thesis using True by (simp add: umemmove_def k_def)
  next
    case False
    have "vdst + of_nat j \<noteq> vsrc" if "1 \<le> j" "j < k" for j
      using in_space_unat [OF sp(1) that(2)] that(1) False by (auto simp: word_less_nat_alt)
    then have "move_down (vdst + of_nat k) (vsrc + of_nat k) k m = memmove m vdst vsrc (scast n)"
      unfolding mv using k by (intro move_down_spec) auto
    then show ?thesis using False by (simp add: umemmove_def k_def [symmetric] sc)
  qed
qed

lemma cstr_nth: "cstr m a bs \<Longrightarrow> i < length bs \<Longrightarrow> m (a + of_nat i) = bs ! i"
  by (simp add: cstr_def)

lemma cstr_frame:
  "cstr m a bs \<Longrightarrow> \<forall>j \<le> length bs. m' (a + of_nat j) = m (a + of_nat j) \<Longrightarrow> cstr m' a bs"
  by (simp add: cstr_def)

lemma strcpy_loop_spec:
  "cstr m t bs \<Longrightarrow> \<forall>j. 1 \<le> j \<longrightarrow> j < Suc (length bs) \<longrightarrow> t + of_nat j \<noteq> s \<Longrightarrow>
   strcpy_loop s t m = Some (move_up s t (Suc (length bs)) m)"
proof (induction bs arbitrary: s t m)
  case Nil
  then show ?case by (subst strcpy_loop.simps) (simp add: Let_def)
next
  case (Cons b bs)
  let ?m = "m(s := m t)"
  have away: "t + 1 + of_nat j \<noteq> s" if "j \<le> length bs" for j
    using Cons.prems(2) [rule_format, of "Suc j"] that by (simp add: algebra_simps)
  have "cstr m (t + 1) bs" using Cons.prems(1) by simp
  then have "cstr ?m (t + 1) bs" by (rule cstr_frame) (simp add: away)
  moreover have "\<forall>j. 1 \<le> j \<longrightarrow> j < Suc (length bs) \<longrightarrow> t + 1 + of_nat j \<noteq> s + 1"
    using Cons.prems(2) by (auto simp: algebra_simps)
  ultimately have "strcpy_loop (s + 1) (t + 1) ?m = Some (move_up (s + 1) (t + 1) (Suc (length bs)) ?m)"
    by (rule Cons.IH)
  then show ?case using Cons.prems(1) by (subst strcpy_loop.simps) (simp add: Let_def)
qed

lemma strcpy_spec:
  assumes "cstr m t bs" "length bs < 2 ^ 31" "\<forall>j. 1 \<le> j \<longrightarrow> j < Suc (length bs) \<longrightarrow> t + of_nat j \<noteq> s"
  shows "strcpy s t m = Some (s, \<lambda>x. if unat (x - s) \<le> length bs then m (t + (x - s)) else m x)"
  using strcpy_loop_spec [OF assms(1,3)] move_up_spec [OF _ assms(3)] assms(2)
  by (simp add: strcpy_def less_Suc_eq_le del: move_up.simps)

lemma memset_loop_spec:
  "unat n = i + k \<Longrightarrow> i + k < 2 ^ 31 \<Longrightarrow>
   memset_loop dst c n (of_nat i) m =
     Some (\<lambda>x. if i \<le> unat (x - dst) \<and> unat (x - dst) < i + k then ucast c else m x)"
proof (induction k arbitrary: i m)
  case 0
  then have "(of_nat i :: i32) = n" by (simp add: word_unat_eq_iff unat_of_nat)
  then show ?case by (subst memset_loop.simps) (auto simp: fun_eq_iff)
next
  case (Suc k)
  let ?m = "m(dst + of_nat i := ucast c)"
  have "unat (of_nat i :: i32) = i" using Suc.prems by (simp add: unat_of_nat)
  then have lt: "(of_nat i :: i32) < n" using Suc.prems by (simp add: word_less_nat_alt)
  have at: "x = dst + of_nat i \<longleftrightarrow> unat (x - dst) = i" for x
    using Suc.prems by (intro addr_eq) simp
  have "memset_loop dst c n (of_nat i) m = memset_loop dst c n (of_nat (Suc i)) ?m"
    using lt Suc.prems by (subst memset_loop.simps) (simp add: scast_of_nat add.commute)
  also have "\<dots> = Some (\<lambda>x. if Suc i \<le> unat (x - dst) \<and> unat (x - dst) < Suc i + k then ucast c else ?m x)"
    using Suc.prems by (intro Suc.IH) simp_all
  also have "\<dots> = Some (\<lambda>x. if i \<le> unat (x - dst) \<and> unat (x - dst) < i + Suc k then ucast c else m x)"
    by (auto simp: fun_eq_iff at)
  finally show ?case .
qed

lemma umemset_spec:
  assumes "unat n < 2 ^ 31"
  shows "umemset dst c n m = Some (dst, memset m dst (ucast c) (ucast n))"
proof -
  have "unat (ucast n :: u64) = unat n" using assms by (simp add: unsigned_ucast_eq take_bit_nat_eq_self)
  then show ?thesis
    using memset_loop_spec [of n 0 "unat n" dst c m] assms
    by (simp add: umemset_def memset_def word_less_nat_alt)
qed

section \<open>Numbers\<close>

fun decimal :: "nat \<Rightarrow> u8 list" where
  "decimal k = (if k < 10 then [of_nat (48 + k)] else decimal (k div 10) @ [of_nat (48 + k mod 10)])"

declare decimal.simps [simp del]

text \<open>The bytes of a numeral followed by something that is not a digit.\<close>

fun numeral_at :: "mem \<Rightarrow> u64 \<Rightarrow> u8 list \<Rightarrow> bool" where
  "numeral_at m s [] \<longleftrightarrow> \<not> (48 \<le> m s \<and> m s \<le> 57)"
| "numeral_at m s (d # ds) \<longleftrightarrow> m s = d \<and> 48 \<le> d \<and> d \<le> 57 \<and> numeral_at m (s + 1) ds"

definition add_digit :: "i32 \<Rightarrow> u8 \<Rightarrow> i32" where
  "add_digit n c = n * 10 + ucast c - 48"

lemma atoi_loop_spec: "numeral_at m s ds \<Longrightarrow> atoi_loop s n m = Some (foldl add_digit n ds)"
proof (induction ds arbitrary: s n)
  case Nil
  then show ?case by (subst atoi_loop.simps) auto
next
  case (Cons d ds)
  then have "atoi_loop s n m = atoi_loop (s + 1) (add_digit n d) m"
    by (subst atoi_loop.simps) (simp add: add_digit_def)
  then show ?case using Cons by simp
qed

lemma add_digit_of_nat:
  assumes "d < 10"
  shows "add_digit (of_nat n) (of_nat (48 + d)) = of_nat (10 * n + d)"
proof -
  have u: "unat (of_nat (48 + d) :: u8) = 48 + d" using assms by (simp add: unat_of_nat del: of_nat_add)
  have "(ucast (of_nat (48 + d) :: u8) :: i32) = of_nat (unat (of_nat (48 + d) :: u8))"
    by (simp only: ucast_eq) simp
  then have "(ucast (of_nat (48 + d) :: u8) :: i32) = of_nat (48 + d)" unfolding u .
  then show ?thesis by (simp only: add_digit_def) (simp add: algebra_simps)
qed

lemma foldl_decimal: "foldl add_digit 0 (decimal k) = of_nat k"
proof (induction k rule: decimal.induct)
  case (1 k)
  show ?case
  proof (cases "k < 10")
    case True
    then show ?thesis using add_digit_of_nat [of k 0] by (simp add: decimal.simps)
  next
    case False
    have "10 * (k div 10) + k mod 10 = k" by simp
    then show ?thesis using 1 False add_digit_of_nat [of "k mod 10" "k div 10"]
      by (subst decimal.simps) (simp del: of_nat_add)
  qed
qed

lemma atoi_spec: "numeral_at m s (decimal k) \<Longrightarrow> atoi s m = Some (of_nat k)"
  by (simp add: atoi_def atoi_loop_spec foldl_decimal)

section \<open>Reading a line\<close>

text \<open>The bytes that \<open>gets\<close> takes from its input, as a list.\<close>

fun read_line :: "('w \<Rightarrow> i32 \<times> u8 \<times> 'w) \<Rightarrow> nat \<Rightarrow> 'w \<Rightarrow> u8 list \<times> 'w" where
  "read_line rd 0 w = ([], w)"
| "read_line rd (Suc n) w =
     (case rd w of (cc, c, w) \<Rightarrow>
      if sint cc < 1 then ([], w)
      else if c = 10 \<or> c = 13 then ([c], w)
      else case read_line rd n w of (bs, w) \<Rightarrow> (c # bs, w))"

fun put_line :: "mem \<Rightarrow> u64 \<Rightarrow> u8 list \<Rightarrow> mem" where
  "put_line m a [] = m"
| "put_line m a (b # bs) = put_line (m(a := b)) (a + 1) bs"

lemma read_line_length: "length (fst (read_line rd n w)) \<le> n"
  by (induction n arbitrary: w) (auto split: prod.splits, metis fst_conv)

lemma sint_of_nat: "k < 2 ^ 31 \<Longrightarrow> sint (of_nat k :: i32) = int k"
  by (simp add: signed_of_nat signed_take_bit_int_eq_self)

lemma gets_loop_spec:
  "nat (sint mx - 1) = k + n \<Longrightarrow>
   gets_loop rd buf mx (of_nat k) (m, w) =
     (case read_line rd n w of (bs, w) \<Rightarrow>
       Some (of_nat (k + length bs), put_line m (buf + of_nat k) bs, w))"
proof (induction n arbitrary: k m w)
  case (0 k)
  have "sint mx < 2 ^ 31" using sint_lt [of mx] by simp
  then have s: "sint (of_nat (Suc k) :: i32) = int (Suc k)" using 0 by (intro sint_of_nat) simp
  then have "\<not> sint (of_nat k + 1 :: i32) < sint mx" using 0 by (simp add: add.commute)
  then show ?case by (subst gets_loop.simps) simp
next
  case (Suc n k)
  have "sint mx < 2 ^ 31" using sint_lt [of mx] by simp
  then have kl: "Suc k < 2 ^ 31" using Suc.prems by simp
  have lt: "sint (of_nat k + 1 :: i32) < sint mx"
    using sint_of_nat [OF kl] Suc.prems by (simp add: add.commute)
  have sc: "(scast (of_nat k :: i32) :: u64) = of_nat k" using kl by (intro scast_of_nat) simp
  obtain cc c w' where rd: "rd w = (cc, c, w')" by (cases "rd w") auto
  have IH: "gets_loop rd buf mx (of_nat (Suc k)) (m', w') =
      (case read_line rd n w' of (bs, w) \<Rightarrow>
        Some (of_nat (Suc k + length bs), put_line m' (buf + of_nat (Suc k)) bs, w))" for m'
    using Suc.prems by (intro Suc.IH) simp
  have "sint (1 + of_nat k :: i32) < sint mx" using lt by (simp add: add.commute)
  then show ?case
    by (subst gets_loop.simps)
      (simp add: lt rd sc Let_def IH [simplified] algebra_simps split: prod.split)
qed

lemma gets_spec:
  "gets rd buf mx (m, w) =
     (case read_line rd (nat (sint mx - 1)) w of (bs, w) \<Rightarrow> Some (buf, put_line m buf (bs @ [0]), w))"
proof -
  obtain bs w' where rl: "read_line rd (nat (sint mx - 1)) w = (bs, w')" by fastforce
  have "sint mx < 2 ^ 31" using sint_lt [of mx] by simp
  then have "length bs < 2 ^ 31" using read_line_length [of rd "nat (sint mx - 1)" w] rl by simp
  moreover have "put_line m a (bs @ [0]) = (put_line m a bs)(a + of_nat (length bs) := 0)" for a
    by (induction bs arbitrary: m a) (simp_all add: algebra_simps)
  ultimately show ?thesis
    using gets_loop_spec [of mx 0 "nat (sint mx - 1)" rd buf m w]
    by (simp add: gets_def rl scast_of_nat)
qed

section \<open>The pid without a system call\<close>

text \<open>The memory of a program, where the page table of its process lets it read.\<close>

definition sees :: "mem \<Rightarrow> 'fs kst \<Rightarrow> nat \<Rightarrow> bool" where
  "sees m k p \<longleftrightarrow> (\<forall>x b. lbyte (k_mem k) (p_pagetable (procs k ! p)) (p_sz (procs k ! p)) x = Some b \<longrightarrow> m x = b)"

lemma load32_bytes:
  assumes "\<forall>i < 4. m (a + of_nat i) = ucast (drop_bit (8 * i) v)"
  shows "load32 m a = v"
proof (rule bit_word_eqI)
  fix n assume n: "n < LENGTH(32)"
  define q r where "q = n div 8" and "r = n mod 8"
  have qr: "n = 8 * q + r" "q < 4" "r < 8" using n by (auto simp: q_def r_def)
  then show "bit (load32 m a) n = bit v n"
    using assms by (simp add: bit_load32 bit_simps)
qed

lemma ugetpid_spec:
  assumes mi: "mem_inv fl k" and p: "p < length (procs k)" "p_state (procs k ! p) \<noteq> UNUSED"
    and m: "sees m k p"
  shows "ugetpid m = p_pid (procs k ! p)"
proof -
  let ?q = "procs k ! p"
  from live_slot [OF mi p] have lv: "live (k_mem k) fl ?q" .
  then have pp: "pid_page (k_mem k) (p_pagetable ?q) (p_pid ?q)" by (simp add: live_def)
  have "m (USYSCALL + of_nat i) = ucast (drop_bit (8 * i) (p_pid ?q))" if i: "i < 4" for i
  proof -
    have n: "PGROUNDDOWN (USYSCALL + of_nat i) = USYSCALL" using i by (intro USYSCALL_near) simp
    note u = USYSCALL_page [OF lv n]
    have "lbyte (k_mem k) (p_pagetable ?q) (p_sz ?q) (USYSCALL + of_nat i) =
        Some (ubyte (k_mem k) (p_pagetable ?q) (USYSCALL + of_nat i))"
      using u by (simp add: lbyte_def)
    then have "m (USYSCALL + of_nat i) = ubyte (k_mem k) (p_pagetable ?q) (USYSCALL + of_nat i)"
      using m by (simp add: sees_def)
    then show ?thesis using pp i by (simp add: pid_page_def)
  qed
  then show ?thesis unfolding ugetpid_def by (intro load32_bytes) simp
qed

end
