(* ===== verification/Shell_Parser.thy ===== *)
theory Shell_Parser
  imports Ulib
begin

text \<open>
  The line parser of the shell, \<open>Proyecto1/user/parser.c\<close> (the copy in \<open>Proyecto2\<close> is the same).
  It works on the bytes of the line in the memory of the shell: it cuts the line into strings by
  writing NUL bytes, and returns pointers into it. A scan that meets no NUL has no value. The
  array \<open>argv\<close> of the caller is the list of the pointers stored in it; its bound is the caller's.
\<close>

section \<open>parseline\<close>

partial_function (option) zero_blanks :: "u64 \<Rightarrow> mem \<Rightarrow> (u64 \<times> mem) option" where
  "zero_blanks p m = (if m p = 32 \<or> m p = 10 then zero_blanks (p + 1) (m(p := 0)) else Some (p, m))"

partial_function (option) skip_spaces :: "u64 \<Rightarrow> mem \<Rightarrow> u64 option" where
  "skip_spaces p m = (if m p = 32 then skip_spaces (p + 1) m else Some p)"

partial_function (option) skip_name :: "u64 \<Rightarrow> mem \<Rightarrow> u64 option" where
  "skip_name p m = (if m p \<noteq> 0 \<and> m p \<noteq> 32 \<and> m p \<noteq> 10 then skip_name (p + 1) m else Some p)"

partial_function (option) skip_word :: "u64 \<Rightarrow> mem \<Rightarrow> u64 option" where
  "skip_word p m =
     (if m p \<noteq> 0 \<and> m p \<noteq> 32 \<and> m p \<noteq> 10 \<and> m p \<noteq> 60 \<and> m p \<noteq> 62 then skip_word (p + 1) m
      else Some p)"

record parsed =
  ps_argv :: "u64 list"
  ps_infile :: u64
  ps_outfile :: u64

partial_function (option) parse_loop :: "u64 \<Rightarrow> parsed \<Rightarrow> mem \<Rightarrow> (parsed \<times> mem) option" where
  "parse_loop p ps m =
     (if m p = 0 then Some (ps, m)
      else Option.bind (zero_blanks p m) (\<lambda>(p, m).
        if m p = 0 then Some (ps, m)
        else if m p = 60 then
          Option.bind (skip_spaces (p + 1) (m(p := 0))) (\<lambda>q.
          Option.bind (skip_name q (m(p := 0))) (\<lambda>r.
          parse_loop r (ps\<lparr>ps_infile := q\<rparr>) (m(p := 0))))
        else if m p = 62 then
          Option.bind (skip_spaces (p + 1) (m(p := 0))) (\<lambda>q.
          Option.bind (skip_name q (m(p := 0))) (\<lambda>r.
          parse_loop r (ps\<lparr>ps_outfile := q\<rparr>) (m(p := 0))))
        else
          Option.bind (skip_word p m) (\<lambda>r.
          parse_loop r (ps\<lparr>ps_argv := ps_argv ps @ [p]\<rparr>) m)))"

text \<open>The result, the array with its final null pointer, the two file names and the memory.\<close>

definition parseline :: "u64 \<Rightarrow> mem \<Rightarrow> (i32 \<times> u64 list \<times> u64 \<times> u64 \<times> mem) option" where
  "parseline buf m =
     map_option (\<lambda>(ps, m). (of_nat (length (ps_argv ps)), ps_argv ps @ [0], ps_infile ps, ps_outfile ps, m))
       (parse_loop buf \<lparr>ps_argv = [], ps_infile = 0, ps_outfile = 0\<rparr> m)"

partial_function (option) findpipe :: "u64 \<Rightarrow> mem \<Rightarrow> (u64 \<times> mem) option" where
  "findpipe p m =
     (if m p \<noteq> 0 then if m p = 124 then Some (p + 1, m(p := 0)) else findpipe (p + 1) m
      else Some (0, m))"

section \<open>The grammar of a line\<close>

text \<open>
  What a line means, on its bytes: the words, and the last name after a \<open><\<close> and after a \<open>>\<close>.
  A name runs to the next blank, so it may contain \<open><\<close> and \<open>>\<close>.
\<close>

definition blank :: "u8 \<Rightarrow> bool" where
  "blank c \<longleftrightarrow> c = 32 \<or> c = 10"

definition word_char :: "u8 \<Rightarrow> bool" where
  "word_char c \<longleftrightarrow> \<not> blank c \<and> c \<noteq> 60 \<and> c \<noteq> 62"

record line =
  l_words :: "u8 list list"
  l_in :: "u8 list option"
  l_out :: "u8 list option"

function line_of :: "u8 list \<Rightarrow> line" where
  "line_of bs =
     (case dropWhile blank bs of
        [] \<Rightarrow> \<lparr>l_words = [], l_in = None, l_out = None\<rparr>
      | c # cs \<Rightarrow>
          if word_char c then
            (let l = line_of (dropWhile word_char (c # cs))
             in l\<lparr>l_words := takeWhile word_char (c # cs) # l_words l\<rparr>)
          else
            (let cs = dropWhile (\<lambda>c. c = 32) cs; l = line_of (dropWhile (\<lambda>c. \<not> blank c) cs);
                 name = takeWhile (\<lambda>c. \<not> blank c) cs
             in if c = 60 then l\<lparr>l_in := (case l_in l of None \<Rightarrow> Some name | n \<Rightarrow> n)\<rparr>
                else l\<lparr>l_out := (case l_out l of None \<Rightarrow> Some name | n \<Rightarrow> n)\<rparr>))"
  by auto
termination
proof (relation "measure length")
  fix bs :: "u8 list" and c cs
  assume d: "dropWhile blank bs = c # cs"
  then have le: "length (c # cs) \<le> length bs" by (metis length_dropWhile_le)
  show "word_char c \<Longrightarrow> (dropWhile word_char (c # cs), bs) \<in> measure length"
    using le le_trans [OF length_dropWhile_le, of cs "length bs" word_char] by simp (metis Suc_le_lessD le_less_trans length_dropWhile_le)
  show "(dropWhile (\<lambda>c. \<not> blank c) x, bs) \<in> measure length"
    if "x = dropWhile (\<lambda>c. c = 32) cs" for x
    using le that by (metis (no_types, lifting) Suc_le_lessD in_measure le_less_trans length_Cons length_dropWhile_le)
qed simp

declare line_of.simps [simp del]


section \<open>Scans over a string\<close>

lemma cstr_append:
  "cstr m p (as @ bs) \<longleftrightarrow>
     (\<forall>i < length as. m (p + of_nat i) = as ! i) \<and> 0 \<notin> set as \<and> cstr m (p + of_nat (length as)) bs"
  by (induction as arbitrary: p) (auto simp: All_less_Suc2 algebra_simps)

lemma cstr_drop:
  "cstr m p bs \<Longrightarrow> cstr m (p + of_nat (length (takeWhile P bs))) (dropWhile P bs)"
  using cstr_append [of m p "takeWhile P bs" "dropWhile P bs"] by simp

lemma cstr_nonzero: "cstr m p bs \<Longrightarrow> 0 \<notin> set bs"
  by (simp add: cstr_def)

lemma cstr_head: "cstr m p bs \<Longrightarrow> m p = 0 \<longleftrightarrow> bs = []"
  by (cases bs) auto

lemma skip_spaces_spec:
  "cstr m p bs \<Longrightarrow> skip_spaces p m = Some (p + of_nat (length (takeWhile (\<lambda>c. c = 32) bs)))"
proof (induction bs arbitrary: p)
  case Nil
  then show ?case by (subst skip_spaces.simps) simp
next
  case (Cons b bs)
  then show ?case
    by (subst skip_spaces.simps) (auto simp: word_char_def blank_def algebra_simps)
qed

lemma skip_name_spec:
  "cstr m p bs \<Longrightarrow> skip_name p m = Some (p + of_nat (length (takeWhile (\<lambda>c. \<not> blank c) bs)))"
proof (induction bs arbitrary: p)
  case Nil
  then show ?case by (subst skip_name.simps) simp
next
  case (Cons b bs)
  then show ?case
    by (subst skip_name.simps) (auto simp: word_char_def blank_def algebra_simps)
qed

lemma skip_word_spec:
  "cstr m p bs \<Longrightarrow> skip_word p m = Some (p + of_nat (length (takeWhile word_char bs)))"
proof (induction bs arbitrary: p)
  case Nil
  then show ?case by (subst skip_word.simps) simp
next
  case (Cons b bs)
  have t: "m p \<noteq> 0 \<and> m p \<noteq> 32 \<and> m p \<noteq> 10 \<and> m p \<noteq> 60 \<and> m p \<noteq> 62 \<longleftrightarrow> word_char b"
    using Cons.prems by (auto simp: word_char_def blank_def)
  show ?case by (subst skip_word.simps, subst t) (use Cons in \<open>simp add: algebra_simps\<close>)
qed

text \<open>The addresses from \<open>p\<close> to \<open>p + n\<close>, and memories that differ only in a set of addresses.\<close>

definition span :: "u64 \<Rightarrow> nat \<Rightarrow> u64 set" where
  "span p n = (\<lambda>j. p + of_nat j) ` {..n}"

definition only :: "u64 set \<Rightarrow> mem \<Rightarrow> mem \<Rightarrow> bool" where
  "only S m m' \<longleftrightarrow> (\<forall>x. x \<notin> S \<longrightarrow> m' x = m x)"

lemma span_start [simp]: "p \<in> span p n"
  by (auto simp: span_def image_iff intro: bexI [of _ 0])

lemma span_nth: "j \<le> n \<Longrightarrow> p + of_nat j \<in> span p n"
  by (auto simp: span_def)

lemma span_shift: "k + n' \<le> n \<Longrightarrow> span (p + of_nat k) n' \<subseteq> span p n"
proof (clarsimp simp: span_def)
  fix j assume "k + n' \<le> n" "j \<le> n'"
  then show "p + of_nat k + of_nat j \<in> (\<lambda>j. p + of_nat j) ` {..n}"
    by (intro image_eqI [of _ _ "k + j"]) (simp_all add: algebra_simps)
qed

lemma span_away:
  assumes "i < k" "k + n' < 2 ^ 64"
  shows "p + of_nat i \<notin> span (p + of_nat k) n'"
proof
  assume "p + of_nat i \<in> span (p + of_nat k) n'"
  then obtain j where j: "j \<le> n'" "(of_nat i :: u64) = of_nat (k + j)"
    by (auto simp: span_def algebra_simps)
  then have "unat (of_nat i :: u64) = unat (of_nat (k + j) :: u64)" by simp
  then show False using assms j(1) by (simp add: unat_of_nat del: of_nat_add)
qed

lemma only_refl [simp]: "only S m m"
  by (simp add: only_def)

lemma only_trans: "only S m m1 \<Longrightarrow> only T m1 m' \<Longrightarrow> S \<subseteq> U \<Longrightarrow> T \<subseteq> U \<Longrightarrow> only U m m'"
  unfolding only_def by (metis subsetD)

lemma only_upd: "x \<in> S \<Longrightarrow> only S m (m(x := v))"
  by (auto simp: only_def)

lemma only_cstr:
  assumes "only (span (p + of_nat k) n') m m'" "cstr m p (as @ bs)" "length as = k"
    "k + n' < 2 ^ 64" "m' (p + of_nat k) = 0"
  shows "cstr m' p as"
  using assms span_away [of _ k n' p] unfolding cstr_append by (auto simp: cstr_def only_def)

lemma cstr_upd:
  assumes "cstr m (p + 1) bs" "length bs + 1 < 2 ^ 64"
  shows "cstr (m(p := v)) (p + 1) bs"
proof (rule cstr_frame [OF assms(1)], intro allI impI)
  fix j assume "j \<le> length bs"
  then have "p + 1 + of_nat j \<in> span (p + 1) (length bs)" by (rule span_nth)
  moreover have "p \<notin> span (p + 1) (length bs)" using span_away [of 0 1 "length bs" p] assms(2) by simp
  ultimately have "p + 1 + of_nat j \<noteq> p" by metis
  then show "(m(p := v)) (p + 1 + of_nat j) = m (p + 1 + of_nat j)" by simp
qed

lemma zero_blanks_spec:
  "cstr m p bs \<Longrightarrow> length bs < 2 ^ 64 \<Longrightarrow>
   \<exists>m'. zero_blanks p m = Some (p + of_nat (length (takeWhile blank bs)), m') \<and>
     cstr m' (p + of_nat (length (takeWhile blank bs))) (dropWhile blank bs) \<and>
     only (span p (length bs)) m m' \<and> (bs = [] \<or> blank (hd bs) \<longrightarrow> m' p = 0)"
proof (induction bs arbitrary: p m)
  case Nil
  then show ?case by (subst zero_blanks.simps) simp
next
  case (Cons b bs)
  show ?case
  proof (cases "blank b")
    case True
    let ?m = "m(p := 0)"
    have p: "p \<notin> span (p + 1) (length bs)"
      using span_away [of 0 1 "length bs" p] Cons.prems(2) by simp
    have c1: "cstr ?m (p + 1) bs" by (rule cstr_upd) (use Cons.prems in auto)
    have "length bs < 2 ^ 64" using Cons.prems(2) by simp
    from Cons.IH [OF c1 this] obtain m' where
      z: "zero_blanks (p + 1) ?m = Some (p + 1 + of_nat (length (takeWhile blank bs)), m')"
      and c: "cstr m' (p + 1 + of_nat (length (takeWhile blank bs))) (dropWhile blank bs)"
      and o: "only (span (p + 1) (length bs)) ?m m'" by blast
    have "only (span p (length (b # bs))) m m'"
      using only_trans [OF only_upd [of p "{p}"] o, of "span p (length (b # bs))"]
        span_shift [of 1 "length bs" "length (b # bs)" p] by simp
    moreover have "m' p = 0" using o p by (simp add: only_def)
    moreover have "zero_blanks p m = zero_blanks (p + 1) ?m"
      using Cons.prems(1) True by (subst zero_blanks.simps) (auto simp: blank_def)
    ultimately show ?thesis using z c True by (simp add: algebra_simps)
  next
    case False
    then show ?thesis using Cons.prems by (subst zero_blanks.simps) (auto simp: blank_def)
  qed
qed


section \<open>The parser implements the grammar\<close>

text \<open>
  What the parser of a line at \<open>p\<close> with \<open>n\<close> bytes adds to its result: pointers into the line to
  the words as C strings, and to the file names when there are any.
\<close>

definition file_ptr :: "mem \<Rightarrow> u64 \<Rightarrow> nat \<Rightarrow> u64 \<Rightarrow> u8 list option \<Rightarrow> u64 \<Rightarrow> bool" where
  "file_ptr m p n old f a \<longleftrightarrow>
     (case f of None \<Rightarrow> a = old | Some name \<Rightarrow> a \<in> span p n \<and> cstr m a name)"

definition parsed_as :: "mem \<Rightarrow> u64 \<Rightarrow> nat \<Rightarrow> parsed \<Rightarrow> line \<Rightarrow> parsed \<Rightarrow> bool" where
  "parsed_as m p n ps l ps' \<longleftrightarrow>
     (\<exists>as. ps_argv ps' = ps_argv ps @ as \<and> list_all2 (cstr m) as (l_words l) \<and> set as \<subseteq> span p n) \<and>
     file_ptr m p n (ps_infile ps) (l_in l) (ps_infile ps') \<and>
     file_ptr m p n (ps_outfile ps) (l_out l) (ps_outfile ps')"

text \<open>
  The whole effect: besides, only the line changes, its last NUL stays, and when the line starts
  with a byte that ends a word this byte becomes NUL.
\<close>

definition parse_post :: "u8 list \<Rightarrow> u64 \<Rightarrow> parsed \<Rightarrow> mem \<Rightarrow> parsed \<Rightarrow> mem \<Rightarrow> bool" where
  "parse_post bs p ps m ps' m' \<longleftrightarrow>
     parsed_as m' p (length bs) ps (line_of bs) ps' \<and> only (span p (length bs)) m m' \<and>
     m' (p + of_nat (length bs)) = 0 \<and> (bs = [] \<or> \<not> word_char (hd bs) \<longrightarrow> m' p = 0)"

lemma file_ptr_span: "file_ptr m p n old f a \<Longrightarrow> span p n \<subseteq> span q k \<Longrightarrow> file_ptr m q k old f a"
  by (auto simp: file_ptr_def split: option.splits)

lemma line_of_blank:
  "dropWhile blank bs = [] \<Longrightarrow> line_of bs = \<lparr>l_words = [], l_in = None, l_out = None\<rparr>"
  by (subst line_of.simps) (simp only: list.case)

lemma line_of_word:
  "dropWhile blank bs = c # cs \<Longrightarrow> word_char c \<Longrightarrow>
   line_of bs = (let l = line_of (dropWhile word_char (c # cs))
     in l\<lparr>l_words := takeWhile word_char (c # cs) # l_words l\<rparr>)"
  by (subst line_of.simps) simp

lemma line_of_redirect:
  "dropWhile blank bs = c # cs \<Longrightarrow> \<not> word_char c \<Longrightarrow>
   line_of bs = (let cs' = dropWhile (\<lambda>c. c = 32) cs; l = line_of (dropWhile (\<lambda>c. \<not> blank c) cs');
       name = takeWhile (\<lambda>c. \<not> blank c) cs'
     in if c = 60 then l\<lparr>l_in := (case l_in l of None \<Rightarrow> Some name | n \<Rightarrow> n)\<rparr>
        else l\<lparr>l_out := (case l_out l of None \<Rightarrow> Some name | n \<Rightarrow> n)\<rparr>)"
  by (subst line_of.simps) (simp add: Let_def)

lemma dropWhile_head: "dropWhile P bs = [] \<or> \<not> P (hd (dropWhile P bs))"
  by (metis hd_dropWhile)

lemma take_drop_length: "length (takeWhile P bs) + length (dropWhile P bs) = length bs"
  by (metis length_append takeWhile_dropWhile_id)

text \<open>One step over a word or a file name at \<open>p + k\<close>, followed by the parse of the rest.\<close>

lemma parse_post_item:
  assumes c: "cstr m1 (p + of_nat k) (w @ rest)" and n: "k + length (w @ rest) = length bs" "length bs < 2 ^ 64"
    and o: "only (span p (length bs)) m m1"
    and post: "parse_post rest (p + of_nat (k + length w)) ps1 m1 ps' m'"
    and rest: "rest = [] \<or> \<not> word_char (hd rest)"
    and z: "bs = [] \<or> \<not> word_char (hd bs) \<longrightarrow> 0 < k \<and> m1 p = 0"
  shows "cstr m' (p + of_nat k) w" "p + of_nat k \<in> span p (length bs)"
    "only (span p (length bs)) m m'" "m' (p + of_nat (length bs)) = 0"
    "bs = [] \<or> \<not> word_char (hd bs) \<longrightarrow> m' p = 0"
    "span (p + of_nat (k + length w)) (length rest) \<subseteq> span p (length bs)"
proof -
  let ?r = "p + of_nat (k + length w)"
  have o': "only (span ?r (length rest)) m1 m'" and zr: "m' ?r = 0"
    and last: "m' (?r + of_nat (length rest)) = 0"
    using post rest by (auto simp: parse_post_def)
  show sp: "span ?r (length rest) \<subseteq> span p (length bs)"
    using n by (intro span_shift) simp
  show "only (span p (length bs)) m m'" using only_trans [OF o o' _ sp] by blast
  have e: "p + of_nat k + of_nat (length w) = ?r" by (simp add: algebra_simps)
  show "cstr m' (p + of_nat k) w"
    using only_cstr [OF _ c refl, of "length rest" m'] o' zr n unfolding e by simp
  show "p + of_nat k \<in> span p (length bs)" using n by (intro span_nth) simp
  have "?r + of_nat (length rest) = p + of_nat (length bs)" using n(1) by (simp flip: n(1) add: algebra_simps)
  then show "m' (p + of_nat (length bs)) = 0" using last by (simp only:)
  show "bs = [] \<or> \<not> word_char (hd bs) \<longrightarrow> m' p = 0"
  proof
    assume "bs = [] \<or> \<not> word_char (hd bs)"
    then have k: "0 < k" "m1 p = 0" using z by auto
    then have "p + of_nat 0 \<notin> span ?r (length rest)" using n by (intro span_away) auto
    then show "m' p = 0" using o' k(2) by (simp add: only_def)
  qed
qed

lemma parse_post_word:
  assumes d: "dropWhile blank bs = c # cs" "word_char c" and n: "length bs < 2 ^ 64"
    and c: "cstr m1 (p + of_nat k) (c # cs)" and k: "k = length (takeWhile blank bs)"
    and o: "only (span p (length bs)) m m1" and z: "bs = [] \<or> blank (hd bs) \<longrightarrow> m1 p = 0"
    and post: "parse_post (dropWhile word_char (c # cs))
      (p + of_nat (k + length (takeWhile word_char (c # cs))))
      (ps\<lparr>ps_argv := ps_argv ps @ [p + of_nat k]\<rparr>) m1 ps' m'"
  shows "parse_post bs p ps m ps' m'"
proof -
  let ?w = "takeWhile word_char (c # cs)" and ?rest = "dropWhile word_char (c # cs)"
  have len: "k + length (?w @ ?rest) = length bs"
    using take_drop_length [of blank bs] d(1) k by (simp only: takeWhile_dropWhile_id)
  have zk: "bs = [] \<or> \<not> word_char (hd bs) \<longrightarrow> 0 < k \<and> m1 p = 0"
    using d z k by (cases bs) (auto split: if_splits)
  have c': "cstr m1 (p + of_nat k) (?w @ ?rest)" using c by (simp only: takeWhile_dropWhile_id)
  note it = parse_post_item [OF c' len n o post dropWhile_head zk]
  let ?l = "line_of ?rest"
  have l: "line_of bs = ?l\<lparr>l_words := ?w # l_words ?l\<rparr>" by (simp only: line_of_word [OF d] Let_def)
  from post obtain as where as: "ps_argv ps' = ps_argv ps @ [p + of_nat k] @ as"
    "list_all2 (cstr m') as (l_words ?l)" "set as \<subseteq> span p (length bs)"
    and f: "file_ptr m' p (length bs) (ps_infile ps) (l_in ?l) (ps_infile ps')"
      "file_ptr m' p (length bs) (ps_outfile ps) (l_out ?l) (ps_outfile ps')"
    using it(6) by (auto simp: parse_post_def parsed_as_def intro: file_ptr_span)
  have "parsed_as m' p (length bs) ps (line_of bs) ps'"
    unfolding parsed_as_def l using as f it(1,2) by (auto intro!: exI [of _ "(p + of_nat k) # as"])
  then show ?thesis using it(3,4,5) by (simp add: parse_post_def)
qed

lemma parse_post_redirect:
  fixes cs :: "u8 list"
  defines "j \<equiv> length (takeWhile (\<lambda>c. c = 32) cs)" and "cs' \<equiv> dropWhile (\<lambda>c. c = 32) cs"
  defines "name \<equiv> takeWhile (\<lambda>c. \<not> blank c) cs'" and "rest \<equiv> dropWhile (\<lambda>c. \<not> blank c) cs'"
  assumes d: "dropWhile blank bs = c # cs" "\<not> word_char c" and n: "length bs < 2 ^ 64"
    and k: "k = length (takeWhile blank bs)" and c: "cstr m2 (p + of_nat (k + 1 + j)) cs'"
    and o: "only (span p (length bs)) m m2" and z: "bs = [] \<or> \<not> word_char (hd bs) \<longrightarrow> m2 p = 0"
    and post: "parse_post rest (p + of_nat (k + 1 + j + length name))
      (if c = 60 then ps\<lparr>ps_infile := p + of_nat (k + 1 + j)\<rparr>
       else ps\<lparr>ps_outfile := p + of_nat (k + 1 + j)\<rparr>) m2 ps' m'"
  shows "parse_post bs p ps m ps' m'"
proof -
  let ?q = "p + of_nat (k + 1 + j)"
  have split: "name @ rest = cs'" by (simp add: name_def rest_def)
  have "length cs = j + length cs'" unfolding j_def cs'_def by (rule take_drop_length [symmetric])
  then have len: "k + 1 + j + length (name @ rest) = length bs"
    using take_drop_length [of blank bs] d(1) k unfolding split by simp
  have hd: "rest = [] \<or> \<not> word_char (hd rest)"
    using dropWhile_head [of "\<lambda>c. \<not> blank c" cs'] by (auto simp: rest_def word_char_def)
  have zk: "bs = [] \<or> \<not> word_char (hd bs) \<longrightarrow> 0 < k + 1 + j \<and> m2 p = 0" using z by simp
  have c': "cstr m2 ?q (name @ rest)" using c by (simp only: split)
  note it = parse_post_item [OF c' len n o post hd zk]
  let ?l = "line_of rest"
  have l: "line_of bs = (if c = 60 then ?l\<lparr>l_in := (case l_in ?l of None \<Rightarrow> Some name | n \<Rightarrow> n)\<rparr>
      else ?l\<lparr>l_out := (case l_out ?l of None \<Rightarrow> Some name | n \<Rightarrow> n)\<rparr>)"
    by (simp only: line_of_redirect [OF d] Let_def name_def rest_def cs'_def)
  have "parsed_as m' p (length bs)
      (if c = 60 then ps\<lparr>ps_infile := ?q\<rparr> else ps\<lparr>ps_outfile := ?q\<rparr>) ?l ps'"
    using post it(6) unfolding parse_post_def parsed_as_def by (auto intro: file_ptr_span)
  then have "parsed_as m' p (length bs) ps (line_of bs) ps'"
    using it(1,2) unfolding l parsed_as_def
    by (cases "c = 60") (auto simp: file_ptr_def split: option.splits)
  then show ?thesis using it(3,4,5) by (simp add: parse_post_def)
qed

lemma parse_loop_spec:
  "cstr m p bs \<Longrightarrow> length bs < 2 ^ 64 \<Longrightarrow>
   \<exists>ps' m'. parse_loop p ps m = Some (ps', m') \<and> parse_post bs p ps m ps' m'"
proof (induction bs arbitrary: p ps m rule: length_induct)
  case (1 bs)
  note c = 1(2) and n = 1(3)
  define k where "k = length (takeWhile blank bs)"
  from zero_blanks_spec [OF c n, folded k_def] obtain m1 where
    zb: "zero_blanks p m = Some (p + of_nat k, m1)" and c1: "cstr m1 (p + of_nat k) (dropWhile blank bs)"
    and o1: "only (span p (length bs)) m m1" and z1: "bs = [] \<or> blank (hd bs) \<longrightarrow> m1 p = 0" by blast
  have len: "k + length (dropWhile blank bs) = length bs" unfolding k_def by (rule take_drop_length)
  show ?case
  proof (cases "dropWhile blank bs")
    case Nil
    have zp: "m1 p = 0" using z1 Nil by (cases bs) (auto split: if_splits)
    have kl: "k = length bs" using len Nil by simp
    have z: "m1 (p + of_nat (length bs)) = 0" using c1 Nil kl by simp
    have "parse_loop p ps m = Some (ps, if m p = 0 then m else m1)"
      using c1 Nil zb by (subst parse_loop.simps) simp
    moreover have "m p = 0 \<Longrightarrow> m1 = m" using zb by (subst (asm) zero_blanks.simps) simp
    ultimately have "parse_loop p ps m = Some (ps, m1)" by (cases "m p = 0") simp_all
    moreover have "parse_post bs p ps m ps m1"
      using z o1 zp unfolding parse_post_def line_of_blank [OF Nil]
      by (simp add: parsed_as_def file_ptr_def)
    ultimately show ?thesis by blast
  next
    case (Cons c cs)
    have bs: "m p \<noteq> 0" using cstr_head [OF c] Cons by auto
    have mp: "m1 (p + of_nat k) = c" "c \<noteq> 0" using c1 Cons by auto
    show ?thesis
    proof (cases "word_char c")
      case True
      let ?w = "takeWhile word_char (c # cs)" and ?rest = "dropWhile word_char (c # cs)"
      let ?ps = "ps\<lparr>ps_argv := ps_argv ps @ [p + of_nat k]\<rparr>"
      have cw: "cstr m1 (p + of_nat k) (c # cs)" using c1 Cons by simp
      have r: "p + of_nat k + of_nat (length ?w) = p + of_nat (k + length ?w)" by (simp add: algebra_simps)
      note cr = cstr_drop [OF cw, of word_char, unfolded r]
      have lr: "length ?rest < length bs"
        using len Cons True length_dropWhile_le [of word_char cs] by simp
      from 1(1) lr cr n obtain ps' m' where
        pl: "parse_loop (p + of_nat (k + length ?w)) ?ps m1 = Some (ps', m')"
        and post: "parse_post ?rest (p + of_nat (k + length ?w)) ?ps m1 ps' m'"
        by (meson order_less_trans)
      have "parse_loop p ps m = Some (ps', m')"
        using bs zb mp True skip_word_spec [OF cw] pl unfolding r
        by (subst parse_loop.simps) (auto simp: word_char_def simp del: takeWhile.simps)
      moreover have "parse_post bs p ps m ps' m'"
        by (rule parse_post_word [OF Cons True n cw k_def o1 z1 post])
      ultimately show ?thesis by blast
    next
      case False
      let ?m = "m1(p + of_nat k := 0)" and ?cs = "dropWhile (\<lambda>c. c = 32) cs"
      let ?name = "takeWhile (\<lambda>c. \<not> blank c) ?cs" and ?rest = "dropWhile (\<lambda>c. \<not> blank c) ?cs"
      define j where "j = length (takeWhile (\<lambda>c. c = 32) cs)"
      let ?q = "p + of_nat (k + 1 + j)" and ?r = "p + of_nat (k + 1 + j + length ?name)"
      let ?ps = "if c = 60 then ps\<lparr>ps_infile := ?q\<rparr> else ps\<lparr>ps_outfile := ?q\<rparr>"
      have arrow: "c = 60 \<or> c = 62"
        using False Cons dropWhile_head [of blank bs] by (auto simp: word_char_def)
      have nl: "k + 1 + length cs = length bs" using len Cons by simp
      have e: "p + of_nat k + 1 + of_nat j = ?q" "?q + of_nat (length ?name) = ?r"
        by (simp_all add: algebra_simps)
      have c2: "cstr ?m (p + of_nat k + 1) cs" by (rule cstr_upd) (use c1 Cons nl n in auto)
      have sk: "skip_spaces (p + of_nat k + 1) ?m = Some ?q"
        using skip_spaces_spec [OF c2] unfolding j_def [symmetric] e .
      have cq: "cstr ?m ?q ?cs" using cstr_drop [OF c2, of "\<lambda>c. c = 32"] unfolding j_def [symmetric] e .
      have sn: "skip_name ?q ?m = Some ?r" using skip_name_spec [OF cq] unfolding e .
      have cr: "cstr ?m ?r ?rest" using cstr_drop [OF cq, of "\<lambda>c. \<not> blank c"] unfolding e .
      have lr: "length ?rest < length bs"
        using nl length_dropWhile_le [of "\<lambda>c. \<not> blank c" ?cs] length_dropWhile_le [of "\<lambda>c. c = 32" cs]
        by linarith
      from 1(1) lr cr n obtain ps' m' where
        pl: "parse_loop ?r ?ps ?m = Some (ps', m')" and post: "parse_post ?rest ?r ?ps ?m ps' m'"
        by (meson order_less_trans)
      have "parse_loop p ps m = Some (ps', m')"
        using bs zb mp arrow sk sn pl by (subst parse_loop.simps) auto
      moreover have "parse_post bs p ps m ps' m'"
      proof (rule parse_post_redirect [OF Cons False n k_def, folded j_def])
        show "cstr ?m ?q ?cs" by (rule cq)
        have "p + of_nat k \<in> span p (length bs)" using nl by (intro span_nth) simp
        then show "only (span p (length bs)) m ?m"
          using only_trans [OF o1 only_upd [of _ "span p (length bs)"]] by blast
        show "bs = [] \<or> \<not> word_char (hd bs) \<longrightarrow> ?m p = 0"
          using z1 Cons by (cases bs) (auto simp: k_def split: if_splits)
        show "parse_post ?rest ?r ?ps ?m ps' m'" by (rule post)
      qed
      ultimately show ?thesis by blast
    qed
  qed
qed

text \<open>A null pointer is never a position of the line, so it means that there is no file.\<close>

lemma span_zero:
  assumes "in_space p (n + 1)" "p \<noteq> 0"
  shows "0 \<notin> span p n"
proof
  assume "0 \<in> span p n"
  then obtain j where "j \<le> n" "p + of_nat j = 0" by (auto simp: span_def)
  then have "unat p + j = 0" using in_space_unat [OF assms(1), of j] by simp
  then show False using assms(2) by (simp add: unat_eq_zero)
qed

lemma parseline_spec:
  assumes "cstr m buf bs" "in_space buf (length bs + 1)" "buf \<noteq> 0"
  shows "\<exists>as i out m'. parseline buf m = Some (of_nat (length as), as @ [0], i, out, m') \<and>
    list_all2 (cstr m') as (l_words (line_of bs)) \<and> set as \<subseteq> span buf (length bs) \<and>
    file_ptr m' buf (length bs) 0 (l_in (line_of bs)) i \<and> (i = 0 \<longleftrightarrow> l_in (line_of bs) = None) \<and>
    file_ptr m' buf (length bs) 0 (l_out (line_of bs)) out \<and> (out = 0 \<longleftrightarrow> l_out (line_of bs) = None) \<and>
    only (span buf (length bs)) m m' \<and> m' (buf + of_nat (length bs)) = 0"
proof -
  have n: "length bs < 2 ^ 64" using assms(2) by (simp add: in_space_def)
  note z = span_zero [OF assms(2,3)]
  let ?ps = "\<lparr>ps_argv = [], ps_infile = 0, ps_outfile = 0\<rparr>"
  from parse_loop_spec [OF assms(1) n, of ?ps] obtain ps' m' where
    pl: "parse_loop buf ?ps m = Some (ps', m')" and post: "parse_post bs buf ?ps m ps' m'" by blast
  have "file_ptr m' buf (length bs) 0 f a \<Longrightarrow> a = 0 \<longleftrightarrow> f = None" for f a
    using z by (cases f) (auto simp: file_ptr_def)
  then show ?thesis
    using post pl unfolding parseline_def parse_post_def parsed_as_def by auto
qed

section \<open>findpipe\<close>

lemma findpipe_none: "cstr m p bs \<Longrightarrow> 124 \<notin> set bs \<Longrightarrow> findpipe p m = Some (0, m)"
proof (induction bs arbitrary: p)
  case Nil
  then show ?case by (subst findpipe.simps) simp
next
  case (Cons b bs)
  then show ?case by (subst findpipe.simps) auto
qed

lemma findpipe_some:
  "cstr m p (as @ 124 # bs) \<Longrightarrow> 124 \<notin> set as \<Longrightarrow>
   findpipe p m = Some (p + of_nat (length as) + 1, m(p + of_nat (length as) := 0))"
proof (induction as arbitrary: p)
  case Nil
  then show ?case by (subst findpipe.simps) simp
next
  case (Cons a as)
  then show ?case by (subst findpipe.simps) (auto simp: algebra_simps)
qed

end
