(* ===== verification/Shell_Exec.thy ===== *)
theory Shell_Exec
  imports Shell_Parser
begin

text \<open>
  The commands of the shell, \<open>Proyecto1/user/commands.c\<close>, and its main loop, \<open>sh.c\<close>. The kernel
  is not part of this program: what a process of the shell does is the tree of the system calls
  it makes, with the rest of the process as a function of each result. The argument of a call that
  is a string is of type \<open>'x\<close>: in the program a pointer with the memory it points into, in the
  specification the string itself.
\<close>

section \<open>The system calls of a process\<close>

datatype omode = RDONLY | WRONLY_CREATE

text \<open>
  \<open>Return\<close> is the end of the function. \<open>Argv_overflow\<close> is a store past the end of \<open>argv\<close>,
  \<open>Unterminated\<close> a scan of a line without NUL.
\<close>

datatype 'x sh =
    Close i32 "'x sh"
  | Open 'x omode "i32 \<Rightarrow> 'x sh"
  | Dup i32 "'x sh"
  | Pipe "i32 \<Rightarrow> i32 \<Rightarrow> 'x sh"
  | Fork "i32 \<Rightarrow> 'x sh"
  | Wait "'x sh"
  | Exec 'x "'x list" "'x sh"
  | Print string 'x "'x sh"
  | Exit
  | Return
  | Argv_overflow
  | Unterminated
  | Out_of_fuel

text \<open>The statement after a call of a function.\<close>

primrec seq :: "'x sh \<Rightarrow> 'x sh \<Rightarrow> 'x sh" where
  "seq (Close fd p) q = Close fd (seq p q)"
| "seq (Open f md p) q = Open f md (\<lambda>r. seq (p r) q)"
| "seq (Dup fd p) q = Dup fd (seq p q)"
| "seq (Pipe p) q = Pipe (\<lambda>a b. seq (p a b) q)"
| "seq (Fork p) q = Fork (\<lambda>r. seq (p r) q)"
| "seq (Wait p) q = Wait (seq p q)"
| "seq (Exec f as p) q = Exec f as (seq p q)"
| "seq (Print s x p) q = Print s x (seq p q)"
| "seq Exit q = Exit"
| "seq Return q = q"
| "seq Argv_overflow q = Argv_overflow"
| "seq Unterminated q = Unterminated"
| "seq Out_of_fuel q = Out_of_fuel"

section \<open>runcmd and execline\<close>

type_synonym str = "mem \<times> u64"

definition MAXARGS :: nat where
  "MAXARGS = 32"

text \<open>
  A redirection frees descriptor \<open>fd\<close> and opens the file, which takes the lowest free one. On a
  failure the process exits.
\<close>

definition redirect :: "i32 \<Rightarrow> omode \<Rightarrow> 'x \<Rightarrow> 'x sh \<Rightarrow> 'x sh" where
  "redirect fd md f p =
     Close fd (Open f md (\<lambda>r. if sint r < 0 then Print ''cannot open %s\<newline>'' f Exit else p))"

text \<open>\<open>exec\<close> takes the entries of \<open>argv\<close> up to its null pointer. It returns only on a failure.\<close>

definition runcmd :: "u64 \<Rightarrow> mem \<Rightarrow> str sh" where
  "runcmd cmdline m =
     (case parseline cmdline m of
        None \<Rightarrow> Unterminated
      | Some (argc, argv, infile, outfile, m) \<Rightarrow>
          if MAXARGS < length argv then Argv_overflow
          else if argc = 0 then Exit
          else
            (if infile \<noteq> 0 then redirect 0 RDONLY (m, infile) else id)
            ((if outfile \<noteq> 0 then redirect 1 WRONLY_CREATE (m, outfile) else id)
            (Exec (m, argv ! 0) (map (Pair m) (takeWhile (\<lambda>a. a \<noteq> 0) argv))
              (Print ''exec %s failed\<newline>'' (m, argv ! 0) Exit))))"

text \<open>\<open>execline\<close> calls itself on the rest of the line; the fuel bounds the depth.\<close>

fun execline :: "nat \<Rightarrow> u64 \<Rightarrow> mem \<Rightarrow> str sh" where
  "execline 0 cmdline m = Out_of_fuel"
| "execline (Suc n) cmdline m =
     (case findpipe cmdline m of
        None \<Rightarrow> Unterminated
      | Some (right, m) \<Rightarrow>
          if right = 0 then seq (runcmd cmdline m) Return
          else Pipe (\<lambda>fd0 fd1. Fork (\<lambda>pid1.
            let rest = Fork (\<lambda>pid2.
              let parent = Close fd0 (Close fd1 (Wait (Wait Return))) in
              if pid2 = 0
              then Close 0 (Dup fd0 (Close fd0 (Close fd1
                (seq (execline n right m) (seq Exit parent)))))
              else parent) in
            if pid1 = 0
            then Close 1 (Dup fd1 (Close fd0 (Close fd1 (seq (runcmd cmdline m) rest))))
            else rest)))"

section \<open>The meaning of a command line\<close>

text \<open>One command: its words are executed, with its files in the place of input and output.\<close>

definition with_file :: "i32 \<Rightarrow> omode \<Rightarrow> 'x option \<Rightarrow> 'x sh \<Rightarrow> 'x sh" where
  "with_file fd md f p = (case f of None \<Rightarrow> p | Some name \<Rightarrow> redirect fd md name p)"

definition command :: "u8 list \<Rightarrow> u8 list sh" where
  "command bs =
     (let l = line_of bs; ws = l_words l in
      if MAXARGS \<le> length ws then Argv_overflow
      else if ws = [] then Exit
      else with_file 0 RDONLY (l_in l) (with_file 1 WRONLY_CREATE (l_out l)
        (Exec (hd ws) ws (Print ''exec %s failed\<newline>'' (hd ws) Exit))))"

text \<open>
  A pipeline: one child runs the first command with its output in the pipe, another runs the rest
  with its input from the pipe, and the parent closes the pipe and waits for both.
\<close>

fun pipeline :: "u8 list list \<Rightarrow> u8 list sh" where
  "pipeline [] = Return"
| "pipeline [c] = command c"
| "pipeline (c # cs) = Pipe (\<lambda>fd0 fd1. Fork (\<lambda>pid1.
     if pid1 = 0 then Close 1 (Dup fd1 (Close fd0 (Close fd1 (command c))))
     else Fork (\<lambda>pid2.
       if pid2 = 0 then Close 0 (Dup fd0 (Close fd0 (Close fd1 (seq (pipeline cs) Exit))))
       else Close fd0 (Close fd1 (Wait (Wait Return))))))"

function split_pipes :: "u8 list \<Rightarrow> u8 list list" where
  "split_pipes bs =
     (case dropWhile (\<lambda>c. c \<noteq> 124) bs of
        [] \<Rightarrow> [bs]
      | c # cs \<Rightarrow> takeWhile (\<lambda>c. c \<noteq> 124) bs # split_pipes cs)"
  by auto
termination
  by (relation "measure length")
    (auto, metis Suc_le_lessD length_Cons length_dropWhile_le)

declare split_pipes.simps [simp del]

text \<open>A pointer in the program and the string it points to.\<close>

definition points_to :: "str \<Rightarrow> u8 list \<Rightarrow> bool" where
  "points_to a bs \<longleftrightarrow> cstr (fst a) (snd a) bs"

section \<open>The program implements the meaning\<close>

lemma seq_Return [simp]: "seq p Return = p"
  by (induction p) (auto simp: fun_eq_iff)

lemma seq_assoc: "seq (seq p q) r = seq p (seq q r)"
  by (induction p) (auto simp: fun_eq_iff)

lemma seq_redirect [simp]: "seq (redirect fd md f p) q = redirect fd md f (seq p q)"
  by (auto simp: redirect_def fun_eq_iff)

lemma runcmd_never_returns: "seq (runcmd l m) q = runcmd l m"
  by (simp add: runcmd_def split: option.split prod.split)

lemma rel_seq: "rel_sh R p p' \<Longrightarrow> rel_sh R q q' \<Longrightarrow> rel_sh R (seq p q) (seq p' q')"
  by (induction p p' rule: sh.rel_induct) (auto simp: rel_fun_def)

lemma rel_redirect:
  "R f f' \<Longrightarrow> rel_sh R p p' \<Longrightarrow> rel_sh R (redirect fd md f p) (redirect fd md f' p')"
  by (simp add: redirect_def rel_fun_def)

lemma runcmd_spec:
  assumes "cstr m l bs" "in_space l (length bs + 1)" "l \<noteq> 0"
  shows "rel_sh points_to (runcmd l m) (command bs)"
proof -
  let ?l = "line_of bs"
  from parseline_spec [OF assms] obtain as i out m' where
    pl: "parseline l m = Some (of_nat (length as), as @ [0], i, out, m')"
    and ws: "list_all2 (cstr m') as (l_words ?l)" and sp: "set as \<subseteq> span l (length bs)"
    and fi: "file_ptr m' l (length bs) 0 (l_in ?l) i" "i = 0 \<longleftrightarrow> l_in ?l = None"
    and fo: "file_ptr m' l (length bs) 0 (l_out ?l) out" "out = 0 \<longleftrightarrow> l_out ?l = None"
    by (elim exE conjE)
  have len: "length as = length (l_words ?l)" using ws by (rule list_all2_lengthD)
  show ?thesis
  proof (cases "MAXARGS \<le> length as")
    case True
    then show ?thesis using pl len by (simp add: runcmd_def command_def Let_def)
  next
    case False
    then have argc: "(of_nat (length as) :: i32) = 0 \<longleftrightarrow> as = []"
      by (simp add: MAXARGS_def word_unat_eq_iff unat_of_nat)
    show ?thesis
    proof (cases as)
      case Nil
      then show ?thesis using pl len by (simp add: runcmd_def command_def Let_def MAXARGS_def)
    next
      case (Cons a as')
      then obtain w ws' where l: "l_words ?l = w # ws'" "cstr m' a w" using ws by (cases "l_words ?l") auto
      have "0 \<notin> set as" using span_zero [OF assms(2,3)] sp by auto
      then have tw: "takeWhile (\<lambda>a. a \<noteq> 0) (as @ [0]) = as" by (subst takeWhile_append2) auto
      have ex: "rel_sh points_to
          (Exec (m', a) (map (Pair m') as) (Print ''exec %s failed\<newline>'' (m', a) Exit))
          (Exec w (w # ws') (Print ''exec %s failed\<newline>'' w Exit))"
        using ws l by (simp add: points_to_def list_all2_map1)
      have rd: "rel_sh points_to ((if b \<noteq> 0 then redirect fd md (m', b) else id) p) (with_file fd md f p')"
        if "rel_sh points_to p p'" "file_ptr m' l (length bs) 0 f b" "b = 0 \<longleftrightarrow> f = None" for fd md b f p p'
        using that by (auto simp: with_file_def file_ptr_def points_to_def intro!: rel_redirect)
      have "runcmd l m = (if i \<noteq> 0 then redirect 0 RDONLY (m', i) else id)
          ((if out \<noteq> 0 then redirect 1 WRONLY_CREATE (m', out) else id)
          (Exec (m', a) (map (Pair m') as) (Print ''exec %s failed\<newline>'' (m', a) Exit)))"
        using pl False argc Cons tw by (simp add: runcmd_def)
      moreover have "command bs = with_file 0 RDONLY (l_in ?l) (with_file 1 WRONLY_CREATE (l_out ?l)
          (Exec w (w # ws') (Print ''exec %s failed\<newline>'' w Exit)))"
        using False len l by (simp add: command_def Let_def)
      ultimately show ?thesis using rd [OF rd [OF ex fo] fi] by simp
    qed
  qed
qed

lemma split_none: "124 \<notin> set bs \<Longrightarrow> split_pipes bs = [bs]"
proof -
  assume "124 \<notin> set bs"
  then have "dropWhile (\<lambda>c. c \<noteq> 124) bs = []" by (auto simp: dropWhile_eq_Nil_conv)
  then show ?thesis by (subst split_pipes.simps) (simp only: list.case)
qed

lemma split_some: "124 \<notin> set as \<Longrightarrow> split_pipes (as @ 124 # bs) = as # split_pipes bs"
proof -
  assume a: "124 \<notin> set as"
  then have "dropWhile (\<lambda>c. c \<noteq> 124) (as @ 124 # bs) = 124 # bs"
    "takeWhile (\<lambda>c. c \<noteq> 124) (as @ 124 # bs) = as"
    by (subst dropWhile_append2 takeWhile_append2; auto)+
  then show ?thesis by (subst split_pipes.simps) (simp only: list.case)
qed

lemma split_nonempty: "split_pipes bs \<noteq> []"
  by (subst split_pipes.simps) (simp split: list.split)

lemma in_space_sub: "in_space p (n + 1) \<Longrightarrow> k \<le> n \<Longrightarrow> in_space (p + of_nat k) (n - k + 1)"
  using in_space_unat [of p "n + 1" k] by (simp add: in_space_def)

text \<open>The text of the first command and of the rest, after the bar between them became NUL.\<close>

lemma split_line:
  assumes c: "cstr m l (as @ 124 # bs)" and s: "in_space l (length (as @ 124 # bs) + 1)" "l \<noteq> 0"
  shows "cstr (m(l + of_nat (length as) := 0)) l as" "in_space l (length as + 1)"
    "cstr (m(l + of_nat (length as) := 0)) (l + of_nat (length as) + 1) bs"
    "in_space (l + of_nat (length as) + 1) (length bs + 1)" "l + of_nat (length as) + 1 \<noteq> 0"
proof -
  let ?k = "length as" and ?n = "length (as @ 124 # bs)"
  have n: "?n < 2 ^ 64" using s by (simp add: in_space_def)
  have r: "cstr m (l + of_nat ?k + 1) bs" using c by (simp add: cstr_append)
  show "cstr (m(l + of_nat ?k := 0)) (l + of_nat ?k + 1) bs" by (rule cstr_upd [OF r]) (use n in simp)
  have "only (span (l + of_nat ?k) 0) m (m(l + of_nat ?k := 0))" by (intro only_upd) simp
  then show "cstr (m(l + of_nat ?k := 0)) l as" 
    by (rule only_cstr [OF _ c]) (use n in simp_all)
  show "in_space l (?k + 1)" using s(1) by (simp add: in_space_def)
  have e: "l + of_nat ?k + 1 = l + of_nat (?k + 1)" by (simp add: algebra_simps)
  show "in_space (l + of_nat ?k + 1) (length bs + 1)"
    using in_space_sub [OF s(1), of "?k + 1"] unfolding e by simp
  have "l + of_nat (?k + 1) \<in> span l ?n" by (intro span_nth) simp
  then show "l + of_nat ?k + 1 \<noteq> 0" using span_zero [OF s] unfolding e by metis
qed

lemma execline_spec:
  "cstr m l bs \<Longrightarrow> in_space l (length bs + 1) \<Longrightarrow> l \<noteq> 0 \<Longrightarrow> count_list bs 124 < n \<Longrightarrow>
   rel_sh points_to (execline n l m) (pipeline (split_pipes bs))"
proof (induction n arbitrary: l m bs)
  case (Suc n)
  show ?case
  proof (cases "124 \<in> set bs")
    case False
    then show ?thesis
      using runcmd_spec [OF Suc.prems(1-3)] findpipe_none [OF Suc.prems(1)]
      by (simp add: split_none)
  next
    case True
    then obtain as cs where bs: "bs = as @ 124 # cs" "124 \<notin> set as" by (metis split_list_first)
    let ?m = "m(l + of_nat (length as) := 0)" and ?r = "l + of_nat (length as) + 1"
    note sl = split_line [OF Suc.prems(1-3) [unfolded bs(1)]]
    have fp: "findpipe l m = Some (?r, ?m)" using findpipe_some Suc.prems(1) bs by simp
    have "count_list cs 124 < n" using Suc.prems(4) bs by (simp add: count_list_append)
    then have right: "rel_sh points_to (execline n ?r ?m) (pipeline (split_pipes cs))"
      using sl(3,4,5) by (intro Suc.IH)
    have left: "rel_sh points_to (runcmd l ?m) (command as)"
      using sl(1,2) Suc.prems(3) by (rule runcmd_spec)
    obtain d ds where sp: "split_pipes cs = d # ds" using split_nonempty by (cases "split_pipes cs") auto
    have "rel_sh points_to (seq (execline n ?r ?m) Exit) (seq (pipeline (d # ds)) Exit)"
      using right unfolding sp by (rule rel_seq) simp
    then have "rel_sh points_to (execline (Suc n) l m) (pipeline (as # d # ds))"
      using left
      by (simp only: execline.simps fp option.case prod.case if_not_P [OF sl(5)] pipeline.simps seq.simps
        runcmd_never_returns Let_def sh.rel_inject) (simp add: rel_fun_def)
    then show ?thesis by (simp only: bs(1) split_some [OF bs(2)] sp)
  qed
qed simp

section \<open>The main loop\<close>

text \<open>
  \<open>getcmd\<close> reads a line into the buffer (its prompt is output only). \<open>rd\<close> is the read of one
  byte of the standard input in the state \<open>'w\<close> of the world.
\<close>

definition getcmd :: "('w \<Rightarrow> i32 \<times> u8 \<times> 'w) \<Rightarrow> u64 \<Rightarrow> i32 \<Rightarrow> mem \<times> 'w \<Rightarrow> (i32 \<times> mem \<times> 'w) option" where
  "getcmd rd buf nbuf mw =
     (case mw of (m, w) \<Rightarrow>
      Option.bind (umemset buf 0 nbuf m) (\<lambda>(_, m).
      Option.bind (gets rd buf nbuf (m, w)) (\<lambda>(_, m, w).
      Some (if m buf = 0 then -1 else 0, m, w))))"

text \<open>The child of one line, with the wait of the shell.\<close>

definition sh_child :: "nat \<Rightarrow> u64 \<Rightarrow> mem \<Rightarrow> str sh" where
  "sh_child n buf m = Fork (\<lambda>pid. if pid = 0 then seq (execline n buf m) Exit else Wait Return)"

text \<open>
  One round of the loop of \<open>main\<close>: no child when the shell exits. \<open>e1\<close> and \<open>e2\<close> are the
  addresses of its two string constants.
\<close>

definition sh_round ::
  "('w \<Rightarrow> i32 \<times> u8 \<times> 'w) \<Rightarrow> nat \<Rightarrow> u64 \<Rightarrow> u64 \<Rightarrow> u64 \<Rightarrow> mem \<times> 'w \<Rightarrow> (str sh option \<times> mem \<times> 'w) option" where
  "sh_round rd n buf e1 e2 mw =
     Option.bind (getcmd rd buf 100 mw) (\<lambda>(r, m, w).
       if sint r < 0 then Some (None, m, w)
       else Option.bind (strcmp buf e1 m) (\<lambda>a.
         if a = 0 then Some (None, m, w)
         else Option.bind (strcmp buf e2 m) (\<lambda>b.
           if b = 0 then Some (None, m, w) else Some (Some (sh_child n buf m), m, w))))"

text \<open>
  The loop, with the children it makes; \<open>run\<close> is what a child, which the shell waits for, does to
  the world. The fuel bounds the number of rounds. The prompt and the lines that \<open>sh.c\<close> prints at its
  start and end are left out.
\<close>

fun sh_main ::
  "('w \<Rightarrow> i32 \<times> u8 \<times> 'w) \<Rightarrow> (str sh \<Rightarrow> 'w \<Rightarrow> 'w) \<Rightarrow> nat \<Rightarrow> u64 \<Rightarrow> u64 \<Rightarrow> u64 \<Rightarrow> nat \<Rightarrow> mem \<times> 'w \<Rightarrow>
    (str sh list \<times> mem \<times> 'w) option" where
  "sh_main rd run n buf e1 e2 0 mw = None"
| "sh_main rd run n buf e1 e2 (Suc k) mw =
     Option.bind (sh_round rd n buf e1 e2 mw) (\<lambda>(c, m, w).
       case c of
         None \<Rightarrow> Some ([], m, w)
       | Some t \<Rightarrow> map_option (\<lambda>(ts, mw). (t # ts, mw))
           (sh_main rd run n buf e1 e2 k (m, run t w)))"

definition exit_line :: "u8 list" where
  "exit_line = [101, 120, 105, 116, 10]"

definition exit_word :: "u8 list" where
  "exit_word = [101, 120, 105, 116]"

text \<open>The memory of the shell: a line buffer of 100 bytes apart from the two constants.\<close>

definition sh_memory :: "u64 \<Rightarrow> u64 \<Rightarrow> u64 \<Rightarrow> mem \<Rightarrow> bool" where
  "sh_memory buf e1 e2 m \<longleftrightarrow> in_space buf 100 \<and> buf \<noteq> 0 \<and>
     cstr m e1 exit_line \<and> span e1 (length exit_line) \<inter> span buf 99 = {} \<and>
     cstr m e2 exit_word \<and> span e2 (length exit_word) \<inter> span buf 99 = {}"

definition child :: "u8 list \<Rightarrow> u8 list sh" where
  "child bs = Fork (\<lambda>pid. if pid = 0 then seq (pipeline (split_pipes bs)) Exit else Wait Return)"

definition is_exit :: "u8 list \<Rightarrow> bool" where
  "is_exit bs \<longleftrightarrow> bs = [] \<or> bs = exit_line \<or> bs = exit_word"

text \<open>The line that a round of the shell gets, up to its first NUL.\<close>

definition next_line :: "('w \<Rightarrow> i32 \<times> u8 \<times> 'w) \<Rightarrow> 'w \<Rightarrow> u8 list" where
  "next_line rd w = takeWhile (\<lambda>c. c \<noteq> 0) (fst (read_line rd 99 w))"

lemma put_line_snoc: "put_line m a (bs @ [c]) = (put_line m a bs)(a + of_nat (length bs) := c)"
  by (induction bs arbitrary: m a) (simp_all add: algebra_simps)

lemma put_line_nth:
  "length bs \<le> 2 ^ 64 \<Longrightarrow> put_line m a bs x = (if unat (x - a) < length bs then bs ! unat (x - a) else m x)"
proof (induction bs rule: rev_induct)
  case (snoc c bs)
  then have "length bs < 2 ^ 64" by simp
  then have "x = a + of_nat (length bs) \<longleftrightarrow> unat (x - a) = length bs" by (rule addr_eq)
  then show ?case using snoc by (auto simp: put_line_snoc nth_append)
qed simp

lemma put_line_cstr:
  assumes "length bs < 2 ^ 64"
  shows "cstr (put_line m a (bs @ [0])) a (takeWhile (\<lambda>c. c \<noteq> 0) bs)"
proof -
  let ?t = "takeWhile (\<lambda>c. c \<noteq> 0) bs"
  have le: "length ?t \<le> length bs" by (rule length_takeWhile_le)
  have at: "put_line m a (bs @ [0]) (a + of_nat i) = (bs @ [0]) ! i" if "i \<le> length bs" for i
    using put_line_nth [of "bs @ [0]" m a "a + of_nat i"] that assms by (simp add: unat_of_nat)
  have "(bs @ [0]) ! length ?t = 0"
    using nth_length_takeWhile [of "\<lambda>c. c \<noteq> 0" bs] le by (auto simp: nth_append)
  moreover have "(bs @ [0]) ! i = ?t ! i" if "i < length ?t" for i
    using that le by (simp add: nth_append takeWhile_nth)
  ultimately show ?thesis using at le by (auto simp: cstr_def dest: set_takeWhileD)
qed

lemma only_mem_cstr: "only S m m' \<Longrightarrow> cstr m a bs \<Longrightarrow> span a (length bs) \<inter> S = {} \<Longrightarrow> cstr m' a bs"
  by (rule cstr_frame) (auto simp: only_def dest: span_nth)

lemma in_span: "x \<in> span p n \<longleftrightarrow> unat (x - p) \<le> n" if "n < 2 ^ 64"
proof
  assume "x \<in> span p n"
  then show "unat (x - p) \<le> n" using that by (auto simp: span_def unat_of_nat)
next
  assume "unat (x - p) \<le> n"
  from span_nth [OF this, of p] show "x \<in> span p n" by simp
qed

lemma getcmd_spec:
  assumes "read_line rd 99 w = (bs, w')"
  shows "\<exists>m'. getcmd rd buf 100 (m, w) = Some (if next_line rd w = [] then -1 else 0, m', w') \<and>
    cstr m' buf (next_line rd w) \<and> only (span buf 99) m m'"
proof -
  have n: "next_line rd w = takeWhile (\<lambda>c. c \<noteq> 0) bs" by (simp add: next_line_def assms)
  have len: "length bs \<le> 99" using read_line_length [of rd 99 w] assms by simp
  let ?m1 = "memset m buf 0 100"
  let ?m' = "put_line ?m1 buf (bs @ [0])"
  have c: "cstr ?m' buf (next_line rd w)" unfolding n using len by (intro put_line_cstr) simp
  have "?m' x = m x" if "x \<notin> span buf 99" for x
    using that len by (simp add: in_span put_line_nth memset_def word_less_nat_alt)
  then have "only (span buf 99) m ?m'" by (simp add: only_def)
  moreover have "getcmd rd buf 100 (m, w) = Some (if next_line rd w = [] then -1 else 0, ?m', w')"
    using cstr_head [OF c] by (simp add: getcmd_def umemset_spec gets_spec assms)
  ultimately show ?thesis using c by blast
qed

lemma count_list_le: "count_list bs c \<le> length bs"
  by (induction bs) auto

lemma sh_child_spec:
  assumes "cstr m buf bs" "in_space buf (length bs + 1)" "buf \<noteq> 0" "length bs < n"
  shows "rel_sh points_to (sh_child n buf m) (child bs)"
proof -
  have "rel_sh points_to (seq (execline n buf m) Exit) (seq (pipeline (split_pipes bs)) Exit)"
    using execline_spec [OF assms(1-3)] count_list_le [of bs 124] assms(4)
    by (intro rel_seq) (simp_all add: le_less_trans)
  then show ?thesis by (simp add: sh_child_def child_def rel_fun_def)
qed

lemma next_line_length: "length (next_line rd w) \<le> 99"
  using length_takeWhile_le [of "\<lambda>c. c \<noteq> 0" "fst (read_line rd 99 w)"] read_line_length [of rd 99 w]
  by (simp add: next_line_def)

lemma sh_round_spec:
  assumes mem: "sh_memory buf e1 e2 m" and n: "100 \<le> n" and rl: "read_line rd 99 w = (bs, w')"
  shows "\<exists>m' c. sh_round rd n buf e1 e2 (m, w) = Some (c, m', w') \<and> sh_memory buf e1 e2 m' \<and>
    only (span buf 99) m m' \<and>
    (if is_exit (next_line rd w) then c = None
     else \<exists>t. c = Some t \<and> rel_sh points_to t (child (next_line rd w)))"
proof -
  let ?l = "next_line rd w"
  from getcmd_spec [OF rl] obtain m' where
    g: "getcmd rd buf 100 (m, w) = Some (if ?l = [] then -1 else 0, m', w')"
    and c: "cstr m' buf ?l" and o: "only (span buf 99) m m'" by blast
  have c1: "cstr m' e1 exit_line" and c2: "cstr m' e2 exit_word"
    using mem only_mem_cstr [OF o] by (auto simp: sh_memory_def)
  then have mem': "sh_memory buf e1 e2 m'" using mem by (simp add: sh_memory_def)
  from strcmp_spec [OF c c1] strcmp_spec [OF c c2] obtain a b where
    ab: "strcmp buf e1 m' = Some a" "a = 0 \<longleftrightarrow> ?l = exit_line"
      "strcmp buf e2 m' = Some b" "b = 0 \<longleftrightarrow> ?l = exit_word" by blast
  have "in_space buf (length ?l + 1)" using mem next_line_length [of rd w]
    by (simp add: sh_memory_def in_space_def)
  then have t: "rel_sh points_to (sh_child n buf m') (child ?l)"
    using c mem n next_line_length [of rd w] by (intro sh_child_spec) (auto simp: sh_memory_def)
  have "sh_round rd n buf e1 e2 (m, w) =
      Some (if is_exit ?l then None else Some (sh_child n buf m'), m', w')"
    using g ab by (simp add: sh_round_def is_exit_def)
  then show ?thesis using mem' o t by auto
qed

text \<open>The loop ends when the input does: each line takes at least a byte from it.\<close>

lemma read_line_less:
  assumes "\<forall>w cc c w'. rd w = (cc, c, w') \<longrightarrow> \<mu> w' \<le> \<mu> w \<and> (1 \<le> sint cc \<longrightarrow> \<mu> w' < (\<mu> w :: nat))"
    and "read_line rd n w = (bs, w')"
  shows "\<mu> w' \<le> \<mu> w" "bs \<noteq> [] \<Longrightarrow> \<mu> w' < \<mu> w"
proof -
  have "\<mu> w' \<le> \<mu> w \<and> (bs \<noteq> [] \<longrightarrow> \<mu> w' < \<mu> w)" using assms(2)
  proof (induction n arbitrary: w bs w')
    case (Suc n)
    obtain cc c w1 where rd: "rd w = (cc, c, w1)" by (cases "rd w") auto
    have m: "\<mu> w1 \<le> \<mu> w" "1 \<le> sint cc \<longrightarrow> \<mu> w1 < \<mu> w" using assms(1) rd by blast+
    obtain bs2 w2 where r2: "read_line rd n w1 = (bs2, w2)" by fastforce
    from Suc.IH [OF r2] have "\<mu> w2 \<le> \<mu> w1" by simp
    then show ?case using Suc.prems rd m r2 by (auto split: if_splits)
  qed simp
  then show "\<mu> w' \<le> \<mu> w" "bs \<noteq> [] \<Longrightarrow> \<mu> w' < \<mu> w" by auto
qed

text \<open>
  The lines that the shell runs: all lines of its input up to the first one that ends it. \<open>run\<close>
  is what running a line does to the world.
\<close>

fun session :: "('w \<Rightarrow> i32 \<times> u8 \<times> 'w) \<Rightarrow> (u8 list \<Rightarrow> 'w \<Rightarrow> 'w) \<Rightarrow> nat \<Rightarrow> 'w \<Rightarrow> (u8 list list \<times> 'w) option" where
  "session rd run 0 w = None"
| "session rd run (Suc k) w =
     (let l = next_line rd w; w = snd (read_line rd 99 w) in
      if is_exit l then Some ([], w)
      else map_option (\<lambda>(ls, w). (l # ls, w)) (session rd run k (run l w)))"

lemma sh_main_spec:
  assumes rd: "\<forall>w cc c w'. rd w = (cc, c, w') \<longrightarrow> \<mu> w' \<le> \<mu> w \<and> (1 \<le> sint cc \<longrightarrow> \<mu> w' < (\<mu> w :: nat))"
    and run: "\<forall>t l w. rel_sh points_to t (child l) \<longrightarrow> run t w = run' l w" "\<forall>l w. \<mu> (run' l w) \<le> \<mu> w"
    and n: "100 \<le> n"
  shows "sh_memory buf e1 e2 m \<Longrightarrow> \<mu> w < k \<Longrightarrow>
    \<exists>ts ls m' w'. sh_main rd run n buf e1 e2 k (m, w) = Some (ts, m', w') \<and>
      session rd run' k w = Some (ls, w') \<and> list_all2 (rel_sh points_to) ts (map child ls)"
proof (induction k arbitrary: m w)
  case (Suc k)
  let ?l = "next_line rd w"
  obtain bs w' where rl: "read_line rd 99 w = (bs, w')" by fastforce
  from sh_round_spec [OF Suc.prems(1) n rl] obtain m' c where
    r: "sh_round rd n buf e1 e2 (m, w) = Some (c, m', w')" and mem: "sh_memory buf e1 e2 m'"
    and c: "if is_exit ?l then c = None else \<exists>t. c = Some t \<and> rel_sh points_to t (child ?l)"
    by (elim exE conjE)
  show ?case
  proof (cases "is_exit ?l")
    case True
    then show ?thesis using r c by (simp add: Let_def rl)
  next
    case False
    then obtain t where t: "c = Some t" "rel_sh points_to t (child ?l)" using c by auto
    have "?l \<noteq> []" using False by (auto simp: is_exit_def)
    then have "bs \<noteq> []" by (auto simp: next_line_def rl)
    then have "\<mu> w' < \<mu> w" by (rule read_line_less(2) [OF rd rl])
    moreover have "run t w' = run' ?l w'" using run(1) t(2) by blast
    moreover have "\<mu> (run' ?l w') \<le> \<mu> w'" using run(2) by blast
    ultimately have e: "run t w' = run' ?l w'" and lt: "\<mu> (run t w') < k" using Suc.prems(2) by simp_all
    from Suc.IH [OF mem lt] show ?thesis using r t False e by (auto simp: Let_def rl)
  qed
qed simp

end
