(* ===== verification/Shell_Fds.thy ===== *)
theory Shell_Fds
  imports Shell_Exec
begin

text \<open>
  What the system calls of the shell do to the descriptors of its processes. The file layer of the
  kernel is not in the repository: the calls on a descriptor table are parameters, with the
  behaviour that the shell relies on, that a new descriptor is the lowest free one.
\<close>

section \<open>The commands that a process tree executes\<close>

record 't fdops =
  fd_close :: "i32 \<Rightarrow> 't \<Rightarrow> 't"
  fd_dup :: "i32 \<Rightarrow> 't \<Rightarrow> 't"
  fd_pipe :: "'t \<Rightarrow> (i32 \<times> i32) \<times> 't"

text \<open>
  The descriptor table and the arguments at each \<open>exec\<close>, children before their parent. A fork
  copies the table; \<open>pid\<close> is its result in the parent.
\<close>

primrec execs ::
  "'t fdops \<Rightarrow> ('x \<Rightarrow> omode \<Rightarrow> 't \<Rightarrow> i32 \<times> 't) \<Rightarrow> i32 \<Rightarrow> 'x sh \<Rightarrow> 't \<Rightarrow> ('t \<times> 'x list) list" where
  "execs u op pid (Close fd p) t = execs u op pid p (fd_close u fd t)"
| "execs u op pid (Open f md p) t = (case op f md t of (r, t) \<Rightarrow> execs u op pid (p r) t)"
| "execs u op pid (Dup fd p) t = execs u op pid p (fd_dup u fd t)"
| "execs u op pid (Pipe p) t = (case fd_pipe u t of ((a, b), t) \<Rightarrow> execs u op pid (p a b) t)"
| "execs u op pid (Fork p) t = execs u op pid (p 0) t @ execs u op pid (p pid) t"
| "execs u op pid (Wait p) t = execs u op pid p t"
| "execs u op pid (Exec f as p) t = [(t, as)]"
| "execs u op pid (Print s x p) t = execs u op pid p t"
| "execs u op pid Exit t = []"
| "execs u op pid Return t = []"
| "execs u op pid Argv_overflow t = []"
| "execs u op pid Unterminated t = []"
| "execs u op pid Out_of_fuel t = []"

section \<open>What the shell relies on\<close>

definition lowest :: "nat \<Rightarrow> (i32 \<Rightarrow> 'o option) \<Rightarrow> i32 \<Rightarrow> bool" where
  "lowest limit f n \<longleftrightarrow> 0 \<le> sint n \<and> sint n < int limit \<and> f n = None \<and>
     (\<forall>j. 0 \<le> sint j \<longrightarrow> sint j < sint n \<longrightarrow> f j \<noteq> None)"

text \<open>
  \<open>get\<close> gives the open objects of a table, \<open>ends\<close> the two ends of the pipe that the next call
  of \<open>pipe\<close> makes. A call that finds no free descriptor is not constrained.
\<close>

definition fd_laws :: "'t fdops \<Rightarrow> nat \<Rightarrow> ('t \<Rightarrow> i32 \<Rightarrow> 'o option) \<Rightarrow> ('t \<Rightarrow> 'o \<times> 'o) \<Rightarrow> bool" where
  "fd_laws u limit get ends \<longleftrightarrow>
     (\<forall>t fd. get (fd_close u fd t) = (get t)(fd := None)) \<and>
     (\<forall>t fd n ob. get t fd = Some ob \<longrightarrow> lowest limit (get t) n \<longrightarrow>
       get (fd_dup u fd t) = (get t)(n := Some ob)) \<and>
     (\<forall>t a b. lowest limit (get t) a \<longrightarrow> lowest limit ((get t)(a := Some (fst (ends t)))) b \<longrightarrow>
       fst (fd_pipe u t) = (a, b) \<and>
       get (snd (fd_pipe u t)) = (get t)(a := Some (fst (ends t)), b := Some (snd (ends t))))"

text \<open>\<open>file name md\<close> is the object of a file that can be opened.\<close>

definition open_laws ::
  "(u8 list \<Rightarrow> omode \<Rightarrow> 't \<Rightarrow> i32 \<times> 't) \<Rightarrow> nat \<Rightarrow> ('t \<Rightarrow> i32 \<Rightarrow> 'o option) \<Rightarrow>
   (u8 list \<Rightarrow> omode \<Rightarrow> 'o option) \<Rightarrow> bool" where
  "open_laws op limit get fob \<longleftrightarrow>
     (\<forall>name md t n. lowest limit (get t) n \<longrightarrow>
       (case fob name md of
          None \<Rightarrow> sint (fst (op name md t)) < 0
        | Some ob \<Rightarrow> fst (op name md t) = n \<and> get (snd (op name md t)) = (get t)(n := Some ob)))"

section \<open>The plumbing of a pipeline\<close>

text \<open>One command in a table: its words in the table with its files, if they can be opened.\<close>

definition put_file :: "i32 \<Rightarrow> (u8 list \<Rightarrow> 'o option) \<Rightarrow> u8 list option \<Rightarrow> (i32 \<Rightarrow> 'o option) \<Rightarrow> (i32 \<Rightarrow> 'o option) option" where
  "put_file fd fob name f =
     (case name of
        None \<Rightarrow> Some f
      | Some s \<Rightarrow> (case fob s of None \<Rightarrow> None | Some ob \<Rightarrow> Some (f(fd := Some ob))))"

definition stage :: "(u8 list \<Rightarrow> omode \<Rightarrow> 'o option) \<Rightarrow> (i32 \<Rightarrow> 'o option) \<Rightarrow> u8 list \<Rightarrow> ((i32 \<Rightarrow> 'o option) \<times> u8 list list) list" where
  "stage fob f bs =
     (let l = line_of bs in
      if l_words l = [] then []
      else case Option.bind (put_file 0 (\<lambda>s. fob s RDONLY) (l_in l) f)
             (put_file 1 (\<lambda>s. fob s WRONLY_CREATE) (l_out l)) of
          None \<Rightarrow> []
        | Some g \<Rightarrow> [(g, l_words l)])"

text \<open>
  The commands of a pipeline with the pipes between them: all but the first read from the pipe
  before them, all but the last write to the pipe behind them, and all other descriptors are
  those of the shell.
\<close>

fun stages :: "(u8 list \<Rightarrow> omode \<Rightarrow> 'o option) \<Rightarrow> (i32 \<Rightarrow> 'o option) \<Rightarrow> ('o \<times> 'o) list \<Rightarrow> u8 list list \<Rightarrow>
    ((i32 \<Rightarrow> 'o option) \<times> u8 list list) list" where
  "stages fob f ps [] = []"
| "stages fob f ps [c] = stage fob f c"
| "stages fob f [] (c # d # cs) = []"
| "stages fob f (pe # ps) (c # d # cs) =
     stage fob (f(1 := Some (snd pe))) c @ stages fob (f(0 := Some (fst pe))) ps (d # cs)"

text \<open>Standard input and output are open, and there is room for a pipe.\<close>

definition room :: "nat \<Rightarrow> (i32 \<Rightarrow> 'o option) \<Rightarrow> bool" where
  "room limit f \<longleftrightarrow> f 0 \<noteq> None \<and> f 1 \<noteq> None \<and>
     (\<exists>a b. lowest limit f a \<and> lowest limit (f(a := f 0)) b)"

lemma lowest_cong: "(\<And>x. f x = None \<longleftrightarrow> g x = None) \<Longrightarrow> lowest limit f n = lowest limit g n"
  by (auto simp: lowest_def)

lemma room_put: "room limit f \<Longrightarrow> fd = 0 \<or> fd = 1 \<Longrightarrow> room limit (f(fd := Some ob))"
proof -
  assume r: "room limit f" and fd: "fd = 0 \<or> fd = 1"
  then obtain a b where ab: "lowest limit f a" "lowest limit (f(a := f 0)) b" by (auto simp: room_def)
  have "lowest limit (f(fd := Some ob)) a = lowest limit f a"
    using r fd by (intro lowest_cong) (auto simp: room_def)
  moreover have "lowest limit ((f(fd := Some ob))(a := (f(fd := Some ob)) 0)) b = lowest limit (f(a := f 0)) b"
    using r fd by (intro lowest_cong) (auto simp: room_def)
  moreover have "(f(fd := Some ob)) 0 \<noteq> None" "(f(fd := Some ob)) 1 \<noteq> None" using r by (auto simp: room_def)
  ultimately show ?thesis using ab unfolding room_def by blast
qed

lemma room_limit: "room limit f \<Longrightarrow> 1 < limit"
proof -
  assume "room limit f"
  then obtain a where a: "f a = None" "0 \<le> sint a" "sint a < int limit" "f 0 \<noteq> None" "f 1 \<noteq> None"
    by (auto simp: room_def lowest_def)
  then have "sint a \<noteq> sint (0 :: i32)" "sint a \<noteq> sint (1 :: i32)" by (metis signed_word_eqI)+
  then show "1 < limit" using a by simp
qed

lemma lowest_01:
  assumes "f 0 \<noteq> None" "1 < limit"
  shows "lowest limit (f(0 := None)) 0" "lowest limit (f(1 := None)) 1"
proof -
  have "j = 0" if "0 \<le> sint j" "sint j < 1" for j :: i32
  proof -
    have "sint j = sint (0 :: i32)" using that by simp
    then show ?thesis by (rule signed_word_eqI)
  qed
  then show "lowest limit (f(0 := None)) 0" "lowest limit (f(1 := None)) 1"
    using assms by (auto simp: lowest_def)
qed

lemma room_pipe:
  assumes r: "room limit f"
  obtains a b where "lowest limit f a" "\<And>ob. lowest limit (f(a := Some ob)) b"
    "a \<noteq> b" "f a = None" "f b = None" "a \<noteq> 0" "a \<noteq> 1" "b \<noteq> 0" "b \<noteq> 1"
proof -
  obtain a b where ab: "lowest limit f a" "lowest limit (f(a := f 0)) b" "f 0 \<noteq> None" "f 1 \<noteq> None"
    using r by (auto simp: room_def)
  have l: "lowest limit (f(a := Some ob)) b" for ob
    using ab(2,3) lowest_cong [of "f(a := Some ob)" "f(a := f 0)" limit b] by auto
  have n: "a \<noteq> b" "f a = None" "f b = None"
    using ab by (auto simp: lowest_def split: if_splits)
  then show thesis using ab l by (intro that [of a b]) auto
qed

lemma redirect_execs:
  assumes laws: "fd_laws u limit get ends" and op: "open_laws op limit get fob"
    and r: "room limit (get t)" and fd: "fd = 0 \<or> fd = 1"
  shows "\<exists>t'. execs u op pid (with_file fd md name p) t =
      (case put_file fd (\<lambda>s. fob s md) name (get t) of None \<Rightarrow> [] | Some g \<Rightarrow> execs u op pid p t') \<and>
    (\<forall>g. put_file fd (\<lambda>s. fob s md) name (get t) = Some g \<longrightarrow> get t' = g \<and> room limit g)"
proof (cases name)
  case None
  then show ?thesis using r by (auto simp: with_file_def put_file_def intro: exI [of _ t])
next
  case (Some s)
  let ?t = "fd_close u fd t"
  have g: "get ?t = (get t)(fd := None)" using laws by (simp add: fd_laws_def)
  have lo: "lowest limit (get ?t) fd" 
    using lowest_01 [OF _ room_limit [OF r], of "get t"] r fd unfolding g by (auto simp: room_def)
  obtain k t' where o: "op s md ?t = (k, t')" by fastforce
  have ol: "case fob s md of None \<Rightarrow> sint (fst (op s md ?t)) < 0
      | Some ob \<Rightarrow> fst (op s md ?t) = fd \<and> get (snd (op s md ?t)) = (get ?t)(fd := Some ob)"
    using op lo unfolding open_laws_def by blast
  show ?thesis
  proof (cases "fob s md")
    case None
    then have "sint k < 0" using ol o by simp
    then show ?thesis using Some None o by (simp add: with_file_def redirect_def put_file_def)
  next
    case (Some ob)
    then have k: "k = fd" "get t' = (get t)(fd := Some ob)" using ol o g by simp_all
    then have "\<not> sint k < 0" using fd by auto
    then show ?thesis using \<open>name = Some s\<close> Some o k room_put [OF r fd, of ob]
      by (auto simp: with_file_def redirect_def put_file_def)
  qed
qed

lemma command_execs:
  assumes "fd_laws u limit get ends" "open_laws op limit get fob" "room limit (get t)"
    "length (l_words (line_of c)) < MAXARGS"
  shows "map (apfst get) (execs u op pid (command c) t) = stage fob (get t) c"
proof (cases "l_words (line_of c) = []")
  case True
  then show ?thesis using assms(4) by (simp add: command_def stage_def Let_def)
next
  case False
  let ?l = "line_of c"
  let ?x = "Exec (hd (l_words ?l)) (l_words ?l) (Print ''exec %s failed\<newline>'' (hd (l_words ?l)) Exit)"
  let ?in = "put_file 0 (\<lambda>s. fob s RDONLY) (l_in ?l) (get t)"
  have cmd: "command c = with_file 0 RDONLY (l_in ?l) (with_file 1 WRONLY_CREATE (l_out ?l) ?x)"
    using False assms(4) by (simp add: command_def Let_def)
  from redirect_execs [OF assms(1-3), of 0 pid RDONLY "l_in ?l" "with_file 1 WRONLY_CREATE (l_out ?l) ?x"]
  obtain t1 where e1: "execs u op pid (command c) t =
      (case ?in of None \<Rightarrow> [] | Some g \<Rightarrow> execs u op pid (with_file 1 WRONLY_CREATE (l_out ?l) ?x) t1)"
    and t1: "\<And>g. ?in = Some g \<Longrightarrow> get t1 = g \<and> room limit g" unfolding cmd by auto
  show ?thesis
  proof (cases ?in)
    case None
    then show ?thesis using e1 False by (simp add: stage_def Let_def)
  next
    case (Some g)
    then have g: "get t1 = g" "room limit (get t1)" using t1 by auto
    from redirect_execs [OF assms(1,2) g(2), of 1 pid WRONLY_CREATE "l_out ?l" ?x]
    show ?thesis using e1 Some False g(1) by (auto simp: stage_def Let_def split: option.splits)
  qed
qed

text \<open>The tables of the two children of a pipe.\<close>

lemma pipe_children:
  assumes laws: "fd_laws u limit get ends" and r: "room limit (get t)"
  obtains a b t' where "fd_pipe u t = ((a, b), t')"
    "get (fd_close u b (fd_close u a (fd_dup u b (fd_close u 1 t')))) = (get t)(1 := Some (snd (ends t)))"
    "get (fd_close u b (fd_close u a (fd_dup u a (fd_close u 0 t')))) = (get t)(0 := Some (fst (ends t)))"
proof -
  let ?f = "get t"
  from room_pipe [OF r] obtain a b where ab: "lowest limit ?f a" "\<And>ob. lowest limit (?f(a := Some ob)) b"
    "a \<noteq> b" "?f a = None" "?f b = None" "a \<noteq> 0" "a \<noteq> 1" "b \<noteq> 0" "b \<noteq> 1" by metis
  obtain t' where p: "fd_pipe u t = ((a, b), t')"
    and g: "get t' = ?f(a := Some (fst (ends t)), b := Some (snd (ends t)))"
    using laws ab(1,2) unfolding fd_laws_def by (metis fst_conv prod.collapse snd_conv)
  have cl: "get (fd_close u fd s) = (get s)(fd := None)" for fd s using laws by (simp add: fd_laws_def)
  have du: "get s fd = Some ob \<Longrightarrow> lowest limit (get s) n \<Longrightarrow> get (fd_dup u fd s) = (get s)(n := Some ob)"
    for s fd n ob using laws by (simp add: fd_laws_def)
  have "get t' 0 \<noteq> None" using r ab by (simp add: g room_def)
  note lo = lowest_01 [of "get t'", OF this room_limit [OF r]]
  have "get (fd_dup u b (fd_close u 1 t')) = (get (fd_close u 1 t'))(1 := Some (snd (ends t)))"
    using lo(2) g ab by (intro du) (simp_all add: cl)
  moreover have "get (fd_dup u a (fd_close u 0 t')) = (get (fd_close u 0 t'))(0 := Some (fst (ends t)))"
    using lo(1) g ab by (intro du) (simp_all add: cl)
  ultimately show thesis
    using p ab by (intro that [of a b t']) (auto simp: cl g fun_eq_iff)
qed

lemma pipeline_execs:
  assumes laws: "fd_laws u limit get ends" and op: "open_laws op limit get fob" and pid: "pid \<noteq> 0"
  shows "room limit (get t) \<Longrightarrow> \<forall>c \<in> set cs. length (l_words (line_of c)) < MAXARGS \<Longrightarrow>
    \<exists>ts. length ts = length cs - 1 \<and>
      map (apfst get) (execs u op pid (pipeline cs) t) = stages fob (get t) (map ends ts) cs"
proof (induction cs arbitrary: t rule: pipeline.induct)
  case 1
  then show ?case by simp
next
  case (2 c)
  then show ?case using command_execs [OF laws op] by simp
next
  case (3 c d cs)
  from pipe_children [OF laws 3(2)] obtain a b t' where p: "fd_pipe u t = ((a, b), t')"
    and l: "get (fd_close u b (fd_close u a (fd_dup u b (fd_close u 1 t')))) = (get t)(1 := Some (snd (ends t)))"
    (is "get ?l = _")
    and r: "get (fd_close u b (fd_close u a (fd_dup u a (fd_close u 0 t')))) = (get t)(0 := Some (fst (ends t)))"
    (is "get ?r = _") by blast
  have seq: "execs u op pid (seq q Exit) s = execs u op pid q s" for q :: "u8 list sh" and s
    by (induction q arbitrary: s) (auto split: prod.splits, metis rangeI)
  have "room limit (get ?r)" unfolding r using 3(2) by (intro room_put) auto
  from 3(1) [OF one_neq_zero refl this] 3(3) obtain ts where ts: "length ts = length (d # cs) - 1"
    "map (apfst get) (execs u op pid (pipeline (d # cs)) ?r) = stages fob (get ?r) (map ends ts) (d # cs)"
    by auto
  have "room limit (get ?l)" unfolding l using 3(2) by (intro room_put) auto
  then have "map (apfst get) (execs u op pid (command c) ?l) = stage fob (get ?l) c"
    using 3(3) by (intro command_execs [OF laws op]) auto
  then have "map (apfst get) (execs u op pid (pipeline (c # d # cs)) t) =
      stages fob (get t) (map ends (t # ts)) (c # d # cs)"
    using p ts(2) pid by (simp add: seq l r)
  then show ?case using ts(1) by (intro exI [of _ "t # ts"]) simp
qed

text \<open>The same for the program, where strings are pointers.\<close>

lemma rel_execs:
  assumes "\<And>a s md t. R a s \<Longrightarrow> op a md t = op' s md t"
  shows "rel_sh R p p' \<Longrightarrow>
    list_all2 (rel_prod (=) (list_all2 R)) (execs u op pid p t) (execs u op' pid p' t)"
proof (induction p p' arbitrary: t rule: sh.rel_induct)
  case (Fork p p')
  then show ?case by (auto simp: rel_fun_def intro!: list_all2_appendI)
qed (auto simp: assms rel_fun_def split: prod.splits)

lemma execline_execs:
  assumes "cstr m l bs" "in_space l (length bs + 1)" "l \<noteq> 0" "count_list bs 124 < n"
    and laws: "fd_laws u limit get ends" "open_laws op limit get fob" "pid \<noteq> 0" "room limit (get t)"
    and ptr: "\<And>a s md t. points_to a s \<Longrightarrow> op' a md t = op s md t"
    and ws: "\<forall>c \<in> set (split_pipes bs). length (l_words (line_of c)) < MAXARGS"
  shows "\<exists>ts. length ts = length (split_pipes bs) - 1 \<and>
    list_all2 (\<lambda>(t', as) (g, ws). get t' = g \<and> list_all2 points_to as ws)
      (execs u op' pid (execline n l m) t) (stages fob (get t) (map ends ts) (split_pipes bs))"
proof -
  from pipeline_execs [OF laws ws] obtain ts where ts: "length ts = length (split_pipes bs) - 1"
    and e: "map (apfst get) (execs u op pid (pipeline (split_pipes bs)) t) =
      stages fob (get t) (map ends ts) (split_pipes bs)" by blast
  have "list_all2 (rel_prod (=) (list_all2 points_to)) (execs u op' pid (execline n l m) t)
      (execs u op pid (pipeline (split_pipes bs)) t)"
    by (rule rel_execs [OF ptr execline_spec [OF assms(1-4)]])
  then have "list_all2 (\<lambda>(t', as) (g, ws). get t' = g \<and> list_all2 points_to as ws)
      (execs u op' pid (execline n l m) t) (map (apfst get) (execs u op pid (pipeline (split_pipes bs)) t))"
    by (auto simp: list_all2_map2 elim!: list_all2_mono)
  then show ?thesis using ts e by auto
qed

end
