(* ===== verification/User_Props.thy ===== *)
theory User_Props
  imports Step_Props Shell_Fds
begin

text \<open>
  The properties of the user programs: the library and the shell, and what the library shows of
  the kernel.
\<close>

section \<open>The library\<close>

text \<open>
  C4. The pid without a system call. In every state that the kernel reaches from boot, in any
  interleaving of the steps of \<open>Kernel_Steps\<close>, a program that reads its memory through its page
  table finds its own pid with \<open>ugetpid\<close>: the page is mapped, and nothing has written to it or taken
  it away. The steps include the lazy and the eager \<open>sbrk\<close>, page faults, the copies to user memory
  that \<open>read\<close> and others make, \<open>pgaccess\<close>, and the stores of the programs themselves; \<open>exec\<close> is not in
  the repository and not one of them.
\<close>

theorem ugetpid_is_getpid:
  assumes "booted fl k0" "8 < length fl" "userinit (e_fs e) k0 = ret k1" "reachable e (started k1) m"
    and "k = m_k m" "p < length (procs k)" "p_state (procs k ! p) \<noteq> UNUSED" "sees um k p"
  shows "ugetpid um = p_pid (procs k ! p)"
  using minv_inv(1) [OF reachable_inv [OF assms(1-4)]] ugetpid_spec [OF _ assms(6-8)] by (auto simp: assms(5))

theorem ugetpid_is_getpid_witness:
  "\<exists>um. sees um sample_fork 1 \<and> ugetpid um = 2"
proof -
  define um where "um x = (case lbyte (k_mem sample_fork) (p_pagetable (procs sample_fork ! 1))
      (p_sz (procs sample_fork ! 1)) x of Some b \<Rightarrow> b | None \<Rightarrow> 0)" for x
  have s: "sees um sample_fork 1" by (auto simp: sees_def um_def)
  obtain fl k1 where r: "booted fl sample_boot" "8 < length fl" "userinit (e_fs sample_env) sample_boot = ret k1"
    "reachable sample_env (started k1) (started sample_fork)" using sample_reachable by blast
  have m: "sample_fork = m_k (started sample_fork)" by (simp add: started_def)
  have "1 < length (procs sample_fork)" "p_state (procs sample_fork ! 1) \<noteq> UNUSED"
    "p_pid (procs sample_fork ! 1) = 2" using sample_fork_spec by auto
  then show ?thesis using s ugetpid_is_getpid [OF r m _ _ s] by auto
qed

text \<open>
  C32. \<open>memmove\<close> moves overlapping ranges. For ranges that do not run past the last address the
  upward and the downward loop give what copying the old contents at once gives, whichever way
  they overlap; \<open>memcpy\<close> is the same function.
\<close>

theorem memmove_moves_overlapping:
  assumes "0 \<le> sint n" "in_space vdst (nat (sint n))" "in_space vsrc (nat (sint n))"
  shows "umemmove vdst vsrc n m = (vdst, memmove m vdst vsrc (scast n)) \<and>
    memcpy vdst vsrc n m = (vdst, memmove m vdst vsrc (scast n))"
  using umemmove_spec [OF assms] by (simp_all add: memcpy_def)

theorem memmove_moves_overlapping_witness:
  "umemmove 101 100 3 (\<lambda>x. ucast x) = (101, memmove (\<lambda>x. ucast x) 101 100 3)"
proof -
  have "nat (sint (3 :: i32)) = 3" "(scast (3 :: i32) :: u64) = 3" by simp_all
  then show ?thesis using memmove_moves_overlapping [of 3 101 100 "\<lambda>x. ucast x"]
    by (simp add: in_space_def)
qed

lemma span_disjoint: "span s n \<inter> span t n = {} \<Longrightarrow> j \<le> n \<Longrightarrow> t + of_nat j \<notin> span s n"
  using span_nth [of j n t] by auto

text \<open>
  C33. Copying a string. After \<open>strcpy\<close> of a string to a place apart from it, the copy reads as
  the same string, \<open>strcmp\<close> finds it equal, \<open>strlen\<close> gives its length, and only the bytes of
  the copy have changed.
\<close>

theorem strcpy_copies:
  assumes "cstr m t bs" "length bs < 2 ^ 31" "span s (length bs) \<inter> span t (length bs) = {}"
  shows "\<exists>m'. strcpy s t m = Some (s, m') \<and> cstr m' s bs \<and> strcmp s t m' = Some 0 \<and>
    strlen s m' = Some (of_nat (length bs)) \<and> only (span s (length bs)) m m'"
proof -
  let ?m = "\<lambda>x. if unat (x - s) \<le> length bs then m (t + (x - s)) else m x"
  have away: "t + of_nat j \<notin> span s (length bs)" if "j \<le> length bs" for j
    by (rule span_disjoint [OF assms(3) that])
  then have "\<forall>j. 1 \<le> j \<longrightarrow> j < Suc (length bs) \<longrightarrow> t + of_nat j \<noteq> s"
    using span_start [of s "length bs"] by (metis less_Suc_eq_le)
  from strcpy_spec [OF assms(1,2) this] have c: "strcpy s t m = Some (s, ?m)" .
  have o: "only (span s (length bs)) m ?m" using assms(2) by (auto simp: only_def in_span)
  have s: "cstr ?m s bs" using assms(1,2) by (simp add: cstr_def unat_of_nat)
  have "cstr ?m t bs" using assms(1) o away by (intro cstr_frame [OF assms(1)]) (auto simp: only_def)
  from strcmp_spec [OF s this] have "strcmp s t ?m = Some 0" by auto
  moreover have "strlen s ?m = Some (of_nat (length bs))" by (rule strlen_spec [OF s assms(2)])
  ultimately show ?thesis using c s o by blast
qed

theorem strcpy_copies_witness:
  "\<exists>m'. strcpy 200 100 (put_line (\<lambda>_. 0) 100 [104, 105]) = Some (200, m') \<and> strlen 200 m' = Some 2"
proof -
  have "cstr (put_line (\<lambda>_. 0) 100 [104, 105]) 100 [104, 105]" by simp
  moreover have "span 200 (length [104, 105 :: u8]) \<inter> span 100 (length [104, 105 :: u8]) = {}"
    by (auto simp: span_def atMost_Suc)
  ultimately show ?thesis using strcpy_copies [of _ 100 "[104, 105]" 200] by fastforce
qed

section \<open>The parser\<close>

text \<open>
  C15. \<open>parseline\<close> returns on every NUL-terminated line, and what it returns is well formed: the
  entries of \<open>argv\<close> are pointers into the line to the C strings of its words, in order, followed
  by a null pointer; the file pointers are null exactly when there is no redirection and point to
  the last name after \<open><\<close> or \<open>>\<close> otherwise. Only the line is changed. The number of entries is
  not bounded by the size of the caller's array.
\<close>

theorem parseline_well_formed:
  assumes "cstr m buf bs" "in_space buf (length bs + 1)" "buf \<noteq> 0"
  shows "\<exists>as i out m'. parseline buf m = Some (of_nat (length as), as @ [0], i, out, m') \<and>
    list_all2 (cstr m') as (l_words (line_of bs)) \<and> set as \<subseteq> span buf (length bs) \<and>
    file_ptr m' buf (length bs) 0 (l_in (line_of bs)) i \<and> (i = 0 \<longleftrightarrow> l_in (line_of bs) = None) \<and>
    file_ptr m' buf (length bs) 0 (l_out (line_of bs)) out \<and> (out = 0 \<longleftrightarrow> l_out (line_of bs) = None) \<and>
    only (span buf (length bs)) m m' \<and> m' (buf + of_nat (length bs)) = 0"
  by (rule parseline_spec [OF assms])

text \<open>The line \<open>ls <a>b x\<close>, with its newline.\<close>

definition sample_line :: "u8 list" where
  "sample_line = [108, 115, 32, 60, 97, 62, 98, 32, 120, 10]"

lemma sample_line_of:
  "line_of sample_line = \<lparr>l_words = [[108, 115], [120]], l_in = Some [97, 62, 98], l_out = None\<rparr>"
  by (simp add: sample_line_def line_of.simps blank_def word_char_def Let_def)

definition sample_text :: "u8 list \<Rightarrow> mem" where
  "sample_text bs = put_line (\<lambda>_. 0) 4096 (bs @ [0])"

lemma sample_text_cstr: "0 \<notin> set bs \<Longrightarrow> length bs < 2 ^ 32 \<Longrightarrow> cstr (sample_text bs) 4096 bs"
proof -
  assume bs: "0 \<notin> set bs" "length bs < 2 ^ 32"
  then have "takeWhile (\<lambda>c. c \<noteq> 0) bs = bs" by (auto simp: takeWhile_eq_all_conv)
  moreover have "length bs < 2 ^ 64" using bs(2) by simp
  ultimately show ?thesis using put_line_cstr [of bs "\<lambda>_. 0" 4096] by (simp only: sample_text_def)
qed

lemma sample_text_space: "length bs < 2 ^ 32 \<Longrightarrow> in_space 4096 (length bs + 1)"
  by (simp add: in_space_def)

theorem parseline_well_formed_witness:
  "\<exists>a b i m'. parseline 4096 (sample_text sample_line) = Some (2, [a, b, 0], i, 0, m') \<and>
     cstr m' a [108, 115] \<and> cstr m' b [120] \<and> cstr m' i [97, 62, 98]"
proof -
  have "cstr (sample_text sample_line) 4096 sample_line" "in_space 4096 (length sample_line + 1)"
    by (rule sample_text_cstr sample_text_space; simp add: sample_line_def)+
  from parseline_well_formed [OF this] obtain as i out m' where
    p: "parseline 4096 (sample_text sample_line) = Some (of_nat (length as), as @ [0], i, out, m')"
      "list_all2 (cstr m') as [[108, 115], [120]]" "cstr m' i [97, 62, 98]" "out = 0"
    unfolding sample_line_of by (auto simp: file_ptr_def)
  then obtain a b where "as = [a, b]" "cstr m' a [108, 115]" "cstr m' b [120]"
    by (auto simp: list_all2_Cons2)
  then show ?thesis using p by auto
qed

section \<open>The commands\<close>

text \<open>
  C14. \<open>execline\<close> implements the command language. On every NUL-terminated line the tree of
  system calls of the program, with its pointers replaced by the strings they point to, is that of
  the pipeline of the line: the commands between the bars, each with its redirections and words,
  in nested pipes. The recursion ends: as much fuel as there are bars, and one, is enough.
\<close>

theorem execline_runs_pipeline:
  assumes "cstr m l bs" "in_space l (length bs + 1)" "l \<noteq> 0" "count_list bs 124 < n"
  shows "rel_sh points_to (execline n l m) (pipeline (split_pipes bs))"
  by (rule execline_spec [OF assms])

text \<open>The line \<open>ls | wc\<close>.\<close>

definition sample_pipe :: "u8 list" where
  "sample_pipe = [108, 115, 32, 124, 32, 119, 99]"

lemma sample_pipe_split: "split_pipes sample_pipe = [[108, 115, 32], [32, 119, 99]]"
  by (simp add: sample_pipe_def split_pipes.simps)

lemma sample_pipe_memory:
  "cstr (sample_text sample_pipe) 4096 sample_pipe" "in_space 4096 (length sample_pipe + 1)"
  by (rule sample_text_cstr sample_text_space; simp add: sample_pipe_def)+

theorem execline_runs_pipeline_witness:
  "rel_sh points_to (execline 2 4096 (sample_text sample_pipe)) (pipeline [[108, 115, 32], [32, 119, 99]])"
  using execline_runs_pipeline [OF sample_pipe_memory, of 2]
  unfolding sample_pipe_split by (simp add: sample_pipe_def)

text \<open>
  C34. \<open>runcmd\<close> writes past the end of \<open>argv\<close> exactly when the command has 32 or more words: the
  parser does not know the size of the array, and a line of the shell has room for them.
\<close>

theorem runcmd_overflows:
  assumes "cstr m l bs" "in_space l (length bs + 1)" "l \<noteq> 0"
  shows "runcmd l m = Argv_overflow \<longleftrightarrow> 32 \<le> length (l_words (line_of bs))"
proof
  assume "runcmd l m = Argv_overflow"
  then have "command bs = Argv_overflow"
    using runcmd_spec [OF assms] by (cases "command bs") simp_all
  then show "32 \<le> length (l_words (line_of bs))"
    by (auto simp: command_def Let_def MAXARGS_def with_file_def redirect_def split: if_splits option.splits)
next
  assume "32 \<le> length (l_words (line_of bs))"
  then have "command bs = Argv_overflow" by (simp add: command_def Let_def MAXARGS_def)
  then show "runcmd l m = Argv_overflow" using runcmd_spec [OF assms] by (cases "runcmd l m") simp_all
qed

text \<open>Words of one letter, 32 of them in 64 bytes.\<close>

definition sample_words :: "u8 list" where
  "sample_words = concat (replicate 32 [97, 32])"

lemma one_letter_words: "length (l_words (line_of (concat (replicate n [97, 32])))) = n"
proof (induction n)
  case (Suc n)
  have "line_of (97 # 32 # bs) = (let l = line_of (32 # bs) in l\<lparr>l_words := [97] # l_words l\<rparr>)" for bs
    by (subst line_of.simps) (simp add: blank_def word_char_def)
  moreover have "line_of (32 # bs) = line_of bs" for bs
    by (subst (1 2) line_of.simps) (simp add: blank_def)
  ultimately show ?case using Suc by (simp add: Let_def)
qed (simp add: line_of.simps)

theorem runcmd_overflows_witness:
  "runcmd 4096 (sample_text sample_words) = Argv_overflow \<and> length sample_words < 100"
proof -
  have n: "length sample_words = 64" "0 \<notin> set sample_words" by (simp_all add: sample_words_def length_concat sum_list_replicate)
  then have "cstr (sample_text sample_words) 4096 sample_words" "in_space 4096 (length sample_words + 1)"
    by (simp_all add: sample_text_cstr in_space_def)
  from runcmd_overflows [OF this] show ?thesis using n one_letter_words [of 32] by (simp add: sample_words_def)
qed

section \<open>The plumbing of a pipeline\<close>

text \<open>
  C9. The plumbing. Let the calls on descriptors behave as documented, a new descriptor being the
  lowest free one. Then each command of a line that \<open>execline\<close> runs is executed with its words and
  with exactly these descriptors: its input is the read end of the pipe before it, its output the
  write end of the pipe behind it, redirections to files come on top, and every other descriptor is
  as in the shell, so no process keeps an end of a pipe that would hide its end of file.
\<close>

theorem execline_plumbing:
  assumes "cstr m l bs" "in_space l (length bs + 1)" "l \<noteq> 0" "count_list bs 124 < n"
    and "fd_laws u limit get ends" "open_laws op limit get fob" "pid \<noteq> 0" "room limit (get t)"
    and "\<And>a s md t. points_to a s \<Longrightarrow> op' a md t = op s md t"
    and "\<forall>c \<in> set (split_pipes bs). length (l_words (line_of c)) < MAXARGS"
  shows "\<exists>ts. length ts = length (split_pipes bs) - 1 \<and>
    list_all2 (\<lambda>(t', as) (g, ws). get t' = g \<and> list_all2 points_to as ws)
      (execs u op' pid (execline n l m) t) (stages fob (get t) (map ends ts) (split_pipes bs))"
  by (rule execline_execs [OF assms])

text \<open>
  A table of 16 descriptors with numbered pipes, in which no file can be opened. The object
  \<open>2 * k\<close> is the read end of pipe \<open>k\<close>, the object \<open>2 * k + 1\<close> its write end.
\<close>

type_synonym sample_table = "(i32 \<Rightarrow> nat option) \<times> nat"

definition sample_lowest :: "(i32 \<Rightarrow> nat option) \<Rightarrow> i32" where
  "sample_lowest f = (case find (\<lambda>n. f n = None) (map of_nat [0..<16]) of None \<Rightarrow> -1 | Some n \<Rightarrow> n)"

definition sample_fdops :: "sample_table fdops" where
  "sample_fdops = \<lparr>
     fd_close = (\<lambda>fd (f, k). (f(fd := None), k)),
     fd_dup = (\<lambda>fd (f, k). (f(sample_lowest f := f fd), k)),
     fd_pipe = (\<lambda>(f, k). let a = sample_lowest f; g = f(a := Some (2 * k)); b = sample_lowest g
        in ((a, b), (g(b := Some (2 * k + 1)), k + 1)))\<rparr>"

definition sample_ends :: "sample_table \<Rightarrow> nat \<times> nat" where
  "sample_ends t = (2 * snd t, 2 * snd t + 1)"

definition sample_std :: sample_table where
  "sample_std = ((\<lambda>_. None)(0 := Some 100, 1 := Some 101, 2 := Some 102), 0)"

lemma find_first:
  assumes "j < length xs" "P (xs ! j)" "\<forall>i < j. \<not> P (xs ! i)"
  shows "find P xs = Some (xs ! j)"
  using assms by (auto simp: find_Some_iff)

lemma sample_lowest: "lowest 16 f n \<Longrightarrow> sample_lowest f = n"
proof -
  assume l: "lowest 16 f n"
  define j where "j = nat (sint n)"
  have j: "j < 16" "n = of_nat j" using l by (auto simp: lowest_def j_def)
  have s: "sint (of_nat i :: i32) = int i" if "i < 16" for i using that by (intro sint_of_nat) simp
  have "find (\<lambda>n. f n = None) (map of_nat [0..<16]) = Some (map of_nat [0..<16] ! j)"
    using l j s by (intro find_first) (auto simp: lowest_def)
  then show ?thesis using j by (simp add: sample_lowest_def)
qed

lemma sample_fd_laws: "fd_laws sample_fdops 16 fst sample_ends"
  unfolding fd_laws_def
  by (auto simp: sample_fdops_def sample_ends_def Let_def dest!: sample_lowest)

lemma sample_room: "room 16 (fst sample_std)"
proof -
  have "j \<in> {0, 1, 2}" if "0 \<le> sint j" "sint j < 3" for j :: i32
  proof -
    have "sint j = sint (0 :: i32) \<or> sint j = sint (1 :: i32) \<or> sint j = sint (2 :: i32)" using that by auto
    then show ?thesis using signed_word_eqI by blast
  qed
  moreover have "j \<in> {0, 1, 2, 3}" if "0 \<le> sint j" "sint j < 4" for j :: i32
  proof -
    have "sint j = sint (0 :: i32) \<or> sint j = sint (1 :: i32) \<or> sint j = sint (2 :: i32) \<or> sint j = sint (3 :: i32)"
      using that by auto
    then show ?thesis using signed_word_eqI by blast
  qed
  ultimately have "lowest 16 (fst sample_std) 3" "lowest 16 ((fst sample_std)(3 := fst sample_std 0)) 4"
    by (fastforce simp: lowest_def sample_std_def)+
  then show ?thesis by (auto simp: room_def sample_std_def)
qed

theorem execline_plumbing_witness:
  "\<exists>k. list_all2 (\<lambda>(t', as) (g, ws). fst t' = g \<and> list_all2 points_to as ws)
     (execs sample_fdops (\<lambda>a md t. (-1, t)) 7 (execline 2 4096 (sample_text sample_pipe)) sample_std)
     [((fst sample_std)(1 := Some (2 * k + 1)), [[108, 115]]),
      ((fst sample_std)(0 := Some (2 * k)), [[119, 99]])]"
proof -
  have op: "open_laws (\<lambda>s md t. (-1, t)) 16 fst (\<lambda>s md. None)" by (simp add: open_laws_def)
  have w: "line_of [108, 115, 32] = \<lparr>l_words = [[108, 115]], l_in = None, l_out = None\<rparr>"
    "line_of [32, 119, 99] = \<lparr>l_words = [[119, 99]], l_in = None, l_out = None\<rparr>"
    by (simp_all add: line_of.simps blank_def word_char_def Let_def)
  have ws: "\<forall>c \<in> set (split_pipes sample_pipe). length (l_words (line_of c)) < MAXARGS"
    by (simp add: sample_pipe_split w MAXARGS_def)
  have "(4096 :: u64) \<noteq> 0" "count_list sample_pipe 124 < 2" "(7 :: i32) \<noteq> 0"
    by (simp_all add: sample_pipe_def)
  from execline_plumbing [OF sample_pipe_memory this(1,2) sample_fd_laws op this(3) sample_room refl ws]
  obtain ts where "length ts = Suc 0" "list_all2 (\<lambda>(t', as) (g, ws). fst t' = g \<and> list_all2 points_to as ws)
      (execs sample_fdops (\<lambda>a md t. (-1, t)) 7 (execline 2 4096 (sample_text sample_pipe)) sample_std)
      (stages (\<lambda>s md. None) (fst sample_std) (map sample_ends ts) (split_pipes sample_pipe))"
    by (auto simp: sample_pipe_split)
  then show ?thesis
    by (auto simp: length_Suc_conv sample_pipe_split stage_def w put_file_def sample_ends_def)
qed

section \<open>The main loop\<close>

text \<open>
  C16. The shell runs its input. If every byte read uses up input, so that there is a last one, and
  the commands leave no more of it, the main loop returns, and the children it made are those of
  the lines of the input in order, up to the end of the input, an empty line or \<open>exit\<close>. A line is
  at most 99 bytes; a longer one is cut there.
\<close>

theorem shell_runs_session:
  assumes "\<forall>w cc c w'. rd w = (cc, c, w') \<longrightarrow> \<mu> w' \<le> \<mu> w \<and> (1 \<le> sint cc \<longrightarrow> \<mu> w' < (\<mu> w :: nat))"
    and "\<forall>t l w. rel_sh points_to t (child l) \<longrightarrow> run t w = run' l w" "\<forall>l w. \<mu> (run' l w) \<le> \<mu> w"
    and "100 \<le> n" "sh_memory buf e1 e2 m" "\<mu> w < k"
  shows "\<exists>ts ls m' w'. sh_main rd run n buf e1 e2 k (m, w) = Some (ts, m', w') \<and>
    session rd run' k w = Some (ls, w') \<and> list_all2 (rel_sh points_to) ts (map child ls)"
  by (rule sh_main_spec [OF assms])

text \<open>An input of two lines, \<open>ls\<close> and \<open>exit\<close>; the commands do not read from it.\<close>

definition sample_read :: "u8 list \<Rightarrow> i32 \<times> u8 \<times> u8 list" where
  "sample_read w = (case w of [] \<Rightarrow> (0, 0, []) | c # cs \<Rightarrow> (1, c, cs))"

definition sample_shell :: mem where
  "sample_shell = put_line (put_line (\<lambda>_. 0) 8192 exit_line) 8208 exit_word"

lemma sample_shell_memory: "sh_memory 4096 8192 8208 sample_shell"
proof -
  have "span 8192 (length exit_line) \<inter> span 4096 99 = {}" "span 8208 (length exit_word) \<inter> span 4096 99 = {}"
    by (auto simp: in_span span_def [of 8192] span_def [of 8208] atMost_Suc exit_line_def exit_word_def)
  moreover have "cstr sample_shell 8192 exit_line" "cstr sample_shell 8208 exit_word"
    by (simp_all add: sample_shell_def exit_line_def exit_word_def)
  ultimately show ?thesis by (simp add: sh_memory_def in_space_def)
qed

lemma read_line_pos:
  "0 < n \<Longrightarrow> read_line rd n w =
     (case rd w of (cc, c, w) \<Rightarrow>
      if sint cc < 1 then ([], w)
      else if c = 10 \<or> c = 13 then ([c], w)
      else case read_line rd (n - 1) w of (bs, w) \<Rightarrow> (c # bs, w))"
  by (cases n) (simp_all split: prod.split)

theorem shell_runs_session_witness:
  "\<exists>t m'. sh_main sample_read (\<lambda>t w. w) 100 4096 8192 8208 9
     (sample_shell, [108, 115, 10, 101, 120, 105, 116, 10]) = Some ([t], m', []) \<and>
     rel_sh points_to t (child [108, 115, 10])"
proof -
  let ?w = "[108, 115, 10, 101, 120, 105, 116, 10] :: u8 list"
  have rd: "\<forall>w cc c w'. sample_read w = (cc, c, w') \<longrightarrow> length w' \<le> length w \<and> (1 \<le> sint cc \<longrightarrow> length w' < length w)"
    by (auto simp: sample_read_def split: list.splits)
  have "next_line sample_read ?w = [108, 115, 10]" "read_line sample_read 99 ?w = ([108, 115, 10], exit_line)"
    "next_line sample_read exit_line = exit_line" "read_line sample_read 99 exit_line = (exit_line, [])"
    by (simp_all add: next_line_def read_line_pos sample_read_def exit_line_def)
  then have s: "session sample_read (\<lambda>l w. w) 9 ?w = Some ([[108, 115, 10]], [])"
    by (simp add: eval_nat_numeral Let_def is_exit_def exit_line_def exit_word_def)
  from shell_runs_session [OF rd _ _ _ sample_shell_memory, of "\<lambda>t w. w" "\<lambda>l w. w" 100 ?w 9]
  show ?thesis unfolding s by (auto simp: list_all2_Cons2)
qed

end
