(* ===== verification/Kernel2_Inv.thy ===== *)
theory Kernel2_Inv
  imports Trace_Sysinfo Kernel_Steps
begin

text \<open>
  What holds of the \<open>Proyecto2\<close> kernel through any interleaving of its critical sections:
  \<open>traced_syscall\<close> belongs to the process that set it, and no size exceeds \<open>TRAPFRAME\<close>. The two
  laws about the missing \<open>vm.c\<close> that the second needs are a locale; the model of the \<open>vm.c\<close> of
  \<open>Proyecto3\<close> satisfies them.
\<close>

section \<open>What the process layer needs of the memory layer\<close>

locale memory_layer =
  fixes v :: vmops
  assumes uvmalloc_size: "v_uvmalloc v pt old new x s = Ok (sz, s') \<Longrightarrow> sz = 0 \<or> sz = old \<or> sz = new"
    and uvmdealloc_size: "v_uvmdealloc v pt old new s = Ok (sz, s') \<Longrightarrow> sz \<le> old"

definition p3_vm :: vmops where
  "p3_vm = \<lparr>v_uvmcreate = uvmcreate, v_mappages = mappages, v_uvmunmap = uvmunmap, v_uvmfree = uvmfree,
     v_uvmalloc = uvmalloc, v_uvmdealloc = uvmdealloc, v_uvmcopy = uvmcopy, v_copyout = copyout,
     v_copyin = copyin, v_copyinstr = copyinstr\<rparr>"

lemma uvmalloc_loop_size: "uvmalloc_loop pt a old new x s = Ok (sz, s') \<Longrightarrow> sz = 0 \<or> sz = new"
proof (induction pt a old new x s rule: uvmalloc_loop.induct)
  case (1 pt a old new x s)
  show ?case
  proof (cases "a < new")
    case True
    obtain m s1 where k: "kalloc s = (m, s1)" by force
    let ?s = "s1\<lparr>pmem := memset (pmem s1) m 0 PGSIZE\<rparr>"
    show ?thesis
    proof (cases "m = 0")
      case False
      from "1.prems" True k False obtain r s2 where
        m: "mappages pt a PGSIZE m (PTE_R OR PTE_U OR x) ?s = Ok (r, s2)"
        by (subst (asm) uvmalloc_loop.simps) (auto simp: res_simps)
      show ?thesis
      proof (cases "r = 0")
        case True
        have "uvmalloc_loop pt (a + PGSIZE) old new x s2 = Ok (sz, s')"
          using "1.prems" \<open>a < new\<close> k False m True by (subst (asm) uvmalloc_loop.simps) simp
        then show ?thesis using "1.IH" [OF \<open>a < new\<close> k [symmetric] False refl m refl] True by simp
      next
        case r: False
        show ?thesis
          using "1.prems" True k False m r by (subst (asm) uvmalloc_loop.simps) (auto simp: res_simps)
      qed
    qed (use "1.prems" True k in \<open>subst (asm) uvmalloc_loop.simps, auto simp: res_simps\<close>)
  qed (use "1.prems" in \<open>subst (asm) uvmalloc_loop.simps, simp\<close>)
qed

interpretation p3v: memory_layer p3_vm
proof
  fix pt old new x s sz s'
  assume "v_uvmalloc p3_vm pt old new x s = Ok (sz, s')"
  then show "sz = 0 \<or> sz = old \<or> sz = new"
    by (auto simp: p3_vm_def uvmalloc_def Let_def dest!: uvmalloc_loop_size split: if_splits)
next
  fix pt old new s sz s'
  assume "v_uvmdealloc p3_vm pt old new s = Ok (sz, s')"
  then show "sz \<le> old"
    by (auto simp: p3_vm_def uvmdealloc_def Let_def res_simps split: if_splits)
qed

section \<open>The invariant\<close>

definition field_ok :: "i32 \<Rightarrow> proc \<Rightarrow> bool" where
  "field_ok t q \<longleftrightarrow> (p_state q = UNUSED \<longrightarrow> t = 0) \<and> 0 \<le> sint t \<and> sint t \<le> 24 \<and> p_sz q \<le> TRAPFRAME"

definition field_inv :: "'fs kst2 \<Rightarrow> bool" where
  "field_inv st \<longleftrightarrow> list_all2 field_ok (fst st) (procs (snd st))"

text \<open>How a step may change the fields: only of a process that calls \<open>trace\<close>, or back to 0.\<close>

definition field_step :: "nat option \<Rightarrow> 'fs kst2 \<Rightarrow> 'fs kst2 \<Rightarrow> bool" where
  "field_step w st st' \<longleftrightarrow> (\<forall>i. fst st' ! i \<noteq> fst st ! i \<longrightarrow>
     w = Some i \<or> fst st' ! i = 0 \<and> p_state (procs (snd st') ! i) = UNUSED)"

lemma field_step_same [simp]: "fst st' = fst st \<Longrightarrow> field_step w st st'"
  by (simp add: field_step_def)

text \<open>Processes that do not leave the unused slots behind and do not grow.\<close>

definition calm :: "proc \<Rightarrow> proc \<Rightarrow> bool" where
  "calm p q \<longleftrightarrow> (p_state q = UNUSED \<longrightarrow> p_state p = UNUSED) \<and> (p_sz p \<le> TRAPFRAME \<longrightarrow> p_sz q \<le> TRAPFRAME)"

lemma calm_refl [simp]: "calm p p"
  by (simp add: calm_def)

lemma same_space_calm: "same_space p q \<Longrightarrow> calm p q"
  by (simp add: same_space_def calm_def)

lemma field_inv_calm:
  assumes "field_inv (t, k)" "list_all2 calm (procs k) (procs k')"
  shows "field_inv (t, k')"
  using assms unfolding field_inv_def
  by (auto simp: list_all2_conv_all_nth field_ok_def calm_def)

lemma field_inv_space: "field_inv (t, k) \<Longrightarrow> list_all2 same_space (procs k) (procs k') \<Longrightarrow> field_inv (t, k')"
  by (rule field_inv_calm) (auto elim: list_all2_mono simp: same_space_calm)

lemma field_inv_slot:
  assumes "field_inv (t, k)" "procs k' = (procs k)[i := q]" "i < length (procs k) \<Longrightarrow> field_ok x q"
  shows "field_inv (t[i := x], k')"
  using assms unfolding field_inv_def
  by (cases "i < length (procs k)") (auto simp: list_all2_conv_all_nth nth_list_update list_update_beyond)

lemma field_inv_upd:
  assumes "field_inv (t, k)" "procs k' = (procs k)[i := q]" "i < length (procs k) \<Longrightarrow> calm (procs k ! i) q"
  shows "field_inv (t, k')"
  by (rule field_inv_calm [OF assms(1)], cases "i < length (procs k)")
    (use assms(2,3) in \<open>auto simp: list_all2_conv_all_nth nth_list_update list_update_beyond\<close>)

section \<open>Operations\<close>

lemma freeproc_p2_field:
  assumes "freeproc_p2 v i (t, k) = ret st'"
  obtains q where "fst st' = t[i := 0]" "procs (snd st') = (procs k)[i := q]" "p_state q = UNUSED" "p_sz q = 0"
  using assms by (auto simp: freeproc_p2_def Let_def res_simps)

lemma freeproc_p2_inv:
  assumes "freeproc_p2 v i (t, k) = ret st'" "field_inv (t, k)" "i < length (procs k)"
  shows "field_inv st' \<and> field_step w (t, k) st'"
proof -
  from freeproc_p2_field [OF assms(1)] obtain q where
    q: "fst st' = t[i := 0]" "procs (snd st') = (procs k)[i := q]" "p_state q = UNUSED" "p_sz q = 0" by blast
  have "field_inv (t[i := 0], snd st')"
    by (rule field_inv_slot [OF assms(2) q(2)]) (simp add: field_ok_def q)
  moreover have "length t = length (procs k)" using assms(2) by (simp add: field_inv_def list_all2_lengthD)
  ultimately show ?thesis using q assms(3)
    by (cases st') (auto simp: field_step_def nth_list_update)
qed

lemma allocproc_p2_field:
  assumes al: "allocproc_p2 v (t, k) = ret (r, st')" and inv: "field_inv (t, k)"
  shows "field_inv st' \<and> field_step w (t, k) st' \<and> length (procs (snd st')) = length (procs k) \<and>
    (\<forall>i. r = Some i \<longrightarrow> i < length (procs k) \<and> fst st' = t \<and> t ! i = 0 \<and>
       p_state (procs (snd st') ! i) = USED)"
proof (cases "find_unused k")
  case None
  then show ?thesis using al inv by (auto simp: allocproc_p2_def)
next
  case (Some i)
  then have i: "i < length (procs k)" "p_state (procs k ! i) = UNUSED" using find_unused_Some [OF Some] by auto
  have ok: "field_ok (t ! i) (procs k ! i)" and len: "length t = length (procs k)"
    using inv i(1) by (auto simp: field_inv_def list_all2_conv_all_nth)
  then have ti: "t ! i = 0" using i(2) by (simp add: field_ok_def)
  have same: "t[i := 0] = t" using list_update_id [of t i] ti by simp
  have used: "field_inv (t, k1)"
    if "procs k1 = (procs k)[i := procs k1 ! i]" "p_state (procs k1 ! i) = USED"
      "p_sz (procs k1 ! i) = p_sz (procs k ! i)" for k1 :: "'a kst"
    using field_inv_slot [OF inv that(1), of 0] that(2,3) ok by (simp add: field_ok_def same)
  have freed: "field_inv s' \<and> field_step w (t, k) s' \<and> length (procs (snd s')) = length (procs k)"
    if f: "freeproc_p2 v i (t, k1) = ret s'" and k1: "procs k1 = (procs k)[i := procs k1 ! i]"
      "p_state (procs k1 ! i) = USED" "p_sz (procs k1 ! i) = p_sz (procs k ! i)" for k1 :: "'a kst" and s'
  proof -
    have l: "length (procs k1) = length (procs k)" using arg_cong [OF k1(1), of length] by simp
    have "field_inv s' \<and> field_step w (t, k1) s'"
      using freeproc_p2_inv [OF f used [OF k1]] i(1) l by simp
    moreover have "length (procs (snd s')) = length (procs k)"
      using freeproc_p2_field [OF f] l by (metis length_list_update)
    ultimately show ?thesis by (simp add: field_step_def)
  qed
  show ?thesis
  proof (cases r)
    case None
    with al Some show ?thesis
      by (auto simp: allocproc_p2_def allocproc_at_p2_def allocpid_def res_simps Let_def i(1)
          split: prod.splits if_splits dest!: freed)
  next
    case r: (Some j)
    with al Some have ji: "j = i"
      by (auto simp: allocproc_p2_def allocproc_at_p2_def allocpid_def res_simps Let_def
          split: prod.splits if_splits)
    from al Some r show ?thesis unfolding ji
      by (auto simp: allocproc_p2_def allocproc_at_p2_def allocpid_def res_simps Let_def i(1) ti
          split: prod.splits if_splits intro!: used)
  qed
qed

lemma field_step_frame: "field_step w (t, k) st \<Longrightarrow> procs k' = procs k \<Longrightarrow> field_step w (t, k') st"
  by (simp add: field_step_def)

lemma field_step_trans:
  "field_step w st st1 \<Longrightarrow> fst st1 = fst st \<Longrightarrow> field_step w st1 st2 \<Longrightarrow> field_step w st st2"
  by (simp add: field_step_def)

lemma kfork_p2_inv:
  assumes f: "kfork_p2 v fs p (t, k) = ret (r, st')" and inv: "field_inv (t, k)"
    and p: "p < length (procs k)"
  shows "field_inv st' \<and> field_step w (t, k) st'"
proof -
  from f obtain a t1 k1 where al: "allocproc_p2 v (t, k) = ret (a, (t1, k1))"
    by (auto simp: kfork_p2_def res_simps)
  note al' = allocproc_p2_field [OF al inv, of w]
  show ?thesis
  proof (cases a)
    case None
    then show ?thesis using f al al' by (simp add: kfork_p2_def)
  next
    case (Some np)
    then have np: "np < length (procs k1)" "t1 = t" "p_state (procs k1 ! np) = USED"
      and inv1: "field_inv (t, k1)" and st1: "field_step w (t, k) (t, k1)" and len: "length (procs k1) = length (procs k)"
      using al' by auto
    from f al Some obtain r1 s where u: "v_uvmcopy v (p_pagetable (procs k1 ! p)) (p_pagetable (procs k1 ! np))
        (p_sz (procs k1 ! p)) (k_mem k1) = Ok (r1, s)"
      by (auto simp: kfork_p2_def res_simps)
    have inv2: "field_inv (t, set_mem s k1)" using inv1 by (simp add: field_inv_def)
    show ?thesis
    proof (cases "r1 < 0")
      case True
      with f al Some np(2) u have "freeproc_p2 v np (t, set_mem s k1) = ret st'"
        by (auto simp: kfork_p2_def res_simps)
      from freeproc_p2_inv [OF this inv2, of w] np(1) show ?thesis
        using field_step_trans [OF st1] field_step_frame [of w t "set_mem s k1" st' k1] by simp
    next
      case False
      let ?q = "procs k1 ! np"
      have sz: "p_sz (procs k1 ! p) \<le> TRAPFRAME"
        using inv1 p len by (simp add: field_inv_def field_ok_def list_all2_conv_all_nth)
      from f al Some np(2) u False obtain of' cw where
        st': "fst st' = t" "procs (snd st') = (procs k1)[np := ?q\<lparr>p_sz := p_sz (procs k1 ! p), p_ofile := of',
          p_cwd := cw, p_name := safestrcpy16 (p_name (procs k1 ! p)), p_parent := Some p, p_state := RUNNABLE\<rparr>]"
        by (auto simp: kfork_p2_def res_simps Let_def split: prod.splits)
      have "field_inv (t, snd st')"
        by (rule field_inv_upd [OF inv1 st'(2)]) (use np(3) sz in \<open>simp add: calm_def\<close>)
      then show ?thesis using st'(1) by (metis field_step_same fst_conv prod.collapse)
    qed
  qed
qed

lemma wait_scan_p2_inv:
  assumes "wait_scan_p2 v p addr is h (t, k) = ret (x, st')" "field_inv (t, k)" "set is \<subseteq> {..<length (procs k)}"
  shows "field_inv st' \<and> field_step w (t, k) st'"
  using assms
proof (induction "is" arbitrary: h)
  case (Cons i "is")
  let ?pp = "procs k ! i"
  show ?case
  proof (cases "p_parent ?pp = Some p \<and> p_state ?pp = ZOMBIE")
    case False
    then show ?thesis using Cons.IH Cons.prems by (auto simp: Let_def split: if_splits)
  next
    case True
    define m where "m = (if addr \<noteq> 0 then lift (v_copyout v (p_pagetable (procs k ! p)) (p_sz (procs k ! p)) addr
      (int_bytes (p_xstate ?pp)) (k_mem k)) else ret (0, k_mem k))"
    have scan: "wait_scan_p2 v p addr (i # is) h (t, k) = rbnd m (\<lambda>(r, s). if r < 0 then ret (Inl (-1), (t, set_mem s k))
      else rbnd (freeproc_p2 v i (t, upd i (\<lambda>q. q\<lparr>p_parent := None\<rparr>) (set_mem s k))) (\<lambda>st. ret (Inl (p_pid ?pp), st)))"
      using True by (simp add: m_def Let_def)
    obtain r s where m: "m = ret (r, s)" using Cons.prems(1) unfolding scan by (auto simp: res_simps)
    define k1 where "k1 = set_mem s k"
    have ps: "procs k1 = procs k" by (simp add: k1_def)
    have d: "st' = (t, k1) \<or> freeproc_p2 v i (t, upd i (\<lambda>q. q\<lparr>p_parent := None\<rparr>) k1) = ret st'"
      using Cons.prems(1) unfolding scan m k1_def by (auto simp: res_simps split: if_splits)
    have "field_inv (t, k1)" using Cons.prems(2) by (simp add: field_inv_def ps)
    moreover have i: "field_inv (t, upd i (\<lambda>q. q\<lparr>p_parent := None\<rparr>) k1)"
      by (rule field_inv_upd [OF Cons.prems(2), of _ i "(procs k ! i)\<lparr>p_parent := None\<rparr>"])
        (simp_all add: calm_def ps)
    moreover have "field_step w (t, k) st'"
      if "field_step w (t, upd i (\<lambda>q. q\<lparr>p_parent := None\<rparr>) k1) st'"
      using that by (simp add: field_step_def)
    ultimately show ?thesis using d freeproc_p2_inv [OF _ i, of v i st' w] Cons.prems(3) ps by auto
  qed
qed auto

context memory_layer
begin

lemma growproc_p2_calm:
  assumes g: "growproc_p2 v p n k = Ok (r, k')" and sz: "p_sz (procs k ! p) \<le> TRAPFRAME"
  obtains q where "procs k' = (procs k)[p := q]" "calm (procs k ! p) q"
proof -
  let ?sz = "p_sz (procs k ! p)"
  have "procs k' = procs k \<or> (\<exists>x \<le> TRAPFRAME. procs k' = (procs k)[p := (procs k ! p)\<lparr>p_sz := x\<rparr>])"
  proof (cases "sint n > 0")
    case pos: True
    show ?thesis
    proof (cases "?sz + scast n > TRAPFRAME")
      case True
      then show ?thesis using g pos by (simp add: growproc_p2_def)
    next
      case False
      with g pos obtain x s where u: "v_uvmalloc v (p_pagetable (procs k ! p)) ?sz (?sz + scast n) PTE_W (k_mem k) = Ok (x, s)"
        by (auto simp: growproc_p2_def Let_def res_simps)
      then have "x \<le> TRAPFRAME" using uvmalloc_size [OF u] sz False by auto
      then show ?thesis using g pos False u by (auto simp: growproc_p2_def Let_def split: if_splits)
    qed
  next
    case neg: False
    show ?thesis
    proof (cases "sint n < 0")
      case True
      with g neg obtain x s where u: "v_uvmdealloc v (p_pagetable (procs k ! p)) ?sz (?sz + scast n) (k_mem k) = Ok (x, s)"
        by (auto simp: growproc_p2_def Let_def res_simps)
      then have "x \<le> TRAPFRAME" using uvmdealloc_size [OF u] sz by simp
      then show ?thesis using g neg True u by (auto simp: growproc_p2_def Let_def)
    next
      case False
      then show ?thesis using g neg sz by (auto simp: growproc_p2_def Let_def)
    qed
  qed
  then show ?thesis
  proof
    assume "procs k' = procs k"
    then show thesis using that [of "procs k ! p"] by simp
  next
    assume "\<exists>x \<le> TRAPFRAME. procs k' = (procs k)[p := (procs k ! p)\<lparr>p_sz := x\<rparr>]"
    then show thesis using that by (auto simp: calm_def)
  qed
qed

lemma sbrk_p2_calm:
  assumes s: "sbrk_p2 e p k = ret (r, k')" "p2_vm e = v" and sz: "p_sz (procs k ! p) \<le> TRAPFRAME"
  obtains q where "procs k' = (procs k)[p := q]" "calm (procs k ! p) q"
proof -
  from s(1) obtain n t where a: "argint 0 p k = Ok n" "argint 1 p k = Ok t"
    by (auto simp: sbrk_p2_def res_simps)
  show ?thesis
  proof (cases "t = e_sbrk_eager (p2_sys e) \<or> sint n < 0")
    case True
    with s a obtain r' where "growproc_p2 v p n k = Ok (r', k')"
      by (auto simp: sbrk_p2_def res_simps split: if_splits)
    then show ?thesis using growproc_p2_calm [OF _ sz] that by blast
  next
    case False
    with s(1) a have "procs k' = procs k \<or> p_sz (procs k ! p) + scast n \<le> TRAPFRAME \<and>
        procs k' = (procs k)[p := (procs k ! p)\<lparr>p_sz := p_sz (procs k ! p) + scast n\<rparr>]"
      by (auto simp: sbrk_p2_def Let_def split: if_splits)
    then show ?thesis
    proof
      assume "procs k' = procs k"
      then show thesis using that [of "procs k ! p"] by simp
    next
      assume "p_sz (procs k ! p) + scast n \<le> TRAPFRAME \<and>
        procs k' = (procs k)[p := (procs k ! p)\<lparr>p_sz := p_sz (procs k ! p) + scast n\<rparr>]"
      then show thesis using that by (auto simp: calm_def)
    qed
  qed
qed

end

section \<open>trace, sysinfo, kill\<close>

lemma syscallid_by_name_range: "syscallid_by_name name = -1 \<or> 1 \<le> syscallid_by_name name \<and> syscallid_by_name name \<le> 24"
  by (auto simp: syscallid_by_name_def syscallnames_def simp del: upt_Suc dest!: find_unique split: option.splits)

lemma argstr_p2_procs: "argstr_p2 v n mx p k = Ok (r, bs, k') \<Longrightarrow> procs k' = procs k"
  by (auto simp: argstr_p2_def fetchstr_p2_def res_simps Let_def split: if_splits)

lemma sys_trace_inv:
  assumes "sys_trace e p (t, k) = ret (r, st')" "field_inv (t, k)" "p_state (procs k ! p) \<noteq> UNUSED" "p < length (procs k)"
  shows "field_inv st' \<and> field_step (Some p) (t, k) st'"
proof -
  from assms(1) obtain len bs k1 where a: "argstr_p2 (p2_vm e) 0 16 p k = Ok (len, bs, k1)"
    by (auto simp: sys_trace_def res_simps)
  have ps: "procs k1 = procs k" by (rule argstr_p2_procs [OF a])
  let ?id = "syscallid_by_name (c_string bs)"
  show ?thesis
  proof (cases "len < 0 \<or> ?id < 0")
    case True
    then have "fst st' = t" "procs (snd st') = procs k"
      using assms(1) a ps by (auto simp: sys_trace_def print_console_def Let_def split: if_splits)
    then show ?thesis using assms(2) by (cases st') (auto simp: field_inv_def)
  next
    case False
    then have st': "st' = (t[p := of_int ?id], k1)" using assms(1) a by (auto simp: sys_trace_def Let_def)
    have "1 \<le> ?id" "?id \<le> 24" using syscallid_by_name_range [of "c_string bs"] False by auto
    then have "sint (of_int ?id :: i32) = ?id" by (simp add: signed_of_int signed_take_bit_int_eq_self)
    moreover have "p_sz (procs k ! p) \<le> TRAPFRAME"
      using assms(2,4) by (simp add: field_inv_def list_all2_conv_all_nth field_ok_def)
    ultimately have "field_ok (of_int ?id) (procs k ! p)"
      using assms(3) \<open>1 \<le> ?id\<close> \<open>?id \<le> 24\<close> by (simp add: field_ok_def)
    then have "field_inv st'" unfolding st'
      using field_inv_slot [OF assms(2), of k1 p "procs k ! p"] ps by simp
    moreover have "field_step (Some p) (t, k) st'" unfolding st' field_step_def by (metis fst_conv nth_list_update_neq)
    ultimately show ?thesis by simp
  qed
qed

lemma kkill_p2_space: "list_all2 calm (procs k) (procs (snd (kkill_p2 pid k)))"
proof -
  have "list_all2 calm ps (snd (kill_loop pid ps))" for ps
    by (induction ps) (auto simp: calm_def Let_def list_all2_same split: prod.splits)
  then show ?thesis by (simp add: kkill_p2_def split: prod.splits) (metis snd_conv)
qed

section \<open>Steps\<close>

text \<open>
  One critical section of a process that runs, with the process whose \<open>sys_trace\<close> it is, if it
  is one. The calls of the file system layer are not among the steps.
\<close>

inductive kstep2 :: "'fs p2env \<Rightarrow> nat option \<Rightarrow> 'fs kst2 \<Rightarrow> 'fs kst2 \<Rightarrow> bool" for e where
  dispatch: "kstep2 e None (t, k) (t, upd p (\<lambda>q. q\<lparr>p_state := RUNNING\<rparr>) k)"
    if "p < length (procs k)" "p_state (procs k ! p) = RUNNABLE"
| preempt: "kstep2 e None (t, k) (t, k')" if "running p k" "yield p k = Ok k'"
| fork: "kstep2 e None (t, k) st'" if "running p k" "kfork_p2 (p2_vm e) (e_fs (p2_sys e)) p (t, k) = ret (r, st')"
| exit: "kstep2 e None (t, k) (t, k')" if "running p k" "kexit (e_fs (p2_sys e)) p s k = Ok k'"
| scan: "kstep2 e None (t, k) st'"
    if "running p k" "wait_scan_p2 (p2_vm e) p addr [0..<length (procs k)] False (t, k) = ret (x, st')"
| prepare: "kstep2 e None (t, k) (t, k')" if "running p k" "sleep_prepare p c k = Ok k'"
| sleep: "kstep2 e None (t, k) (t, k')" if "running p k" "sleep p k = Ok k'"
| wakeup: "kstep2 e None (t, k) (t, wakeup c k)"
| kill: "kstep2 e None (t, k) (t, snd (kkill_p2 pid k))"
| setkilled: "kstep2 e None (t, k) (t, setkilled p k)" if "running p k"
| sbrk: "kstep2 e None (t, k) (t, k')" if "running p k" "sbrk_p2 e p k = ret (r, k')"
| sysinfo: "kstep2 e None (t, k) st'" if "running p k" "sys_sysinfo e p (t, k) = ret (r, st')"
| trace: "kstep2 e (Some p) (t, k) st'" if "running p k" "sys_trace e p (t, k) = ret (r, st')"

inductive reachable2 :: "'fs p2env \<Rightarrow> 'fs kst2 \<Rightarrow> 'fs kst2 \<Rightarrow> bool" for e st0 where
  start: "reachable2 e st0 st0"
| step: "reachable2 e st0 st \<Longrightarrow> kstep2 e w st st' \<Longrightarrow> reachable2 e st0 st'"

lemma calm_upd: "calm (procs k ! p) (f (procs k ! p)) \<Longrightarrow> field_inv (t, k) \<Longrightarrow> field_inv (t, upd p f k)"
  by (rule field_inv_upd [of t k _ p "f (procs k ! p)"]) simp_all

lemma field_inv_exited: "field_inv (t, k) \<Longrightarrow> running p k \<Longrightarrow> field_inv (t, exited fs p s k)"
  by (rule field_inv_space [OF _ exited_same_space]) (auto simp: running_def)

lemma sys_sysinfo_field: "sys_sysinfo e p (t, k) = ret (r, st') \<Longrightarrow> fst st' = t \<and> procs (snd st') = procs k"
  by (auto simp: sys_sysinfo_def res_simps split: option.splits)

context memory_layer
begin

lemma kstep2_inv:
  assumes "kstep2 e w st st'" "p2_vm e = v" "field_inv st"
  shows "field_inv st' \<and> field_step w st st'"
  using assms
proof (induction rule: kstep2.induct)
  case (dispatch p k t)
  then show ?case by (auto intro!: calm_upd simp: calm_def)
next
  case (preempt p k k' t)
  then have "k' = upd p (\<lambda>q. q\<lparr>p_state := RUNNABLE\<rparr>) k" using switch_mem_inv by (auto simp: yield_def)
  then show ?case using preempt by (auto intro!: calm_upd simp: calm_def running_def)
next
  case (fork p k t r st')
  then show ?case by (intro kfork_p2_inv) (auto simp: running_def)
next
  case (exit p k s k' t)
  then have "k' = exited (e_fs (p2_sys e)) p s k" using switch_mem_inv by (auto simp: kexit_exited split: if_splits)
  then show ?case using exit field_inv_exited by auto
next
  case (scan p k addr t x st')
  then show ?case by (intro wait_scan_p2_inv) (auto simp: running_def)
next
  case (prepare p k c k' t)
  then have "k' = upd p (\<lambda>q. q\<lparr>p_chan := c\<rparr>) k" by (auto simp: sleep_prepare_def split: if_splits)
  then show ?case using prepare by (auto intro!: calm_upd simp: calm_def)
next
  case (sleep p k k' t)
  then have "k' = k \<or> k' = upd p (\<lambda>q. q\<lparr>p_state := SLEEPING\<rparr>) k" using switch_mem_inv by (auto simp: sleep_def split: if_splits)
  then show ?case using sleep by (auto intro!: calm_upd simp: calm_def)
next
  case (wakeup t k c)
  then show ?case using field_inv_space [of t k "wakeup c k"] same_space_wake by (simp add: list_all2_conv_all_nth)
next
  case (kill t k pid)
  then show ?case using field_inv_calm [OF _ kkill_p2_space] by simp
next
  case (setkilled p k t)
  then show ?case by (auto intro!: calm_upd simp: calm_def setkilled_def)
next
  case (sbrk p k r k' t)
  then have "p_sz (procs k ! p) \<le> TRAPFRAME" by (auto simp: field_inv_def field_ok_def list_all2_conv_all_nth running_def)
  from sbrk_p2_calm [OF sbrk(2,3) this] sbrk(4) show ?case by (metis field_inv_upd field_step_same fst_conv)
next
  case (sysinfo p k t r st')
  then show ?case using sys_sysinfo_field [OF sysinfo(2)] by (cases st') (auto simp: field_inv_def)
next
  case (trace p k t r st')
  then show ?case by (intro sys_trace_inv) (auto simp: running_def)
qed

lemma reachable2_inv: "reachable2 e st0 st \<Longrightarrow> p2_vm e = v \<Longrightarrow> field_inv st0 \<Longrightarrow> field_inv st"
  by (induction rule: reachable2.induct) (use kstep2_inv in blast)+

end

text \<open>The first process.\<close>

lemma userinit_p2_inv:
  assumes u: "userinit_p2 v fs (t, k) = ret st'" and inv: "field_inv (t, k)"
  shows "field_inv st'"
proof -
  from u obtain i t1 k1 where al: "allocproc_p2 v (t, k) = ret (Some i, (t1, k1))"
    by (auto simp: userinit_p2_def res_simps split: option.splits)
  from allocproc_p2_field [OF al inv, of None] have a: "field_inv (t1, k1)" "p_state (procs k1 ! i) = USED" by auto
  from u al obtain q where "fst st' = t1" "procs (snd st') = (procs k1)[i := (procs k1 ! i)\<lparr>p_cwd := q, p_state := RUNNABLE\<rparr>]"
    by (auto simp: userinit_p2_def split: prod.splits)
  then show ?thesis using field_inv_upd [OF a(1), of "snd st'" i] a(2) by (cases st') (auto simp: calm_def)
qed

lemma field_inv_boot:
  assumes "\<forall>q \<in> set (procs k). p_sz q = 0"
  shows "field_inv (replicate (length (procs k)) 0, k)"
  using assms by (auto simp: field_inv_def list_all2_conv_all_nth field_ok_def)

end
