(* ===== verification/User_Progs.thy ===== *)
theory User_Progs
  imports Kernel2_Inv Proc_Props
begin

text \<open>
  The programs \<open>Proyecto2/user/trace.c\<close> and \<open>sysinfo.c\<close>, as trees of the system calls they make,
  the lines they print and the words of their memory they read, run on the kernel of
  \<open>Proyecto2\<close>. What is between a program and the dispatcher is a parameter: the code of
  \<open>trampoline.S\<close> and \<open>trap.c\<close>, which is not in the repository, and the printing functions.
\<close>

section \<open>Programs\<close>

datatype parg = Str string | Num i32

datatype prog =
    Ucall nat "u64 list" "u64 \<Rightarrow> prog"
  | Load u64 "u64 \<Rightarrow> prog"
  | Fprintf i32 string "parg list" prog
  | Uexit i32

text \<open>\<open>arg\<close> is the pointer \<open>argv[1]\<close>, \<open>name\<close> the string there.\<close>

definition trace_main :: "i32 \<Rightarrow> u64 \<Rightarrow> string \<Rightarrow> prog" where
  "trace_main argc arg name =
     (if sint argc < 2 then Fprintf 2 ''uso: trace <nombre_syscall>\<newline>'' [] (Uexit 1)
      else Ucall SYS_trace [arg] (\<lambda>r.
        if sint (ucast r :: i32) < 0
        then Fprintf 2 ''trace: no se pudo monitorear %s\<newline>'' [Str name] (Uexit 1)
        else Fprintf 1 ''Monitoreo activado para: %s\<newline>'' [Str name]
          (Ucall SYS_getpid [] (\<lambda>r. Fprintf 1 ''PID actual: %d\<newline>'' [Num (ucast r)]
          (Ucall SYS_getpid [] (\<lambda>r. let pid = (ucast r :: i32) in
           Ucall SYS_kill [scast pid] (\<lambda>_. Ucall SYS_uptime [] (\<lambda>_. Uexit 0))))))))"

text \<open>\<open>info\<close> is the address of the variable, \<open>argv0\<close> the string \<open>argv[0]\<close>.\<close>

definition sysinfo_main :: "string \<Rightarrow> u64 \<Rightarrow> prog" where
  "sysinfo_main argv0 info =
     Ucall SYS_sysinfo [info] (\<lambda>r.
       if sint (ucast r :: i32) < 0
       then Fprintf 2 ''%s: sysinfo failed\<newline>'' [Str argv0] (Uexit 1)
       else Fprintf 1 ''--- SYSINFO REPORT ---\<newline>'' []
         (Load info (\<lambda>w. Fprintf 1 ''Free memory (bytes): %d\<newline>'' [Num (ucast w)]
         (Load (info + 8) (\<lambda>w. Fprintf 1 ''Used pages: %d\<newline>'' [Num (ucast w)]
         (Load (info + 16) (\<lambda>w. Fprintf 1 ''Available pages: %d\<newline>'' [Num (ucast w)]
         (Load (info + 24) (\<lambda>w. Fprintf 1 ''Runnable processes: %d\<newline>'' [Num (ucast w)]
         (Uexit 0))))))))))"

section \<open>Running a program\<close>

text \<open>
  \<open>u_enter\<close>: the kernel state in which \<open>syscall\<close> finds the number and the arguments of a call.
  \<open>u_back\<close>: whether \<open>usertrap\<close> goes back to the program. \<open>u_load\<close>: the word that a program with
  this page table reads. \<open>u_prints\<close>: the arguments of the calls of \<open>write\<close> by which \<open>printf\<close> prints a
  line.
\<close>

type_synonym line = "i32 \<times> string \<times> parg list"

record 'fs uenv =
  u_enter :: "nat \<Rightarrow> u64 list \<Rightarrow> nat \<Rightarrow> 'fs kst \<Rightarrow> 'fs kst"
  u_back :: "nat \<Rightarrow> 'fs kst \<Rightarrow> bool"
  u_load :: "u64 \<Rightarrow> phys \<Rightarrow> u64 \<Rightarrow> u64"
  u_prints :: "line \<Rightarrow> u64 list list"

abbreviation SYS_write :: nat where "SYS_write \<equiv> 16"

text \<open>The calls a program has made, with their results.\<close>

type_synonym calls = "(nat \<times> u64) list"

text \<open>The calls of \<open>write\<close>: whether the program goes on, and the calls made.\<close>

primrec run_writes ::
  "u64 list list \<Rightarrow> 'fs uenv \<Rightarrow> 'fs p2env \<Rightarrow> nat \<Rightarrow> 'fs kst2 \<Rightarrow> (calls \<times> bool \<times> 'fs kst2) run" where
  "run_writes [] u e p st = ret ([], True, st)"
| "run_writes (args # as) u e p st =
     rbnd (syscall_p2 e p (fst st, u_enter u SYS_write args p (snd st))) (\<lambda>(r, st).
       case r of
         Sys_return x \<Rightarrow>
           if u_back u p (snd st)
           then rbnd (run_writes as u e p st) (\<lambda>(cs, b, st). ret ((SYS_write, x) # cs, b, st))
           else ret ([(SYS_write, x)], False, st)
       | _ \<Rightarrow> ret ([], False, st))"

text \<open>
  The lines printed, the calls made, the exit status if the program got there, and the state of the
  kernel.
\<close>

primrec run_prog ::
  "prog \<Rightarrow> 'fs uenv \<Rightarrow> 'fs p2env \<Rightarrow> nat \<Rightarrow> 'fs kst2 \<Rightarrow> (line list \<times> calls \<times> i32 option \<times> 'fs kst2) run" where
  "run_prog (Ucall n args c) u e p st =
     rbnd (syscall_p2 e p (fst st, u_enter u n args p (snd st))) (\<lambda>(r, st).
       case r of
         Sys_return x \<Rightarrow>
           if u_back u p (snd st)
           then rbnd (run_prog (c (tf_reg p TF_A0 (snd st))) u e p st) (\<lambda>(out, cs, r, st). ret (out, (n, x) # cs, r, st))
           else ret ([], [(n, x)], None, st)
       | _ \<Rightarrow> ret ([], [], None, st))"
| "run_prog (Load a c) u e p st =
     run_prog (c (u_load u (p_pagetable (procs (snd st) ! p)) (k_mem (snd st)) a)) u e p st"
| "run_prog (Fprintf fd f args c) u e p st =
     rbnd (run_writes (u_prints u (fd, f, args)) u e p st) (\<lambda>(ws, b, st).
       if b then rbnd (run_prog c u e p st) (\<lambda>(out, cs, r, st). ret ((fd, f, args) # out, ws @ cs, r, st))
       else ret ([], ws, None, st))"
| "run_prog (Uexit n) u e p st = ret ([], [], Some n, st)"

declare run_prog.simps(1,3) [simp del]

section \<open>The calls that the programs make\<close>

text \<open>What the entry of a call leaves as it was.\<close>

definition enters :: "'fs uenv \<Rightarrow> nat \<Rightarrow> bool" where
  "enters u p \<longleftrightarrow> (\<forall>n args k. procs (u_enter u n args p k) = procs k \<and>
     k_console (u_enter u n args p k) = k_console k \<and> k_ticks (u_enter u n args p k) = k_ticks k \<and>
     tf_reg p TF_A7 (u_enter u n args p k) = of_nat n \<and>
     (args \<noteq> [] \<longrightarrow> tf_reg p 112 (u_enter u n args p k) = hd args))"

text \<open>\<open>usertrap\<close> does not return to a process that was killed.\<close>

definition backs :: "'fs uenv \<Rightarrow> nat \<Rightarrow> bool" where
  "backs u p \<longleftrightarrow> (\<forall>k. u_back u p k \<longleftrightarrow> p_killed (procs k ! p) = 0)"

text \<open>One report of the tracing dispatcher: the process, the call and its result, shown also as \<open>a0\<close>.\<close>

definition report :: "i32 \<Rightarrow> string \<Rightarrow> u64 \<Rightarrow> console \<Rightarrow> bool" where
  "report pid name x c \<longleftrightarrow> (\<exists>s0 s1 a1. c = Traced pid name (ucast x) s0 s1 (ucast x) a1)"

lemma syscall_p2_spec:
  assumes "(num :: i32) = ucast (tf_reg p TF_A7 k)" "1 \<le> sint num" "sint num \<le> 24"
    and "syscalls_p2 e (nat (sint num)) = Some f" "f p (traced, k) = ret (Sys_return v, (traced', k1))"
  shows "\<exists>k' s. syscall_p2 e p (traced, k) = ret (Sys_return v, (traced', k')) \<and>
    tf_reg p TF_A0 k' = v \<and> procs k' = procs k1 \<and> k_mem k' = k_mem (set_a0 p v k1) \<and>
    syscallnames ! nat (sint num) = Some s \<and>
    k_console k' = k_console k1 @
      (if traced' ! p = num
       then [Traced (p_pid (procs k1 ! p)) s (ucast v) (ucast (tf_reg p 96 k')) (ucast (tf_reg p 104 k'))
         (ucast v) (ucast (tf_reg p 120 k'))]
       else [])"
proof -
  have n: "sint num > 0 \<and> sint num < NSYSCALLS" "0 < nat (sint num)" "nat (sint num) < 25"
    using assms(2,3) by auto
  then obtain s where s: "syscallnames ! nat (sint num) = Some s" using syscallnames_nth by blast
  let ?k2 = "set_a0 p v k1"
  define k' where "k' = (if traced' ! p = num then trace_report (nat (sint num)) p ?k2 else ?k2)"
  have "syscall_p2 e p (traced, k) = ret (Sys_return v, (traced', k'))"
    using n(1) assms(4,5) unfolding syscall_p2_def snd_conv assms(1) [symmetric] Let_def k'_def by simp
  moreover have "tf_reg p TF_A0 ?k2 = v" by (simp add: tf_reg_def set_a0_def load64_store64)
  moreover have "k_console ?k2 = k_console k1" "procs ?k2 = procs k1" by (simp_all add: set_a0_def)
  ultimately show ?thesis using s
    by (intro exI [of _ k'] exI [of _ s]) (simp add: k'_def trace_report_def print_console_def tf_reg_def)
qed

lemma call_number: "n \<le> 24 \<Longrightarrow> ucast (of_nat n :: u64) = (of_nat n :: i32) \<and> sint (of_nat n :: i32) = int n"
proof -
  assume n: "n \<le> 24"
  have "take_bit 64 n = n" by (rule take_bit_nat_eq_self) (use n in simp)
  then have "ucast (of_nat n :: u64) = (of_nat n :: i32)" by (simp add: unsigned_of_nat)
  moreover have "sint (of_nat n :: i32) = int n" using n by (simp add: signed_of_nat signed_take_bit_int_eq_self)
  ultimately show ?thesis by simp
qed

text \<open>What the console shows of a list of calls: a report for each that has the traced number.\<close>

definition reports :: "i32 \<Rightarrow> i32 \<Rightarrow> calls \<Rightarrow> console list \<Rightarrow> bool" where
  "reports num pid calls cs \<longleftrightarrow> list_all2 (\<lambda>(m, x) c. \<exists>s. syscallnames ! m = Some s \<and> report pid s x c)
     (filter (\<lambda>(m, x). of_nat m = num) calls) cs"

lemma reports_Nil [simp]: "reports num pid [] cs \<longleftrightarrow> cs = []"
  by (simp add: reports_def)

lemma reports_append: "reports num pid a cs \<Longrightarrow> reports num pid b ds \<Longrightarrow> reports num pid (a @ b) (cs @ ds)"
  by (simp add: reports_def list_all2_appendI)

text \<open>A call of a program: what it prints on the console, and how the program goes on.\<close>

lemma user_call:
  assumes en: "enters u p" and n: "1 \<le> n" "n \<le> 24" "syscalls_p2 e n = Some f"
    and f: "f p (t, u_enter u n args p k) = ret (Sys_return v, (t', k2))"
  shows "\<exists>k3 cs. syscall_p2 e p (t, u_enter u n args p k) = ret (Sys_return v, (t', k3)) \<and>
    tf_reg p TF_A0 k3 = v \<and> procs k3 = procs k2 \<and> k_console k3 = k_console k2 @ cs \<and>
    k_mem k3 = k_mem (set_a0 p v k2) \<and> reports (t' ! p) (p_pid (procs k2 ! p)) [(n, v)] cs"
proof -
  let ?k = "u_enter u n args p k" and ?n = "of_nat n :: i32"
  have num: "?n = ucast (tf_reg p TF_A7 ?k)" "nat (sint ?n) = n" "1 \<le> sint ?n" "sint ?n \<le> 24"
    using en n call_number [of n] by (simp_all add: enters_def)
  have "syscalls_p2 e (nat (sint ?n)) = Some f" using n num by simp
  from syscall_p2_spec [OF num(1,3,4) this f] obtain k3 s where
    k3: "syscall_p2 e p (t, ?k) = ret (Sys_return v, (t', k3))" "tf_reg p TF_A0 k3 = v" "procs k3 = procs k2"
      "k_mem k3 = k_mem (set_a0 p v k2)" "syscallnames ! n = Some s"
      "k_console k3 = k_console k2 @ (if t' ! p = ?n
       then [Traced (p_pid (procs k2 ! p)) s (ucast v) (ucast (tf_reg p 96 k3)) (ucast (tf_reg p 104 k3))
         (ucast v) (ucast (tf_reg p 120 k3))] else [])"
    unfolding num(2) by blast
  then show ?thesis
    by (intro exI [of _ k3] exI [of _ "if t' ! p = ?n
       then [Traced (p_pid (procs k2 ! p)) s (ucast v) (ucast (tf_reg p 96 k3)) (ucast (tf_reg p 104 k3))
         (ucast v) (ucast (tf_reg p 120 k3))] else []"]) (auto simp: reports_def report_def)
qed

lemma run_call:
  assumes en: "enters u p" and ba: "backs u p" and n: "1 \<le> n" "n \<le> 24" "syscalls_p2 e n = Some f"
    and f: "f p (t, u_enter u n args p k) = ret (Sys_return v, (t', k2))"
  shows "\<exists>k3 cs. procs k3 = procs k2 \<and> k_console k3 = k_console k2 @ cs \<and>
    k_mem k3 = k_mem (set_a0 p v k2) \<and> reports (t' ! p) (p_pid (procs k2 ! p)) [(n, v)] cs \<and>
    (\<forall>c. run_prog (Ucall n args c) u e p (t, k) =
      (if p_killed (procs k2 ! p) = 0
       then rbnd (run_prog (c v) u e p (t', k3)) (\<lambda>(out, cs, r, st). ret (out, (n, v) # cs, r, st))
       else ret ([], [(n, v)], None, (t', k3))))"
proof -
  from user_call [OF en n f] obtain k3 cs where
    k3: "syscall_p2 e p (t, u_enter u n args p k) = ret (Sys_return v, (t', k3))" "tf_reg p TF_A0 k3 = v"
      "procs k3 = procs k2" "k_console k3 = k_console k2 @ cs" "k_mem k3 = k_mem (set_a0 p v k2)"
      "reports (t' ! p) (p_pid (procs k2 ! p)) [(n, v)] cs" by blast
  then show ?thesis using ba
    by (intro exI [of _ k3] exI [of _ cs]) (auto simp: run_prog.simps(1) backs_def)
qed

section \<open>Printing\<close>

text \<open>
  What a call of \<open>write\<close>, which the file layer implements, leaves of the caller: it returns, nothing
  is printed on the console by the kernel, no process gets another pid, and the caller has the
  same memory map and was not killed.
\<close>

definition same_self :: "nat \<Rightarrow> 'fs kst \<Rightarrow> 'fs kst \<Rightarrow> bool" where
  "same_self p k k' \<longleftrightarrow> map p_pid (procs k') = map p_pid (procs k) \<and>
     p_killed (procs k' ! p) = p_killed (procs k ! p) \<and> p_pagetable (procs k' ! p) = p_pagetable (procs k ! p) \<and>
     p_trapframe (procs k' ! p) = p_trapframe (procs k ! p)"

lemma same_self_trans: "same_self p k1 k2 \<Longrightarrow> same_self p k2 k3 \<Longrightarrow> same_self p k1 k3"
  by (simp add: same_self_def)

lemma same_self_pid:
  assumes "same_self p k k'" "i < length (procs k)"
  shows "p_pid (procs k' ! i) = p_pid (procs k ! i)" "length (procs k') = length (procs k)"
proof -
  have m: "map p_pid (procs k') = map p_pid (procs k)" using assms(1) by (simp add: same_self_def)
  show l: "length (procs k') = length (procs k)" using arg_cong [OF m, of length] by simp
  show "p_pid (procs k' ! i) = p_pid (procs k ! i)" using arg_cong [OF m, of "\<lambda>xs. xs ! i"] assms(2) l by simp
qed

definition writes :: "'fs p2env \<Rightarrow> nat \<Rightarrow> bool" where
  "writes e p \<longleftrightarrow> (\<forall>k. \<exists>x k'. e_file_call (p2_sys e) SYS_write p k = ret (Sys_return x, k') \<and>
     k_console k' = k_console k \<and> same_self p k k')"

text \<open>The words at the addresses \<open>X\<close> are no part of what printing changes in the program.\<close>

definition keeps_words :: "'fs uenv \<Rightarrow> 'fs p2env \<Rightarrow> nat \<Rightarrow> u64 \<Rightarrow> u64 set \<Rightarrow> bool" where
  "keeps_words u e p tf X \<longleftrightarrow> (\<forall>args k x k'. p_trapframe (procs k ! p) = tf \<longrightarrow>
     e_file_call (p2_sys e) SYS_write p (u_enter u SYS_write args p k) = ret (Sys_return x, k') \<longrightarrow>
     (\<forall>a \<in> X. u_load u (p_pagetable (procs k ! p)) (k_mem (set_a0 p x k')) a =
        u_load u (p_pagetable (procs k ! p)) (k_mem k) a))"

definition same_words :: "'fs uenv \<Rightarrow> nat \<Rightarrow> u64 set \<Rightarrow> 'fs kst \<Rightarrow> 'fs kst \<Rightarrow> bool" where
  "same_words u p X k k' \<longleftrightarrow> (\<forall>a \<in> X. u_load u (p_pagetable (procs k' ! p)) (k_mem k') a =
     u_load u (p_pagetable (procs k ! p)) (k_mem k) a)"

lemma run_writes_spec:
  assumes en: "enters u p" and ba: "backs u p" and wr: "writes e p" and kw: "keeps_words u e p tf X"
    and p: "p < length (procs k)"
  shows "p_killed (procs k ! p) = 0 \<Longrightarrow> p_trapframe (procs k ! p) = tf \<Longrightarrow>
    \<exists>vs k' cs. run_writes as u e p (t, k) = ret (map (Pair SYS_write) vs, True, (t, k')) \<and>
      length vs = length as \<and> same_self p k k' \<and> same_words u p X k k' \<and> k_console k' = k_console k @ cs \<and>
      reports (t ! p) (p_pid (procs k ! p)) (map (Pair SYS_write) vs) cs"
  using p
proof (induction as arbitrary: k)
  case Nil
  then show ?case
    by (intro exI [of _ "[]"] exI [of _ k]) (simp add: same_self_def same_words_def)
next
  case (Cons args as)
  let ?k = "u_enter u SYS_write args p k"
  have ek: "procs ?k = procs k" "k_console ?k = k_console k" using en by (simp_all add: enters_def)
  from wr obtain x k2 where w: "e_file_call (p2_sys e) SYS_write p ?k = ret (Sys_return x, k2)"
    "k_console k2 = k_console ?k" "same_self p ?k k2" unfolding writes_def by blast
  have s2: "same_self p k k2" using w(3) by (simp add: same_self_def ek)
  have f: "syscalls_p2 e SYS_write = Some (\<lambda>p. same_field (e_file_call (p2_sys e) SYS_write p))"
    by (simp add: syscalls_p2_def)
  have r: "same_field (e_file_call (p2_sys e) SYS_write p) (t, ?k) = ret (Sys_return x, (t, k2))"
    using w(1) by (simp add: same_field_def)
  have n: "1 \<le> SYS_write" "SYS_write \<le> 24" by simp_all
  from user_call [OF en n f r] obtain k3 c1 where
    k3: "syscall_p2 e p (t, ?k) = ret (Sys_return x, (t, k3))" "procs k3 = procs k2" "k_console k3 = k_console k2 @ c1"
      "k_mem k3 = k_mem (set_a0 p x k2)" "reports (t ! p) (p_pid (procs k2 ! p)) [(SYS_write, x)] c1" by blast
  have s3: "same_self p k k3" using s2 by (simp add: same_self_def k3(2))
  have w3: "same_words u p X k k3"
    using kw Cons.prems(2) w(1) s3 unfolding keeps_words_def same_words_def k3(4) by (simp add: same_self_def)
  have a: "p_killed (procs k3 ! p) = 0" "p_trapframe (procs k3 ! p) = tf" "p < length (procs k3)"
    "p_pid (procs k3 ! p) = p_pid (procs k ! p)"
    using s3 Cons.prems same_self_pid [OF s3 Cons.prems(3)] by (simp_all add: same_self_def)
  from Cons.IH [OF a(1-3)] obtain vs k' cs where
    IH: "run_writes as u e p (t, k3) = ret (map (Pair SYS_write) vs, True, (t, k'))" "length vs = length as"
      "same_self p k3 k'" "same_words u p X k3 k'" "k_console k' = k_console k3 @ cs"
      "reports (t ! p) (p_pid (procs k3 ! p)) (map (Pair SYS_write) vs) cs" by blast
  have "run_writes (args # as) u e p (t, k) = ret (map (Pair SYS_write) (x # vs), True, (t, k'))"
    using k3(1) IH(1) ba a(1) by (simp add: backs_def)
  moreover have "reports (t ! p) (p_pid (procs k ! p)) (map (Pair SYS_write) (x # vs)) (c1 @ cs)"
    using reports_append [OF k3(5)] IH(6) a(4) k3(2) by simp
  moreover have "same_words u p X k k'" using w3 IH(4) by (simp add: same_words_def)
  ultimately show ?case
    using IH(2,5) w(2) k3(3) ek same_self_trans [OF s3 IH(3)]
    by (intro exI [of _ "x # vs"] exI [of _ k'] exI [of _ "c1 @ cs"]) simp
qed

lemma run_print:
  assumes "enters u p" "backs u p" "writes e p" "keeps_words u e p tf X" "p < length (procs k)"
    and "p_killed (procs k ! p) = 0" "p_trapframe (procs k ! p) = tf"
  shows "\<exists>vs k' cs. length vs = length (u_prints u (fd, f, args)) \<and> same_self p k k' \<and> same_words u p X k k' \<and>
    k_console k' = k_console k @ cs \<and> reports (t ! p) (p_pid (procs k ! p)) (map (Pair SYS_write) vs) cs \<and>
    (\<forall>c. run_prog (Fprintf fd f args c) u e p (t, k) = rbnd (run_prog c u e p (t, k'))
      (\<lambda>(out, cs, r, st). ret ((fd, f, args) # out, map (Pair SYS_write) vs @ cs, r, st)))"
proof -
  from run_writes_spec [OF assms, of "u_prints u (fd, f, args)" t] obtain vs k' cs where
    "run_writes (u_prints u (fd, f, args)) u e p (t, k) = ret (map (Pair SYS_write) vs, True, (t, k'))"
      "length vs = length (u_prints u (fd, f, args))" "same_self p k k'" "same_words u p X k k'"
      "k_console k' = k_console k @ cs"
      "reports (t ! p) (p_pid (procs k ! p)) (map (Pair SYS_write) vs) cs" by blast
  then show ?thesis by (intro exI [of _ vs] exI [of _ k'] exI [of _ cs]) (simp add: run_prog.simps(3))
qed

section \<open>The single calls\<close>

lemma getpid_call: "sys_getpid_p2 p (t, k) = ret (Sys_return (scast (p_pid (procs k ! p))), (t, k))"
  by (simp add: sys_getpid_p2_def same_field_def sys_getpid_def)

lemma trace_call:
  assumes "enters u p"
    and "v_copyinstr (p2_vm e) (p_pagetable (procs k ! p)) (p_sz (procs k ! p)) arg 16
      (k_mem (u_enter u 24 [arg] p k)) = Ok (0, bs, s')"
  shows "\<exists>k2. procs k2 = procs k \<and>
    (if syscallid_by_name (c_string bs) < 0
     then sys_trace e p (t, u_enter u 24 [arg] p k) = ret (Sys_return (-1), (t, k2)) \<and>
       k_console k2 = k_console k @ [Unknown_trace (c_string bs)]
     else sys_trace e p (t, u_enter u 24 [arg] p k) =
         ret (Sys_return 0, (t[p := of_int (syscallid_by_name (c_string bs))], k2)) \<and> k_console k2 = k_console k)"
proof -
  let ?k = "u_enter u 24 [arg] p k"
  have en: "procs ?k = procs k" "k_console ?k = k_console k" "tf_reg p 112 ?k = arg"
    using assms(1) by (simp_all add: enters_def)
  have a: "argstr_p2 (p2_vm e) 0 16 p ?k = Ok (int (strlen_bytes bs), bs, set_mem s' ?k)"
    using assms(2) en by (simp add: argstr_p2_def argaddr_def argraw_def fetchstr_p2_def Let_def)
  let ?k1 = "set_mem s' ?k"
  show ?thesis
  proof (cases "syscallid_by_name (c_string bs) < 0")
    case True
    then show ?thesis using a en
      by (intro exI [of _ "print_console (Unknown_trace (c_string bs)) ?k1"])
        (simp add: sys_trace_def Let_def print_console_def)
  next
    case False
    then show ?thesis using a en by (intro exI [of _ ?k1]) (simp add: sys_trace_def Let_def)
  qed
qed

lemma int_register [simp]: "ucast (scast (w :: i32) :: u64) = (w :: i32)"
  by (rule bit_word_eqI) (auto simp: bit_simps)

lemma kill_self:
  assumes "p < length (procs k)" "\<forall>j < p. p_pid (procs k ! j) \<noteq> p_pid (procs k ! p)"
  shows "fst (kkill_p2 (p_pid (procs k ! p)) k) = 0 \<and>
    p_killed (procs (snd (kkill_p2 (p_pid (procs k ! p)) k)) ! p) = 1 \<and>
    p_pid (procs (snd (kkill_p2 (p_pid (procs k ! p)) k)) ! p) = p_pid (procs k ! p) \<and>
    k_console (snd (kkill_p2 (p_pid (procs k ! p)) k)) = k_console k"
proof -
  have "find (\<lambda>i. p_pid (procs k ! i) = p_pid (procs k ! p)) [0..<length (procs k)] = Some p"
    using assms by (auto simp: find_Some_iff intro!: exI [of _ p])
  then show ?thesis using assms(1) by (simp add: kkill_p2_def kill_loop_find)
qed

lemma kill_call:
  assumes "enters u p" "p < length (procs k)" "\<forall>j < p. p_pid (procs k ! j) \<noteq> p_pid (procs k ! p)"
  shows "\<exists>k2. sys_kill_p2 p (t, u_enter u 6 [scast (p_pid (procs k ! p))] p k) = ret (Sys_return 0, (t, k2)) \<and>
    p_killed (procs k2 ! p) = 1 \<and> p_pid (procs k2 ! p) = p_pid (procs k ! p) \<and> k_console k2 = k_console k"
proof -
  let ?k = "u_enter u 6 [scast (p_pid (procs k ! p))] p k"
  have en: "procs ?k = procs k" "k_console ?k = k_console k" "tf_reg p 112 ?k = scast (p_pid (procs k ! p))"
    using assms(1) by (simp_all add: enters_def)
  have "argint 0 p ?k = Ok (p_pid (procs k ! p))"
    by (simp add: argint_def argraw_def en)
  then show ?thesis using kill_self [of p ?k] assms(2,3) en
    by (auto simp: sys_kill_p2_def same_field_def split: prod.splits)
qed

section \<open>The trace program\<close>

lemma keeps_none [simp]: "keeps_words u e p tf {}"
  by (simp add: keeps_words_def)

text \<open>The calls that \<open>trace\<close> makes until the process kills itself, with their results.\<close>

definition trace_calls :: "i32 \<Rightarrow> u64 list \<Rightarrow> u64 list \<Rightarrow> calls" where
  "trace_calls pid vs1 vs2 = [(24, 0)] @ map (Pair SYS_write) vs1 @ [(11, scast pid)] @
     map (Pair SYS_write) vs2 @ [(11, scast pid), (6, 0)]"

lemma int_result [simp]: "ucast (- 1 :: u64) = (- 1 :: i32)"
  by (rule bit_word_eqI) (auto simp: bit_simps)

text \<open>Nothing is reported of a process that traces nothing; otherwise the reports have its number.\<close>

lemma reports_none: "reports 0 pid [(24, v)] cs \<longleftrightarrow> cs = []" "reports 0 pid (map (Pair SYS_write) vs) cs \<longleftrightarrow> cs = []"
  by (simp_all add: reports_def filter_map comp_def)

lemma reports_named:
  assumes "syscallnames ! n = Some s" "n \<le> 24" "\<forall>(m, x) \<in> set calls. m \<le> 24" "reports (of_nat n) pid calls cs"
  shows "list_all2 (\<lambda>(m, x) c. report pid s x c) (filter (\<lambda>(m, x). m = n) calls) cs"
proof -
  have "(of_nat m :: i32) = of_nat n \<longleftrightarrow> m = n" if "m \<le> 24" for m
    using call_number [OF that] call_number [OF assms(2)] by (metis of_nat_eq_iff)
  then have f: "filter (\<lambda>(m, x). (of_nat m :: i32) = of_nat n) calls = filter (\<lambda>(m, x). m = n) calls"
    using assms(3) by (intro filter_cong refl) auto
  have one: "report pid s x c" if "(m, x) \<in> set (filter (\<lambda>(m, x). m = n) calls)"
      "\<exists>s. syscallnames ! m = Some s \<and> report pid s x c" for m x c
    using that assms(1) by auto
  show ?thesis using assms(4) unfolding reports_def f
    by (rule list.rel_mono_strong) (use one in blast)
qed

lemma trace_main_unknown:
  assumes u: "enters u p" "backs u p" and wr: "writes e p" and two: "2 \<le> sint argc"
    and p: "p < length (procs k)" and alive: "p_killed (procs k ! p) = 0"
    and c: "v_copyinstr (p2_vm e) (p_pagetable (procs k ! p)) (p_sz (procs k ! p)) arg 16
      (k_mem (u_enter u 24 [arg] p k)) = Ok (0, bs, s')"
    and t: "t ! p = 0" and id: "syscallid_by_name (c_string bs) < 0"
  shows "\<exists>k' vs. run_prog (trace_main argc arg (c_string bs)) u e p (t, k) =
      ret ([(2, ''trace: no se pudo monitorear %s\<newline>'', [Str (c_string bs)])],
        (24, -1) # map (Pair SYS_write) vs, Some 1, (t, k')) \<and>
    k_console k' = k_console k @ [Unknown_trace (c_string bs)]"
proof -
  let ?line = "(2, ''trace: no se pudo monitorear %s\<newline>'', [Str (c_string bs)]) :: line"
  obtain k2 where k2: "procs k2 = procs k" "k_console k2 = k_console k @ [Unknown_trace (c_string bs)]"
    "sys_trace e p (t, u_enter u 24 [arg] p k) = ret (Sys_return (-1), (t, k2))"
    using trace_call [OF u(1) c] id by auto
  have "syscalls_p2 e 24 = Some (sys_trace e)" by (simp add: syscalls_p2_def)
  from run_call [OF u _ _ this k2(3)] obtain k3 where k3: "k_console k3 = k_console k2" "procs k3 = procs k"
    "\<forall>c. run_prog (Ucall SYS_trace [arg] c) u e p (t, k) =
       rbnd (run_prog (c (-1)) u e p (t, k3)) (\<lambda>(out, cs, r, st). ret (out, (24, -1) # cs, r, st))"
    by (auto simp: alive k2 t reports_none)
  have p3: "p < length (procs k3)" "p_killed (procs k3 ! p) = 0" using p alive k3 by simp_all
  from run_print [OF u wr keeps_none p3 refl, of 2 "''trace: no se pudo monitorear %s\<newline>''" "[Str (c_string bs)]" t]
  obtain vs k' where k': "k_console k' = k_console k3"
    "\<forall>c. run_prog (Fprintf 2 ''trace: no se pudo monitorear %s\<newline>'' [Str (c_string bs)] c) u e p (t, k3) =
       rbnd (run_prog c u e p (t, k')) (\<lambda>(out, cs, r, st). ret (?line # out, map (Pair SYS_write) vs @ cs, r, st))"
    by (auto simp: t reports_none)
  have "run_prog (trace_main argc arg (c_string bs)) u e p (t, k) =
      ret ([?line], (24, -1) # map (Pair SYS_write) vs, Some 1, (t, k'))"
    using two k3(3) k'(2) by (simp add: trace_main_def)
  then show ?thesis using k'(1) k3(1) k2(2) by (intro exI [of _ k'] exI [of _ vs]) simp
qed

text \<open>What the calls of the program leave of its process.\<close>

definition self_ok :: "nat \<Rightarrow> i32 \<Rightarrow> 'fs kst \<Rightarrow> bool" where
  "self_ok p pid k \<longleftrightarrow> p < length (procs k) \<and> p_killed (procs k ! p) = 0 \<and> p_pid (procs k ! p) = pid \<and>
     (\<forall>j < p. p_pid (procs k ! j) \<noteq> pid)"

lemma self_ok_procs: "self_ok p pid k \<Longrightarrow> procs k' = procs k \<Longrightarrow> self_ok p pid k'"
  by (simp add: self_ok_def)

lemma self_ok_same:
  assumes "self_ok p pid k" "same_self p k k'"
  shows "self_ok p pid k'"
proof -
  have p: "p < length (procs k)" using assms(1) by (simp add: self_ok_def)
  have "p_pid (procs k' ! j) = p_pid (procs k ! j)" if "j \<le> p" for j
    using same_self_pid(1) [OF assms(2)] that p by simp
  then show ?thesis using assms same_self_pid(2) [OF assms(2) p] by (simp add: self_ok_def same_self_def)
qed

lemma getpid_of:
  assumes u: "enters u p" "backs u p" and k: "self_ok p pid k"
  shows "\<exists>k' cs. procs k' = procs k \<and> k_console k' = k_console k @ cs \<and> reports (t ! p) pid [(11, scast pid)] cs \<and>
    (\<forall>c. run_prog (Ucall SYS_getpid [] c) u e p (t, k) = rbnd (run_prog (c (scast pid)) u e p (t, k'))
      (\<lambda>(out, cs, r, st). ret (out, (11, scast pid) # cs, r, st)))"
proof -
  have en: "procs (u_enter u 11 [] p k) = procs k" "k_console (u_enter u 11 [] p k) = k_console k"
    using u(1) by (simp_all add: enters_def)
  have f: "syscalls_p2 e 11 = Some sys_getpid_p2" by (simp add: syscalls_p2_def)
  have k0: "p_killed (procs k ! p) = 0" "p_pid (procs k ! p) = pid" using k by (simp_all add: self_ok_def)
  from run_call [OF u _ _ f getpid_call [of p t "u_enter u 11 [] p k"], unfolded en k0 if_P [OF refl]]
  show ?thesis by auto
qed

lemma print_of:
  assumes u: "enters u p" "backs u p" and wr: "writes e p" and k: "self_ok p pid k"
  shows "\<exists>vs k' cs. length vs = length (u_prints u (fd, f, args)) \<and> self_ok p pid k' \<and>
    k_console k' = k_console k @ cs \<and> reports (t ! p) pid (map (Pair SYS_write) vs) cs \<and>
    (\<forall>c. run_prog (Fprintf fd f args c) u e p (t, k) = rbnd (run_prog c u e p (t, k'))
      (\<lambda>(out, cs, r, st). ret ((fd, f, args) # out, map (Pair SYS_write) vs @ cs, r, st)))"
proof -
  have k0: "p < length (procs k)" "p_killed (procs k ! p) = 0" "p_pid (procs k ! p) = pid" using k by (simp_all add: self_ok_def)
  from run_print [OF u wr keeps_none k0(1,2) refl, of fd f args t] self_ok_same [OF k] show ?thesis
    unfolding k0(3) by blast
qed

lemma trace_main_known:
  assumes u: "enters u p" "backs u p" and wr: "writes e p" and two: "2 \<le> sint argc"
    and c: "v_copyinstr (p2_vm e) (p_pagetable (procs k ! p)) (p_sz (procs k ! p)) arg 16
      (k_mem (u_enter u 24 [arg] p k)) = Ok (0, bs, s')"
    and k: "self_ok p pid k" and p: "p < length t"
    and id: "syscallid_by_name (c_string bs) = int n" "1 \<le> n" "n \<le> 24"
  defines "line1 \<equiv> (1, ''Monitoreo activado para: %s\<newline>'', [Str (c_string bs)]) :: line"
    and "line2 \<equiv> (1, ''PID actual: %d\<newline>'', [Num pid]) :: line"
  shows "\<exists>k' cs vs1 vs2. run_prog (trace_main argc arg (c_string bs)) u e p (t, k) =
      ret ([line1, line2], trace_calls pid vs1 vs2, None, (t[p := of_nat n], k')) \<and>
    length vs1 = length (u_prints u line1) \<and> length vs2 = length (u_prints u line2) \<and>
    p_killed (procs k' ! p) = 1 \<and> k_console k' = k_console k @ cs \<and>
    reports (of_nat n) pid (trace_calls pid vs1 vs2) cs"
proof -
  let ?t = "t[p := of_nat n]"
  have at: "?t ! p = of_nat n" using p by simp
  have k0: "p_killed (procs k ! p) = 0" "p_pid (procs k ! p) = pid" using k by (simp_all add: self_ok_def)
  obtain k1 where k1: "procs k1 = procs k" "k_console k1 = k_console k"
    "sys_trace e p (t, u_enter u 24 [arg] p k) = ret (Sys_return 0, (?t, k1))"
    using trace_call [OF u(1) c] id by auto
  have "syscalls_p2 e 24 = Some (sys_trace e)" by (simp add: syscalls_p2_def)
  from run_call [OF u _ _ this k1(3)] obtain k2 c1 where k2: "procs k2 = procs k" "k_console k2 = k_console k @ c1"
    "reports (of_nat n) pid [(24, 0)] c1"
    "\<forall>c. run_prog (Ucall SYS_trace [arg] c) u e p (t, k) =
       rbnd (run_prog (c 0) u e p (?t, k2)) (\<lambda>(out, cs, r, st). ret (out, (24, 0) # cs, r, st))"
    by (auto simp: k1 k0 p)
  from print_of [OF u wr self_ok_procs [OF k k2(1)], of 1 "''Monitoreo activado para: %s\<newline>''" "[Str (c_string bs)]" ?t]
  obtain vs1 k3 c2 where k3: "length vs1 = length (u_prints u line1)" "self_ok p pid k3" "k_console k3 = k_console k2 @ c2"
    "reports (of_nat n) pid (map (Pair SYS_write) vs1) c2"
    "\<forall>c. run_prog (Fprintf 1 ''Monitoreo activado para: %s\<newline>'' [Str (c_string bs)] c) u e p (?t, k2) =
       rbnd (run_prog c u e p (?t, k3)) (\<lambda>(out, cs, r, st). ret (line1 # out, map (Pair SYS_write) vs1 @ cs, r, st))"
    unfolding at line1_def by blast
  from getpid_of [OF u k3(2), of ?t e] obtain k4 c3 where k4: "procs k4 = procs k3" "k_console k4 = k_console k3 @ c3"
    "reports (of_nat n) pid [(11, scast pid)] c3"
    "\<forall>c. run_prog (Ucall SYS_getpid [] c) u e p (?t, k3) =
       rbnd (run_prog (c (scast pid)) u e p (?t, k4)) (\<lambda>(out, cs, r, st). ret (out, (11, scast pid) # cs, r, st))"
    unfolding at by blast
  from print_of [OF u wr self_ok_procs [OF k3(2) k4(1)], of 1 "''PID actual: %d\<newline>''" "[Num pid]" ?t]
  obtain vs2 k5 c4 where k5: "length vs2 = length (u_prints u line2)" "self_ok p pid k5" "k_console k5 = k_console k4 @ c4"
    "reports (of_nat n) pid (map (Pair SYS_write) vs2) c4"
    "\<forall>c. run_prog (Fprintf 1 ''PID actual: %d\<newline>'' [Num pid] c) u e p (?t, k4) =
       rbnd (run_prog c u e p (?t, k5)) (\<lambda>(out, cs, r, st). ret (line2 # out, map (Pair SYS_write) vs2 @ cs, r, st))"
    unfolding at line2_def by blast
  from getpid_of [OF u k5(2), of ?t e] obtain k6 c5 where k6: "procs k6 = procs k5" "k_console k6 = k_console k5 @ c5"
    "reports (of_nat n) pid [(11, scast pid)] c5"
    "\<forall>c. run_prog (Ucall SYS_getpid [] c) u e p (?t, k5) =
       rbnd (run_prog (c (scast pid)) u e p (?t, k6)) (\<lambda>(out, cs, r, st). ret (out, (11, scast pid) # cs, r, st))"
    unfolding at by blast
  have s6: "p < length (procs k6)" "p_pid (procs k6 ! p) = pid" "\<forall>j < p. p_pid (procs k6 ! j) \<noteq> p_pid (procs k6 ! p)"
    using self_ok_procs [OF k5(2) k6(1)] by (simp_all add: self_ok_def)
  from kill_call [OF u(1) s6(1,3), of ?t] obtain k7 where k7: "sys_kill_p2 p (?t, u_enter u 6 [scast pid] p k6) = ret (Sys_return 0, (?t, k7))"
    "p_killed (procs k7 ! p) = 1" "p_pid (procs k7 ! p) = pid" "k_console k7 = k_console k6"
    unfolding s6(2) by auto
  have "syscalls_p2 e 6 = Some sys_kill_p2" by (simp add: syscalls_p2_def)
  from run_call [OF u _ _ this k7(1)] obtain k8 c6 where k8: "procs k8 = procs k7" "k_console k8 = k_console k7 @ c6"
    "reports (of_nat n) pid [(6, 0)] c6"
    "\<forall>c. run_prog (Ucall SYS_kill [scast pid] c) u e p (?t, k6) = ret ([], [(6, 0)], None, (?t, k8))"
    using k7(2,3) at by auto
  have "run_prog (trace_main argc arg (c_string bs)) u e p (t, k) =
      ret ([line1, line2], trace_calls pid vs1 vs2, None, (?t, k8))"
    using two k2(4) k3(5) k4(4) k5(5) k6(4) k8(4) by (simp add: trace_main_def trace_calls_def Let_def)
  moreover have "reports (of_nat n) pid (trace_calls pid vs1 vs2) (c1 @ c2 @ c3 @ c4 @ c5 @ c6)"
    using reports_append [OF k2(3) reports_append [OF k3(4) reports_append [OF k4(3) reports_append [OF k5(4)
      reports_append [OF k6(3) k8(3)]]]]] by (simp add: trace_calls_def)
  moreover have "k_console k8 = k_console k @ c1 @ c2 @ c3 @ c4 @ c5 @ c6"
    using k2(2) k3(3) k4(2) k5(3) k6(2) k7(4) k8(2) by simp
  ultimately show ?thesis using k3(1) k5(1) k7(2) k8(1)
    by (intro exI [of _ k8] exI [of _ "c1 @ c2 @ c3 @ c4 @ c5 @ c6"] exI [of _ vs1] exI [of _ vs2]) simp
qed

section \<open>What sysinfo reports\<close>

lemma free_pages_above_kernel:
  assumes fp: "free_pages s fl" and k: "KERNBASE \<le> kend s"
  shows "length fl \<le> 32768"
proof -
  have al: "4096 dvd unat a" and lt: "unat a < 0x88000000" "0x80000000 \<le> unat a" if "a \<in> set fl" for a
    using fp that k
    by (auto simp: free_pages_def usable_def page_aligned_unat PHYSTOP_val KERNBASE_def word_less_nat_alt word_le_nat_alt)
  have "inj_on (\<lambda>a. unat a div 4096) (set fl)"
    by (rule inj_onI) (metis al dvd_div_mult_self word_unat_eq_iff)
  moreover have "(\<lambda>a. unat a div 4096) ` set fl \<subseteq> {0x80000..<0x88000}"
    using lt by fastforce
  ultimately have "card (set fl) \<le> card {0x80000..<0x88000 :: nat}"
    by (intro card_inj_on_le) auto
  then show ?thesis using fp by (simp add: free_pages_def distinct_card)
qed

definition accounts :: "u64 list \<Rightarrow> proc list \<Rightarrow> sysinfo \<Rightarrow> bool" where
  "accounts fl ps info \<longleftrightarrow> unat (freemem info) = 4096 * length fl \<and> unat (n_apages info) = length fl \<and>
    unat (n_upages info) + unat (n_apages info) = 32768 \<and>
    unat (n_runnable info) = length (filter (\<lambda>p. p_state p = RUNNABLE) ps)"

lemma sys_sysinfo_spec:
  assumes "free_pages (k_mem k) fl" "KERNBASE \<le> kend (k_mem k)" "length (procs k) < 2 ^ 31"
  shows "\<exists>info. accounts fl (procs k) info \<and> (\<forall>e p traced. sys_sysinfo e p (traced, k) =
      rbnd (lift (v_copyout (p2_vm e) (p_pagetable (procs k ! p)) (p_sz (procs k ! p)) (tf_reg p 112 k)
             (sysinfo_bytes info) (k_mem k)))
        (\<lambda>(r, s). ret (Sys_return (if r < 0 then -1 else 0), (traced, set_mem s k))))"
proof -
  define free :: u64 where "free = of_nat (length fl) * PGSIZE"
  define cnt where "cnt = length (filter (\<lambda>p. p_state p = RUNNABLE) (procs k))"
  define info where "info = fill_sysinfo free (get_runnable_count k)"
  have g: "get_free_memory (k_mem k) = Some free" "unat free = 4096 * length fl"
    using get_free_memory_spec [OF assms(1)] by (simp_all add: free_def)
  have le: "length fl \<le> 32768" by (rule free_pages_above_kernel [OF assms(1,2)])
  have pages: "unat (free div PGSIZE) = length fl" using g(2) by (simp add: unat_div)
  have total: "(PHYSTOP - KERNBASE) div PGSIZE = 32768" by (simp add: PHYSTOP_val KERNBASE_def)
  have "cnt \<le> length (procs k)" by (simp add: cnt_def)
  then have c: "cnt < 2 ^ 31" using assms(3) by simp
  have run: "get_runnable_count k = of_nat cnt"
    by (simp add: get_runnable_count_def runnable_loop_count cnt_def)
  have "unat (of_nat cnt :: i32) = cnt" using c by (simp add: unat_of_nat)
  moreover have "0 \<le> sint (of_nat cnt :: i32)" "nat (sint (of_nat cnt :: i32)) = cnt"
    using c by (simp_all add: signed_of_nat signed_take_bit_int_eq_self)
  ultimately have nr: "unat (scast (of_nat cnt :: i32) :: u64) = cnt" using unat_scast(1) by metis
  have "(32768 :: u64) > free div PGSIZE \<longleftrightarrow> length fl \<noteq> 32768"
    using pages le by (auto simp: word_less_nat_alt)
  moreover have "unat (32768 - free div PGSIZE) = 32768 - length fl"
    using pages le by (subst unat_sub) (simp_all add: word_le_nat_alt)
  ultimately have "unat (n_upages info) = 32768 - length fl"
    by (simp add: info_def fill_sysinfo_def total Let_def)
  then have "accounts fl (procs k) info"
    using g(2) pages le nr run by (simp add: accounts_def info_def fill_sysinfo_def Let_def cnt_def)
  moreover have "sys_sysinfo e p (traced, k) =
      rbnd (lift (v_copyout (p2_vm e) (p_pagetable (procs k ! p)) (p_sz (procs k ! p)) (tf_reg p 112 k)
             (sysinfo_bytes info) (k_mem k)))
        (\<lambda>(r, s). ret (Sys_return (if r < 0 then -1 else 0), (traced, set_mem s k)))" for e p traced
    using g(1) by (simp add: sys_sysinfo_def info_def argaddr_def argraw_def)
  ultimately show ?thesis by (intro exI [of _ info]) simp
qed

text \<open>
  A word copied out with \<open>copyout\<close> is read back by the program after the call, whose result is in
  the trapframe at \<open>tf\<close>.
\<close>

definition reads_back :: "'fs uenv \<Rightarrow> vmops \<Rightarrow> u64 \<Rightarrow> u64 \<Rightarrow> u64 \<Rightarrow> u64 \<Rightarrow> bool" where
  "reads_back u v pt psz a tf \<longleftrightarrow> (\<forall>s bs s' x w j. v_copyout v pt psz a bs s = Ok (0, s') \<longrightarrow> length bs = 32 \<longrightarrow>
     take 8 (drop j bs) = long_bytes w \<longrightarrow>
     u_load u pt (s'\<lparr>pmem := store64 (pmem s') (tf + TF_A0) x\<rparr>) (a + of_nat j) = w)"

lemma length_long: "length (long_bytes x) = 8"
  by (simp add: long_bytes_def)

lemma sysinfo_fields:
  "take 8 (drop 0 (sysinfo_bytes i)) = long_bytes (freemem i)"
  "take 8 (drop 8 (sysinfo_bytes i)) = long_bytes (n_upages i)"
  "take 8 (drop 16 (sysinfo_bytes i)) = long_bytes (n_apages i)"
  "take 8 (drop 24 (sysinfo_bytes i)) = long_bytes (n_runnable i)"
  by (simp_all add: sysinfo_bytes_def length_long)

lemma small_int:
  assumes "unat (w :: u64) < 2 ^ 31"
  shows "sint (ucast w :: i32) = int (unat w)"
proof -
  have "sint (of_nat n :: i32) = int n" if "n < 2 ^ 31" for n
    using that by (simp add: signed_of_nat signed_take_bit_int_eq_self)
  from this [OF assms] show ?thesis unfolding of_nat_unat .
qed

text \<open>The words of the structure in the memory of the program, and that printing leaves them there.\<close>

definition has_info :: "'fs uenv \<Rightarrow> nat \<Rightarrow> u64 \<Rightarrow> i32 \<Rightarrow> u64 \<Rightarrow> sysinfo \<Rightarrow> 'fs kst \<Rightarrow> bool" where
  "has_info u p tf pid a info k \<longleftrightarrow> p < length (procs k) \<and> p_killed (procs k ! p) = 0 \<and>
     p_trapframe (procs k ! p) = tf \<and> p_pid (procs k ! p) = pid \<and>
     u_load u (p_pagetable (procs k ! p)) (k_mem k) a = freemem info \<and>
     u_load u (p_pagetable (procs k ! p)) (k_mem k) (a + 8) = n_upages info \<and>
     u_load u (p_pagetable (procs k ! p)) (k_mem k) (a + 16) = n_apages info \<and>
     u_load u (p_pagetable (procs k ! p)) (k_mem k) (a + 24) = n_runnable info"

definition info_words :: "u64 \<Rightarrow> u64 set" where
  "info_words a = {a, a + 8, a + 16, a + 24}"

lemma info_print:
  assumes u: "enters u p" "backs u p" "writes e p" "keeps_words u e p tf (info_words a)"
    and k: "has_info u p tf pid a info k"
  shows "\<exists>vs k' cs. length vs = length (u_prints u (fd, f, args)) \<and> has_info u p tf pid a info k' \<and>
    k_console k' = k_console k @ cs \<and> reports (t ! p) pid (map (Pair SYS_write) vs) cs \<and>
    (\<forall>c. run_prog (Fprintf fd f args c) u e p (t, k) = rbnd (run_prog c u e p (t, k'))
      (\<lambda>(out, cs, r, st). ret ((fd, f, args) # out, map (Pair SYS_write) vs @ cs, r, st)))"
proof -
  have k0: "p < length (procs k)" "p_killed (procs k ! p) = 0" "p_trapframe (procs k ! p) = tf" "p_pid (procs k ! p) = pid"
    using k by (simp_all add: has_info_def)
  from run_print [OF u k0(1-3), of fd f args t] obtain vs k' cs where
    r: "length vs = length (u_prints u (fd, f, args))" "same_self p k k'" "same_words u p (info_words a) k k'"
      "k_console k' = k_console k @ cs" "reports (t ! p) pid (map (Pair SYS_write) vs) cs"
      "\<forall>c. run_prog (Fprintf fd f args c) u e p (t, k) = rbnd (run_prog c u e p (t, k'))
        (\<lambda>(out, cs, r, st). ret ((fd, f, args) # out, map (Pair SYS_write) vs @ cs, r, st))"
    unfolding k0(4) by blast
  have "has_info u p tf pid a info k'"
    using k r(3) same_self_pid [OF r(2) k0(1)] r(2)
    by (simp add: has_info_def same_words_def info_words_def same_self_def)
  then show ?thesis using r by blast
qed

lemma sysinfo_main_prints:
  assumes u: "enters u p" "backs u p" "writes e p" "keeps_words u e p (p_trapframe (procs k ! p)) (info_words a)"
    and p: "p < length (procs k)" and alive: "p_killed (procs k ! p) = 0"
    and fp: "free_pages (k_mem (u_enter u 23 [a] p k)) fl" "KERNBASE \<le> kend (k_mem (u_enter u 23 [a] p k))"
      "length (procs k) < 2 ^ 31"
    and rb: "reads_back u (p2_vm e) (p_pagetable (procs k ! p)) (p_sz (procs k ! p)) a (p_trapframe (procs k ! p))"
    and c: "\<forall>bs. length bs = 32 \<longrightarrow> (\<exists>s'. v_copyout (p2_vm e) (p_pagetable (procs k ! p)) (p_sz (procs k ! p)) a bs
      (k_mem (u_enter u 23 [a] p k)) = Ok (0, s'))"
  shows "\<exists>k' info out vs cs. run_prog (sysinfo_main argv0 a) u e p (t, k) =
      ret (out, (23, 0) # map (Pair SYS_write) vs, Some 0, (t, k')) \<and>
    out = [(1, ''--- SYSINFO REPORT ---\<newline>'', []),
            (1, ''Free memory (bytes): %d\<newline>'', [Num (ucast (freemem info))]),
            (1, ''Used pages: %d\<newline>'', [Num (ucast (n_upages info))]),
            (1, ''Available pages: %d\<newline>'', [Num (ucast (n_apages info))]),
            (1, ''Runnable processes: %d\<newline>'', [Num (ucast (n_runnable info))])] \<and>
    length vs = (\<Sum>l \<leftarrow> out. length (u_prints u l)) \<and> accounts fl (procs k) info \<and>
    k_console k' = k_console k @ cs \<and> reports (t ! p) (p_pid (procs k ! p)) ((23, 0) # map (Pair SYS_write) vs) cs"
proof -
  let ?k = "u_enter u 23 [a] p k" and ?tf = "p_trapframe (procs k ! p)" and ?pid = "p_pid (procs k ! p)"
  have en: "procs ?k = procs k" "k_console ?k = k_console k" "tf_reg p 112 ?k = a"
    using u(1) by (simp_all add: enters_def)
  from sys_sysinfo_spec [of ?k fl] fp obtain info where info: "accounts fl (procs k) info" and
    all: "\<forall>e p traced. sys_sysinfo e p (traced, ?k) =
      rbnd (lift (v_copyout (p2_vm e) (p_pagetable (procs k ! p)) (p_sz (procs k ! p)) (tf_reg p 112 ?k)
             (sysinfo_bytes info) (k_mem ?k)))
        (\<lambda>(r, s). ret (Sys_return (if r < 0 then -1 else 0), (traced, set_mem s ?k)))"
    unfolding en by blast
  note call = all [rule_format, of e p t, unfolded en]
  have len: "length (sysinfo_bytes info) = 32" by (simp add: sysinfo_bytes_def length_long)
  then obtain s' where s': "v_copyout (p2_vm e) (p_pagetable (procs k ! p)) (p_sz (procs k ! p)) a
      (sysinfo_bytes info) (k_mem ?k) = Ok (0, s')" using c by blast
  let ?k2 = "set_mem s' ?k"
  have r: "sys_sysinfo e p (t, ?k) = ret (Sys_return 0, (t, ?k2))" using call s' by simp
  have "syscalls_p2 e 23 = Some (sys_sysinfo e)" by (simp add: syscalls_p2_def)
  from run_call [OF u(1,2) _ _ this r] obtain k3 c0 where k3: "procs k3 = procs k" "k_console k3 = k_console k @ c0"
    "k_mem k3 = s'\<lparr>pmem := store64 (pmem s') (?tf + TF_A0) 0\<rparr>" "reports (t ! p) ?pid [(23, 0)] c0"
    "\<forall>c. run_prog (Ucall SYS_sysinfo [a] c) u e p (t, k) =
      rbnd (run_prog (c 0) u e p (t, k3)) (\<lambda>(out, cs, r, st). ret (out, (23, 0) # cs, r, st))"
    by (auto simp: alive en set_a0_def)
  have ld: "u_load u (p_pagetable (procs k ! p)) (k_mem k3) (a + of_nat j) = w"
    if "take 8 (drop j (sysinfo_bytes info)) = long_bytes w" for j w
    using rb s' len that unfolding reads_back_def k3(3) by blast
  have h3: "has_info u p ?tf ?pid a info k3"
    using p alive k3(1) ld [OF sysinfo_fields(1)] ld [OF sysinfo_fields(2)] ld [OF sysinfo_fields(3)] ld [OF sysinfo_fields(4)]
    by (simp add: has_info_def)
  note pr = info_print [OF u]
  from pr [OF h3] obtain v1 k4 c1 where k4: "length v1 = length (u_prints u (1, ''--- SYSINFO REPORT ---\<newline>'', []))"
    "has_info u p ?tf ?pid a info k4" "k_console k4 = k_console k3 @ c1" "reports (t ! p) ?pid (map (Pair SYS_write) v1) c1"
    "\<forall>c. run_prog (Fprintf 1 ''--- SYSINFO REPORT ---\<newline>'' [] c) u e p (t, k3) = rbnd (run_prog c u e p (t, k4))
      (\<lambda>(out, cs, r, st). ret ((1, ''--- SYSINFO REPORT ---\<newline>'', []) # out, map (Pair SYS_write) v1 @ cs, r, st))" by blast
  let ?l2 = "(1, ''Free memory (bytes): %d\<newline>'', [Num (ucast (freemem info))]) :: line"
  from pr [OF k4(2)] obtain v2 k5 c2 where k5: "length v2 = length (u_prints u ?l2)"
    "has_info u p ?tf ?pid a info k5" "k_console k5 = k_console k4 @ c2" "reports (t ! p) ?pid (map (Pair SYS_write) v2) c2"
    "\<forall>c. run_prog (Fprintf 1 ''Free memory (bytes): %d\<newline>'' [Num (ucast (freemem info))] c) u e p (t, k4) =
      rbnd (run_prog c u e p (t, k5)) (\<lambda>(out, cs, r, st). ret (?l2 # out, map (Pair SYS_write) v2 @ cs, r, st))" by blast
  let ?l3 = "(1, ''Used pages: %d\<newline>'', [Num (ucast (n_upages info))]) :: line"
  from pr [OF k5(2)] obtain v3 k6 c3 where k6: "length v3 = length (u_prints u ?l3)"
    "has_info u p ?tf ?pid a info k6" "k_console k6 = k_console k5 @ c3" "reports (t ! p) ?pid (map (Pair SYS_write) v3) c3"
    "\<forall>c. run_prog (Fprintf 1 ''Used pages: %d\<newline>'' [Num (ucast (n_upages info))] c) u e p (t, k5) =
      rbnd (run_prog c u e p (t, k6)) (\<lambda>(out, cs, r, st). ret (?l3 # out, map (Pair SYS_write) v3 @ cs, r, st))" by blast
  let ?l4 = "(1, ''Available pages: %d\<newline>'', [Num (ucast (n_apages info))]) :: line"
  from pr [OF k6(2)] obtain v4 k7 c4 where k7: "length v4 = length (u_prints u ?l4)"
    "has_info u p ?tf ?pid a info k7" "k_console k7 = k_console k6 @ c4" "reports (t ! p) ?pid (map (Pair SYS_write) v4) c4"
    "\<forall>c. run_prog (Fprintf 1 ''Available pages: %d\<newline>'' [Num (ucast (n_apages info))] c) u e p (t, k6) =
      rbnd (run_prog c u e p (t, k7)) (\<lambda>(out, cs, r, st). ret (?l4 # out, map (Pair SYS_write) v4 @ cs, r, st))" by blast
  let ?l5 = "(1, ''Runnable processes: %d\<newline>'', [Num (ucast (n_runnable info))]) :: line"
  from pr [OF k7(2)] obtain v5 k8 c5 where k8: "length v5 = length (u_prints u ?l5)"
    "k_console k8 = k_console k7 @ c5" "reports (t ! p) ?pid (map (Pair SYS_write) v5) c5"
    "\<forall>c. run_prog (Fprintf 1 ''Runnable processes: %d\<newline>'' [Num (ucast (n_runnable info))] c) u e p (t, k7) =
      rbnd (run_prog c u e p (t, k8)) (\<lambda>(out, cs, r, st). ret (?l5 # out, map (Pair SYS_write) v5 @ cs, r, st))" by blast
  let ?out = "[(1, ''--- SYSINFO REPORT ---\<newline>'', []), ?l2, ?l3, ?l4, ?l5]" and ?vs = "v1 @ v2 @ v3 @ v4 @ v5"
  have "run_prog (sysinfo_main argv0 a) u e p (t, k) = ret (?out, (23, 0) # map (Pair SYS_write) ?vs, Some 0, (t, k8))"
    using k3(5) k4(2,5) k5(2,5) k6(2,5) k7(2,5) k8(4) by (simp add: sysinfo_main_def has_info_def)
  moreover have "reports (t ! p) ?pid ((23, 0) # map (Pair SYS_write) ?vs) (c0 @ c1 @ c2 @ c3 @ c4 @ c5)"
    using reports_append [OF k3(4) reports_append [OF k4(4) reports_append [OF k5(4) reports_append [OF k6(4)
      reports_append [OF k7(4) k8(3)]]]]] by simp
  moreover have "k_console k8 = k_console k @ c0 @ c1 @ c2 @ c3 @ c4 @ c5"
    using k3(2) k4(3) k5(3) k6(3) k7(3) k8(2) by simp
  moreover have "length ?vs = (\<Sum>l \<leftarrow> ?out. length (u_prints u l))"
    using k4(1) k5(1) k6(1) k7(1) k8(1) by simp
  ultimately show ?thesis using info
    by (intro exI [of _ k8] exI [of _ info] exI [of _ ?out] exI [of _ ?vs] exI [of _ "c0 @ c1 @ c2 @ c3 @ c4 @ c5"]) simp
qed

end
