(* ===== verification/Kernel2_Props.thy ===== *)
theory Kernel2_Props
  imports User_Progs
begin

text \<open>
  The properties of the \<open>Proyecto2\<close> kernel, with the witnesses for them.
\<close>

section \<open>A kernel with a process\<close>

text \<open>A memory layer for the witnesses, on which every mapping and every copy succeeds.\<close>

definition sample_vm :: "u8 list \<Rightarrow> vmops" where
  "sample_vm bs = \<lparr>v_uvmcreate = Pair 4096, v_mappages = (\<lambda>_ _ _ _ _ s. Ok (0, s)),
     v_uvmunmap = (\<lambda>_ _ _ _ s. Ok s), v_uvmfree = (\<lambda>_ _ s. ret s),
     v_uvmalloc = (\<lambda>_ _ new _ s. Ok (new, s)), v_uvmdealloc = (\<lambda>_ old new s. Ok (if new < old then new else old, s)),
     v_uvmcopy = (\<lambda>_ _ _ s. Ok (0, s)), v_copyout = (\<lambda>_ _ _ _ s. Ok (0, s)),
     v_copyin = (\<lambda>_ _ _ n s. Ok (0, replicate (unat n) 0, s)), v_copyinstr = (\<lambda>_ _ _ _ s. Ok (0, bs, s))\<rparr>"

definition sample_p2env :: "u8 list \<Rightarrow> unit p2env" where
  "sample_p2env bs = \<lparr>p2_sys = \<lparr>e_fs = sample_fs, e_file_call = (\<lambda>_ p k. ret (Sys_return 0, k)),
     e_ticks_addr = 0x80009000, e_sbrk_eager = 1\<rparr>, p2_vm = sample_vm bs\<rparr>"

lemma sample_vm_sizes:
  "\<forall>pt old new x s sz s'. v_uvmalloc (p2_vm (sample_p2env bs)) pt old new x s = Ok (sz, s') \<longrightarrow> sz \<in> {0, old, new}"
  "\<forall>pt old new s sz s'. v_uvmdealloc (p2_vm (sample_p2env bs)) pt old new s = Ok (sz, s') \<longrightarrow> sz \<le> old"
  by (auto simp: sample_p2env_def sample_vm_def split: if_splits)

lemma sample_p2_init:
  "\<exists>k. userinit_p2 (sample_vm bs) sample_fs ([0, 0, 0], sample_boot) = ret ([0, 0, 0], k) \<and>
     length (procs k) = 3 \<and> p_state (procs k ! 0) = RUNNABLE \<and> p_pid (procs k ! 0) = 1 \<and> p_killed (procs k ! 0) = 0 \<and>
     k_console k = [] \<and> (\<forall>j. 0 < j \<longrightarrow> procs k ! j = procs sample_boot ! j)"
proof -
  obtain fl where "booted fl sample_boot" "32 \<le> length fl" using sample_booted by blast
  then obtain a rest where "free_pages (k_mem sample_boot) (a # rest)" by (cases fl) (auto simp: booted_def)
  from kalloc_step [OF this] obtain s where s: "kalloc (k_mem sample_boot) = (a, s)" "a \<noteq> 0" by blast
  have unused: "find_unused sample_boot = Some 0" by (simp add: find_unused_def sample_boot_sel upt_conv_Cons)
  have boot: "p_killed (procs sample_boot ! 0) = 0" "nextpid sample_boot = 1" "length (procs sample_boot) = 3"
    "k_console sample_boot = []"
    by (simp_all add: sample_boot_sel) (simp add: sample_boot_def procinit_def)
  have con: "k_console (upd i f k) = k_console k" for i f and k :: "unit kst" by (simp add: upd_def)
  have "allocproc_p2 (sample_vm bs) ([0, 0, 0], sample_boot) = allocproc_at_p2 (sample_vm bs) 0 ([0, 0, 0], sample_boot)"
    by (simp add: allocproc_p2_def unused)
  then show ?thesis
    by (simp add: userinit_p2_def allocproc_at_p2_def allocpid_def s boot proc_pagetable_p2_def
        sample_vm_def sample_fs_def Let_def con)
qed

section \<open>Tracing belongs to one process\<close>

text \<open>
  C17. In every state that the kernel of \<open>Proyecto2\<close> reaches from boot an unused slot of the table is not
  traced, every traced number is that of a call, and no process is larger than \<open>TRAPFRAME\<close>
  (given that \<open>uvmalloc\<close> and \<open>uvmdealloc\<close> return the sizes they document). And a step changes
  the traced call of a process only if it is the \<open>sys_trace\<close> of that very process, or if it
  frees the process: neither a child nor the next process in the slot inherits it.
\<close>

theorem trace_stays_with_process:
  assumes "\<forall>pt old new x s sz s'. v_uvmalloc (p2_vm e) pt old new x s = Ok (sz, s') \<longrightarrow> sz \<in> {0, old, new}"
    and "\<forall>pt old new s sz s'. v_uvmdealloc (p2_vm e) pt old new s = Ok (sz, s') \<longrightarrow> sz \<le> old"
    and "\<forall>q \<in> set (procs k0). p_sz q = 0"
    and "userinit_p2 (p2_vm e) fs (replicate (length (procs k0)) 0, k0) = ret st1" "reachable2 e st1 (t, k)"
  shows "length t = length (procs k) \<and> (\<forall>i < length t. (p_state (procs k ! i) = UNUSED \<longrightarrow> t ! i = 0) \<and>
      0 \<le> sint (t ! i) \<and> sint (t ! i) \<le> 24 \<and> p_sz (procs k ! i) \<le> TRAPFRAME) \<and>
    (\<forall>w t' k' i. kstep2 e w (t, k) (t', k') \<longrightarrow> t' ! i \<noteq> t ! i \<longrightarrow>
      w = Some i \<or> t' ! i = 0 \<and> p_state (procs k' ! i) = UNUSED)"
proof -
  have vm: "memory_layer (p2_vm e)" by (rule memory_layer.intro) (use assms(1,2) in blast)+
  have inv: "field_inv (t, k)"
    using memory_layer.reachable2_inv [OF vm assms(5) refl userinit_p2_inv [OF assms(4) field_inv_boot [OF assms(3)]]] .
  moreover have "field_step w (t, k) (t', k')" if "kstep2 e w (t, k) (t', k')" for w t' k'
    using memory_layer.kstep2_inv [OF vm that refl inv] by blast
  ultimately show ?thesis
    by (fastforce simp: field_inv_def field_ok_def field_step_def list_all2_conv_all_nth)
qed

definition sample_name :: "u8 list" where
  "sample_name = [107, 105, 108, 108, 0]"

lemma sample_name_kill: "c_string sample_name = ''kill''" "syscallid_by_name ''kill'' = 6"
  using syscallid_by_name_iff [of "''kill''" 6]
  by (simp_all add: c_string_def sample_name_def char_of_def syscallnames_def bit_Suc_0_iff)

lemma sample_trace_call:
  "sys_trace (sample_p2env sample_name) p (t, k) = ret (Sys_return 0, (t[p := 6], set_mem (k_mem k) k))"
  by (simp add: sys_trace_def argstr_p2_def argaddr_def argraw_def fetchstr_p2_def sample_p2env_def sample_vm_def
      sample_name_kill Let_def)

theorem trace_stays_with_process_witness:
  "\<exists>t k t' k'. kstep2 (sample_p2env sample_name) (Some 0) (t, k) (t', k') \<and> t' ! 0 = 6 \<and> t' ! 1 = 0"
proof -
  let ?e = "sample_p2env sample_name"
  obtain k where u: "userinit_p2 (p2_vm ?e) sample_fs (replicate (length (procs sample_boot)) 0, sample_boot) = ret ([0, 0, 0], k)"
    and k: "length (procs k) = 3" "p_state (procs k ! 0) = RUNNABLE"
    using sample_p2_init [of sample_name] by (auto simp: sample_p2env_def sample_boot_sel(1) numeral_3_eq_3)
  let ?k = "dispatched 0 k"
  have r: "reachable2 ?e ([0, 0, 0], k) ([0, 0, 0], ?k)"
    unfolding dispatched_def by (rule reachable2.step [OF reachable2.start kstep2.dispatch]) (use k in simp_all)
  have z: "\<forall>q \<in> set (procs sample_boot). p_sz q = 0" by (auto simp: sample_boot_def procinit_def empty_slot_def)
  have s: "kstep2 ?e (Some 0) ([0, 0, 0], ?k) ([6, 0, 0], ?k)"
    by (rule kstep2.trace [of 0 ?k ?e "[0, 0, 0]" "Sys_return 0"])
      (use k in \<open>simp_all add: running_def dispatched_def sample_trace_call\<close>)
  from trace_stays_with_process [OF sample_vm_sizes z u r] s
  have "[6, 0, 0 :: i32] ! 1 \<noteq> [0, 0, 0 :: i32] ! 1 \<longrightarrow> Some 0 = Some (1 :: nat) \<or> [6, 0, 0 :: i32] ! 1 = 0"
    by blast
  then show ?thesis using s by (intro exI [of _ "[0, 0, 0]"] exI [of _ ?k] exI [of _ "[6, 0, 0]"]) simp
qed

section \<open>The trace program\<close>

lemma c_string_no_nul: "CHR 0x00 \<notin> set (c_string bs)"
proof
  assume "CHR 0x00 \<in> set (c_string bs)"
  then obtain b where b: "b \<in> set (takeWhile (\<lambda>b. b \<noteq> 0) bs)" "char_of (unat b) = CHR 0x00"
    by (auto simp: c_string_def)
  have "of_char (char_of (unat b) :: char) = unat b" using unat_byte [of b] by simp
  then have "unat b = of_char CHR 0x00" using b(2) by simp
  then have "b = 0" by (simp add: unat_eq_zero)
  then show False using b(1) by (auto dest: set_takeWhileD)
qed

lemma syscallid_by_name_find:
  assumes "CHR 0x00 \<notin> set name"
  shows "syscallid_by_name name =
    (case find (\<lambda>n. syscallnames ! n = Some name) [1..<25] of Some n \<Rightarrow> int n | None \<Rightarrow> -1)"
proof (cases "find (\<lambda>n. syscallnames ! n = Some name) [1..<25]")
  case None
  then have no: "\<forall>n. 1 \<le> n \<longrightarrow> n < 25 \<longrightarrow> syscallnames ! n \<noteq> Some name" by (auto simp: find_None_iff)
  have "syscallid_by_name name = -1"
  proof (rule ccontr)
    assume "syscallid_by_name name \<noteq> -1"
    then have r: "1 \<le> syscallid_by_name name" "syscallid_by_name name \<le> 24"
      using syscallid_by_name_range [of name] by auto
    define n where "n = nat (syscallid_by_name name)"
    have "0 < n" "n < 25" "syscallid_by_name name = int n" using r by (auto simp: n_def)
    then show False using syscallid_by_name_iff [OF assms, of n] no by simp
  qed
  then show ?thesis using None by simp
next
  case (Some n)
  then have "0 < n" "n < 25" "syscallnames ! n = Some name" by (auto simp: find_Some_iff)
  then show ?thesis using syscallid_by_name_iff [OF assms, of n] Some by simp
qed

text \<open>
  C18. The program \<open>trace\<close>, run on the kernel of \<open>Proyecto2\<close> with a name. If a call has that name,
  the program says what it monitors and prints its pid, and the console shows exactly one report
  for each call of that name that the program makes from then on, with the result of the call,
  which is also what it shows as \<open>a0\<close>; then the process, which kills itself, does not come back.
  The calls are that of \<open>trace\<close> itself, the calls of \<open>write\<close> by which \<open>printf\<close> prints the two lines,
  two of \<open>getpid\<close> and one of \<open>kill\<close>: with the name of \<open>write\<close> every piece of output is reported.
  Otherwise both the kernel and the program say that the name is unknown, nothing is traced, and
  the status is 1.
\<close>

theorem trace_program_reports:
  assumes "enters u p" "backs u p" "writes e p" "2 \<le> sint argc" "t ! p = 0" "p < length t" "p < length (procs k)"
    and "p_killed (procs k ! p) = 0" "\<forall>j < p. p_pid (procs k ! j) \<noteq> p_pid (procs k ! p)"
    and "v_copyinstr (p2_vm e) (p_pagetable (procs k ! p)) (p_sz (procs k ! p)) arg 16
      (k_mem (u_enter u 24 [arg] p k)) = Ok (0, bs, s')" "name = c_string bs" "pid = p_pid (procs k ! p)"
    and "line1 = (1, ''Monitoreo activado para: %s\<newline>'', [Str name])" "line2 = (1, ''PID actual: %d\<newline>'', [Num pid])"
  shows "\<exists>k' cs vs1 vs2. k_console k' = k_console k @ cs \<and>
    (case find (\<lambda>n. syscallnames ! n = Some name) [1..<25] of
       Some n \<Rightarrow> \<exists>calls. run_prog (trace_main argc arg name) u e p (t, k) =
           ret ([line1, line2], calls, None, (t[p := of_nat n], k')) \<and>
         calls = [(24, 0)] @ map (Pair 16) vs1 @ [(11, scast pid)] @ map (Pair 16) vs2 @ [(11, scast pid), (6, 0)] \<and>
         length vs1 = length (u_prints u line1) \<and> length vs2 = length (u_prints u line2) \<and>
         p_killed (procs k' ! p) = 1 \<and>
         list_all2 (\<lambda>(m, x). report pid name x) (filter (\<lambda>(m, x). m = n) calls) cs
     | None \<Rightarrow> run_prog (trace_main argc arg name) u e p (t, k) =
           ret ([(2, ''trace: no se pudo monitorear %s\<newline>'', [Str name])], (24, -1) # map (Pair 16) vs1, Some 1, (t, k')) \<and>
         cs = [Unknown_trace name])"
proof (cases "find (\<lambda>n. syscallnames ! n = Some name) [1..<25]")
  case None
  then have "syscallid_by_name (c_string bs) < 0"
    using syscallid_by_name_find [OF c_string_no_nul, of bs] assms(11) by simp
  from trace_main_unknown [OF assms(1-4,7,8,10,5) this] obtain k' vs where
    "run_prog (trace_main argc arg name) u e p (t, k) =
       ret ([(2, ''trace: no se pudo monitorear %s\<newline>'', [Str name])], (24, -1) # map (Pair 16) vs, Some 1, (t, k'))"
    "k_console k' = k_console k @ [Unknown_trace name]" using assms(11) by auto
  then show ?thesis unfolding None option.case by blast
next
  case (Some n)
  then have n: "1 \<le> n" "n \<le> 24" "syscallnames ! n = Some name" by (auto simp: find_Some_iff)
  have id: "syscallid_by_name (c_string bs) = int n"
    using syscallid_by_name_find [OF c_string_no_nul, of bs] assms(11) Some by simp
  have ok: "self_ok p pid k" using assms(7-9,12) by (simp add: self_ok_def)
  from trace_main_known [OF assms(1-4,10) ok assms(6) id n(1,2)] obtain k' cs vs1 vs2 where
    r: "run_prog (trace_main argc arg name) u e p (t, k) =
      ret ([line1, line2], trace_calls pid vs1 vs2, None, (t[p := of_nat n], k'))" "p_killed (procs k' ! p) = 1"
    "length vs1 = length (u_prints u line1)" "length vs2 = length (u_prints u line2)"
    "k_console k' = k_console k @ cs" "reports (of_nat n) pid (trace_calls pid vs1 vs2) cs"
    unfolding assms(11,13,14) by blast
  have "\<forall>(m, x) \<in> set (trace_calls pid vs1 vs2). m \<le> 24" by (auto simp: trace_calls_def)
  from reports_named [OF n(3,2) this r(6)] show ?thesis
    unfolding Some option.case using r(1-5) unfolding trace_calls_def by blast
qed

text \<open>For the witnesses: the registers are stored in the trapframe, and memory is not translated.\<close>

definition sample_uenv :: "unit uenv" where
  "sample_uenv = \<lparr>u_enter = (\<lambda>n args p k. set_mem ((k_mem k)\<lparr>pmem :=
       store64 (store64 (pmem (k_mem k)) (p_trapframe (procs k ! p) + TF_A0) (hd (args @ [0])))
         (p_trapframe (procs k ! p) + TF_A7) (of_nat n)\<rparr>) k),
     u_back = (\<lambda>p k. p_killed (procs k ! p) = 0), u_load = (\<lambda>_ s a. load64 (pmem s) a),
     u_prints = (\<lambda>_. [[1, 0x3000, 1], [1, 0x3000, 1]])\<rparr>"

lemma sample_uenv_laws: "enters sample_uenv p" "backs sample_uenv p" "writes (sample_p2env bs) p"
proof -
  have "load64 (store64 m (tf + 168) v) (tf + 112) = load64 m (tf + 112)" for m v and tf :: u64
    by (rule load64_apart) simp_all
  then show "enters sample_uenv p"
    by (auto simp: enters_def sample_uenv_def tf_reg_def load64_store64 neq_Nil_conv)
qed (simp_all add: backs_def sample_uenv_def writes_def sample_p2env_def same_self_def)

definition sample_write :: "u8 list" where
  "sample_write = [119, 114, 105, 116, 101, 0]"

lemma sample_name_write: "c_string sample_write = ''write''"
  by (simp add: c_string_def sample_write_def char_of_def bit_Suc_0_iff)

lemma case_number: "int m = (case x of Some n \<Rightarrow> int n | None \<Rightarrow> -1) \<Longrightarrow> x = Some m"
  by (cases x) simp_all

theorem trace_program_reports_witness:
  "\<exists>k k' cs. (\<exists>out calls. run_prog (trace_main 2 0x1000 ''write'') sample_uenv (sample_p2env sample_write) 0 ([0, 0, 0], k) =
      ret (out, calls, None, ([16, 0, 0], k')) \<and> length calls = 8) \<and>
    k_console k' = cs \<and> length cs = 4 \<and> (\<exists>x. report 1 ''write'' x (hd cs))"
proof -
  obtain k :: "unit kst" where k: "length (procs k) = 3" "p_pid (procs k ! 0) = 1" "p_killed (procs k ! 0) = 0" "k_console k = []"
    using sample_p2_init [of sample_write] by blast
  have c: "v_copyinstr (p2_vm (sample_p2env sample_write)) (p_pagetable (procs k ! 0)) (p_sz (procs k ! 0)) 0x1000 16
      (k_mem (u_enter sample_uenv 24 [0x1000] 0 k)) = Ok (0, sample_write, k_mem (u_enter sample_uenv 24 [0x1000] 0 k))"
    by (simp add: sample_p2env_def sample_vm_def)
  have nn: "CHR 0x00 \<notin> set ''write''" by simp
  have "syscallnames ! 16 = Some ''write''" by (simp add: syscallnames_def)
  then have "int 16 = syscallid_by_name ''write''" using syscallid_by_name_iff [OF nn, of 16] by simp
  then have f: "find (\<lambda>n. syscallnames ! n = Some ''write'') [1..<25] = Some 16"
    unfolding syscallid_by_name_find [OF nn] by (rule case_number)
  have h: "2 \<le> sint (2 :: i32)" "[0, 0, 0 :: i32] ! 0 = 0" "0 < length [0, 0, 0 :: i32]" "0 < length (procs k)"
    "\<forall>j < 0. p_pid (procs k ! j) \<noteq> p_pid (procs k ! 0)" "[0, 0, 0][0 := of_nat 16] = [16, 0, 0 :: i32]"
    using k(1) by simp_all
  have two: "length (u_prints sample_uenv l) = 2" for l by (simp add: sample_uenv_def)
  from trace_program_reports [OF sample_uenv_laws h(1-4) k(3) h(5) c sample_name_write [symmetric] k(2) [symmetric] refl refl]
  obtain k' cs vs1 vs2 calls where r: "k_console k' = cs" "run_prog (trace_main 2 0x1000 ''write'') sample_uenv (sample_p2env sample_write) 0 ([0, 0, 0], k) =
      ret ([(1, ''Monitoreo activado para: %s\<newline>'', [Str ''write'']), (1, ''PID actual: %d\<newline>'', [Num 1])], calls,
        None, ([16, 0, 0], k'))"
    "calls = [(24, 0)] @ map (Pair 16) vs1 @ [(11, scast (1 :: i32))] @ map (Pair 16) vs2 @ [(11, scast (1 :: i32)), (6, 0)]"
    "length vs1 = 2" "length vs2 = 2" "list_all2 (\<lambda>(m, x). report 1 ''write'' x) (filter (\<lambda>(m, x). m = 16) calls) cs"
    unfolding f option.case h(6) k(4) append_Nil two by blast
  have "filter (\<lambda>(m, x). m = 16) (map (Pair 16) vs) = map (Pair (16 :: nat)) vs" for vs :: "u64 list"
    by (induction vs) simp_all
  then have fl: "filter (\<lambda>(m, x). m = 16) calls = map (Pair 16) (vs1 @ vs2)" unfolding r(3) by simp
  then have "length cs = 4" using list_all2_lengthD [OF r(6)] r(4,5) by simp
  moreover have "\<exists>x. report 1 ''write'' x (hd cs)"
    using r(6) r(4) unfolding fl by (cases vs1) (auto simp: list_all2_Cons1)
  ultimately show ?thesis using r(1-5) by (intro exI [of _ k] exI [of _ k'] exI [of _ cs]) simp
qed

section \<open>The sysinfo program\<close>

text \<open>
  C19. The program \<open>sysinfo\<close> prints the truth about the machine: where \<open>copyout\<close> delivers the structure,
  it ends with status 0, having printed the free memory as a positive number, 4096 bytes for
  each free page, the used and the available pages, together the 32768 of RAM, and the number of
  runnable processes. None of the four conversions to \<open>int\<close> overflows. Its calls are that of
  \<open>sysinfo\<close> and those of \<open>write\<close> that print the lines; the console shows the reports of those that
  the process traces, and nothing else.
\<close>

theorem sysinfo_program_prints:
  assumes "enters u p" "backs u p" "writes e p" "keeps_words u e p (p_trapframe (procs k ! p)) {a, a + 8, a + 16, a + 24}"
    and "p < length (procs k)" "p_killed (procs k ! p) = 0"
    and "free_pages (k_mem (u_enter u 23 [a] p k)) fl" "KERNBASE \<le> kend (k_mem (u_enter u 23 [a] p k))"
      "length (procs k) < 2 ^ 31"
    and "reads_back u (p2_vm e) (p_pagetable (procs k ! p)) (p_sz (procs k ! p)) a (p_trapframe (procs k ! p))"
    and "\<forall>bs. length bs = 32 \<longrightarrow> (\<exists>s'. v_copyout (p2_vm e) (p_pagetable (procs k ! p)) (p_sz (procs k ! p)) a bs
      (k_mem (u_enter u 23 [a] p k)) = Ok (0, s'))"
  shows "\<exists>k' free used avail n vs cs. run_prog (sysinfo_main argv0 a) u e p (t, k) =
      ret ([(1, ''--- SYSINFO REPORT ---\<newline>'', []), (1, ''Free memory (bytes): %d\<newline>'', [Num free]),
            (1, ''Used pages: %d\<newline>'', [Num used]), (1, ''Available pages: %d\<newline>'', [Num avail]),
            (1, ''Runnable processes: %d\<newline>'', [Num n])], (23, 0) # map (Pair 16) vs, Some 0, (t, k')) \<and>
    sint free = 4096 * int (length fl) \<and> sint avail = int (length fl) \<and> sint used + sint avail = 32768 \<and>
    sint n = int (length (filter (\<lambda>q. p_state q = RUNNABLE) (procs k))) \<and> k_console k' = k_console k @ cs \<and>
    list_all2 (\<lambda>(m, x) c. \<exists>name. syscallnames ! m = Some name \<and> report (p_pid (procs k ! p)) name x c)
      (filter (\<lambda>(m, x). of_nat m = t ! p) ((23, 0) # map (Pair 16) vs)) cs"
proof -
  from sysinfo_main_prints [OF assms(1-3) assms(4) [folded info_words_def] assms(5-11), of argv0 t] obtain k' info vs cs where
    run: "run_prog (sysinfo_main argv0 a) u e p (t, k) =
      ret ([(1, ''--- SYSINFO REPORT ---\<newline>'', []),
            (1, ''Free memory (bytes): %d\<newline>'', [Num (ucast (freemem info))]),
            (1, ''Used pages: %d\<newline>'', [Num (ucast (n_upages info))]),
            (1, ''Available pages: %d\<newline>'', [Num (ucast (n_apages info))]),
            (1, ''Runnable processes: %d\<newline>'', [Num (ucast (n_runnable info))])],
          (23, 0) # map (Pair 16) vs, Some 0, (t, k'))"
    and acc: "accounts fl (procs k) info" and con: "k_console k' = k_console k @ cs"
    and rep: "reports (t ! p) (p_pid (procs k ! p)) ((23, 0) # map (Pair 16) vs) cs" by blast
  have le: "length fl \<le> 32768" by (rule free_pages_above_kernel [OF assms(7,8)])
  have "length (filter (\<lambda>q. p_state q = RUNNABLE) (procs k)) < 2 ^ 31"
    using assms(9) length_filter_le [of _ "procs k"] by (rule le_less_trans [rotated])
  moreover have as_int: "sint (ucast w :: i32) = int n" if "unat (w :: u64) = n" "n < 2 ^ 31" for w n
    using small_int [of w] that by simp
  have "unat (n_upages info) = 32768 - length fl" "unat (n_apages info) = length fl"
    "unat (freemem info) = 4096 * length fl"
    "unat (n_runnable info) = length (filter (\<lambda>q. p_state q = RUNNABLE) (procs k))"
    using acc le unfolding accounts_def by linarith+
  from this [THEN as_int] have "sint (ucast (freemem info) :: i32) = 4096 * int (length fl)"
    "sint (ucast (n_apages info) :: i32) = int (length fl)" "sint (ucast (n_upages info) :: i32) = int (32768 - length fl)"
    "sint (ucast (n_runnable info) :: i32) = int (length (filter (\<lambda>q. p_state q = RUNNABLE) (procs k)))"
    using le calculation by simp_all
  then show ?thesis using run con le rep [unfolded reports_def]
    by (intro exI [of _ k'] exI [of _ "ucast (freemem info)"] exI [of _ "ucast (n_upages info)"]
        exI [of _ "ucast (n_apages info)"] exI [of _ "ucast (n_runnable info)"] exI [of _ vs] exI [of _ cs]) simp
qed

text \<open>A memory layer that copies out without translation.\<close>

definition sample_flat :: "unit p2env" where
  "sample_flat = (sample_p2env [])\<lparr>p2_vm := (sample_vm [])\<lparr>v_copyout :=
     (\<lambda>_ _ a bs s. Ok (0, s\<lparr>pmem := write_bytes (pmem s) a bs\<rparr>))\<rparr>\<rparr>"

lemma load64_write_bytes:
  assumes "take 8 (drop j bs) = long_bytes w" "length bs < 2 ^ 64"
  shows "load64 (write_bytes m a bs) (a + of_nat j) = w"
proof -
  have len: "j + 8 \<le> length bs" using arg_cong [OF assms(1), of length] by (simp add: length_long)
  have "load64 (write_bytes m a bs) (a + of_nat j) = load64 (store64 m (a + of_nat j) w) (a + of_nat j)"
  proof (rule load64_cong)
    fix i :: u64 assume i: "i < 8"
    then have i8: "unat i < 8" by (simp add: word_less_nat_alt)
    have "unat (of_nat j + i :: u64) = j + unat i"
      using i8 len assms(2) by (simp add: unat_word_ariths unat_of_nat)
    moreover have "a + of_nat j + i - a = of_nat j + i" by simp
    ultimately have "write_bytes m a bs (a + of_nat j + i) = bs ! (j + unat i)"
      using i8 len by (simp only: write_bytes_def) simp
    also have "\<dots> = take 8 (drop j bs) ! unat i" using i8 len by simp
    also have "\<dots> = ucast (drop_bit (8 * unat i) w)" unfolding assms(1) using i8 by (simp add: long_bytes_def)
    finally show "write_bytes m a bs (a + of_nat j + i) = store64 m (a + of_nat j) w (a + of_nat j + i)"
      using i by (simp add: store64_def)
  qed
  then show ?thesis by (simp add: load64_store64)
qed

lemma sample_reads_back: "reads_back sample_uenv (p2_vm sample_flat) pt psz 0x1000 0x2000"
  unfolding reads_back_def
proof (intro allI impI)
  fix s bs s' x w and j :: nat
  assume c: "v_copyout (p2_vm sample_flat) pt psz 0x1000 bs s = Ok (0, s')" and bs: "length bs = 32"
    and w: "take 8 (drop j bs) = long_bytes w"
  have j: "j \<le> 24" using arg_cong [OF w, of length] bs by (simp add: length_long)
  have s': "s' = s\<lparr>pmem := write_bytes (pmem s) 0x1000 bs\<rparr>" using c by (simp add: sample_flat_def)
  have "unat (0x1000 + of_nat j - (0x2000 + TF_A0)) = 2 ^ 64 - 0x1070 + j"
  proof -
    have "(0x1000 + of_nat j - (0x2000 + TF_A0) :: u64) = of_nat (2 ^ 64 - 0x1070 + j)" by simp
    then show ?thesis using j by (simp only: unat_of_nat) simp
  qed
  then have "load64 (store64 (pmem s') (0x2000 + TF_A0) x) (0x1000 + of_nat j) = load64 (pmem s') (0x1000 + of_nat j)"
    using j by (intro load64_apart) simp_all
  also have "\<dots> = w" using load64_write_bytes [OF w, where m = "pmem s" and a = "0x1000"] bs by (simp add: s')
  finally show "u_load sample_uenv pt (s'\<lparr>pmem := store64 (pmem s') (0x2000 + TF_A0) x\<rparr>) (0x1000 + of_nat j) = w"
    by (simp add: sample_uenv_def)
qed

lemma sample_keeps_words: "keeps_words sample_uenv sample_flat 0 0x2000 {0x1000, 0x1000 + 8, 0x1000 + 16, 0x1000 + 24}"
proof -
  have "load64 (store64 (store64 (store64 m (0x2000 + 112) x) (0x2000 + 168) y) (0x2000 + 112) z) a = load64 m a"
    if "a \<in> {0x1000, 0x1000 + 8, 0x1000 + 16, 0x1000 + 24}" for m x y z and a :: u64
    using that by (auto simp: load64_apart)
  then show ?thesis
    by (simp add: keeps_words_def sample_flat_def sample_p2env_def sample_uenv_def set_a0_def)
qed

theorem sysinfo_program_prints_witness:
  "\<exists>k k' free used avail n calls. run_prog (sysinfo_main ''sysinfo'' 0x1000) sample_uenv sample_flat 0 ([0, 0, 0], k) =
      ret ([(1, ''--- SYSINFO REPORT ---\<newline>'', []), (1, ''Free memory (bytes): %d\<newline>'', [Num free]),
            (1, ''Used pages: %d\<newline>'', [Num used]), (1, ''Available pages: %d\<newline>'', [Num avail]),
            (1, ''Runnable processes: %d\<newline>'', [Num n])], calls, Some 0, ([0, 0, 0], k')) \<and> sint used + sint avail = 32768"
proof -
  define k where "k = upd 0 (\<lambda>q. q\<lparr>p_trapframe := 0x2000\<rparr>) sample_boot"
  obtain fl where "free_pages (k_mem sample_boot) fl" using sample_booted by (auto simp: booted_def)
  moreover have kend: "kend (k_mem sample_boot) = 0x87fe0000" by (simp add: sample_boot_def procinit_def sample_phys_kend)
  ultimately have fp: "free_pages (k_mem k) fl" "kend (k_mem k) = 0x87fe0000" by (simp_all add: k_def)
  have ps: "length (procs k) = 3" "p_killed (procs k ! 0) = 0" "p_trapframe (procs k ! 0) = 0x2000"
    by (simp_all add: k_def sample_boot_sel)
  have fp': "free_pages (k_mem (u_enter sample_uenv 23 [0x1000] 0 k)) fl"
  proof -
    have "same_page m (store64 (store64 m (0x2000 + TF_A0) x) (0x2000 + TF_A7) y) q" if "q \<in> set fl" for m x y q
    proof -
      have "usable (k_mem k) q" using fp(1) that by (simp add: free_pages_def)
      then have q: "page_aligned q" "q \<noteq> 0x2000" using fp(2) by (auto simp: usable_def word_le_nat_alt)
      have "0x2000 + TF_A0 = slot 0x2000 14" "0x2000 + TF_A7 = slot 0x2000 21" by (simp_all add: slot_def)
      have at: "page_aligned (0x2000 :: u64)" "(14 :: u64) < 512" "(21 :: u64) < 512" by (simp_all add: page_aligned_unat)
      show ?thesis unfolding \<open>0x2000 + TF_A0 = slot 0x2000 14\<close> \<open>0x2000 + TF_A7 = slot 0x2000 21\<close>
        using same_page_store64_slot [OF at(1,2) q(2), of m x] same_page_store64_slot [OF at(1,3) q(2)]
        by (simp add: same_page_def)
    qed
    from free_pages_frame [OF fp(1) this] show ?thesis by (simp add: sample_uenv_def ps)
  qed
  have kb: "KERNBASE \<le> kend (k_mem (u_enter sample_uenv 23 [0x1000] 0 k))" "length (procs k) < 2 ^ 31"
    using fp(2) ps by (simp_all add: sample_uenv_def KERNBASE_def)
  have c: "\<forall>bs. length bs = 32 \<longrightarrow> (\<exists>s'. v_copyout (p2_vm sample_flat) (p_pagetable (procs k ! 0)) (p_sz (procs k ! 0))
      0x1000 bs (k_mem (u_enter sample_uenv 23 [0x1000] 0 k)) = Ok (0, s'))"
    by (simp add: sample_flat_def)
  have w: "writes sample_flat 0" using sample_uenv_laws(3) [of "[]" 0] by (simp add: writes_def sample_flat_def)
  have p0: "0 < length (procs k)" by (simp add: ps)
  from sysinfo_program_prints [OF sample_uenv_laws(1,2) w sample_keeps_words [folded ps(3)] p0 ps(2) fp' kb
      sample_reads_back [folded ps(3)] c]
  show ?thesis by blast
qed

text \<open>
  The call itself ends and copies to the user a structure that accounts for the machine, and
  returns -1 exactly if the copy fails.
\<close>

theorem sysinfo_accounts:
  assumes "free_pages (k_mem k) fl" "KERNBASE \<le> kend (k_mem k)" "length (procs k) < 2 ^ 31"
  shows "\<exists>info :: sysinfo. sys_sysinfo e p (traced, k) =
      rbnd (lift (v_copyout (p2_vm e) (p_pagetable (procs k ! p)) (p_sz (procs k ! p)) (tf_reg p 112 k)
             (sysinfo_bytes info) (k_mem k)))
        (\<lambda>(r, s). ret (Sys_return (if r < 0 then -1 else 0), (traced, set_mem s k))) \<and>
    unat (freemem info) = 4096 * length fl \<and> unat (n_apages info) = length fl \<and>
    unat (n_upages info) + unat (n_apages info) = 32768 \<and>
    unat (n_runnable info) = length (filter (\<lambda>p. p_state p = RUNNABLE) (procs k)) \<and>
    length (sysinfo_bytes info) = 32"
  using sys_sysinfo_spec [OF assms] by (auto simp: accounts_def sysinfo_bytes_def length_long)

section \<open>The dispatcher\<close>

text \<open>
  C37. The dispatcher of \<open>Proyecto2\<close> prints the report of a call exactly when the caller traces
  its number, after \<open>a0\<close> received the result: what it shows as \<open>a0\<close> is the result of the call,
  not its first argument. Every number it can report has a name.
\<close>

theorem syscall_p2_reports:
  assumes "(num :: i32) = ucast (tf_reg p TF_A7 k)" "1 \<le> sint num" "sint num \<le> 24"
    and "syscalls_p2 e (nat (sint num)) = Some f" "f p (traced, k) = ret (Sys_return v, (traced', k1))"
  shows "\<exists>k' s. syscall_p2 e p (traced, k) = ret (Sys_return v, (traced', k')) \<and>
    tf_reg p TF_A0 k' = v \<and> procs k' = procs k1 \<and> k_mem k' = k_mem (set_a0 p v k1) \<and>
    syscallnames ! nat (sint num) = Some s \<and>
    k_console k' = k_console k1 @
      (if traced' ! p = num
       then [Traced (p_pid (procs k1 ! p)) s (ucast v) (ucast (tf_reg p 96 k')) (ucast (tf_reg p 104 k'))
         (ucast v) (ucast (tf_reg p 120 k'))]
       else [])"
  using syscall_p2_spec [OF assms] .

theorem syscall_p2_reports_witness:
  "\<exists>k'. syscall_p2 (sample_p2env []) 0 ([11], u_enter sample_uenv 11 [] 0 sample_boot) =
      ret (Sys_return (scast (p_pid (procs sample_boot ! 0))), ([11], k')) \<and> length (k_console k') = 1"
proof -
  let ?k = "u_enter sample_uenv 11 [] 0 sample_boot"
  have en: "procs ?k = procs sample_boot" "tf_reg 0 TF_A7 ?k = of_nat 11" "k_console ?k = []"
    using sample_uenv_laws(1) [of 0] by (auto simp: enters_def sample_boot_def procinit_def)
  have "(11 :: i32) = ucast (tf_reg 0 TF_A7 ?k)" "syscalls_p2 (sample_p2env []) (nat (sint (11 :: i32))) = Some sys_getpid_p2"
    by (simp_all add: en(2) syscalls_p2_def)
  from syscall_p2_reports [OF this(1) _ _ this(2) getpid_call, of "[11]"] show ?thesis
    by (auto simp: en)
qed

end
