(* ===== verification/Kvm.thy ===== *)
theory Kvm
  imports Vm_Print
begin

text \<open>
  The page table of the kernel, \<open>kvmmake\<close> of \<open>vm.c\<close> with \<open>kvmmap\<close> and \<open>proc_mapstacks\<close>: what it
  maps, and how many free pages it needs. A new page table is only needed for the first page of
  each two megabytes, which bounds the pages that \<open>mappages\<close> takes.
\<close>

section \<open>The number of pages that \<open>mappages\<close> takes\<close>

lemma walk_loop_have:
  "leaf (pmem s) l t va \<noteq> 0 \<Longrightarrow> walk_loop t l va True s = (leaf (pmem s) l t va, s)"
  by (induction l arbitrary: t) (auto simp: Let_def valid_def split: if_splits)

lemma leaf_zero_cong:
  "pt_tree (usable s) m l t \<Longrightarrow> \<forall>k. 1 \<le> k \<longrightarrow> k \<le> l \<longrightarrow> PX k va = PX k va' \<Longrightarrow>
   leaf m l t va = 0 \<longleftrightarrow> leaf m l t va' = 0"
proof (induction l arbitrary: t)
  case 0
  then have "page_aligned t" "t \<noteq> 0" by (auto simp: usable_def)
  then show ?case using slot_nonnull [of t] by (simp add: PX_less)
next
  case (Suc l)
  have "PX (Suc l) va = PX (Suc l) va'" using Suc.prems(2) by simp
  moreover have "\<forall>k. 1 \<le> k \<longrightarrow> k \<le> l \<longrightarrow> PX k va = PX k va'" using Suc.prems(2) by simp
  ultimately show ?case using Suc.IH Suc.prems(1) PX_less by (simp add: Let_def)
qed

lemma next_page_region:
  assumes a: "page_aligned a" "unat a + 4096 < 2 ^ 39" and p: "Suc (unat a div 4096) mod 512 \<noteq> 0"
    and k: "1 \<le> k" "k \<le> 2"
  shows "PX k (a + PGSIZE) = PX k a"
proof -
  define q where "q = unat a div 4096"
  have u: "unat a = 4096 * q" using a(1) by (simp add: q_def page_aligned_unat)
  have u2: "unat (a + PGSIZE) = 4096 * Suc q" using a(2) u by (simp add: unat_word_ariths)
  have d: "Suc q div 512 = q div 512" using p unfolding q_def [symmetric] by (simp add: div_Suc)
  have "k = 1 \<or> k = 2" using k by auto
  moreover have "4096 * q div 2097152 = q div 512" "4096 * Suc q div 2097152 = Suc q div 512" for q :: nat
    by (simp_all add: div_mult2_eq [of _ 4096 512, simplified])
  moreover have "n div 1073741824 = n div 2097152 div 512" for n :: nat
    by (simp add: div_mult2_eq [symmetric])
  ultimately show ?thesis using d by (auto simp: word_unat_eq_iff unat_PX u u2)
qed

text \<open>
  The pages that mapping \<open>n\<close> pages from page number \<open>p\<close> may take; \<open>f\<close> when the first one may
  lack its tables.
\<close>

fun cost :: "bool \<Rightarrow> nat \<Rightarrow> nat \<Rightarrow> nat" where
  "cost f p 0 = 0"
| "cost f p (Suc n) = (if f then 2 else 0) + cost (Suc p mod 512 = 0) (Suc p) n"

lemma cost_eq: "cost f p (Suc n) = (if f then 2 else 0) + 2 * ((p + n) div 512 - p div 512)"
proof (induction n arbitrary: f p)
  case (Suc n)
  have step: "(if b then 2 else 0) + 2 * (d - q) = 2 * (d - r)"
    if "q \<le> d" "q = r + (if b then 1 else 0)" for b and d q r :: nat using that by auto
  have s: "Suc p div 512 = p div 512 + (if Suc p mod 512 = 0 then 1 else 0)" by (simp add: div_Suc)
  have "Suc p div 512 \<le> (Suc p + n) div 512" by (simp add: div_le_mono)
  then have "(if Suc p mod 512 = 0 then 2 else 0) + 2 * ((Suc p + n) div 512 - Suc p div 512) =
      2 * ((Suc p + n) div 512 - p div 512)"
    using step s by blast
  then show ?case using Suc [of "Suc p mod 512 = 0" "Suc p"] by simp
qed simp

lemma mappages_page_ok:
  assumes inv: "as_inv s fl 2 pt" and a: "page_aligned a" "a < MAXVA"
    and free: "\<not> valid (pte_of s pt a)" and enough: "leaf (pmem s) 2 pt a = 0 \<longrightarrow> 2 \<le> length fl"
  obtains used fl' s2 where "fl = used @ fl'" "length used \<le> (if leaf (pmem s) 2 pt a = 0 then 2 else 0)"
    "as_inv s2 fl' 2 pt" "touched s pt used s2"
    "\<And>va. va < VATOP \<Longrightarrow> pte_of s2 pt va =
       (if PGROUNDDOWN va = a then PA2PTE pa OR perm OR PTE_V else pte_of s pt va)"
    "\<And>l. mappages_loop pt a l pa perm s =
       (if a = l then Ok (0, s2) else mappages_loop pt (a + PGSIZE) l (pa + PGSIZE) perm s2)"
    "leaf (pmem s2) 2 pt a \<noteq> 0"
proof (cases "leaf (pmem s) 2 pt a = 0")
  case True
  have have_leaf: "leaf (pmem s2) 2 pt a \<noteq> 0" if "as_inv s2 fl2 2 pt"
    "pte_of s2 pt a = PA2PTE pa OR perm OR PTE_V" for s2 fl2
  proof -
    have "valid (pte_of s2 pt a)" unfolding that(2) by (simp add: valid_bit bit_or_iff bit_pte_bits)
    then show ?thesis using no_leaf [OF that(1), of a] by auto
  qed
  show ?thesis
  proof (rule mappages_iter [OF inv a free, where pa = pa and perm = perm], goal_cases)
    case (1 used s1)
    then show ?case using enough True by simp
  next
    case (2 used fl' s2)
    have "pte_of s2 pt a = PA2PTE pa OR perm OR PTE_V"
      using 2(5) [of a] a MAXVA_VATOP PGROUNDDOWN_id by simp
    then show ?case using that 2 have_leaf True by simp
  qed
next
  case False
  let ?r = "leaf (pmem s) 2 pt a"
  define s2 where "s2 = s\<lparr>pmem := store64 (pmem s) ?r (PA2PTE pa OR perm OR PTE_V)\<rparr>"
  note st = store_pte [OF inv a(2) False s2_def]
  have "walk pt a True s = Ok (?r, s)" using walk_loop_have [OF False] a(2) by (simp add: walk_def not_le)
  moreover have "load64 (pmem s) ?r AND PTE_V = 0"
    using load_leaf [OF inv False] free by (simp add: valid_def)
  ultimately have "mappages_loop pt a l pa perm s =
      (if a = l then Ok (0, s2) else mappages_loop pt (a + PGSIZE) l (pa + PGSIZE) perm s2)" for l
    using False by (subst mappages_loop.simps) (simp add: s2_def)
  moreover have "PGROUNDDOWN a = a" using a(1) by (simp add: PGROUNDDOWN_id)
  ultimately show ?thesis using False st by (intro that [of "[]" fl s2]) auto
qed

lemma mappages_loop_ok:
  "as_inv s fl 2 pt \<Longrightarrow> page_aligned a \<Longrightarrow> unat a + 4096 * Suc n \<le> 2 ^ 38 \<Longrightarrow>
   (\<And>va. in_run a (Suc n) va \<Longrightarrow> \<not> valid (pte_of s pt va)) \<Longrightarrow>
   (leaf (pmem s) 2 pt a = 0 \<Longrightarrow> f) \<Longrightarrow> cost f (unat a div 4096) (Suc n) \<le> length fl \<Longrightarrow>
   \<exists>s' used fl'. mappages_loop pt a (a + of_nat n * PGSIZE) pa perm s = Ok (0, s') \<and>
     fl = used @ fl' \<and> length used \<le> cost f (unat a div 4096) (Suc n) \<and> as_inv s' fl' 2 pt \<and>
     touched s pt used s' \<and> mapped_run (pte_of s pt) (pte_of s' pt) a (Suc n) pa perm"
proof (induction n arbitrary: a pa s fl f)
  case (0 a pa s fl f)
  have page: "a < MAXVA" "\<not> valid (pte_of s pt a)" and en: "leaf (pmem s) 2 pt a = 0 \<longrightarrow> 2 \<le> length fl"
    using 0 by (auto simp: MAXVA_val word_less_nat_alt in_run_def)
  show ?case
  proof (rule mappages_page_ok [OF 0(1,2) page en, where pa = pa and perm = perm], goal_cases)
    case (1 used fl' s2)
    have "mapped_run (pte_of s pt) (pte_of s2 pt) a (Suc 0) pa perm"
      using 1(5) mapped_run_0 by (intro mapped_run_Suc [OF 0(2,3)])
    moreover have "mappages_loop pt a (a + of_nat 0 * PGSIZE) pa perm s = Ok (0, s2)" using 1(6) by simp
    moreover have "length used \<le> cost f (unat a div 4096) (Suc 0)" using 1(2) 0(5) by (auto split: if_splits)
    ultimately show ?case using 1(1,3,4) by blast
  qed
next
  case (Suc n a pa s fl f)
  have alt: "a < MAXVA" using Suc.prems(3) by (simp add: MAXVA_val word_less_nat_alt)
  have u: "unat (a + PGSIZE) = unat a + 4096" using Suc.prems(3) by (simp add: unat_word_ariths)
  then have d: "unat (a + PGSIZE) div 4096 = Suc (unat a div 4096)" by simp
  have l: "a + of_nat (Suc n) * PGSIZE = (a + PGSIZE) + of_nat n * PGSIZE" by (simp add: algebra_simps)
  have "unat (a + of_nat (Suc n) * PGSIZE) = unat a + Suc n * 4096"
    using Suc.prems(3) by (simp add: unat_word_ariths unat_of_nat)
  then have ne: "a \<noteq> a + of_nat (Suc n) * PGSIZE" by auto
  define g where "g \<longleftrightarrow> Suc (unat a div 4096) mod 512 = 0"
  have fr: "\<not> valid (pte_of s pt a)" and en: "leaf (pmem s) 2 pt a = 0 \<longrightarrow> 2 \<le> length fl"
    using Suc.prems(4-6) by (auto simp: in_run_def)
  show ?case
  proof (rule mappages_page_ok [OF Suc.prems(1,2) alt fr en, where pa = pa and perm = perm], goal_cases)
    case (1 used fl' s2)
    have used: "length used \<le> (if f then 2 else 0)" using 1(2) Suc.prems(5) by (auto split: if_splits)
    have al': "page_aligned (a + PGSIZE)" using Suc.prems(2) by (rule page_aligned_add)
    have lim: "unat (a + PGSIZE) + 4096 * Suc n \<le> 2 ^ 38" using Suc.prems(3) u by simp
    have free: "\<not> valid (pte_of s2 pt va)" if r: "in_run (a + PGSIZE) (Suc n) va" for va
    proof -
      have "va < VATOP" using r lim by (simp add: in_run_def word_less_nat_alt)
      moreover have "in_run a (Suc (Suc n)) va" using r u by (auto simp: in_run_def)
      moreover have "PGROUNDDOWN va \<noteq> a" using r u in_run_1 [OF Suc.prems(2), of va]
        by (auto simp: in_run_def)
      ultimately show ?thesis using 1(5) Suc.prems(4) by simp
    qed
    have g: "leaf (pmem s2) 2 pt (a + PGSIZE) = 0 \<Longrightarrow> g"
    proof (rule ccontr)
      assume z: "leaf (pmem s2) 2 pt (a + PGSIZE) = 0" and "\<not> g"
      then have "PX k (a + PGSIZE) = PX k a" if "1 \<le> k" "k \<le> 2" for k
        using that lim u by (intro next_page_region [OF Suc.prems(2)]) (auto simp: g_def)
      then have "leaf (pmem s2) 2 pt (a + PGSIZE) = 0 \<longleftrightarrow> leaf (pmem s2) 2 pt a = 0"
        using 1(3) by (intro leaf_zero_cong [of s2]) (auto simp: as_inv_def)
      then show False using z 1(7) by simp
    qed
    have "cost g (unat (a + PGSIZE) div 4096) (Suc n) \<le> length fl'"
      using Suc.prems(6) used 1(1) unfolding d g_def by (simp del: cost.simps(2) add: cost.simps(2) [of f])
    from Suc.IH [OF 1(3) al' lim free g this, of "pa + PGSIZE"] obtain s' used' fl'' where
      p: "mappages_loop pt (a + PGSIZE) (a + PGSIZE + of_nat n * PGSIZE) (pa + PGSIZE) perm s2 = Ok (0, s')"
        "fl' = used' @ fl''" "length used' \<le> cost g (Suc (unat a div 4096)) (Suc n)" "as_inv s' fl'' 2 pt"
        "touched s2 pt used' s'" "mapped_run (pte_of s2 pt) (pte_of s' pt) (a + PGSIZE) (Suc n) (pa + PGSIZE) perm"
      unfolding d by blast
    have "mappages_loop pt a (a + of_nat (Suc n) * PGSIZE) pa perm s = Ok (0, s')"
      unfolding 1(6) l using ne p(1) by (simp only: l if_False)
    moreover have "length (used @ used') \<le> cost f (unat a div 4096) (Suc (Suc n))"
      using used p(3) unfolding g_def by (simp del: cost.simps(2) add: cost.simps(2) [of f])
    moreover have "mapped_run (pte_of s pt) (pte_of s' pt) a (Suc (Suc n)) pa perm"
      by (rule mapped_run_Suc [OF Suc.prems(2,3) 1(5) p(6)])
    ultimately show ?case using 1(1) p(2,4) touched_trans [OF 1(4) p(5)] by (metis append.assoc)
  qed
qed

section \<open>The map of the kernel\<close>

text \<open>A range of \<open>n\<close> pages from an address to a physical one, with its permissions.\<close>

type_synonym kmap = "u64 \<times> nat \<times> u64 \<times> u64"

fun kpte :: "kmap list \<Rightarrow> u64 \<Rightarrow> u64" where
  "kpte [] va = 0"
| "kpte ((a, n, pa, perm) # ms) va =
     (if in_run a n va then PA2PTE (pa + (PGROUNDDOWN va - a)) OR perm OR PTE_V else kpte ms va)"

definition clear_of :: "u64 \<Rightarrow> nat \<Rightarrow> kmap list \<Rightarrow> bool" where
  "clear_of a n ms \<longleftrightarrow> (\<forall>(b, k, _) \<in> set ms. unat a + 4096 * n \<le> unat b \<or> unat b + 4096 * k \<le> unat a)"

lemma clear_of_Nil [simp]: "clear_of a n []"
  by (simp add: clear_of_def)

lemma clear_of_Cons [simp]:
  "clear_of a n ((b, k, q) # ms) \<longleftrightarrow>
     (unat a + 4096 * n \<le> unat b \<or> unat b + 4096 * k \<le> unat a) \<and> clear_of a n ms"
  by (simp add: clear_of_def)

lemma clear_of_append: "clear_of a n (ms @ ms') \<longleftrightarrow> clear_of a n ms \<and> clear_of a n ms'"
  by (auto simp: clear_of_def)

lemma kpte_clear: "clear_of a n ms \<Longrightarrow> in_run a n va \<Longrightarrow> kpte ms va = 0"
  by (induction ms va rule: kpte.induct) (auto simp: in_run_def)

definition kern :: "phys \<Rightarrow> u64 list \<Rightarrow> u64 \<Rightarrow> kmap list \<Rightarrow> bool" where
  "kern s fl pt ms \<longleftrightarrow> as_inv s fl 2 pt \<and> (\<forall>va < VATOP. pte_of s pt va = kpte ms va)"

lemma kvmmap_ok:
  assumes k: "kern s fl pt ms" and va: "page_aligned va" "unat va + 4096 * n \<le> 2 ^ 38"
    and n: "0 < n" "clear_of va n ms" "cost True (unat va div 4096) n \<le> length fl"
  obtains s' used fl' where "kvmmap pt va pa (of_nat n * PGSIZE) perm s = Ok s'" "fl = used @ fl'"
    "length used \<le> cost True (unat va div 4096) n" "kern s' fl' pt ((va, n, pa, perm) # ms)"
proof -
  obtain m where m: "n = Suc m" using n(1) by (cases n) auto
  have inv: "as_inv s fl 2 pt" using k by (simp add: kern_def)
  have "\<not> valid (pte_of s pt x)" if "in_run va (Suc m) x" for x
  proof -
    have "x < VATOP" using that va(2) by (simp add: in_run_def word_less_nat_alt m)
    then show ?thesis using k kpte_clear [OF n(2), of x] that by (simp add: kern_def m)
  qed
  from mappages_loop_ok [OF inv va(1) va(2) [unfolded m] this, of True pa perm] n(3)
  obtain s' used fl' where
    p: "mappages_loop pt va (va + of_nat m * PGSIZE) pa perm s = Ok (0, s')" "fl = used @ fl'"
      "length used \<le> cost True (unat va div 4096) n" "as_inv s' fl' 2 pt"
      "mapped_run (pte_of s pt) (pte_of s' pt) va n pa perm" unfolding m by blast
  have "kvmmap pt va pa (of_nat n * PGSIZE) perm s = Ok s'"
    using mappages_whole_pages [OF va(1) va(2) [unfolded m], of pt pa perm s] p(1)
    by (simp add: kvmmap_def m del: of_nat_Suc)
  moreover have "kern s' fl' pt ((va, n, pa, perm) # ms)"
    using p(4,5) k by (simp add: kern_def mapped_run_def)
  ultimately show thesis using p(2,3) that by blast
qed

lemma cost_1: "cost True p 1 = 2"
  by simp

lemma unat_KSTACK: "i < 2 ^ 20 \<Longrightarrow> unat (KSTACK (of_nat i)) = 274877902848 - 8192 * Suc i"
proof -
  assume i: "i < 2 ^ 20"
  have u: "unat ((of_nat i + 1) * 2 * PGSIZE :: u64) = 8192 * Suc i"
    using i by (simp add: unat_word_ariths unat_of_nat)
  have "unat TRAMPOLINE = 274877902848" by (simp add: TRAMPOLINE_val)
  moreover have "(of_nat i + 1) * 2 * PGSIZE \<le> TRAMPOLINE"
    using u i by (simp add: word_le_nat_alt TRAMPOLINE_val)
  ultimately show ?thesis using u i unfolding KSTACK_def by (simp add: unat_sub word_le_nat_alt)
qed

lemma aligned_KSTACK: "i < 2 ^ 20 \<Longrightarrow> page_aligned (KSTACK (of_nat i))"
proof -
  assume "i < 2 ^ 20"
  moreover have "(4096 :: nat) dvd 274877902848 - 8192 * Suc i" by (intro dvd_diff_nat) (auto intro: dvd_mult2)
  ultimately show ?thesis by (simp add: page_aligned_unat unat_KSTACK)
qed

text \<open>The stacks, one page each, with the pages taken for them.\<close>

definition stack_maps :: "nat list \<Rightarrow> u64 list \<Rightarrow> kmap list" where
  "stack_maps is stk = map (\<lambda>(i, pa). (KSTACK (of_nat i), 1, pa, PTE_R OR PTE_W)) (zip is stk)"

lemma mapstacks_ok:
  "kern s fl pt ms \<Longrightarrow> distinct is \<Longrightarrow> \<forall>i \<in> set is. i < 2 ^ 20 \<and> clear_of (KSTACK (of_nat i)) 1 ms \<Longrightarrow>
   3 * length is \<le> length fl \<Longrightarrow>
   \<exists>s' fl' stk. proc_mapstacks_loop is pt s = Ok s' \<and> length stk = length is \<and> distinct stk \<and>
     set stk \<subseteq> set fl - set fl' \<and> set fl' \<subseteq> set fl \<and> length fl \<le> length fl' + 3 * length is \<and>
     kern s' fl' pt (rev (stack_maps is stk) @ ms)"
proof (induction "is" arbitrary: s fl ms)
  case Nil
  then show ?case by (intro exI [of _ s] exI [of _ fl] exI [of _ "[]"]) (simp add: stack_maps_def)
next
  case (Cons i "is")
  let ?a = "KSTACK (of_nat i)" and ?m = "\<lambda>pa. (KSTACK (of_nat i), 1, pa, PTE_R OR PTE_W)"
  have inv: "as_inv s fl 2 pt" using Cons.prems(1) by (simp add: kern_def)
  obtain p s1 where ka: "kalloc s = (p, s1)" by fastforce
  from kalloc_as_inv [OF inv ka] Cons.prems(4) obtain rest where
    fl: "fl = p # rest" "p \<noteq> 0" and inv1: "as_inv s1 rest 2 pt" and pr: "p \<notin> set rest"
    and pte: "pte_of s1 pt = pte_of s pt" by (cases rule: kalloc_as_inv [OF inv ka]) auto
  have k1: "kern s1 rest pt ms" using Cons.prems(1) inv1 pte by (simp add: kern_def)
  have ui: "unat ?a = 274877902848 - 8192 * Suc i" using Cons.prems(3) by (intro unat_KSTACK) simp
  have al: "page_aligned ?a" using Cons.prems(3) by (intro aligned_KSTACK) simp
  have "unat ?a + 4096 * 1 \<le> 2 ^ 38" using ui by simp
  moreover have "clear_of ?a 1 ms" using Cons.prems(3) by simp
  moreover have "cost True (unat ?a div 4096) 1 \<le> length rest" 
    using Cons.prems(4) fl unfolding cost_1 by simp
  ultimately obtain s2 used fl2 where
    km: "kvmmap pt ?a p (of_nat 1 * PGSIZE) (PTE_R OR PTE_W) s1 = Ok s2" and u: "rest = used @ fl2"
      "length used \<le> 2" and k2: "kern s2 fl2 pt (?m p # ms)"
    using kvmmap_ok [OF k1 al, where n = 1 and pa = p and perm = "PTE_R OR PTE_W"] unfolding cost_1
    by (metis zero_less_one)
  have cl: "\<forall>j \<in> set is. j < 2 ^ 20 \<and> clear_of (KSTACK (of_nat j)) 1 (?m p # ms)"
  proof
    fix j assume j: "j \<in> set is"
    then have "j < 2 ^ 20" "j \<noteq> i" using Cons.prems(2,3) by auto
    moreover have "i < 2 ^ 20" using Cons.prems(3) by simp
    ultimately have "unat (KSTACK (of_nat j)) + 4096 \<le> unat ?a \<or> unat ?a + 4096 \<le> unat (KSTACK (of_nat j))"
      using unat_KSTACK [of j] ui by auto
    then show "j < 2 ^ 20 \<and> clear_of (KSTACK (of_nat j)) 1 (?m p # ms)" using Cons.prems(3) j by simp
  qed
  have "3 * length is \<le> length fl2" using Cons.prems(4) fl u by simp
  from Cons.IH [OF k2 _ cl this] Cons.prems(2) obtain s' fl' stk where
    r: "proc_mapstacks_loop is pt s2 = Ok s'" "length stk = length is" "distinct stk"
      "set stk \<subseteq> set fl2 - set fl'" "set fl' \<subseteq> set fl2" "length fl2 \<le> length fl' + 3 * length is"
      "kern s' fl' pt (rev (stack_maps is stk) @ ?m p # ms)" by auto
  have "proc_mapstacks_loop (i # is) pt s = Ok s'" using ka fl(2) km r(1) by simp
  moreover have "kern s' fl' pt (rev (stack_maps (i # is) (p # stk)) @ ms)"
    using r(7) by (simp add: stack_maps_def)
  moreover have "distinct (p # stk)" "set (p # stk) \<subseteq> set fl - set fl'" "set fl' \<subseteq> set fl"
    "length fl \<le> length fl' + 3 * length (i # is)" "length (p # stk) = length (i # is)"
    using r fl pr u by auto
  ultimately show ?case by blast
qed

section \<open>kvmmake\<close>

definition kernel_maps :: "nat \<Rightarrow> u64 \<Rightarrow> u64 \<Rightarrow> u64 list \<Rightarrow> kmap list" where
  "kernel_maps nproc etext trampoline stk = rev (stack_maps [0..<nproc] stk) @
     [(TRAMPOLINE, 1, trampoline, PTE_R OR PTE_X),
      (etext, (unat PHYSTOP - unat etext) div 4096, etext, PTE_R OR PTE_W),
      (KERNBASE, (unat etext - unat KERNBASE) div 4096, KERNBASE, PTE_R OR PTE_X),
      (PLIC, 16384, PLIC, PTE_R OR PTE_W),
      (VIRTIO0, 1, VIRTIO0, PTE_R OR PTE_W),
      (UART0, 1, UART0, PTE_R OR PTE_W)]"

lemma cost_plic: "cost True 49152 16384 = 64"
  using cost_eq [of True 49152 16383] by simp

lemma kvmmake_spec:
  assumes fp: "free_pages s fl" and n: "201 + 3 * nproc \<le> length fl" "nproc \<le> 2 ^ 20"
    and e: "page_aligned etext" "KERNBASE < etext" "etext < PHYSTOP"
  shows "\<exists>pt s' fl' stk. kvmmake nproc etext trampoline s = Ok (pt, s') \<and>
    kern s' fl' pt (kernel_maps nproc etext trampoline stk) \<and> length stk = nproc \<and> distinct stk \<and>
    set stk \<subseteq> set fl - set fl' \<and> length fl \<le> length fl' + 201 + 3 * nproc"
proof -
  obtain p rest where fl: "fl = p # rest" using n by (cases fl) auto
  from uvmcreate_spec [OF fp [unfolded fl]] obtain s0 where
    uc: "uvmcreate s = (p, s0)" "p \<noteq> 0" and us: "uspace s0 rest p" and z: "\<forall>va. pte_of s0 p va = 0" by blast
  obtain s1 where ka: "kalloc s = (p, s1)" and s0: "s0 = s1\<lparr>pmem := memset (pmem s1) p 0 PGSIZE\<rparr>"
    using uc by (auto simp: uvmcreate_def split: prod.splits if_splits)
  have k0: "kern s0 rest p []" using uspace_as_inv [OF us] z by (simp add: kern_def)
  define x where "x = (unat etext - 2147483648) div 4096"
  have ub: "2147483648 < unat etext" "unat etext < 2281701376"
    using e(2,3) by (simp_all add: word_less_nat_alt KERNBASE_def PHYSTOP_val)
  have "4096 dvd unat etext - 2147483648" using e(1) by (intro dvd_diff_nat) (simp_all add: page_aligned_unat)
  then have "unat etext - 2147483648 = 4096 * x" by (simp add: x_def)
  then have ex: "unat etext = 2147483648 + 4096 * x" "0 < x" "x < 32768" using ub by auto
  define y where "y = 32768 - x"
  have wx: "etext - KERNBASE = of_nat x * PGSIZE"
    using ex by (simp add: word_unat_eq_iff unat_word_ariths unat_of_nat KERNBASE_def unat_sub_if')
  have wy: "PHYSTOP - etext = of_nat y * PGSIZE"
    using ex by (simp add: word_unat_eq_iff unat_word_ariths unat_of_nat PHYSTOP_val unat_sub_if' y_def)
  have xy: "(unat etext - unat KERNBASE) div 4096 = x" "(unat PHYSTOP - unat etext) div 4096 = y"
    using ex by (simp_all add: KERNBASE_def PHYSTOP_val y_def)
  have cx: "cost True 524288 x \<le> 2 + 2 * ((524287 + x) div 512 - 1024)"
    using cost_eq [of True 524288 "x - 1"] ex by simp
  have cy: "cost True (524288 + x) y = 2 + 2 * (1087 - (524288 + x) div 512)"
  proof -
    have "y = Suc (y - 1)" "524288 + x + (y - 1) = 557055" using ex by (simp_all add: y_def)
    then show ?thesis using cost_eq [of True "524288 + x" "y - 1"] by simp
  qed
  have "(524287 + x) div 512 \<le> (524288 + x) div 512" "(524288 + x) div 512 \<le> 1087" "1024 \<le> (524287 + x) div 512"
    using ex by (auto intro!: div_le_mono simp: less_eq_div_iff_mult_less_eq)
  then have cxy: "cost True 524288 x + cost True (524288 + x) y \<le> 130" using cx cy by linarith
  have lr: "200 + 3 * nproc \<le> length rest" using n fl by simp
  from kvmmap_ok [OF k0, where va = UART0 and n = 1 and pa = UART0 and perm = "PTE_R OR PTE_W"] lr
  obtain s1' u1 f1 where k1: "kvmmap p UART0 UART0 (of_nat 1 * PGSIZE) (PTE_R OR PTE_W) s0 = Ok s1'"
    "rest = u1 @ f1" "length u1 \<le> 2" "kern s1' f1 p [(UART0, 1, UART0, PTE_R OR PTE_W)]"
    by (auto simp: UART0_def page_aligned_unat)
  let ?k1 = "[(UART0, 1, UART0, PTE_R OR PTE_W)]"
  from kvmmap_ok [OF k1(4), where va = VIRTIO0 and n = 1 and pa = VIRTIO0 and perm = "PTE_R OR PTE_W"] lr k1(2,3)
  obtain s2 u2 f2 where k2: "kvmmap p VIRTIO0 VIRTIO0 (of_nat 1 * PGSIZE) (PTE_R OR PTE_W) s1' = Ok s2"
    "f1 = u2 @ f2" "length u2 \<le> 2" "kern s2 f2 p ((VIRTIO0, 1, VIRTIO0, PTE_R OR PTE_W) # ?k1)"
    by (auto simp: UART0_def VIRTIO0_def page_aligned_unat)
  let ?k2 = "(VIRTIO0, 1, VIRTIO0, PTE_R OR PTE_W) # ?k1"
  have "unat PLIC div 4096 = 49152" by (simp add: PLIC_def)
  then have cp: "cost True (unat PLIC div 4096) 16384 = 64" using cost_plic by simp
  have "cost True (unat PLIC div 4096) 16384 \<le> length f2" unfolding cp using lr k1(2,3) k2(2,3) by simp
  from kvmmap_ok [OF k2(4) _ _ _ _ this, where pa = PLIC and perm = "PTE_R OR PTE_W"]
  obtain s3 u3 f3 where k3: "kvmmap p PLIC PLIC (of_nat 16384 * PGSIZE) (PTE_R OR PTE_W) s2 = Ok s3"
    "f2 = u3 @ f3" "length u3 \<le> 64" "kern s3 f3 p ((PLIC, 16384, PLIC, PTE_R OR PTE_W) # ?k2)"
    unfolding cp by (auto simp: UART0_def VIRTIO0_def PLIC_def page_aligned_unat)
  let ?k3 = "(PLIC, 16384, PLIC, PTE_R OR PTE_W) # ?k2"
  have pk: "unat KERNBASE div 4096 = 524288" "unat etext div 4096 = 524288 + x"
    using ex(1) by (simp_all add: KERNBASE_def)
  have "cost True (unat KERNBASE div 4096) x \<le> length f3"
    unfolding pk using lr k1(2,3) k2(2,3) k3(2,3) cxy by simp
  from kvmmap_ok [OF k3(4) _ _ ex(2) _ this, where pa = KERNBASE and perm = "PTE_R OR PTE_X"] ex
  obtain s4 u4 f4 where k4: "kvmmap p KERNBASE KERNBASE (of_nat x * PGSIZE) (PTE_R OR PTE_X) s3 = Ok s4"
    "f3 = u4 @ f4" "length u4 \<le> cost True 524288 x" "kern s4 f4 p ((KERNBASE, x, KERNBASE, PTE_R OR PTE_X) # ?k3)"
    unfolding pk by (auto simp: UART0_def VIRTIO0_def PLIC_def KERNBASE_def page_aligned_unat)
  let ?k4 = "(KERNBASE, x, KERNBASE, PTE_R OR PTE_X) # ?k3"
  have "cost True (unat etext div 4096) y \<le> length f4"
    unfolding pk using lr k1(2,3) k2(2,3) k3(2,3) k4(2,3) cxy by simp
  moreover have "0 < y" using ex by (simp add: y_def)
  moreover have "clear_of etext y ?k4" using ex by (simp add: UART0_def VIRTIO0_def PLIC_def KERNBASE_def)
  moreover have "unat etext + 4096 * y \<le> 2 ^ 38" using ex by (simp add: y_def)
  ultimately obtain s5 u5 f5 where k5: "kvmmap p etext etext (of_nat y * PGSIZE) (PTE_R OR PTE_W) s4 = Ok s5"
    "f4 = u5 @ f5" "length u5 \<le> cost True (524288 + x) y" "kern s5 f5 p ((etext, y, etext, PTE_R OR PTE_W) # ?k4)"
    using kvmmap_ok [OF k4(4) e(1), where n = y and pa = etext and perm = "PTE_R OR PTE_W"] unfolding pk by metis
  let ?k5 = "(etext, y, etext, PTE_R OR PTE_W) # ?k4"
  have lens: "length rest = length u1 + length u2 + length u3 + length u4 + length u5 + length f5"
    using k1(2) k2(2) k3(2) k4(2) k5(2) by simp
  then have f5: "2 + 3 * nproc \<le> length f5" "length rest \<le> length f5 + 198"
    using lr k1(3) k2(3) k3(3) k4(3) k5(3) cxy by linarith+
  have "unat TRAMPOLINE div 4096 = 67108863" by (simp add: TRAMPOLINE_val)
  then have "cost True (unat TRAMPOLINE div 4096) 1 \<le> length f5" using f5 by (simp only: cost_1)
  moreover have "page_aligned TRAMPOLINE" "unat TRAMPOLINE + 4096 * 1 \<le> 2 ^ 38"
    by (simp_all add: TRAMPOLINE_val page_aligned_unat)
  moreover have "clear_of TRAMPOLINE 1 ?k5"
    using ex by (simp add: UART0_def VIRTIO0_def PLIC_def KERNBASE_def TRAMPOLINE_val y_def)
  ultimately obtain s6 u6 f6 where k6: "kvmmap p TRAMPOLINE trampoline (of_nat 1 * PGSIZE) (PTE_R OR PTE_X) s5 = Ok s6"
    "f5 = u6 @ f6" "length u6 \<le> 2" "kern s6 f6 p ((TRAMPOLINE, 1, trampoline, PTE_R OR PTE_X) # ?k5)"
    using kvmmap_ok [OF k5(4), where va = TRAMPOLINE and n = 1 and pa = trampoline and perm = "PTE_R OR PTE_X"]
    unfolding cost_1 by (metis zero_less_one)
  let ?k6 = "(TRAMPOLINE, 1, trampoline, PTE_R OR PTE_X) # ?k5"
  have cl: "\<forall>i \<in> set [0..<nproc]. i < 2 ^ 20 \<and> clear_of (KSTACK (of_nat i)) 1 ?k6"
  proof
    fix i assume "i \<in> set [0..<nproc]"
    then have i: "i < 2 ^ 20" using n(2) by simp
    have v: "unat (KSTACK (of_nat i)) + 4096 \<le> 274877902848" "2281701376 \<le> unat (KSTACK (of_nat i))"
      using i by (simp_all add: unat_KSTACK)
    show "i < 2 ^ 20 \<and> clear_of (KSTACK (of_nat i)) 1 ?k6"
      using i v ex by (simp add: UART0_def VIRTIO0_def PLIC_def KERNBASE_def TRAMPOLINE_val y_def)
  qed
  have "3 * length [0..<nproc] \<le> length f6" using f5 k6(2,3) by simp
  from mapstacks_ok [OF k6(4) _ cl this] obtain s' fl' stk where
    st: "proc_mapstacks_loop [0..<nproc] p s6 = Ok s'" "length stk = nproc" "distinct stk"
      "set stk \<subseteq> set f6 - set fl'" "length f6 \<le> length fl' + 3 * nproc"
      "kern s' fl' p (rev (stack_maps [0..<nproc] stk) @ ?k6)" by auto
  have "kvmmake nproc etext trampoline s = Ok (p, s')"
    using k1(1) k2(1) k3(1) k4(1) k5(1) k6(1) st(1)
    by (simp add: kvmmake_def ka s0 [symmetric] proc_mapstacks_def wx wy)
  moreover have "kern s' fl' p (kernel_maps nproc etext trampoline stk)"
    using st(6) unfolding kernel_maps_def xy .
  moreover have "set f6 \<subseteq> set fl" using fl k1(2) k2(2) k3(2) k4(2) k5(2) k6(2) by auto
  moreover have "length fl \<le> length fl' + 201 + 3 * nproc" using fl f5(2) k6(2,3) st(5) by simp
  ultimately show ?thesis using st(2-4) by blast
qed

text \<open>Permissions: no range is both writable and executable, and none is for the user.\<close>

lemma bit_PA2PTE: "k < 10 \<Longrightarrow> \<not> bit (PA2PTE pa) k"
  by (simp add: PA2PTE_def bit_simps)

lemma kpte_perms:
  "\<forall>(a, n, pa, perm) \<in> set ms. perm = PTE_R OR PTE_W \<or> perm = PTE_R OR PTE_X \<Longrightarrow>
   \<not> (bit (kpte ms va) 2 \<and> bit (kpte ms va) 3) \<and> \<not> bit (kpte ms va) 4"
  by (induction ms va rule: kpte.induct) (auto simp: bit_or_iff bit_pte_bits bit_PA2PTE)

lemma kernel_maps_perms:
  "(a, n, pa, perm) \<in> set (kernel_maps nproc etext trampoline stk) \<Longrightarrow>
   perm = PTE_R OR PTE_W \<or> perm = PTE_R OR PTE_X"
  by (auto simp: kernel_maps_def stack_maps_def)

text \<open>The page below each stack is not mapped.\<close>

lemma guard_clear:
  assumes i: "i < nproc" and n: "nproc \<le> 2 ^ 20" and e: "KERNBASE < etext" "etext < PHYSTOP"
  shows "kpte (kernel_maps nproc etext trampoline stk) (KSTACK (of_nat i) - PGSIZE) = 0"
proof -
  let ?g = "KSTACK (of_nat i) - PGSIZE"
  have u: "unat (KSTACK (of_nat i)) = 274877902848 - 8192 * Suc i" using i n by (intro unat_KSTACK) simp
  then have v: "unat ?g = 274877898752 - 8192 * Suc i" using i n by (simp add: unat_sub_if')
  have low: "2281701376 \<le> unat ?g" "unat ?g + 4096 \<le> 274877902848" using i n by (simp_all add: v)
  have et: "2147483648 < unat etext" "unat etext < 2281701376"
    using e by (simp_all add: word_less_nat_alt KERNBASE_def PHYSTOP_val)
  have st: "unat ?g + 4096 \<le> unat (KSTACK (of_nat j)) \<or> unat (KSTACK (of_nat j)) + 4096 \<le> unat ?g"
    if "j < nproc" for j
  proof -
    have "unat (KSTACK (of_nat j)) + 8192 * Suc j = 274877902848" using that n by (simp add: unat_KSTACK)
    moreover have "unat ?g + 8192 * Suc i = 274877898752" using i n by (simp add: v)
    moreover have "y + 4096 \<le> x \<or> x + 4096 \<le> y"
      if "x + 8192 * Suc j = 274877902848" "y + 8192 * Suc i = 274877898752" for x y
    proof (cases "i < j")
      case True
      then have "Suc i \<le> j" by simp
      then have "x + 4096 \<le> y" using that by simp
      then show ?thesis ..
    next
      case False
      then have "j \<le> i" by simp
      then have "y + 4096 \<le> x" using that by simp
      then show ?thesis ..
    qed
    ultimately show ?thesis by blast
  qed
  have "unat etext + 4096 * ((2281701376 - unat etext) div 4096) \<le> 2281701376"
    "2147483648 + 4096 * ((unat etext - 2147483648) div 4096) \<le> unat etext"
    using et mult_div_mod_eq [of 4096] by (metis le_add1 le_add_diff_inverse less_imp_le nat_add_left_cancel_le)+
  moreover have "clear_of ?g 1 (rev (stack_maps [0..<nproc] stk))"
    unfolding clear_of_def stack_maps_def
  proof (clarsimp dest!: set_zip_leftD)
    fix j assume "j < nproc" "\<not> unat (KSTACK (of_nat j)) + 4096 \<le> unat ?g"
    then show "unat ?g + 4096 \<le> unat (KSTACK (of_nat j))" using st by blast
  qed
  ultimately have "clear_of ?g 1 (kernel_maps nproc etext trampoline stk)"
    using low et
    by (simp add: kernel_maps_def clear_of_append UART0_def VIRTIO0_def PLIC_def KERNBASE_def layout_vals)
  moreover have "in_run ?g 1 ?g" by (simp add: in_run_def)
  ultimately show ?thesis by (rule kpte_clear)
qed

lemma free_page_count:
  assumes "set fl = {a. page_aligned a \<and> e \<le> a \<and> a < PHYSTOP}" "page_aligned b" "e \<le> b"
    "unat b + 4096 * n \<le> unat PHYSTOP"
  shows "n \<le> length fl"
proof -
  have ph: "unat PHYSTOP = 2281701376" by (simp add: PHYSTOP_val)
  have u: "unat (b + of_nat i * PGSIZE) = unat b + i * 4096" if "i < n" for i
    using that assms(4) ph by (simp add: unat_word_ariths unat_of_nat)
  let ?A = "(\<lambda>i. b + of_nat i * PGSIZE) ` {0..<n}"
  have "?A \<subseteq> set fl"
  proof
    fix a assume "a \<in> ?A"
    then obtain i where i: "i < n" "a = b + of_nat i * PGSIZE" by auto
    have "page_aligned a" using assms(2) u [OF i(1)] unfolding i(2) page_aligned_unat by simp
    then show "a \<in> set fl"
      using i u [OF i(1)] assms(3,4) unfolding assms(1) by (simp add: word_le_nat_alt word_less_nat_alt)
  qed
  moreover have "inj_on (\<lambda>i. b + of_nat i * PGSIZE) {0..<n}"
    by (rule inj_onI) (metis u atLeastLessThan_iff add_left_cancel mult_right_cancel zero_neq_numeral)
  then have "card ?A = n" by (simp add: card_image)
  ultimately have "n \<le> card (set fl)" by (metis card_mono List.finite_set)
  then show ?thesis using card_length [of fl] by simp
qed

text \<open>
  C8. Booting the kernel's memory. After \<open>kinit\<close>, with enough room above the kernel for the tables
  and the stacks, \<open>kvmmake\<close> does not panic. Its table maps the devices, the kernel text and data
  and RAM to themselves, the trampoline, and one fresh page for the stack of each process, and
  nothing else: no page is both writable and executable, none is for the user, and the page
  below each stack is not mapped.
\<close>

theorem kvmmake_maps_kernel:
  assumes "freelist s = 0" "kend s \<noteq> 0" "unat (PGROUNDUP (kend s)) + 4096 * (201 + 3 * nproc) \<le> unat PHYSTOP"
    and "kend s \<le> PHYSTOP" "nproc \<le> 2 ^ 20" "page_aligned etext" "KERNBASE < etext" "etext < PHYSTOP"
  shows "\<exists>s1 pt s2 stk. kinit s = Ok s1 \<and> kvmmake nproc etext trampoline s1 = Ok (pt, s2) \<and>
    length stk = nproc \<and> distinct stk \<and> (\<forall>a \<in> set stk. kend s \<le> a \<and> a < PHYSTOP) \<and>
    (\<forall>va < VATOP. pte_of s2 pt va = kpte (kernel_maps nproc etext trampoline stk) va \<and>
       \<not> (bit (pte_of s2 pt va) 2 \<and> bit (pte_of s2 pt va) 3) \<and> \<not> bit (pte_of s2 pt va) 4) \<and>
    (\<forall>i < nproc. pte_of s2 pt (KSTACK (of_nat i) - PGSIZE) = 0)"
proof -
  from kinit_spec [OF assms(1,2,4)] obtain s1 fl where k: "kinit s = Ok s1" "free_pages s1 fl"
    and fl: "set fl = {a. page_aligned a \<and> kend s \<le> a \<and> a < PHYSTOP}" by blast
  have "kend s \<le> - PGSIZE" using assms(4) by (simp add: PHYSTOP_val word_le_nat_alt)
  then have "kend s \<le> PGROUNDUP (kend s)" by (rule PGROUNDUP_least)
  from free_page_count [OF fl _ this assms(3)] have len: "201 + 3 * nproc \<le> length fl"
    by (simp add: PGROUNDUP_aligned)
  from kvmmake_spec [OF k(2) len assms(5-8)] obtain pt s2 fl' stk where
    km: "kvmmake nproc etext trampoline s1 = Ok (pt, s2)"
    and kn: "kern s2 fl' pt (kernel_maps nproc etext trampoline stk)"
    and st: "length stk = nproc" "distinct stk" "set stk \<subseteq> set fl - set fl'" by blast
  have pte: "pte_of s2 pt va = kpte (kernel_maps nproc etext trampoline stk) va" if "va < VATOP" for va
    using kn that by (simp add: kern_def)
  have "\<forall>(a, n, pa, perm) \<in> set (kernel_maps nproc etext trampoline stk).
      perm = PTE_R OR PTE_W \<or> perm = PTE_R OR PTE_X" using kernel_maps_perms by fast
  note perms = kpte_perms [OF this]
  have "pte_of s2 pt (KSTACK (of_nat i) - PGSIZE) = 0" if i: "i < nproc" for i
  proof -
    have i20: "i < 2 ^ 20" using i assms(5) by simp
    then have "8192 * i \<le> 8589934592" by simp
    then have "unat (KSTACK (of_nat i) - PGSIZE) < 2 ^ 39" using unat_KSTACK [OF i20]
      by (auto simp: unat_sub_if')
    then have "KSTACK (of_nat i) - PGSIZE < VATOP" by (simp add: word_less_nat_alt)
    then show ?thesis using pte guard_clear [OF i assms(5,7,8)] by simp
  qed
  then show ?thesis using k(1) km st pte perms fl by (intro exI conjI) auto
qed

theorem kvmmake_maps_kernel_witness:
  "\<exists>s1 pt s2. kinit (boot_phys 0x87000000) = Ok s1 \<and> kvmmake 64 0x80008000 0x80007000 s1 = Ok (pt, s2) \<and>
     pte_of s2 pt (KSTACK 3 - PGSIZE) = 0"
proof -
  have "kend (boot_phys 0x87000000) = 0x87000000" "freelist (boot_phys 0x87000000) = 0"
    by (simp_all add: boot_phys_def)
  moreover have "PGROUNDUP 0x87000000 = 0x87000000" by code_simp
  ultimately show ?thesis
    using kvmmake_maps_kernel [of "boot_phys 0x87000000" 64 "0x80008000" "0x80007000"]
    by (fastforce simp: PHYSTOP_val KERNBASE_def page_aligned_unat dest: spec [of _ "3 :: nat"])
qed

end
