(* ===== verification/Csr.thy ===== *)
theory Csr
  imports Kvm Proc
begin

text \<open>
  The registers of a hart, the inline assembly of \<open>riscv.h\<close>. Each control and status register is
  a cell of 64 bits that the instructions \<open>csrr\<close>, \<open>csrw\<close>, \<open>csrs\<close>, \<open>csrc\<close> and \<open>csrrc\<close> read
  and write; that some registers are views of others and some bits read-only is the hardware's and
  is not modelled. \<open>h_stale\<close> says that the TLB may hold translations of an old page table.
\<close>

section \<open>Instructions\<close>

datatype csr =
    CSR_mhartid | CSR_mstatus | CSR_mepc | CSR_sstatus | CSR_sip
  | CSR_sie | CSR_mie | CSR_sepc | CSR_medeleg | CSR_mideleg
  | CSR_stvec | CSR_stimecmp | CSR_menvcfg | CSR_pmpcfg0 | CSR_pmpaddr0
  | CSR_satp | CSR_scause | CSR_stval | CSR_mcounteren | CSR_time

record hart =
  h_csr :: "csr \<Rightarrow> u64"
  h_sp :: u64
  h_tp :: u64
  h_ra :: u64
  h_stale :: bool

definition csrr :: "csr \<Rightarrow> hart \<Rightarrow> u64" where
  "csrr c h = h_csr h c"

definition csrw :: "csr \<Rightarrow> u64 \<Rightarrow> hart \<Rightarrow> hart" where
  "csrw c x h = h\<lparr>h_csr := (h_csr h)(c := x)\<rparr>"

definition csrs :: "csr \<Rightarrow> u64 \<Rightarrow> hart \<Rightarrow> hart" where
  "csrs c x h = csrw c (csrr c h OR x) h"

definition csrc :: "csr \<Rightarrow> u64 \<Rightarrow> hart \<Rightarrow> hart" where
  "csrc c x h = csrw c (csrr c h AND NOT x) h"

definition csrrc :: "csr \<Rightarrow> u64 \<Rightarrow> hart \<Rightarrow> u64 \<times> hart" where
  "csrrc c x h = (csrr c h, csrc c x h)"

section \<open>Bits of the registers\<close>

definition MSTATUS_MPP_MASK :: u64 where "MSTATUS_MPP_MASK = push_bit 11 3"
definition MSTATUS_MPP_M :: u64 where "MSTATUS_MPP_M = push_bit 11 3"
definition MSTATUS_MPP_S :: u64 where "MSTATUS_MPP_S = push_bit 11 1"
definition MSTATUS_MPP_U :: u64 where "MSTATUS_MPP_U = push_bit 11 0"
definition SSTATUS_SPP :: u64 where "SSTATUS_SPP = push_bit 8 1"
definition SSTATUS_SPIE :: u64 where "SSTATUS_SPIE = push_bit 5 1"
definition SSTATUS_UPIE :: u64 where "SSTATUS_UPIE = push_bit 4 1"
definition SSTATUS_SIE :: u64 where "SSTATUS_SIE = push_bit 1 1"
definition SSTATUS_UIE :: u64 where "SSTATUS_UIE = push_bit 0 1"
definition SIE_SEIE :: u64 where "SIE_SEIE = push_bit 9 1"
definition SIE_STIE :: u64 where "SIE_STIE = push_bit 5 1"
definition MIE_STIE :: u64 where "MIE_STIE = push_bit 5 1"
definition MENVCFG_STCE :: u64 where "MENVCFG_STCE = push_bit 63 1"
definition MENVCFG_ADUE :: u64 where "MENVCFG_ADUE = push_bit 61 1"

section \<open>The accessors\<close>

definition r_mhartid :: "hart \<Rightarrow> u64" where
  "r_mhartid h = csrr CSR_mhartid h"

definition r_mstatus :: "hart \<Rightarrow> u64" where
  "r_mstatus h = csrr CSR_mstatus h"

definition w_mstatus :: "u64 \<Rightarrow> hart \<Rightarrow> hart" where
  "w_mstatus x h = csrw CSR_mstatus x h"

definition w_mepc :: "u64 \<Rightarrow> hart \<Rightarrow> hart" where
  "w_mepc x h = csrw CSR_mepc x h"

definition r_sstatus :: "hart \<Rightarrow> u64" where
  "r_sstatus h = csrr CSR_sstatus h"

definition w_sstatus :: "u64 \<Rightarrow> hart \<Rightarrow> hart" where
  "w_sstatus x h = csrw CSR_sstatus x h"

definition s_sstatus :: "u64 \<Rightarrow> hart \<Rightarrow> hart" where
  "s_sstatus x h = csrs CSR_sstatus x h"

definition c_sstatus :: "u64 \<Rightarrow> hart \<Rightarrow> hart" where
  "c_sstatus x h = csrc CSR_sstatus x h"

definition rc_sstatus :: "u64 \<Rightarrow> hart \<Rightarrow> u64 \<times> hart" where
  "rc_sstatus x h = csrrc CSR_sstatus x h"

definition r_sip :: "hart \<Rightarrow> u64" where
  "r_sip h = csrr CSR_sip h"

definition w_sip :: "u64 \<Rightarrow> hart \<Rightarrow> hart" where
  "w_sip x h = csrw CSR_sip x h"

definition r_sie :: "hart \<Rightarrow> u64" where
  "r_sie h = csrr CSR_sie h"

definition w_sie :: "u64 \<Rightarrow> hart \<Rightarrow> hart" where
  "w_sie x h = csrw CSR_sie x h"

definition r_mie :: "hart \<Rightarrow> u64" where
  "r_mie h = csrr CSR_mie h"

definition w_mie :: "u64 \<Rightarrow> hart \<Rightarrow> hart" where
  "w_mie x h = csrw CSR_mie x h"

definition w_sepc :: "u64 \<Rightarrow> hart \<Rightarrow> hart" where
  "w_sepc x h = csrw CSR_sepc x h"

definition r_sepc :: "hart \<Rightarrow> u64" where
  "r_sepc h = csrr CSR_sepc h"

definition r_medeleg :: "hart \<Rightarrow> u64" where
  "r_medeleg h = csrr CSR_medeleg h"

definition w_medeleg :: "u64 \<Rightarrow> hart \<Rightarrow> hart" where
  "w_medeleg x h = csrw CSR_medeleg x h"

definition r_mideleg :: "hart \<Rightarrow> u64" where
  "r_mideleg h = csrr CSR_mideleg h"

definition w_mideleg :: "u64 \<Rightarrow> hart \<Rightarrow> hart" where
  "w_mideleg x h = csrw CSR_mideleg x h"

definition w_stvec :: "u64 \<Rightarrow> hart \<Rightarrow> hart" where
  "w_stvec x h = csrw CSR_stvec x h"

definition r_stvec :: "hart \<Rightarrow> u64" where
  "r_stvec h = csrr CSR_stvec h"

definition r_stimecmp :: "hart \<Rightarrow> u64" where
  "r_stimecmp h = csrr CSR_stimecmp h"

definition w_stimecmp :: "u64 \<Rightarrow> hart \<Rightarrow> hart" where
  "w_stimecmp x h = csrw CSR_stimecmp x h"

definition r_menvcfg :: "hart \<Rightarrow> u64" where
  "r_menvcfg h = csrr CSR_menvcfg h"

definition w_menvcfg :: "u64 \<Rightarrow> hart \<Rightarrow> hart" where
  "w_menvcfg x h = csrw CSR_menvcfg x h"

definition w_pmpcfg0 :: "u64 \<Rightarrow> hart \<Rightarrow> hart" where
  "w_pmpcfg0 x h = csrw CSR_pmpcfg0 x h"

definition w_pmpaddr0 :: "u64 \<Rightarrow> hart \<Rightarrow> hart" where
  "w_pmpaddr0 x h = csrw CSR_pmpaddr0 x h"

definition w_satp :: "u64 \<Rightarrow> hart \<Rightarrow> hart" where
  "w_satp x h = (csrw CSR_satp x h)\<lparr>h_stale := True\<rparr>"

definition r_satp :: "hart \<Rightarrow> u64" where
  "r_satp h = csrr CSR_satp h"

definition r_scause :: "hart \<Rightarrow> u64" where
  "r_scause h = csrr CSR_scause h"

definition r_stval :: "hart \<Rightarrow> u64" where
  "r_stval h = csrr CSR_stval h"

definition w_mcounteren :: "u64 \<Rightarrow> hart \<Rightarrow> hart" where
  "w_mcounteren x h = csrw CSR_mcounteren x h"

definition r_mcounteren :: "hart \<Rightarrow> u64" where
  "r_mcounteren h = csrr CSR_mcounteren h"

definition r_time :: "hart \<Rightarrow> u64" where
  "r_time h = csrr CSR_time h"

definition intr_on :: "hart \<Rightarrow> hart" where
  "intr_on h = s_sstatus SSTATUS_SIE h"

definition intr_off :: "hart \<Rightarrow> hart" where
  "intr_off h = c_sstatus SSTATUS_SIE h"

definition intr_get :: "hart \<Rightarrow> i32" where
  "intr_get h = (let x = r_sstatus h in if x AND SSTATUS_SIE \<noteq> 0 then 1 else 0)"

definition r_sp :: "hart \<Rightarrow> u64" where
  "r_sp h = h_sp h"

definition r_tp :: "hart \<Rightarrow> u64" where
  "r_tp h = h_tp h"

definition w_tp :: "u64 \<Rightarrow> hart \<Rightarrow> hart" where
  "w_tp x h = h\<lparr>h_tp := x\<rparr>"

definition r_ra :: "hart \<Rightarrow> u64" where
  "r_ra h = h_ra h"

definition sfence_vma :: "hart \<Rightarrow> hart" where
  "sfence_vma h = h\<lparr>h_stale := False\<rparr>"

section \<open>The hart of the kernel\<close>

text \<open>\<open>kvminit\<close> stores the table in the global \<open>kernel_pagetable\<close>.\<close>

definition kvminit :: "nat \<Rightarrow> u64 \<Rightarrow> u64 \<Rightarrow> phys \<Rightarrow> (u64 \<times> phys) res" where
  "kvminit nproc etext trampoline s = kvmmake nproc etext trampoline s"

definition kvminithart :: "u64 \<Rightarrow> hart \<Rightarrow> hart" where
  "kvminithart kernel_pagetable h = sfence_vma (w_satp (MAKE_SATP kernel_pagetable) (sfence_vma h))"

text \<open>
  The hart number in \<open>tp\<close> selects the CPU and its process. \<open>push_off\<close> and \<open>pop_off\<close> are of
  \<open>spinlock.c\<close>, which is not in the repository.
\<close>

definition cpuid :: "hart \<Rightarrow> i32" where
  "cpuid h = ucast (r_tp h)"

definition mycpu :: "hart \<Rightarrow> i32" where
  "mycpu h = cpuid h"

definition myproc :: "(hart \<Rightarrow> hart) \<Rightarrow> (hart \<Rightarrow> hart) \<Rightarrow> (i32 \<Rightarrow> cpu) \<Rightarrow> hart \<Rightarrow> nat option \<times> hart" where
  "myproc push_off pop_off cpus h =
     (let h = push_off h; p = cpu_proc (cpus (mycpu h)) in (p, pop_off h))"

lemma csr_same [simp]: "csrr c (csrw c x h) = x"
  by (simp add: csrr_def csrw_def)

lemma csr_other [simp]: "c \<noteq> d \<Longrightarrow> csrr d (csrw c x h) = csrr d h"
  by (simp add: csrr_def csrw_def)

text \<open>\<open>intr_on\<close> and \<open>intr_off\<close> change one bit of one register, which \<open>intr_get\<close> reads.\<close>

lemma bit_SIE: "bit SSTATUS_SIE k \<longleftrightarrow> k = 1"
  by (auto simp: SSTATUS_SIE_def bit_simps)

lemma intr_get_bit: "intr_get h = (if bit (r_sstatus h) 1 then 1 else 0)"
proof -
  have "r_sstatus h AND SSTATUS_SIE = 0 \<longleftrightarrow> \<not> bit (r_sstatus h) 1"
    by (auto simp: bit_and_iff bit_SIE dest: arg_cong [where f = "\<lambda>x. bit x _"] intro!: bit_word_eqI)
  then show ?thesis by (simp add: intr_get_def Let_def)
qed

lemma intr_on_spec:
  "intr_get (intr_on h) = 1" "k \<noteq> 1 \<Longrightarrow> bit (r_sstatus (intr_on h)) k = bit (r_sstatus h) k"
  "c \<noteq> CSR_sstatus \<Longrightarrow> csrr c (intr_on h) = csrr c h"
  by (simp_all add: intr_get_bit intr_on_def s_sstatus_def csrs_def r_sstatus_def bit_or_iff bit_SIE)

lemma intr_off_spec:
  "intr_get (intr_off h) = 0" "k \<noteq> 1 \<Longrightarrow> bit (r_sstatus (intr_off h)) k = bit (r_sstatus h) k"
  "c \<noteq> CSR_sstatus \<Longrightarrow> csrr c (intr_off h) = csrr c h"
  by (auto simp: intr_get_bit intr_off_def c_sstatus_def csrc_def r_sstatus_def bit_and_iff bit_not_iff
    bit_SIE dest: bit_imp_le_length)

text \<open>The hardware's reading of \<open>satp\<close>: the mode and the page of the root table.\<close>

definition satp_mode :: "u64 \<Rightarrow> u64" where
  "satp_mode x = drop_bit 60 x"

definition satp_root :: "u64 \<Rightarrow> u64" where
  "satp_root x = push_bit 12 (take_bit 44 x)"

lemma satp_roundtrip:
  assumes "page_aligned pt" "pt < 2 ^ 56"
  shows "satp_mode (MAKE_SATP pt) = 8" "satp_root (MAKE_SATP pt) = pt"
proof -
  have b: "bit pt k \<Longrightarrow> k < 56" for k
  proof -
    assume "bit pt k"
    moreover have "pt AND mask 56 = pt" using assms(2) by (intro less_mask_eq) simp
    ultimately have "bit (pt AND mask 56) k" by simp
    then show "k < 56" by (simp add: bit_simps)
  qed
  have s: "bit SATP_SV39 k \<longleftrightarrow> k = 63" for k
  proof -
    have e: "SATP_SV39 = push_bit 63 1" by (simp add: SATP_SV39_def)
    show ?thesis unfolding e bit_push_bit_iff bit_1_iff by auto
  qed
  have "bit (8 :: u64) k \<longleftrightarrow> k = 3" for k
  proof -
    have "(8 :: u64) = push_bit 3 1" by simp
    then show ?thesis by (auto simp only: bit_push_bit_iff bit_1_iff) simp_all
  qed
  then show "satp_mode (MAKE_SATP pt) = 8"
    by (intro bit_word_eqI) (auto simp: satp_mode_def MAKE_SATP_def bit_simps s dest: b)
  have "PGROUNDDOWN pt = pt" using assms(1) by (simp add: PGROUNDDOWN_id)
  then have low: "bit pt k \<Longrightarrow> 12 \<le> k" for k
    by (metis PGROUNDDOWN_mask bit_and_iff bit_mask_iff bit_not_iff not_le bit_imp_le_length)
  show "satp_root (MAKE_SATP pt) = pt"
    by (intro bit_word_eqI) (auto simp: satp_root_def MAKE_SATP_def bit_simps s le_add_diff_inverse [OF low] dest: b low)
qed

lemma kvminithart_spec:
  "csrr CSR_satp (kvminithart pt h) = MAKE_SATP pt" "\<not> h_stale (kvminithart pt h)"
  "c \<noteq> CSR_satp \<Longrightarrow> csrr c (kvminithart pt h) = csrr c h"
  by (auto simp: kvminithart_def sfence_vma_def w_satp_def csrr_def csrw_def)

end
