(* ===== verification/Trapframe.thy ===== *)
theory Trapframe
  imports Proc_Ops
begin

text \<open>
  The trapframe of \<open>proc.h\<close> as a structure: its 36 registers in their order, eight bytes each,
  in the memory of its page. The offsets that the kernel model uses are those of the fields.
\<close>

datatype tf_field =
    Kernel_satp | Kernel_sp | Kernel_trap | Epc | Kernel_hartid
  | Ra | Sp | Gp | Tp | T0 | T1 | T2 | S0 | S1
  | A0 | A1 | A2 | A3 | A4 | A5 | A6 | A7
  | S2 | S3 | S4 | S5 | S6 | S7 | S8 | S9 | S10 | S11
  | T3 | T4 | T5 | T6

definition tf_fields :: "tf_field list" where
  "tf_fields =
     [Kernel_satp, Kernel_sp, Kernel_trap, Epc, Kernel_hartid,
      Ra, Sp, Gp, Tp, T0, T1, T2, S0, S1,
      A0, A1, A2, A3, A4, A5, A6, A7,
      S2, S3, S4, S5, S6, S7, S8, S9, S10, S11,
      T3, T4, T5, T6]"

fun index_of :: "'a \<Rightarrow> 'a list \<Rightarrow> nat" where
  "index_of x [] = 0"
| "index_of x (y # ys) = (if x = y then 0 else Suc (index_of x ys))"

definition tf_offset :: "tf_field \<Rightarrow> u64" where
  "tf_offset f = 8 * of_nat (index_of f tf_fields)"

definition trapframe :: "mem \<Rightarrow> u64 \<Rightarrow> tf_field \<Rightarrow> u64" where
  "trapframe m tf f = load64 m (tf + tf_offset f)"

definition set_trapframe :: "mem \<Rightarrow> u64 \<Rightarrow> tf_field \<Rightarrow> u64 \<Rightarrow> mem" where
  "set_trapframe m tf f v = store64 m (tf + tf_offset f) v"

lemma tf_fields_all: "f \<in> set tf_fields" "distinct tf_fields" "length tf_fields = 36"
  by (cases f; simp add: tf_fields_def) (simp_all add: tf_fields_def)

lemma index_of_less: "x \<in> set xs \<Longrightarrow> index_of x xs < length xs \<and> xs ! index_of x xs = x"
  by (induction xs) auto

lemma tf_index: "index_of f tf_fields < 36"
  using index_of_less [OF tf_fields_all(1)] tf_fields_all(3) by simp

lemma tf_index_inj: "index_of f tf_fields = index_of g tf_fields \<Longrightarrow> f = g"
  using index_of_less [OF tf_fields_all(1)] by metis

lemma tf_offsets:
  "tf_offset A0 = TF_A0" "tf_offset A7 = 168" "of_nat (8 * length tf_fields) = TF_SIZE"
  by (simp_all add: tf_offset_def tf_fields_def)

lemma unat_tf_offset: "unat (tf_offset f) = 8 * index_of f tf_fields"
  using tf_index [of f] by (simp add: tf_offset_def unat_word_ariths unat_of_nat)

text \<open>The bytes of one field are not those of another.\<close>

lemma tf_apart:
  assumes "f \<noteq> g" "i < 8"
  shows "\<not> tf_offset f + of_nat i - tf_offset g < 8"
proof
  assume l: "tf_offset f + of_nat i - tf_offset g < 8"
  define d where "d = tf_offset f + of_nat i - tf_offset g"
  have "tf_offset f + of_nat i = d + tf_offset g" by (simp add: d_def)
  then have "unat (tf_offset f + of_nat i) = unat (d + tf_offset g)" by simp
  moreover have "unat d < 8" using l by (simp add: d_def word_less_nat_alt)
  ultimately have "8 * index_of f tf_fields + i = unat d + 8 * index_of g tf_fields"
    using assms(2) tf_index [of f] tf_index [of g] by (simp add: unat_word_ariths unat_tf_offset unat_of_nat)
  then have "index_of f tf_fields = index_of g tf_fields" using assms(2) \<open>unat d < 8\<close> by presburger
  then show False using tf_index_inj assms(1) by blast
qed

lemma load64_bytes:
  assumes "\<And>i. i < 8 \<Longrightarrow> m (a + of_nat i) = m' (b + of_nat i)"
  shows "load64 m a = load64 m' b"
proof (rule bit_word_eqI)
  fix n assume n: "n < LENGTH(64)"
  define q r where "q = n div 8" and "r = n mod 8"
  have "n = 8 * q + r" "q < 8" "r < 8" using n by (auto simp: q_def r_def)
  then show "bit (load64 m a) n = bit (load64 m' b) n" using assms [of q] by (simp add: bit_load64)
qed

lemma set_trapframe_get:
  "trapframe (set_trapframe m tf f v) tf g = (if g = f then v else trapframe m tf g)"
proof (cases "g = f")
  case False
  have "store64 m (tf + tf_offset f) v (tf + tf_offset g + of_nat i) = m (tf + tf_offset g + of_nat i)"
    if "i < 8" for i
    using tf_apart [OF False that] by (simp add: store64_def algebra_simps)
  then have "load64 (store64 m (tf + tf_offset f) v) (tf + tf_offset g) = load64 m (tf + tf_offset g)"
    by (rule load64_bytes)
  then show ?thesis using False by (simp add: trapframe_def set_trapframe_def)
qed (simp add: trapframe_def set_trapframe_def load64_store64)

text \<open>What \<open>kfork\<close> gives the child: every register of the parent but \<open>a0\<close>, which is 0.\<close>

lemma child_frame_fields:
  "child_frame m tfp m' tfc \<Longrightarrow> trapframe m' tfc f = (if f = A0 then 0 else trapframe m tfp f)"
proof (cases "f = A0")
  case False
  assume c: "child_frame m tfp m' tfc"
  have "m' (tfc + tf_offset f + of_nat i) = m (tfp + tf_offset f + of_nat i)" if i: "i < 8" for i
  proof -
    have "unat (tf_offset f + of_nat i) < 288"
      using i tf_index [of f] by (simp add: unat_word_ariths unat_tf_offset unat_of_nat)
    then have "tf_offset f + of_nat i < TF_SIZE" by (simp add: word_less_nat_alt)
    moreover have "\<not> tf_offset f + of_nat i - TF_A0 < 8" using tf_apart [OF False i] tf_offsets(1) by simp
    ultimately have "m' (tfc + (tf_offset f + of_nat i)) = m (tfp + (tf_offset f + of_nat i))"
      using c unfolding child_frame_def by blast
    then show ?thesis by (simp only: add.assoc)
  qed
  then have "load64 m' (tfc + tf_offset f) = load64 m (tfp + tf_offset f)" by (rule load64_bytes)
  then show ?thesis using False by (simp add: trapframe_def)
qed (simp add: child_frame_def trapframe_def tf_offsets)

end
