(* ===== verification/Spec2Isabelle.thy ===== *)
theory Spec2Isabelle
  imports User_Props Kernel2_Props Csr Trapframe
begin

text \<open>
  A verification library for three course projects on the xv6 kernel for RISC-V: a shell
  (\<open>Proyecto1/user\<close>), the system calls \<open>trace\<close> and \<open>sysinfo\<close> (\<open>Proyecto2\<close>), and page tables with a
  page shared between kernel and user and the call \<open>pgaccess\<close> (\<open>Proyecto3\<close>). The repository holds
  the files that the projects changed, not the whole kernel.

  \<^bold>\<open>The program.\<close> The allocator (\<open>Proyecto2/kernel/kalloc.c\<close>) hands out pages from a free list that
  is threaded through the free pages. The routines of \<open>Proyecto3/kernel/vm.c\<close> build Sv39 page
  tables in those pages, map and unmap the memory of the processes, and copy between kernel and
  user, bringing in lazily allocated pages on the way. The process layer
  (\<open>Proyecto3/kernel/proc.c\<close>) owns an address space per process, creates processes by \<open>fork\<close>, and
  reaps them by \<open>exit\<close> and \<open>wait\<close>. The system call layer (\<open>syscall.c\<close>, \<open>sysproc.c\<close>) fetches the
  arguments from the trapframe and from user memory, calls the process layer, and stores the
  result in \<open>a0\<close>. User programs reach the kernel only through these calls: the library
  (\<open>Proyecto3/user/ulib.c\<close>), the shell, and the programs \<open>trace\<close> and \<open>sysinfo\<close>.

  \<^bold>\<open>State.\<close> Memory is a byte per 64-bit address, and everything the C code keeps in memory, free
  list, page tables, trapframes and user pages, is kept in these bytes; \<open>phys\<close> is that memory with
  the head of the free list and the address where the kernel ends. The process table is a list of
  records \<open>proc\<close> in \<open>kst\<close>, with the CPUs, the next pid, the clock, the state of the file layer and what was printed.
  Machine integers are words of their width (\<open>u64\<close>, \<open>i32\<close>, \<open>u8\<close>), read as signed by \<open>sint\<close>. A
  routine that may stop the machine returns \<open>'a res\<close>, with the message of \<open>panic\<close>; one that may
  also run forever returns \<open>'a run\<close>, in which \<open>None\<close> stands for not returning.
\<close>

section \<open>The theories\<close>

text \<open>
  \<^item> \<open>Osc_Prelude\<close>: words, aligned regions, the result type and its collection \<open>res_simps\<close>.
  \<^item> \<open>Riscv\<close>: the page-table macros of \<open>riscv.h\<close> and the addresses of \<open>memlayout.h\<close>; \<open>Csr\<close>: the
    register accessors of \<open>riscv.h\<close> over a record of cells, interrupts on and off, and
    \<open>kvminithart\<close>; \<open>Trapframe\<close>: the structure \<open>trapframe\<close> of \<open>proc.h\<close> field by field.
  \<^item> \<open>Phys_Mem\<close>: byte memory, 32- and 64-bit accesses, \<open>memset\<close> and \<open>memmove\<close>.
  \<^item> \<open>Kalloc\<close>: \<open>kinit\<close>, \<open>freerange\<close>, \<open>kfree\<close>, \<open>kalloc\<close> and \<open>get_free_memory\<close>. The locale
    \<open>page_alloc\<close> is the contract of an allocator; \<open>ka\<close> interprets it on the code, and the page-table
    lemmas use only its facts.
  \<^item> \<open>Page_Table\<close>, \<open>User_Vm\<close>: the definitions of \<open>vm.c\<close>, in its order. \<open>Pt_Refine\<close> (locale
    \<open>table_pages\<close>, interpretation \<open>tp\<close>), \<open>Pt_Map\<close>, \<open>Pt_Unmap\<close>: they implement operations on the
    abstract map \<open>pte_of\<close> from virtual addresses to entries. \<open>Vm_Space\<close>: the invariant \<open>uspace\<close> of a user
    address space and the set \<open>account\<close> of the pages it holds or may take, which every
    operation keeps, so that no page is lost. \<open>Vm_Free\<close> (\<open>freewalk\<close>), \<open>Vm_Sizes\<close> (\<open>uvmalloc\<close>,
    \<open>uvmdealloc\<close>), \<open>Vm_Copy\<close> (\<open>vmfault\<close>, \<open>copyout\<close>, \<open>copyin\<close>, \<open>copyinstr\<close> over an abstract user memory in
    which lazy pages read as zero), \<open>Vm_Fork\<close> (\<open>uvmcopy\<close>), \<open>Vm_Print\<close> (\<open>vmprint\<close>), \<open>Kvm\<close> (\<open>kvmmake\<close>,
    \<open>proc_mapstacks\<close>); \<open>Vm_Props\<close>: the properties of this component.
  \<^item> \<open>Proc\<close>: the definitions of \<open>proc.c\<close>. \<open>Proc_Mem\<close> (\<open>proc_pagetable\<close>, \<open>proc_freepagetable\<close>),
    \<open>Proc_Inv\<close> (the invariant \<open>mem_inv\<close>: each slot is idle or owns a space apart from all others),
    \<open>Proc_Life\<close> (\<open>allocproc\<close>, \<open>freeproc\<close>), \<open>Proc_Ops\<close> (\<open>growproc\<close>, \<open>kfork\<close>), \<open>Proc_Copy\<close> (\<open>either_copyin\<close>,
    \<open>either_copyout\<close>), \<open>Proc_Wait\<close> (\<open>kexit\<close>, \<open>kwait\<close>, \<open>kkill\<close> and the process tree), \<open>Proc_Boot\<close>
    (\<open>userinit\<close>); \<open>Proc_Props\<close>: the properties.
  \<^item> \<open>Syscall\<close>: the definitions of \<open>syscall.c\<close> and \<open>sysproc.c\<close>. \<open>Pgaccess\<close>: \<open>sys_pgaccess\<close>. \<open>Sys_Safe\<close>:
    the locale \<open>kernel_call\<close>, what the dispatcher relies on in a handler, interpreted on every
    handler of \<open>sysproc.c\<close>; \<open>Sys_Props\<close>: the properties.
  \<^item> \<open>Mem_Steps\<close>: what happens to the memory of a process while it runs (faults, copies, \<open>pgaccess\<close>,
    stores of the program, accessed bits). \<open>Fork_Steps\<close>: the three critical sections of \<open>kfork\<close>.
    \<open>Kernel_Steps\<close>: the transition system \<open>kstep\<close> over the record \<open>machine\<close> (the kernel, the forks
    that are under way, the pages of the file layer) and \<open>reachable\<close>. \<open>Kernel_Inv\<close>: every step keeps
    its invariant \<open>minv\<close>. \<open>Step_Props\<close>: what holds in every reachable state.
  \<^item> \<open>Kernel2\<close>: the process layer of \<open>Proyecto2/kernel\<close> (names with \<open>_p2\<close>), \<open>Trace_Sysinfo\<close>: its calls
    \<open>trace\<close> and \<open>sysinfo\<close> and its tracing dispatcher. \<open>Kernel2_Inv\<close>: the locale \<open>memory_layer\<close>, the laws
    of the memory routines on which that layer relies, interpreted on the \<open>vm.c\<close> of \<open>Proyecto3\<close>,
    and the transition system \<open>kstep2\<close> with \<open>reachable2\<close>. \<open>User_Progs\<close>: \<open>Proyecto2/user/trace.c\<close> and
    \<open>sysinfo.c\<close> as trees of calls, run on that kernel; \<open>Kernel2_Props\<close>: the properties.
  \<^item> \<open>Ulib\<close>: \<open>Proyecto3/user/ulib.c\<close>. \<open>Shell_Parser\<close>: \<open>parser.c\<close>. \<open>Shell_Exec\<close>: \<open>commands.c\<close> as trees
    of system calls, and \<open>sh.c\<close>. \<open>Shell_Fds\<close>: what those calls do to the descriptors. \<open>User_Props\<close>:
    the properties of the library and of the shell. The shell in \<open>Proyecto2/user\<close> is the same text.
\<close>

section \<open>What the lemmas show\<close>

text \<open>
  \<^item> Memory: \<open>kalloc\<close> and \<open>kfree\<close> keep the free list free of repetitions and of pages in use.
    Mapping, unmapping, growing, shrinking, copying and freeing act on the abstract map and the abstract user
    memory as they should, on every branch; each failure gives back what it took, and the
    recursion of \<open>freewalk\<close> ends. The page table of the kernel is what \<open>kvmmake\<close> means to build,
    with no page both writable and executable.
  \<^item> Processes: \<open>fork\<close>, \<open>exit\<close>, \<open>wait\<close>, \<open>kill\<close>, \<open>growproc\<close>, \<open>allocproc\<close> and \<open>freeproc\<close> are described on
    every branch. Any interleaving of the steps of \<open>kstep\<close> keeps the processes apart and the
    tree rooted at \<open>initproc\<close>, loses no page and no wakeup of a waiting parent.
  \<^item> System calls: any number except those of \<open>sysfile.c\<close>, with any arguments, returns, exits or
    waits without a panic and keeps those invariants, \<open>exit\<close> of the first process excepted, which
    panics. For each number that is given a meaning here, what the calling process finds in \<open>a0\<close> and
    what the call did are stated end to end, from the registers. \<open>ugetpid\<close> reads the pid from the
    shared page in every reachable state. For \<open>Proyecto2\<close>: tracing stays with the process that asked for it,
    the dispatcher reports exactly the traced calls, and what the two programs print is computed
    end to end.
  \<^item> Shell: \<open>parseline\<close> ends on every line and returns pointers into it; \<open>execline\<close> makes the system
    calls of the pipeline that the line means, connected as it should be; the main loop ends with
    its input. Library: strings and moves, also for overlapping ranges.
  \<^item> Where the code does not do what it means to do, the property states what it does: the
    store past the end of \<open>argv\<close>, the name of a redirection that runs over a second redirection, \<open>kkill(0)\<close> in
    \<open>Proyecto2\<close>, and \<open>growproc\<close> with a decrement larger than the process.
\<close>

section \<open>Bounds and fuel\<close>

text \<open>
  \<^item> The recursion of \<open>execline\<close> has a fuel argument. Each level consumes one bar of the line, and
    any fuel above the number of bars is enough. The loop of \<open>sh_main\<close> has a
    number of rounds; each round reads at least one byte or ends the loop, so any number above
    a measure of the remaining input is enough, and the property says so. Rounds have buffers
    of at least 100 bytes, as in \<open>sh.c\<close>.
  \<^item> The loops over NUL-terminated strings, \<open>get_free_memory\<close> and \<open>freewalk\<close> are partial functions, for which
    not ending is the value \<open>None\<close>; the properties prove that they end, on terminated strings,
    on the free lists of the invariant and on trees.
  \<^item> Memory needed: \<open>kvmmake\<close> for \<open>NPROC\<close> processes succeeds with 201 + 3 * \<open>NPROC\<close> free pages, \<open>fork\<close>
    with 9 pages and 3 for each page of the parent, \<open>mappages\<close> with two for each page mapped; below that they
    may fail, and the properties say what is then left.
\<close>

section \<open>Modelling decisions and parameters\<close>

text \<open>
  \<^item> Locks: \<open>spinlock.c\<close> is not in the repository. A lock makes what it protects one step: \<open>kmem.lock\<close>
    a call of the allocator, \<open>p->lock\<close> and \<open>wait_lock\<close> a critical section of \<open>proc.c\<close>. \<open>sched\<close> has its checks;
    the switch itself (\<open>swtch.S\<close>) is the end of a run.
  \<^item> \<open>myproc()\<close> is the argument that names the calling process, and \<open>exit\<close> and a wait that sleeps
    are outcomes of a call and not values.
  \<^item> The file layer (\<open>sysfile.c\<close>, \<open>file.c\<close>, \<open>fs.c\<close>) is the record \<open>fsops\<close> and the call
    \<open>e_file_call\<close>, over a state of any type, and nothing is assumed of it: the properties of the
    dispatcher leave out its numbers. It shares the allocator (the buffers of pipes), and \<open>kstep\<close> lets it
    take, write and return pages at any time; the descriptions of single operations (\<open>kexit\<close>, which closes
    files) do not count those pages. For the shell its descriptor operations have the documented law that
    a new descriptor is the lowest free one; for the programs of \<open>Proyecto2\<close>, \<open>write\<close> returns and
    leaves the memory of the kernel, the fields of \<open>trace\<close> and the program's own data as they were.
  \<^item> \<open>string.c\<close>: \<open>memset\<close>, \<open>memmove\<close>, \<open>strncmp\<close> and \<open>safestrcpy\<close> have their documented
    behaviour. \<open>printk\<close> adds to a list of printed items. In \<open>trace.c\<close> and \<open>sysinfo.c\<close>, \<open>printf\<close> and
    \<open>fprintf\<close> (\<open>printf.c\<close> is not in the repository) are sequences of \<open>write\<close> calls through the same
    dispatcher; how a text is cut into calls is a parameter.
  \<^item> \<open>vm.c\<close> of \<open>Proyecto2\<close> is the record \<open>vmops\<close>. Routines of its \<open>proc.c\<close> with the text of
    \<open>Proyecto3\<close> are the definitions of \<open>Proc\<close>, lifted over the new field by \<open>same_field\<close>.
  \<^item> \<open>NPROC\<close> and \<open>NOFILE\<close> are the lengths of the process table and of the descriptor
    table (\<open>param.h\<close> is absent), and the symbols of the linker, \<open>etext\<close>, \<open>end\<close> and \<open>trampoline\<close>, are arguments.
\<close>

section \<open>Not modelled\<close>

text \<open>
  \<^item> The path into the kernel (\<open>trampoline.S\<close>, \<open>trap.c\<close>): not in the repository. The dispatcher starts
    from a trapframe already filled.
  \<^item> Prototypes (\<open>defs.h\<close>, \<open>user.h\<close>, \<open>commands.h\<close>), the script \<open>usys.pl\<close> that prints one call stub per
    line, build files and recorded test output: no program logic.
  \<^item> Of \<open>riscv.h\<close>: the effect of the fences, the TLB beyond the flag that it may be stale, and the bits
    of a control register that are read-only or shared with another register.
  \<^item> \<open>exec\<close> (\<open>exec.c\<close> is not in the repository): no step of \<open>kstep\<close> replaces the image of a process.
  \<^item> The dirty bit, which the hardware sets beside the accessed bit; nothing in the sources reads it.
  \<^item> In \<open>scheduler\<close>: \<open>intr_on\<close> and \<open>intr_off\<close> and the first assignment to \<open>c->proc\<close>. In \<open>sh.c\<close>: the prompt
    and what it prints at its start and end.
  \<^item> The order of memory accesses by other harts inside a critical section, and starvation. \<open>kexit\<close>, with
    its closing of files, and an operation on the memory of one process are one step of \<open>kstep\<close> each;
    in \<open>kstep2\<close>, the system of \<open>Proyecto2\<close>, which speaks of no state between the sections, \<open>fork\<close> is one step.
\<close>

end
